(* ===== verification/Prelude.thy ===== *)
theory Prelude
  imports Main "HOL-Library.List_Lexorder" "HOL-Library.Char_ord" "HOL-Library.Product_Lexorder"
begin

text \<open>
  Shared vocabulary of the development.

  Go code signals failure in two ways, a returned \<open>error\<close> and a \<open>panic\<close>; both are values
  of \<open>gerr\<close> here, named after the error constructor or the panic message of the source, and
  a fallible operation returns \<open>'a res\<close>.  \<open>rbind\<close> is Go's \<open>if err != nil { return err }\<close>
  (and the propagation of a panic), \<open>rfold\<close> a loop whose body may leave with an error.

  The second part is the arithmetic of Go's \<open>math/big\<close>: quotient and remainder truncate
  towards zero and \<open>bit_len\<close> is \<open>BitLen\<close> of the absolute value.
\<close>

section \<open>Fallible computations\<close>

datatype gerr = Panic string | Err string

type_synonym 'a res = "gerr + 'a"

text \<open>Byte strings: addresses, denominations and store keys, ordered as Go's \<open>bytes.Compare\<close>.\<close>

type_synonym bytes = string

definition rbind :: "'a res \<Rightarrow> ('a \<Rightarrow> 'b res) \<Rightarrow> 'b res" where
  "rbind m f = (case m of Inl e \<Rightarrow> Inl e | Inr x \<Rightarrow> f x)"

definition rmap :: "('a \<Rightarrow> 'b) \<Rightarrow> 'a res \<Rightarrow> 'b res" where
  "rmap f m = rbind m (\<lambda>x. Inr (f x))"

primrec rfold :: "('a \<Rightarrow> 's \<Rightarrow> 's res) \<Rightarrow> 'a list \<Rightarrow> 's \<Rightarrow> 's res" where
  "rfold f [] s = Inr s"
| "rfold f (x # xs) s = rbind (f x s) (rfold f xs)"

text \<open>A check that leaves with an error.\<close>

definition require :: "bool \<Rightarrow> gerr \<Rightarrow> unit res" where
  "require b e = (if b then Inr () else Inl e)"

text \<open>Facts that invert a successful run of a fallible operation.\<close>

named_theorems res_dest

text \<open>Unfolding rules of the arithmetic layer.\<close>

named_theorems arith_defs

lemma rbind_simps [simp]:
  "rbind (Inl e) f = Inl e" "rbind (Inr x) f = f x"
  by (simp_all add: rbind_def)

lemma rbind_cong [fundef_cong]:
  assumes "m = n" and "\<And>x. n = Inr x \<Longrightarrow> f x = g x"
  shows "rbind m f = rbind n g"
  using assms by (cases n) auto

lemma rbind_eq_Inr [simp]: "rbind m f = Inr y \<longleftrightarrow> (\<exists>x. m = Inr x \<and> f x = Inr y)"
  by (cases m) auto

lemma Inr_eq_rbind [simp]: "Inr y = rbind m f \<longleftrightarrow> (\<exists>x. m = Inr x \<and> f x = Inr y)"
  by (cases m) auto

lemma rbind_eq_Inl: "rbind m f = Inl e \<longleftrightarrow> m = Inl e \<or> (\<exists>x. m = Inr x \<and> f x = Inl e)"
  by (cases m) auto

lemma rbind_assoc: "rbind (rbind m f) g = rbind m (\<lambda>x. rbind (f x) g)"
  by (cases m) simp_all

lemma rmap_eq_Inr [simp]: "rmap f m = Inr y \<longleftrightarrow> (\<exists>x. m = Inr x \<and> f x = y)"
  by (auto simp: rmap_def)

lemma rmap_simps [simp]: "rmap f (Inl e) = Inl e" "rmap f (Inr x) = Inr (f x)"
  by (simp_all add: rmap_def)

lemma require_eq_Inr [simp]: "require b e = Inr u \<longleftrightarrow> b"
  by (simp add: require_def)

lemma require_simps [simp]: "require True e = Inr ()" "require False e = Inl e"
  by (simp_all add: require_def)

text \<open>What a loop keeps if its body keeps it.\<close>

lemma rfold_invariant:
  assumes "rfold f xs s = Inr s'" and "P s"
    and "\<And>x t t'. x \<in> set xs \<Longrightarrow> P t \<Longrightarrow> f x t = Inr t' \<Longrightarrow> P t'"
  shows "P s'"
  using assms by (induction xs arbitrary: s) auto

lemma rfold_append:
  "rfold f (xs @ ys) s = rbind (rfold f xs s) (rfold f ys)"
proof (induction xs arbitrary: s)
  case Nil
  show ?case by simp
next
  case (Cons x xs)
  then show ?case by (cases "f x s") auto
qed

section \<open>Lists sorted by a key\<close>

lemma sorted_wrt_map_fst_filter:
  "sorted_wrt R (map f xs) \<Longrightarrow> sorted_wrt R (map f (filter P xs))"
  by (induction xs) auto

lemma sum_list_filter_zero:
  fixes f :: "'a \<Rightarrow> 'b::comm_monoid_add"
  assumes "\<And>x. x \<in> set xs \<Longrightarrow> \<not> P x \<Longrightarrow> f x = 0"
  shows "sum_list (map f (filter P xs)) = sum_list (map f xs)"
  using assms by (induction xs) auto

section \<open>Arithmetic of math/big\<close>

definition big_quo :: "int \<Rightarrow> int \<Rightarrow> int" where
  "big_quo a b = sgn a * sgn b * (\<bar>a\<bar> div \<bar>b\<bar>)"

definition big_rem :: "int \<Rightarrow> int \<Rightarrow> int" where
  "big_rem a b = a - b * big_quo a b"

function bit_len :: "int \<Rightarrow> nat" where
  "bit_len x = (if x = 0 then 0 else Suc (bit_len (\<bar>x\<bar> div 2)))"
  by pat_completeness auto
termination
  by (relation "measure (\<lambda>x. nat \<bar>x\<bar>)") auto

declare bit_len.simps [simp del]

lemma big_quo_nonneg: "0 \<le> a \<Longrightarrow> 0 < b \<Longrightarrow> big_quo a b = a div b"
  by (cases "a = 0") (simp_all add: big_quo_def)

lemma big_rem_nonneg: "0 \<le> a \<Longrightarrow> 0 < b \<Longrightarrow> big_rem a b = a mod b"
  by (simp add: big_rem_def big_quo_nonneg minus_mult_div_eq_mod)

lemma big_quo_minus_left [simp]: "big_quo (- a) b = - big_quo a b"
  by (simp add: big_quo_def sgn_minus)

lemma big_quo_0 [simp]: "big_quo 0 b = 0"
  by (simp add: big_quo_def)

lemma big_quo_mult_self: "b \<noteq> 0 \<Longrightarrow> big_quo (a * b) b = a"
proof -
  assume b: "b \<noteq> 0"
  have "big_quo (a * b) b = sgn a * (sgn b * sgn b) * \<bar>a\<bar>"
    using b by (simp add: big_quo_def abs_mult sgn_mult mult.assoc mult.left_commute)
  also have "\<dots> = a"
    using b by (simp add: sgn_mult_abs)
  finally show ?thesis .
qed

lemma bit_len_le_iff: "bit_len x \<le> k \<longleftrightarrow> \<bar>x\<bar> < 2 ^ k"
proof (induction x arbitrary: k rule: bit_len.induct)
  case (1 x)
  show ?case
  proof (cases "x = 0")
    case True
    then show ?thesis by (simp add: bit_len.simps)
  next
    case False
    show ?thesis
    proof (cases k)
      case 0
      with False show ?thesis by (simp add: bit_len.simps [of x])
    next
      case (Suc j)
      have "bit_len x \<le> k \<longleftrightarrow> bit_len (\<bar>x\<bar> div 2) \<le> j"
        using False Suc by (simp add: bit_len.simps [of x])
      also have "\<dots> \<longleftrightarrow> \<bar>x\<bar> div 2 < 2 ^ j"
        using "1.IH" [OF False, of j] by simp
      also have "\<dots> \<longleftrightarrow> \<bar>x\<bar> < 2 ^ k"
        using Suc by auto
      finally show ?thesis .
    qed
  qed
qed

lemma bit_len_minus [simp]: "bit_len (- x) = bit_len x"
  by (simp add: bit_len.simps [of x] bit_len.simps [of "- x"])

section \<open>Strings and decimal numerals\<close>

text \<open>\<open>strings.Split\<close> with a one-byte separator.\<close>

fun split_on :: "char \<Rightarrow> string \<Rightarrow> string list" where
  "split_on c [] = [[]]"
| "split_on c (x # xs) =
     (if x = c then [] # split_on c xs
      else case split_on c xs of [] \<Rightarrow> [[x]] | w # ws \<Rightarrow> (x # w) # ws)"

definition digit_char :: "int \<Rightarrow> char" where
  "digit_char d = char_of (48 + nat d)"

definition char_digit :: "char \<Rightarrow> int" where
  "char_digit c = int (of_char c) - 48"

definition is_digit :: "char \<Rightarrow> bool" where
  "is_digit c \<longleftrightarrow> 0 \<le> char_digit c \<and> char_digit c \<le> 9"

text \<open>\<open>big.Int.MarshalText\<close> of a non-negative number.\<close>

function int_digits :: "int \<Rightarrow> string" where
  "int_digits n = (if n < 10 then [digit_char n] else int_digits (n div 10) @ [digit_char (n mod 10)])"
  by pat_completeness auto
termination
  by (relation "measure nat") auto

declare int_digits.simps [simp del]

definition digits_val :: "string \<Rightarrow> int" where
  "digits_val s = foldl (\<lambda>acc c. 10 * acc + char_digit c) 0 s"

text \<open>\<open>new(big.Int).SetString(s, 10)\<close>: an optional sign and at least one digit.\<close>

definition big_set_string :: "string \<Rightarrow> int option" where
  "big_set_string s =
     (case s of
        [] \<Rightarrow> None
      | c # cs \<Rightarrow>
          (let ds = (if c = CHR ''-'' \<or> c = CHR ''+'' then cs else s)
           in if ds = [] \<or> \<not> list_all is_digit ds then None
              else Some (if c = CHR ''-'' then - digits_val ds else digits_val ds)))"

lemma split_on_nonempty [simp]: "split_on c xs \<noteq> []"
  by (induction xs) (auto split: list.splits)

lemma split_on_absent: "c \<notin> set xs \<Longrightarrow> split_on c xs = [xs]"
  by (induction xs) auto

lemma split_on_append:
  "c \<notin> set xs \<Longrightarrow> split_on c (xs @ c # ys) = xs # split_on c ys"
  by (induction xs) auto

lemma char_digit_digit_char [simp]:
  assumes "0 \<le> d" "d < 10" shows "char_digit (digit_char d) = d"
proof -
  have "(48 + nat d) mod 256 = 48 + nat d" using assms by auto
  then show ?thesis using assms by (simp add: char_digit_def digit_char_def)
qed

lemma is_digit_digit_char [simp]: "0 \<le> d \<Longrightarrow> d < 10 \<Longrightarrow> is_digit (digit_char d)"
  by (simp add: is_digit_def)

lemma is_digit_not_punct:
  assumes "is_digit c" shows "c \<noteq> CHR ''.'' \<and> c \<noteq> CHR ''-'' \<and> c \<noteq> CHR ''+''"
  using assms by (auto simp: is_digit_def char_digit_def)

lemma digits_val_append: "digits_val (xs @ [c]) = 10 * digits_val xs + char_digit c"
  by (simp add: digits_val_def)

lemma int_digits_correct:
  "0 \<le> n \<Longrightarrow> int_digits n \<noteq> [] \<and> list_all is_digit (int_digits n) \<and> digits_val (int_digits n) = n"
proof (induction n rule: int_digits.induct)
  case (1 n)
  show ?case
  proof (cases "n < 10")
    case True
    with "1.prems" show ?thesis by (simp add: int_digits.simps [of n] digits_val_def)
  next
    case False
    then have "0 \<le> n div 10" by simp
    with "1.IH" False have ih: "list_all is_digit (int_digits (n div 10))"
      "digits_val (int_digits (n div 10)) = n div 10" by auto
    have "int_digits n = int_digits (n div 10) @ [digit_char (n mod 10)]"
      using False by (simp add: int_digits.simps [of n])
    with ih show ?thesis by (simp add: digits_val_append)
  qed
qed

lemma digits_val_zeros: "digits_val (replicate k (CHR ''0'') @ ds) = digits_val ds"
proof -
  have "foldl (\<lambda>acc c. 10 * acc + char_digit c) 0 (replicate k (CHR ''0'')) = 0"
    by (induction k) (simp_all add: char_digit_def)
  then show ?thesis by (simp add: digits_val_def)
qed

lemma big_set_string_digits:
  assumes "ds \<noteq> []" "list_all is_digit ds"
  shows "big_set_string ds = Some (digits_val ds)"
proof -
  obtain c cs where ds: "ds = c # cs" using assms(1) by (cases ds) auto
  with assms(2) have "c \<noteq> CHR ''-'' \<and> c \<noteq> CHR ''+''"
    using is_digit_not_punct by auto
  with assms ds show ?thesis by (simp add: big_set_string_def)
qed

lemma res_Inr: "(case r of Inl _ \<Rightarrow> False | Inr _ \<Rightarrow> True) \<Longrightarrow> \<exists>x. r = Inr x"
  by (cases r) auto

section \<open>Machine integers\<close>

text \<open>Signed 64-bit and 8-bit integers wrap around.\<close>

definition wrap64 :: "int \<Rightarrow> int" where
  "wrap64 x = (x + 2 ^ 63) mod 2 ^ 64 - 2 ^ 63"

definition wrap8 :: "int \<Rightarrow> int" where
  "wrap8 x = (x + 2 ^ 7) mod 2 ^ 8 - 2 ^ 7"

lemma wrap64_id: "- (2 ^ 63) \<le> x \<Longrightarrow> x < 2 ^ 63 \<Longrightarrow> wrap64 x = x"
  by (simp add: wrap64_def)

lemma wrap8_id: "- (2 ^ 7) \<le> x \<Longrightarrow> x < 2 ^ 7 \<Longrightarrow> wrap8 x = x"
  by (simp add: wrap8_def)

end
