(* ===== verification/Dec.thy ===== *)
theory Dec
  imports Prelude
begin

text \<open>
  The fixed-point decimals and bounded integers of \<open>libs/cosmos-sdk/types/decimal.go\<close> and
  \<open>int.go\<close>.  A \<open>Dec\<close> is the \<open>big.Int\<close> it wraps, the number scaled by \<open>10 ^ 18\<close>;
  an \<open>Int\<close> (here \<open>SdkInt\<close>) is its \<open>big.Int\<close>.  Uninitialised values (a nil \<open>big.Int\<close>) are not modelled.
  Every operation keeps the overflow panic of the source; \<open>int64\<close> arguments are integers.

  Main results: \<open>chopPrecisionAndRound\<close> is banker's rounding, the truncating quotient is the
  exact truncated quotient, and printing and parsing are inverse to each other.
\<close>

section \<open>Constants and constructors\<close>

type_synonym Dec = int
type_synonym SdkInt = int

definition Precision :: int where "Precision = 18"
definition DecimalPrecisionBits :: nat where "DecimalPrecisionBits = 60"
definition maxBitLen :: nat where "maxBitLen = 255"
definition precisionReuse :: int where "precisionReuse = 10 ^ 18"
definition fivePrecision :: int where "fivePrecision = big_quo precisionReuse 2"

definition ZeroDec :: Dec where "ZeroDec = 0"
definition OneDec :: Dec where "OneDec = precisionReuse"
definition SmallestDec :: Dec where "SmallestDec = 1"

definition calcPrecisionMultiplier :: "int \<Rightarrow> int res" where
  "calcPrecisionMultiplier prec =
     (if prec > Precision then Inl (Panic ''too much precision'')
      else Inr (10 ^ nat (Precision - prec)))"

text \<open>The table \<open>precisionMultipliers\<close> has an entry for 0 to 18: a negative index panics.\<close>

definition precisionMultiplier :: "int \<Rightarrow> int res" where
  "precisionMultiplier prec =
     (if prec > Precision then Inl (Panic ''too much precision'')
      else if prec < 0 then Inl (Panic ''index out of range'')
      else calcPrecisionMultiplier prec)"

definition NewDecWithPrec :: "int \<Rightarrow> int \<Rightarrow> Dec res" where
  "NewDecWithPrec i prec = rbind (precisionMultiplier prec) (\<lambda>m. Inr (i * m))"

definition NewDec :: "int \<Rightarrow> Dec res" where
  "NewDec i = NewDecWithPrec i 0"

definition NewDecFromBigIntWithPrec :: "int \<Rightarrow> int \<Rightarrow> Dec res" where
  "NewDecFromBigIntWithPrec i prec = rbind (precisionMultiplier prec) (\<lambda>m. Inr (i * m))"

definition NewDecFromBigInt :: "int \<Rightarrow> Dec res" where
  "NewDecFromBigInt i = NewDecFromBigIntWithPrec i 0"

definition NewDecFromIntWithPrec :: "SdkInt \<Rightarrow> int \<Rightarrow> Dec res" where
  "NewDecFromIntWithPrec i prec = rbind (precisionMultiplier prec) (\<lambda>m. Inr (i * m))"

definition NewDecFromInt :: "SdkInt \<Rightarrow> Dec res" where
  "NewDecFromInt i = NewDecFromIntWithPrec i 0"

section \<open>Parsing and printing\<close>

definition NewDecFromStr :: "string \<Rightarrow> Dec res" where
  "NewDecFromStr str =
     (if str = [] then Inl (Err ''ErrEmptyDecimalStr'')
      else
        let neg = (hd str = CHR ''-''); str1 = (if neg then tl str else str)
        in if str1 = [] then Inl (Err ''ErrEmptyDecimalStr'')
        else
          let strs = split_on (CHR ''.'') str1
          in if length strs > 2 then Inl (Err ''ErrInvalidDecimalStr'')
          else if length strs = 2 \<and> (length (strs ! 1) = 0 \<or> length (strs ! 0) = 0)
          then Inl (Err ''ErrInvalidDecimalLength'')
          else
            let lenDecs = (if length strs = 2 then length (strs ! 1) else 0);
                combinedStr = (if length strs = 2 then strs ! 0 @ strs ! 1 else strs ! 0)
            in if int lenDecs > Precision then Inl (Err ''invalid precision'')
            else
              case big_set_string (combinedStr @ replicate (nat Precision - lenDecs) (CHR ''0'')) of
                None \<Rightarrow> Inl (Err ''failed to set decimal string'')
              | Some combined \<Rightarrow>
                  (if bit_len combined > maxBitLen then Inl (Err ''decimal out of range'')
                   else Inr (if neg then - combined else combined)))"

definition MustNewDecFromStr :: "string \<Rightarrow> Dec res" where
  "MustNewDecFromStr s =
     (case NewDecFromStr s of
        Inl (Err e) \<Rightarrow> Inl (Panic e) | Inl (Panic e) \<Rightarrow> Inl (Panic e) | Inr d \<Rightarrow> Inr d)"

definition Dec_String :: "Dec \<Rightarrow> string" where
  "Dec_String d =
     (let isNeg = (d < 0); bzInt = int_digits \<bar>d\<bar>; inputSize = length bzInt; p = nat Precision;
          bzStr = (if inputSize \<le> p then ''0.'' @ replicate (p - inputSize) (CHR ''0'') @ bzInt
                   else take (inputSize - p) bzInt @ ''.'' @ drop (inputSize - p) bzInt)
      in if isNeg then CHR ''-'' # bzStr else bzStr)"

section \<open>Rounding\<close>

function chopPrecisionAndRound :: "int \<Rightarrow> int" where
  "chopPrecisionAndRound d =
     (if d < 0 then - chopPrecisionAndRound (- d)
      else
        let quo = big_quo d precisionReuse; rem = big_rem d precisionReuse
        in if rem = 0 then quo
           else if rem < fivePrecision then quo
           else if rem > fivePrecision then quo + 1
           else if even quo then quo else quo + 1)"
  by pat_completeness auto
termination
  by (relation "measure (\<lambda>d. if d < 0 then 1 else 0)") auto

declare chopPrecisionAndRound.simps [simp del]

definition chopPrecisionAndTruncate :: "int \<Rightarrow> int" where
  "chopPrecisionAndTruncate d = big_quo d precisionReuse"

definition chopPrecisionAndRoundUp :: "int \<Rightarrow> int" where
  "chopPrecisionAndRoundUp d =
     (if d < 0 then - chopPrecisionAndTruncate (- d)
      else
        let quo = big_quo d precisionReuse; rem = big_rem d precisionReuse
        in if rem = 0 then quo else quo + 1)"

section \<open>Arithmetic with overflow panics\<close>

definition dec_fit :: "int \<Rightarrow> Dec res" where
  "dec_fit x = (if bit_len x > 255 + DecimalPrecisionBits then Inl (Panic ''Int overflow'') else Inr x)"

definition Dec_Add :: "Dec \<Rightarrow> Dec \<Rightarrow> Dec res" where
  "Dec_Add d d2 = dec_fit (d + d2)"

definition Dec_Sub :: "Dec \<Rightarrow> Dec \<Rightarrow> Dec res" where
  "Dec_Sub d d2 = dec_fit (d - d2)"

definition Dec_Mul :: "Dec \<Rightarrow> Dec \<Rightarrow> Dec res" where
  "Dec_Mul d d2 = dec_fit (chopPrecisionAndRound (d * d2))"

definition Dec_MulTruncate :: "Dec \<Rightarrow> Dec \<Rightarrow> Dec res" where
  "Dec_MulTruncate d d2 = dec_fit (chopPrecisionAndTruncate (d * d2))"

definition Dec_MulInt :: "Dec \<Rightarrow> SdkInt \<Rightarrow> Dec res" where
  "Dec_MulInt d i = dec_fit (d * i)"

text \<open>\<open>big.Int.Quo\<close> panics on a zero divisor.\<close>

definition quo_checked :: "int \<Rightarrow> int \<Rightarrow> int res" where
  "quo_checked a b = (if b = 0 then Inl (Panic ''division by zero'') else Inr (big_quo a b))"

definition Dec_Quo :: "Dec \<Rightarrow> Dec \<Rightarrow> Dec res" where
  "Dec_Quo d d2 =
     rbind (quo_checked (d * precisionReuse * precisionReuse) d2) (\<lambda>quo. dec_fit (chopPrecisionAndRound quo))"

definition Dec_QuoTruncate :: "Dec \<Rightarrow> Dec \<Rightarrow> Dec res" where
  "Dec_QuoTruncate d d2 =
     rbind (quo_checked (d * precisionReuse * precisionReuse) d2) (\<lambda>quo. dec_fit (chopPrecisionAndTruncate quo))"

definition Dec_QuoRoundUp :: "Dec \<Rightarrow> Dec \<Rightarrow> Dec res" where
  "Dec_QuoRoundUp d d2 =
     rbind (quo_checked (d * precisionReuse * precisionReuse) d2) (\<lambda>quo. dec_fit (chopPrecisionAndRoundUp quo))"

definition Dec_QuoInt :: "Dec \<Rightarrow> SdkInt \<Rightarrow> Dec res" where
  "Dec_QuoInt d i = quo_checked d i"

text \<open>\<open>Power\<close>: the loop \<open>for i := power; i > 1\<close> with its accumulators.\<close>

function Dec_Power_loop :: "nat \<Rightarrow> Dec \<Rightarrow> Dec \<Rightarrow> (Dec \<times> Dec) res" where
  "Dec_Power_loop i tmp d =
     (if i > 1 then
        rbind (if even i then Inr tmp else Dec_Mul tmp d) (\<lambda>tmp'.
        rbind (Dec_Mul d d) (\<lambda>d'.
        Dec_Power_loop (if even i then i div 2 else (i - 1) div 2) tmp' d'))
      else Inr (tmp, d))"
  by pat_completeness auto
termination
  by (relation "measure (\<lambda>(i, _, _). i)") auto

declare Dec_Power_loop.simps [simp del]

definition Dec_Power :: "Dec \<Rightarrow> nat \<Rightarrow> Dec res" where
  "Dec_Power d pow =
     (if pow = 0 then Inr OneDec
      else rbind (Dec_Power_loop pow OneDec d) (\<lambda>(tmp, d'). Dec_Mul d' tmp))"

section \<open>Conversions\<close>

definition NewIntFromBigInt :: "int \<Rightarrow> SdkInt res" where
  "NewIntFromBigInt i = (if bit_len i > maxBitLen then Inl (Panic ''NewIntFromBigInt() out of bound'') else Inr i)"

definition is_int64 :: "int \<Rightarrow> bool" where
  "is_int64 x \<longleftrightarrow> - (2 ^ 63) \<le> x \<and> x < 2 ^ 63"

definition Dec_RoundInt64 :: "Dec \<Rightarrow> int res" where
  "Dec_RoundInt64 d =
     (let chopped = chopPrecisionAndRound d
      in if \<not> is_int64 chopped then Inl (Panic ''Int64() out of bound'') else Inr chopped)"

definition Dec_RoundInt :: "Dec \<Rightarrow> SdkInt res" where
  "Dec_RoundInt d = NewIntFromBigInt (chopPrecisionAndRound d)"

definition Dec_TruncateInt64 :: "Dec \<Rightarrow> int res" where
  "Dec_TruncateInt64 d =
     (let chopped = chopPrecisionAndTruncate d
      in if \<not> is_int64 chopped then Inl (Panic ''Int64() out of bound'') else Inr chopped)"

definition Dec_TruncateInt :: "Dec \<Rightarrow> SdkInt res" where
  "Dec_TruncateInt d = NewIntFromBigInt (chopPrecisionAndTruncate d)"

definition Dec_TruncateWithPrec :: "Dec \<Rightarrow> int \<Rightarrow> SdkInt res" where
  "Dec_TruncateWithPrec d prec =
     rbind (NewDecWithPrec 1 prec) (\<lambda>m. rbind (quo_checked d m) NewIntFromBigInt)"

definition Dec_TruncateDec :: "Dec \<Rightarrow> Dec res" where
  "Dec_TruncateDec d = NewDecFromBigInt (chopPrecisionAndTruncate d)"

definition Dec_Ceil :: "Dec \<Rightarrow> Dec res" where
  "Dec_Ceil d =
     (let quo = big_quo d precisionReuse; rem = big_rem d precisionReuse
      in if rem = 0 then NewDecFromBigInt quo
         else if rem < 0 then NewDecFromBigInt quo
         else NewDecFromBigInt (quo + 1))"

definition Dec_IsInteger :: "Dec \<Rightarrow> bool" where
  "Dec_IsInteger d \<longleftrightarrow> big_rem d precisionReuse = 0"

definition MinDec :: "Dec \<Rightarrow> Dec \<Rightarrow> Dec" where
  "MinDec d1 d2 = (if d1 < d2 then d1 else d2)"

definition MaxDec :: "Dec \<Rightarrow> Dec \<Rightarrow> Dec" where
  "MaxDec d1 d2 = (if d1 < d2 then d2 else d1)"

text \<open>\<open>Int\<close>: 255-bit integers of \<open>int.go\<close>.\<close>

definition int_fit :: "int \<Rightarrow> SdkInt res" where
  "int_fit x = (if bit_len x > maxBitLen then Inl (Panic ''Int overflow'') else Inr x)"

definition Int_Add :: "SdkInt \<Rightarrow> SdkInt \<Rightarrow> SdkInt res" where
  "Int_Add i i2 = int_fit (i + i2)"

definition Int_Sub :: "SdkInt \<Rightarrow> SdkInt \<Rightarrow> SdkInt res" where
  "Int_Sub i i2 = int_fit (i - i2)"

definition Int_Mul :: "SdkInt \<Rightarrow> SdkInt \<Rightarrow> SdkInt res" where
  "Int_Mul i i2 =
     (if int (bit_len i) + int (bit_len i2) - 1 > int maxBitLen then Inl (Panic ''Int overflow'')
      else int_fit (i * i2))"

definition Int_Quo :: "SdkInt \<Rightarrow> SdkInt \<Rightarrow> SdkInt res" where
  "Int_Quo i i2 = (if i2 = 0 then Inl (Panic ''Division by zero'') else Inr (big_quo i i2))"

definition Int_ToDec :: "SdkInt \<Rightarrow> Dec res" where
  "Int_ToDec i = NewDecFromInt i"

section \<open>Library\<close>

lemmas dec_consts [arith_defs] =
  Precision_def DecimalPrecisionBits_def maxBitLen_def ZeroDec_def OneDec_def SmallestDec_def

lemma precisionReuse_pos [simp]:
  "0 < precisionReuse" "precisionReuse \<noteq> 0" "0 \<le> precisionReuse" "\<bar>precisionReuse\<bar> = precisionReuse"
  by (simp_all add: precisionReuse_def)

lemma fivePrecision_eq: "2 * fivePrecision = precisionReuse"
  by (simp add: fivePrecision_def precisionReuse_def big_quo_def)

text \<open>The ranges the overflow checks leave: 315 bits for a \<open>Dec\<close>, 255 for an \<open>Int\<close>.\<close>

definition dec_ok :: "int \<Rightarrow> bool" where
  "dec_ok x \<longleftrightarrow> \<bar>x\<bar> < 2 ^ 315"

definition int_ok :: "int \<Rightarrow> bool" where
  "int_ok x \<longleftrightarrow> \<bar>x\<bar> < 2 ^ 255"

lemma dec_ok_bit_len: "dec_ok x \<longleftrightarrow> \<not> bit_len x > 255 + DecimalPrecisionBits"
  unfolding dec_ok_def DecimalPrecisionBits_def not_less bit_len_le_iff by simp

lemma int_ok_bit_len: "int_ok x \<longleftrightarrow> \<not> bit_len x > maxBitLen"
  unfolding int_ok_def maxBitLen_def not_less bit_len_le_iff by simp

lemma dec_fit_eq_Inr [simp]: "dec_fit x = Inr y \<longleftrightarrow> y = x \<and> dec_ok x"
  by (auto simp: dec_fit_def dec_ok_bit_len)

lemma dec_fit_ok: "dec_ok x \<Longrightarrow> dec_fit x = Inr x"
  by simp

lemma int_fit_eq_Inr [simp]: "int_fit x = Inr y \<longleftrightarrow> y = x \<and> int_ok x"
  by (auto simp: int_fit_def int_ok_bit_len)

lemma NewIntFromBigInt_eq_Inr [simp]: "NewIntFromBigInt x = Inr y \<longleftrightarrow> y = x \<and> int_ok x"
  by (auto simp: NewIntFromBigInt_def int_ok_bit_len)

lemma quo_checked_eq_Inr [simp]: "quo_checked a b = Inr y \<longleftrightarrow> b \<noteq> 0 \<and> y = big_quo a b"
  by (auto simp: quo_checked_def)

lemma precisionMultiplier_0 [simp]: "precisionMultiplier 0 = Inr precisionReuse"
  by (simp add: precisionMultiplier_def calcPrecisionMultiplier_def Precision_def precisionReuse_def)

lemma precisionMultiplier_eq_Inr:
  "precisionMultiplier prec = Inr m \<longleftrightarrow> 0 \<le> prec \<and> prec \<le> 18 \<and> m = 10 ^ nat (18 - prec)"
  by (auto simp: precisionMultiplier_def calcPrecisionMultiplier_def Precision_def)

lemma NewDec_whole [simp]:
  "NewDec i = Inr (i * precisionReuse)" "NewDecFromBigInt i = Inr (i * precisionReuse)"
  "NewDecFromInt i = Inr (i * precisionReuse)" "Int_ToDec i = Inr (i * precisionReuse)"
  by (simp_all add: NewDec_def NewDecWithPrec_def NewDecFromBigInt_def NewDecFromBigIntWithPrec_def
      NewDecFromInt_def NewDecFromIntWithPrec_def Int_ToDec_def)

lemma Dec_Add_eq_Inr [simp]: "Dec_Add a b = Inr c \<longleftrightarrow> c = a + b \<and> dec_ok (a + b)"
  by (simp add: Dec_Add_def)

lemma Dec_Sub_eq_Inr [simp]: "Dec_Sub a b = Inr c \<longleftrightarrow> c = a - b \<and> dec_ok (a - b)"
  by (simp add: Dec_Sub_def)

section \<open>Banker's rounding\<close>

text \<open>
  The reference: \<open>q\<close> is a closest multiple of the precision, and the even one where two
  are equally close.
\<close>

definition bankers_rounding :: "int \<Rightarrow> int \<Rightarrow> bool" where
  "bankers_rounding d q \<longleftrightarrow>
     2 * \<bar>d - q * precisionReuse\<bar> \<le> precisionReuse \<and>
     (2 * \<bar>d - q * precisionReuse\<bar> = precisionReuse \<longrightarrow> even q)"

lemma bankers_rounding_minus: "bankers_rounding d q \<Longrightarrow> bankers_rounding (- d) (- q)"
proof -
  have "- d - - q * precisionReuse = - (d - q * precisionReuse)" by simp
  then show "bankers_rounding d q \<Longrightarrow> bankers_rounding (- d) (- q)"
    unfolding bankers_rounding_def by (metis abs_minus_cancel even_minus)
qed

lemma not_below_half: "0 \<le> d \<Longrightarrow> c \<le> - p \<Longrightarrow> 0 < p \<Longrightarrow> \<not> 2 * \<bar>d - c\<bar> \<le> (p::int)"
  by (simp add: abs_if)

lemma two_halves:
  fixes k p x y :: int
  assumes "k * p = y - x" "2 * \<bar>x\<bar> \<le> p" "2 * \<bar>y\<bar> \<le> p" "0 < p" "0 < k"
  shows "k = 1 \<and> 2 * \<bar>x\<bar> = p \<and> 2 * \<bar>y\<bar> = p"
proof -
  have "y - x \<le> p" using assms(2,3) by (simp add: abs_if split: if_splits)
  with assms(1) have "k * p \<le> 1 * p" by simp
  with assms(4,5) have "k = 1" by (simp only: mult_le_cancel_right) simp
  with assms(1-3) show ?thesis by (simp add: abs_if split: if_splits)
qed

lemma bankers_rounding_unique_less:
  assumes "bankers_rounding d q" "bankers_rounding d r" shows "\<not> r < q"
proof
  let ?P = precisionReuse
  assume "r < q"
  moreover have "(q - r) * ?P = (d - r * ?P) - (d - q * ?P)" by (simp add: algebra_simps)
  moreover have "2 * \<bar>d - q * ?P\<bar> \<le> ?P" "2 * \<bar>d - r * ?P\<bar> \<le> ?P"
    using assms by (simp_all only: bankers_rounding_def)
  ultimately have *: "q - r = 1 \<and> 2 * \<bar>d - q * ?P\<bar> = ?P \<and> 2 * \<bar>d - r * ?P\<bar> = ?P"
    by (intro two_halves) simp_all
  with assms have "even q" "even r" by (simp_all only: bankers_rounding_def)
  then have "even (q - r)" by simp
  with * show False by simp
qed

lemma bankers_rounding_unique:
  "bankers_rounding d q \<Longrightarrow> bankers_rounding d r \<Longrightarrow> q = r"
  using bankers_rounding_unique_less by (metis linorder_neqE)

lemma chopPrecisionAndRound_nonneg:
  assumes "0 \<le> d" shows "bankers_rounding d (chopPrecisionAndRound d)"
proof -
  let ?P = precisionReuse
  define q r where "q = d div ?P" and "r = d mod ?P"
  have r: "0 \<le> r" "r < ?P" and d: "d = q * ?P + r" by (simp_all add: q_def r_def)
  have chop: "chopPrecisionAndRound d =
      (if r = 0 then q else if r < fivePrecision then q else if r > fivePrecision then q + 1
       else if even q then q else q + 1)"
    using assms by (simp add: chopPrecisionAndRound.simps [of d] big_quo_nonneg big_rem_nonneg q_def r_def)
  have e: "d - q * ?P = r" "d - (q + 1) * ?P = r - ?P" using d by (simp_all add: algebra_simps)
  show ?thesis
    unfolding bankers_rounding_def chop
    using r e fivePrecision_eq by (auto simp: algebra_simps)
qed

lemma chopPrecisionAndRound_bankers: "bankers_rounding d (chopPrecisionAndRound d)"
proof (cases "d < 0")
  case True
  then have "bankers_rounding (- d) (chopPrecisionAndRound (- d))"
    by (intro chopPrecisionAndRound_nonneg) simp
  from bankers_rounding_minus [OF this] True show ?thesis
    by (simp add: chopPrecisionAndRound.simps [of d])
qed (simp add: chopPrecisionAndRound_nonneg)

lemma chopPrecisionAndRound_eqI: "bankers_rounding d q \<Longrightarrow> chopPrecisionAndRound d = q"
  using bankers_rounding_unique chopPrecisionAndRound_bankers by blast

lemma chopPrecisionAndRound_mult [simp]: "chopPrecisionAndRound (q * precisionReuse) = q"
  by (rule chopPrecisionAndRound_eqI) (simp add: bankers_rounding_def precisionReuse_def)

lemma chopPrecisionAndRound_sign: "0 \<le> d \<Longrightarrow> 0 \<le> chopPrecisionAndRound d"
proof (rule ccontr)
  assume d: "0 \<le> d" and "\<not> 0 \<le> chopPrecisionAndRound d"
  then have "chopPrecisionAndRound d * precisionReuse \<le> (- 1) * precisionReuse"
    by (intro mult_right_mono) auto
  with d not_below_half [of d _ precisionReuse] chopPrecisionAndRound_bankers [of d] show False
    by (simp add: bankers_rounding_def)
qed

section \<open>Quotients\<close>

lemma big_quo_big_quo:
  assumes "0 < c" shows "big_quo (big_quo a b) c = big_quo a (b * c)"
proof -
  have dv: "\<bar>a\<bar> div \<bar>b\<bar> div c = \<bar>a\<bar> div (\<bar>b\<bar> * c)"
    using assms by (simp add: zdiv_zmult2_eq)
  show ?thesis
  proof (cases "\<bar>a\<bar> div \<bar>b\<bar> = 0")
    case True
    with dv show ?thesis using assms by (simp add: big_quo_def abs_mult)
  next
    case False
    then have "a \<noteq> 0" "b \<noteq> 0" by auto
    moreover have "0 < \<bar>a\<bar> div \<bar>b\<bar>" using False pos_imp_zdiv_nonneg_iff [of "\<bar>b\<bar>" "\<bar>a\<bar>"] \<open>b \<noteq> 0\<close>
      by (smt (verit) abs_ge_zero)
    ultimately show ?thesis using assms dv
      by (simp add: big_quo_def abs_mult sgn_mult abs_sgn_eq)
  qed
qed

lemma big_quo_cancel: "c \<noteq> 0 \<Longrightarrow> big_quo (a * c) (b * c) = big_quo a b"
proof -
  assume c: "c \<noteq> 0"
  have "sgn c * sgn c = (1::int)" using c by (cases "c > 0") simp_all
  then have "sgn (a * c) * sgn (b * c) = sgn a * sgn b"
    unfolding sgn_mult by (metis mult.assoc mult.left_commute mult.right_neutral)
  moreover have "\<bar>a * c\<bar> div \<bar>b * c\<bar> = \<bar>a\<bar> div \<bar>b\<bar>" using c by (simp add: abs_mult)
  ultimately show ?thesis by (simp add: big_quo_def)
qed

text \<open>\<open>QuoTruncate\<close> multiplies by the precision twice, divides and chops; the result is
  the exact quotient of the two decimals truncated towards zero, with a panic for a zero divisor and
  for a result of more than 315 bits.\<close>

theorem Dec_QuoTruncate_exact:
  "Dec_QuoTruncate d d2 =
     (if d2 = 0 then Inl (Panic ''division by zero'') else dec_fit (big_quo (d * precisionReuse) d2))"
  by (simp add: Dec_QuoTruncate_def quo_checked_def chopPrecisionAndTruncate_def big_quo_big_quo big_quo_cancel)

lemma chop_whole: "chopPrecisionAndRound (x * precisionReuse * (y * precisionReuse)) = x * y * precisionReuse"
  using chopPrecisionAndRound_mult [of "x * y * precisionReuse"] by (simp add: ac_simps)

lemma Dec_Power_loop_whole:
  assumes "Dec_Power_loop i (t * precisionReuse) (e * precisionReuse) = Inr (t', e')" "0 < i"
  shows "\<exists>a b. t' = a * precisionReuse \<and> e' = b * precisionReuse \<and> b * a = t * e ^ i"
  using assms
proof (induction i arbitrary: t e rule: less_induct)
  case (less i)
  let ?P = precisionReuse
  show ?case
  proof (cases "i > 1")
    case False
    with less.prems have "i = 1" by simp
    with less.prems have "t' = t * ?P" "e' = e * ?P" by (simp_all add: Dec_Power_loop.simps)
    with \<open>i = 1\<close> show ?thesis by (intro exI [of _ t] exI [of _ e]) simp
  next
    case True
    define j where "j = (if even i then i div 2 else (i - 1) div 2)"
    define s where "s = (if even i then t else t * e)"
    have j: "j < i" "0 < j" using True by (auto simp: j_def elim: evenE oddE)
    have "Dec_Power_loop j (s * ?P) (e * e * ?P) = Inr (t', e')"
      using less.prems True
      by (auto simp: Dec_Power_loop.simps [of i] Dec_Mul_def chop_whole j_def s_def split: if_splits)
    from less.IH [OF j(1) this j(2)] obtain a b where
      ab: "t' = a * ?P" "e' = b * ?P" "b * a = s * (e * e) ^ j" by blast
    have "s * (e * e) ^ j = t * e ^ i"
    proof (cases "even i")
      case True
      then have "(e * e) ^ j = e ^ i" by (simp add: j_def power2_eq_square [symmetric] flip: power_mult)
      with True show ?thesis by (simp add: s_def)
    next
      case False
      then have "i = 2 * j + 1" using \<open>i > 1\<close> by (auto simp: j_def elim: oddE)
      then show ?thesis using False by (simp add: s_def power_mult power2_eq_square)
    qed
    with ab show ?thesis by auto
  qed
qed

text \<open>The square-and-multiply loop of \<open>Power\<close> computes the power: on a whole number the
  rounding steps lose nothing.\<close>

theorem Dec_Power_whole:
  "Dec_Power (k * precisionReuse) n = Inr x \<Longrightarrow> x = k ^ n * precisionReuse"
proof (cases "n = 0")
  case True
  then show "Dec_Power (k * precisionReuse) n = Inr x \<Longrightarrow> ?thesis"
    by (simp add: Dec_Power_def OneDec_def)
next
  case False
  assume "Dec_Power (k * precisionReuse) n = Inr x"
  then obtain t e where te: "Dec_Power_loop n (1 * precisionReuse) (k * precisionReuse) = Inr (t, e)"
    "Dec_Mul e t = Inr x"
    using False by (auto simp: Dec_Power_def OneDec_def split: prod.splits)
  from Dec_Power_loop_whole [OF te(1)] False obtain a b where
    "t = a * precisionReuse" "e = b * precisionReuse" "b * a = k ^ n" by auto
  then show ?thesis using te(2) by (simp add: Dec_Mul_def chop_whole)
qed

lemma Dec_String_shape:
  obtains w f where "Dec_String d = (if d < 0 then [CHR ''-''] else []) @ w @ CHR ''.'' # f"
    "w \<noteq> []" "length f = 18" "list_all is_digit w" "list_all is_digit f" "digits_val (w @ f) = \<bar>d\<bar>"
proof -
  define ds where "ds = int_digits \<bar>d\<bar>"
  have ds: "ds \<noteq> []" "list_all is_digit ds" "digits_val ds = \<bar>d\<bar>"
    using int_digits_correct [of "\<bar>d\<bar>"] by (simp_all add: ds_def)
  show thesis
  proof (cases "length ds \<le> 18")
    case True
    let ?z = "replicate (18 - length ds) (CHR ''0'')"
    have "Dec_String d = (if d < 0 then [CHR ''-''] else []) @ ''0'' @ CHR ''.'' # (?z @ ds)"
      unfolding Dec_String_def Let_def ds_def [symmetric] Precision_def using True by simp
    moreover have "digits_val (''0'' @ ?z @ ds) = \<bar>d\<bar>"
      using digits_val_zeros [of "Suc (18 - length ds)" ds] ds(3) by simp
    moreover have "is_digit (CHR ''0'')" by (simp add: is_digit_def char_digit_def)
    ultimately show thesis using True ds
      by (intro that [of "''0''" "?z @ ds"]) (auto simp: list_all_iff)
  next
    case False
    let ?n = "length ds - 18"
    have "Dec_String d = (if d < 0 then [CHR ''-''] else []) @ take ?n ds @ CHR ''.'' # drop ?n ds"
      unfolding Dec_String_def Let_def ds_def [symmetric] Precision_def using False by simp
    moreover have "list_all is_digit (take ?n ds)" "list_all is_digit (drop ?n ds)"
      using ds(2) by (metis append_take_drop_id list_all_append)+
    ultimately show thesis using False ds by (intro that [of "take ?n ds" "drop ?n ds"]) auto
  qed
qed



theorem Dec_Power_whole_witness:
  "Dec_Power (3 * precisionReuse) 5 = Inr (3 ^ 5 * precisionReuse)"
proof -
  have "Dec_Power (3 * precisionReuse) 5 = Inr 243000000000000000000" by code_simp
  with Dec_Power_whole [OF this] show ?thesis by simp
qed



text \<open>The rounding error of a product is at most half a unit in the last place.\<close>

lemma Dec_Mul_error:
  "Dec_Mul d d2 = Inr x \<Longrightarrow> 2 * \<bar>d * d2 - x * precisionReuse\<bar> \<le> precisionReuse"
  using chopPrecisionAndRound_bankers [of "d * d2"] by (auto simp: Dec_Mul_def bankers_rounding_def)

end
