(* ===== verification/Coins.thy ===== *)
theory Coins
  imports Dec
begin

text \<open>
  Coins and coin sets: \<open>dec_coin.go\<close>, the live part of \<open>coin.go\<close>, \<open>aliase_coin_exchain.go\<close>
  (which makes \<open>Coin\<close> an alias of \<open>DecCoin\<close>) and the denomination checks of \<open>ibc_adapter.go\<close>.
  A coin set is the slice of coins the code keeps; its meaning is \<open>amt\<close>, the amount of each
  denomination.  Strings are byte strings: \<open>strings.ToLower\<close> is modelled on ASCII.

  Main results: addition and subtraction of coin sets are pointwise on amounts, keep the set
  sorted and free of zero coins, and the binary search of \<open>AmountOf\<close> returns that amount.
\<close>

section \<open>Denominations\<close>

record DecCoin =
  Denom :: string
  Amount :: Dec

type_synonym DecCoins = "DecCoin list"

definition DefaultBondDenom :: string where "DefaultBondDenom = ''okb''"

definition in_range :: "char \<Rightarrow> char \<Rightarrow> char \<Rightarrow> bool" where
  "in_range lo hi c \<longleftrightarrow> lo \<le> c \<and> c \<le> hi"

definition is_az09 :: "char \<Rightarrow> bool" where
  "is_az09 c \<longleftrightarrow> in_range (CHR ''a'') (CHR ''z'') c \<or> in_range (CHR ''0'') (CHR ''9'') c"

definition is_af09 :: "char \<Rightarrow> bool" where
  "is_af09 c \<longleftrightarrow> in_range (CHR ''a'') (CHR ''f'') c \<or> in_range (CHR ''0'') (CHR ''9'') c"

text \<open>The regular expression \<open>^[a-z][a-z0-9]{0,9}(\-[a-f0-9]{3})?$\<close>.\<close>

definition reDnm_match :: "string \<Rightarrow> bool" where
  "reDnm_match s =
     (let b = takeWhile (\<lambda>c. c \<noteq> CHR ''-'') s; t = dropWhile (\<lambda>c. c \<noteq> CHR ''-'') s
      in b \<noteq> [] \<and> in_range (CHR ''a'') (CHR ''z'') (hd b) \<and> list_all is_az09 (tl b) \<and> length (tl b) \<le> 9 \<and>
         (t = [] \<or> (length t = 4 \<and> list_all is_af09 (tl t))))"

text \<open>The regular expression \<open>^[a-zA-Z][a-zA-Z0-9/-]{2,127}$\<close>.\<close>

definition is_ibc_letter :: "char \<Rightarrow> bool" where
  "is_ibc_letter c \<longleftrightarrow> in_range (CHR ''a'') (CHR ''z'') c \<or> in_range (CHR ''A'') (CHR ''Z'') c"

definition validIBCCoinDenom :: "string \<Rightarrow> bool" where
  "validIBCCoinDenom s \<longleftrightarrow>
     s \<noteq> [] \<and> is_ibc_letter (hd s) \<and> 2 \<le> length (tl s) \<and> length (tl s) \<le> 127 \<and>
     list_all (\<lambda>c. is_ibc_letter c \<or> in_range (CHR ''0'') (CHR ''9'') c \<or> c = CHR ''/'' \<or> c = CHR ''-'') (tl s)"

definition ValidateDenom :: "string \<Rightarrow> unit res" where
  "ValidateDenom denom =
     (if denom = DefaultBondDenom then Inr ()
      else if \<not> reDnm_match denom then
        (if take 3 denom = ''ibc'' \<and> validIBCCoinDenom denom then Inr () else Inl (Err ''invalid denom''))
      else Inr ())"

definition mustValidateDenom :: "string \<Rightarrow> unit res" where
  "mustValidateDenom denom =
     (case ValidateDenom denom of Inl _ \<Rightarrow> Inl (Panic ''invalid denom'') | Inr u \<Rightarrow> Inr u)"

definition validate :: "string \<Rightarrow> SdkInt \<Rightarrow> unit res" where
  "validate denom amount =
     rbind (ValidateDenom denom) (\<lambda>_. if amount < 0 then Inl (Err ''negative coin amount'') else Inr ())"

text \<open>\<open>strings.ToLower\<close> on ASCII.\<close>

definition to_lower :: "string \<Rightarrow> string" where
  "to_lower s = map (\<lambda>c. if in_range (CHR ''A'') (CHR ''Z'') c then char_of (of_char c + 32 :: nat) else c) s"

section \<open>Single coins\<close>

definition NewDecCoin :: "string \<Rightarrow> SdkInt \<Rightarrow> DecCoin res" where
  "NewDecCoin denom amount =
     (case validate denom amount of
        Inl _ \<Rightarrow> Inl (Panic ''invalid coin'')
      | Inr _ \<Rightarrow> rbind (Int_ToDec amount) (\<lambda>a. Inr \<lparr>Denom = denom, Amount = a\<rparr>))"

definition NewDecCoinFromDec :: "string \<Rightarrow> Dec \<Rightarrow> DecCoin res" where
  "NewDecCoinFromDec denom amount =
     rbind (mustValidateDenom denom) (\<lambda>_.
       if amount < 0 then Inl (Panic ''negative decimal coin amount'')
       else Inr \<lparr>Denom = denom, Amount = amount\<rparr>)"

definition DecCoin_IsZero :: "DecCoin \<Rightarrow> bool" where
  "DecCoin_IsZero c \<longleftrightarrow> Amount c = 0"

definition DecCoin_IsPositive :: "DecCoin \<Rightarrow> bool" where
  "DecCoin_IsPositive c \<longleftrightarrow> 0 < Amount c"

definition DecCoin_IsNegative :: "DecCoin \<Rightarrow> bool" where
  "DecCoin_IsNegative c \<longleftrightarrow> Amount c < 0"

definition DecCoin_IsGTE :: "DecCoin \<Rightarrow> DecCoin \<Rightarrow> bool res" where
  "DecCoin_IsGTE c other =
     (if Denom c \<noteq> Denom other then Inl (Panic ''invalid coin denominations'') else Inr (\<not> Amount c < Amount other))"

definition DecCoin_IsLT :: "DecCoin \<Rightarrow> DecCoin \<Rightarrow> bool res" where
  "DecCoin_IsLT c other =
     (if Denom c \<noteq> Denom other then Inl (Panic ''invalid coin denominations'') else Inr (Amount c < Amount other))"

definition DecCoin_IsEqual :: "DecCoin \<Rightarrow> DecCoin \<Rightarrow> bool res" where
  "DecCoin_IsEqual c other =
     (if Denom c \<noteq> Denom other then Inl (Panic ''invalid coin denominations'') else Inr (Amount c = Amount other))"

definition DecCoin_Add :: "DecCoin \<Rightarrow> DecCoin \<Rightarrow> DecCoin res" where
  "DecCoin_Add c b =
     (if Denom c \<noteq> Denom b then Inl (Panic ''coin denom different'')
      else rbind (Dec_Add (Amount c) (Amount b)) (\<lambda>a. Inr \<lparr>Denom = Denom c, Amount = a\<rparr>))"

definition DecCoin_Sub :: "DecCoin \<Rightarrow> DecCoin \<Rightarrow> DecCoin res" where
  "DecCoin_Sub c b =
     (if Denom c \<noteq> Denom b then Inl (Panic ''coin denom different'')
      else rbind (Dec_Sub (Amount c) (Amount b)) (\<lambda>a.
        let res = \<lparr>Denom = Denom c, Amount = a\<rparr>
        in if DecCoin_IsNegative res then Inl (Panic ''negative decimal coin amount'') else Inr res))"

definition DecCoin_TruncateDecimal :: "DecCoin \<Rightarrow> (DecCoin \<times> DecCoin) res" where
  "DecCoin_TruncateDecimal c =
     rbind (Dec_TruncateInt (Amount c)) (\<lambda>truncated.
     rbind (Int_ToDec truncated) (\<lambda>td.
     rbind (Dec_Sub (Amount c) td) (\<lambda>change.
     rbind (NewDecCoin (Denom c) truncated) (\<lambda>t.
     rbind (NewDecCoinFromDec (Denom c) change) (\<lambda>r. Inr (t, r))))))"

definition DecCoin_TruncateWithPrec :: "DecCoin \<Rightarrow> int \<Rightarrow> (DecCoin \<times> DecCoin) res" where
  "DecCoin_TruncateWithPrec c prec =
     (if prec < 0 \<or> prec > Precision then Inl (Panic ''prec range error'')
      else
        rbind (Dec_TruncateWithPrec (Amount c) prec) (\<lambda>tempTruncated.
        rbind (NewDecFromIntWithPrec tempTruncated prec) (\<lambda>truncated.
        rbind (Dec_Sub (Amount c) truncated) (\<lambda>change.
        rbind (NewDecCoinFromDec (Denom c) truncated) (\<lambda>t.
        rbind (NewDecCoinFromDec (Denom c) change) (\<lambda>r. Inr (t, r)))))))"

definition DecCoin_IsValid :: "DecCoin \<Rightarrow> bool" where
  "DecCoin_IsValid c = (case ValidateDenom (Denom c) of Inl _ \<Rightarrow> False | Inr _ \<Rightarrow> \<not> DecCoin_IsNegative c)"

section \<open>Coin sets\<close>

text \<open>The first loop returns the slice itself when no coin is zero.\<close>

definition removeZeroDecCoins :: "DecCoins \<Rightarrow> DecCoins" where
  "removeZeroDecCoins coins =
     (if coins \<noteq> [] \<and> list_all (\<lambda>c. \<not> DecCoin_IsZero c) coins then coins
      else filter (\<lambda>c. \<not> DecCoin_IsZero c) coins)"

fun safeAdd :: "DecCoins \<Rightarrow> DecCoins \<Rightarrow> DecCoins res" where
  "safeAdd [] [] = Inr []"
| "safeAdd [] (b # bs) = Inr (removeZeroDecCoins (b # bs))"
| "safeAdd (a # as) [] = Inr (removeZeroDecCoins (a # as))"
| "safeAdd (a # as) (b # bs) =
     (if Denom a < Denom b then
        rbind (safeAdd as (b # bs)) (\<lambda>sum. Inr (if DecCoin_IsZero a then sum else a # sum))
      else if Denom a = Denom b then
        rbind (DecCoin_Add a b) (\<lambda>res.
        rbind (safeAdd as bs) (\<lambda>sum. Inr (if DecCoin_IsZero res then sum else res # sum)))
      else
        rbind (safeAdd (a # as) bs) (\<lambda>sum. Inr (if DecCoin_IsZero b then sum else b # sum)))"

definition DecCoins_Add :: "DecCoins \<Rightarrow> DecCoins \<Rightarrow> DecCoins res" where
  "DecCoins_Add coins coinsB = safeAdd coins coinsB"

definition negative :: "DecCoins \<Rightarrow> DecCoins" where
  "negative coins = map (\<lambda>c. \<lparr>Denom = Denom c, Amount = - Amount c\<rparr>) coins"

definition IsAnyNegative :: "DecCoins \<Rightarrow> bool" where
  "IsAnyNegative coins \<longleftrightarrow> list_ex DecCoin_IsNegative coins"

definition SafeSub :: "DecCoins \<Rightarrow> DecCoins \<Rightarrow> (DecCoins \<times> bool) res" where
  "SafeSub coins coinsB =
     rbind (safeAdd coins (negative coinsB)) (\<lambda>diff. Inr (diff, IsAnyNegative diff))"

definition DecCoins_Sub :: "DecCoins \<Rightarrow> DecCoins \<Rightarrow> DecCoins res" where
  "DecCoins_Sub coins coinsB =
     rbind (SafeSub coins coinsB) (\<lambda>(diff, hasNeg).
       if hasNeg then Inl (Panic ''negative coin amount'') else Inr diff)"

function AmountOf :: "DecCoins \<Rightarrow> string \<Rightarrow> Dec res" where
  "AmountOf coins denom =
     rbind (mustValidateDenom denom) (\<lambda>_.
       if length coins = 0 then Inr ZeroDec
       else if length coins = 1 then
         (if Denom (coins ! 0) = denom then Inr (Amount (coins ! 0)) else Inr ZeroDec)
       else
         let midIdx = length coins div 2; coin = coins ! midIdx
         in if denom < Denom coin then AmountOf (take midIdx coins) denom
            else if denom = Denom coin then Inr (Amount coin)
            else AmountOf (drop (midIdx + 1) coins) denom)"
  by pat_completeness auto
termination
  by (relation "measure (\<lambda>(coins, _). length coins)") auto

declare AmountOf.simps [simp del]

primrec Intersect_loop :: "DecCoins \<Rightarrow> DecCoins \<Rightarrow> DecCoins res" where
  "Intersect_loop [] coinsB = Inr []"
| "Intersect_loop (c # cs) coinsB =
     rbind (AmountOf coinsB (Denom c)) (\<lambda>b.
     rbind (Intersect_loop cs coinsB) (\<lambda>rest. Inr (\<lparr>Denom = Denom c, Amount = MinDec (Amount c) b\<rparr> # rest)))"

definition Intersect :: "DecCoins \<Rightarrow> DecCoins \<Rightarrow> DecCoins res" where
  "Intersect coins coinsB = rmap removeZeroDecCoins (Intersect_loop coins coinsB)"

text \<open>The loop shared by \<open>MulDec\<close>, \<open>MulDecTruncate\<close>, \<open>QuoDec\<close> and \<open>QuoDecTruncate\<close>.\<close>

definition scale_coins :: "(Dec \<Rightarrow> Dec res) \<Rightarrow> DecCoins \<Rightarrow> DecCoins res" where
  "scale_coins f coins =
     rfold (\<lambda>c res. rbind (f (Amount c)) (\<lambda>a.
       let product = \<lparr>Denom = Denom c, Amount = a\<rparr>
       in if \<not> DecCoin_IsZero product then DecCoins_Add res [product] else Inr res)) coins []"

definition MulDec :: "DecCoins \<Rightarrow> Dec \<Rightarrow> DecCoins res" where
  "MulDec coins d = scale_coins (\<lambda>a. Dec_Mul a d) coins"

definition MulDecTruncate :: "DecCoins \<Rightarrow> Dec \<Rightarrow> DecCoins res" where
  "MulDecTruncate coins d = scale_coins (\<lambda>a. Dec_MulTruncate a d) coins"

definition QuoDec :: "DecCoins \<Rightarrow> Dec \<Rightarrow> DecCoins res" where
  "QuoDec coins d =
     (if d = 0 then Inl (Panic ''invalid zero decimal'') else scale_coins (\<lambda>a. Dec_Quo a d) coins)"

definition QuoDecTruncate :: "DecCoins \<Rightarrow> Dec \<Rightarrow> DecCoins res" where
  "QuoDecTruncate coins d =
     (if d = 0 then Inl (Panic ''invalid zero decimal'') else scale_coins (\<lambda>a. Dec_QuoTruncate a d) coins)"

text \<open>The loop shared by \<open>TruncateDecimal\<close> and \<open>TruncateWithPrec\<close> of coin sets.\<close>

definition split_coins :: "(DecCoin \<Rightarrow> (DecCoin \<times> DecCoin) res) \<Rightarrow> DecCoins \<Rightarrow> (DecCoins \<times> DecCoins) res" where
  "split_coins f coins =
     rfold (\<lambda>c (truncatedCoins, changeCoins).
       rbind (f c) (\<lambda>(truncated, change).
       rbind (if \<not> DecCoin_IsZero truncated then DecCoins_Add truncatedCoins [truncated] else Inr truncatedCoins) (\<lambda>t.
       rbind (if \<not> DecCoin_IsZero change then DecCoins_Add changeCoins [change] else Inr changeCoins) (\<lambda>r.
       Inr (t, r))))) coins ([], [])"

definition TruncateDecimal :: "DecCoins \<Rightarrow> (DecCoins \<times> DecCoins) res" where
  "TruncateDecimal coins = split_coins DecCoin_TruncateDecimal coins"

definition TruncateWithPrec :: "DecCoins \<Rightarrow> int \<Rightarrow> (DecCoins \<times> DecCoins) res" where
  "TruncateWithPrec coins prec = split_coins (\<lambda>c. DecCoin_TruncateWithPrec c prec) coins"

fun IsValid_loop :: "string \<Rightarrow> DecCoins \<Rightarrow> bool" where
  "IsValid_loop lowDenom [] = True"
| "IsValid_loop lowDenom (c # cs) =
     (to_lower (Denom c) = Denom c \<and> \<not> Denom c \<le> lowDenom \<and> DecCoin_IsPositive c \<and> IsValid_loop (Denom c) cs)"

fun IsValid :: "DecCoins \<Rightarrow> bool" where
  "IsValid [] = True"
| "IsValid (c # cs) =
     ((case ValidateDenom (Denom c) of Inl _ \<Rightarrow> False | Inr _ \<Rightarrow> DecCoin_IsPositive c) \<and> IsValid_loop (Denom c) cs)"

definition DecCoins_IsZero :: "DecCoins \<Rightarrow> bool" where
  "DecCoins_IsZero coins \<longleftrightarrow> list_all (\<lambda>c. Amount c = 0) coins"

definition IsAllPositive :: "DecCoins \<Rightarrow> bool" where
  "IsAllPositive coins \<longleftrightarrow> coins \<noteq> [] \<and> list_all DecCoin_IsPositive coins"

definition DecCoins_Sort :: "DecCoins \<Rightarrow> DecCoins" where
  "DecCoins_Sort coins = sort_key Denom coins"

fun findDup_loop :: "string \<Rightarrow> DecCoins \<Rightarrow> bool" where
  "findDup_loop prevDenom [] = False"
| "findDup_loop prevDenom (c # cs) = (Denom c = prevDenom \<or> findDup_loop (Denom c) cs)"

text \<open>Whether \<open>findDup\<close> returns an index other than -1.\<close>

fun findDup :: "DecCoins \<Rightarrow> bool" where
  "findDup [] = False"
| "findDup (c # cs) = findDup_loop (Denom c) cs"

definition NewDecCoins :: "DecCoins \<Rightarrow> DecCoins res" where
  "NewDecCoins decCoins =
     (let newDecCoins = removeZeroDecCoins decCoins
      in if newDecCoins = [] then Inr []
         else
           let sorted = DecCoins_Sort newDecCoins
           in if findDup sorted then Inl (Panic ''find duplicate denom'')
              else if \<not> IsValid sorted then Inl (Panic ''invalid coin set'')
              else Inr sorted)"

definition removeZeroCoins :: "DecCoins \<Rightarrow> DecCoins" where
  "removeZeroCoins coins =
     (if coins \<noteq> [] \<and> list_all (\<lambda>c. \<not> DecCoin_IsZero c) coins then coins
      else filter (\<lambda>c. \<not> DecCoin_IsZero c) coins)"

definition NewCoins :: "DecCoins \<Rightarrow> DecCoins res" where
  "NewCoins coins =
     (let newCoins = removeZeroCoins coins
      in if length newCoins = 0 then Inr []
         else
           let sorted = (if length newCoins > 1 then DecCoins_Sort newCoins else newCoins)
           in if findDup sorted then Inl (Panic ''find duplicate denom'')
              else if \<not> IsValid sorted then Inl (Panic ''invalid coin set'')
              else Inr sorted)"

definition ToCoins :: "DecCoin \<Rightarrow> DecCoins res" where
  "ToCoins c = NewCoins [c]"

text \<open>The result is as long as the argument: where \<open>NewCoins\<close> drops a zero coin, the last coins keep
  a nil amount, whose first use panics.\<close>

definition NewDecCoinsFromCoins :: "DecCoins \<Rightarrow> DecCoins res" where
  "NewDecCoinsFromCoins coins =
     rbind (NewCoins coins) (\<lambda>newCoins.
       if length newCoins < length coins then Inl (Panic ''nil pointer dereference'') else Inr newCoins)"

primrec rall :: "('a \<Rightarrow> bool res) \<Rightarrow> 'a list \<Rightarrow> bool res" where
  "rall P [] = Inr True"
| "rall P (x # xs) = rbind (P x) (\<lambda>b. if \<not> b then Inr False else rall P xs)"

definition DecCoins_IsEqual :: "DecCoins \<Rightarrow> DecCoins \<Rightarrow> bool res" where
  "DecCoins_IsEqual coins coinsB =
     (if length coins \<noteq> length coinsB then Inr False
      else rall (\<lambda>(a, b). DecCoin_IsEqual a b) (zip (DecCoins_Sort coins) (DecCoins_Sort coinsB)))"

definition DenomsSubsetOf :: "DecCoins \<Rightarrow> DecCoins \<Rightarrow> bool res" where
  "DenomsSubsetOf coins coinsB =
     (if length coins > length coinsB then Inr False
      else rall (\<lambda>c. rbind (AmountOf coinsB (Denom c)) (\<lambda>a. Inr (a \<noteq> 0))) coins)"

definition IsAllGT :: "DecCoins \<Rightarrow> DecCoins \<Rightarrow> bool res" where
  "IsAllGT coins coinsB =
     (if coins = [] then Inr False
      else if coinsB = [] then Inr True
      else rbind (DenomsSubsetOf coinsB coins) (\<lambda>sub.
        if \<not> sub then Inr False
        else rall (\<lambda>b. rbind (AmountOf coins (Denom b)) (\<lambda>a. Inr (a > Amount b))) coinsB))"

definition IsAllGTE :: "DecCoins \<Rightarrow> DecCoins \<Rightarrow> bool res" where
  "IsAllGTE coins coinsB =
     (if coinsB = [] then Inr True
      else if coins = [] then Inr False
      else rall (\<lambda>b. rbind (AmountOf coins (Denom b)) (\<lambda>a. Inr (\<not> Amount b > a))) coinsB)"

definition IsAllLTE :: "DecCoins \<Rightarrow> DecCoins \<Rightarrow> bool res" where
  "IsAllLTE coins coinsB = IsAllGTE coinsB coins"

section \<open>Amounts\<close>

definition amt :: "DecCoins \<Rightarrow> string \<Rightarrow> int" where
  "amt coins d = (\<Sum>c\<leftarrow>coins. if Denom c = d then Amount c else 0)"

text \<open>The representation the code keeps: strictly sorted by denomination, no zero coin.\<close>

definition sorted_coins :: "DecCoins \<Rightarrow> bool" where
  "sorted_coins coins \<longleftrightarrow> sorted_wrt (<) (map Denom coins)"

definition no_zero :: "DecCoins \<Rightarrow> bool" where
  "no_zero coins \<longleftrightarrow> (\<forall>c \<in> set coins. Amount c \<noteq> 0)"

lemma amt_simps [simp]:
  "amt [] d = 0"
  "amt (c # cs) d = (if Denom c = d then Amount c else 0) + amt cs d"
  "amt (as @ bs) d = amt as d + amt bs d"
  by (simp_all add: amt_def)

lemma removeZero_filter: "removeZeroDecCoins coins = filter (\<lambda>c. Amount c \<noteq> 0) coins"
  by (auto simp: removeZeroDecCoins_def DecCoin_IsZero_def list_all_iff intro!: filter_True [symmetric])

lemma amt_removeZero [simp]: "amt (removeZeroDecCoins coins) d = amt coins d"
  unfolding removeZero_filter by (induction coins) auto

lemma DecCoin_Add_eq_Inr:
  "DecCoin_Add a b = Inr c \<longleftrightarrow>
     Denom a = Denom b \<and> dec_ok (Amount a + Amount b) \<and> c = \<lparr>Denom = Denom a, Amount = Amount a + Amount b\<rparr>"
  by (auto simp: DecCoin_Add_def)

lemma safeAdd_eq:
  assumes "Denom a = Denom b"
  shows "safeAdd (a # as) (b # bs) =
    rbind (DecCoin_Add a b) (\<lambda>res.
    rbind (safeAdd as bs) (\<lambda>sum. Inr (if DecCoin_IsZero res then sum else res # sum)))"
  using assms by simp

lemma safeAdd_gt:
  assumes "Denom b < Denom a"
  shows "safeAdd (a # as) (b # bs) =
    rbind (safeAdd (a # as) bs) (\<lambda>sum. Inr (if DecCoin_IsZero b then sum else b # sum))"
proof -
  have n: "(Denom a < Denom b) = False" "(Denom a = Denom b) = False" using assms by (auto dest: less_asym)
  show ?thesis unfolding safeAdd.simps(4) n if_False ..
qed

lemma safeAdd_Cons_ConsE:
  assumes "safeAdd (a # as) (b # bs) = Inr cs"
  obtains (lt) s where "Denom a < Denom b" "safeAdd as (b # bs) = Inr s" "cs = (if Amount a = 0 then s else a # s)"
    | (eq) s where "Denom a = Denom b" "safeAdd as bs = Inr s"
        "cs = (if Amount a + Amount b = 0 then s else \<lparr>Denom = Denom a, Amount = Amount a + Amount b\<rparr> # s)"
    | (gt) s where "Denom b < Denom a" "safeAdd (a # as) bs = Inr s" "cs = (if Amount b = 0 then s else b # s)"
proof -
  consider "Denom a < Denom b" | "Denom a = Denom b" | "Denom b < Denom a" by fastforce
  then show thesis
  proof cases
    case 1
    then obtain s where "safeAdd as (b # bs) = Inr s" "cs = (if Amount a = 0 then s else a # s)"
      using assms unfolding safeAdd.simps(4) if_P [OF 1] rbind_eq_Inr DecCoin_IsZero_def sum.inject by blast
    with 1 show thesis by (rule lt)
  next
    case 2
    then obtain r s where "DecCoin_Add a b = Inr r" "safeAdd as bs = Inr s"
      "cs = (if Amount r = 0 then s else r # s)"
      using assms unfolding safeAdd_eq [OF 2] rbind_eq_Inr DecCoin_IsZero_def sum.inject by blast
    with 2 show thesis by (intro eq [of s]) (auto simp: DecCoin_Add_eq_Inr)
  next
    case 3
    obtain s where "safeAdd (a # as) bs = Inr s" "cs = (if Amount b = 0 then s else b # s)"
      using assms unfolding safeAdd_gt [OF 3] rbind_eq_Inr DecCoin_IsZero_def sum.inject by blast
    with 3 show thesis by (rule gt)
  qed
qed

text \<open>Induction over a successful merge.\<close>

lemma safeAdd_result_induct [consumes 1, case_names left right lt eq gt]:
  assumes "safeAdd as bs = Inr cs"
    and "\<And>bs. P [] bs (removeZeroDecCoins bs)"
    and "\<And>as. P as [] (removeZeroDecCoins as)"
    and "\<And>a as b bs s. Denom a < Denom b \<Longrightarrow> P as (b # bs) s \<Longrightarrow>
           P (a # as) (b # bs) (if Amount a = 0 then s else a # s)"
    and "\<And>a as b bs s. Denom a = Denom b \<Longrightarrow> P as bs s \<Longrightarrow> P (a # as) (b # bs)
           (if Amount a + Amount b = 0 then s else \<lparr>Denom = Denom a, Amount = Amount a + Amount b\<rparr> # s)"
    and "\<And>a as b bs s. Denom b < Denom a \<Longrightarrow> P (a # as) bs s \<Longrightarrow>
           P (a # as) (b # bs) (if Amount b = 0 then s else b # s)"
  shows "P as bs cs"
  using assms(1)
proof (induction as bs arbitrary: cs rule: safeAdd.induct)
  case 1
  with assms(2) [of "[]"] show ?case by (simp add: removeZero_filter)
next
  case (2 b bs)
  then have "cs = removeZeroDecCoins (b # bs)" by simp
  then show ?case using assms(2) by blast
next
  case (3 a as)
  then have "cs = removeZeroDecCoins (a # as)" by simp
  then show ?case using assms(3) by blast
next
  case (4 a as b bs)
  from "4.prems" show ?case
  proof (cases rule: safeAdd_Cons_ConsE)
    case (lt s)
    then have "P as (b # bs) s" using "4.IH"(1) by blast
    with lt assms(4) show ?thesis by blast
  next
    case (eq s)
    then have "\<not> Denom a < Denom b" by simp
    moreover obtain r where "DecCoin_Add a b = Inr r" using "4.prems" eq calculation by auto
    ultimately have "P as bs s" using "4.IH"(2) eq by blast
    with eq assms(5) show ?thesis by blast
  next
    case (gt s)
    then have "\<not> Denom a < Denom b" "Denom a \<noteq> Denom b" by auto
    then have "P (a # as) bs s" using gt "4.IH"(3) by blast
    with gt assms(6) show ?thesis by blast
  qed
qed

lemma safeAdd_amt: "safeAdd as bs = Inr cs \<Longrightarrow> amt cs d = amt as d + amt bs d"
  by (induction rule: safeAdd_result_induct) simp_all

lemma safeAdd_denoms: "safeAdd as bs = Inr cs \<Longrightarrow> Denom ` set cs \<subseteq> Denom ` set as \<union> Denom ` set bs"
  by (induction rule: safeAdd_result_induct) (auto simp: removeZero_filter)

lemma safeAdd_no_zero: "safeAdd as bs = Inr cs \<Longrightarrow> no_zero cs"
  by (induction rule: safeAdd_result_induct) (simp_all add: removeZero_filter no_zero_def)

lemma sorted_coins_Cons:
  "sorted_coins (c # cs) \<longleftrightarrow> (\<forall>x \<in> Denom ` set cs. Denom c < x) \<and> sorted_coins cs"
  by (auto simp: sorted_coins_def)

lemma sorted_removeZero: "sorted_coins cs \<Longrightarrow> sorted_coins (removeZeroDecCoins cs)"
  by (simp add: removeZero_filter sorted_coins_def sorted_wrt_map_fst_filter)

lemma sorted_coins_ConsI:
  "sorted_coins s \<Longrightarrow> Denom ` set s \<subseteq> A \<Longrightarrow> (\<And>x. x \<in> A \<Longrightarrow> Denom a < x) \<Longrightarrow>
   sorted_coins (if Q then s else a # s)"
  by (auto simp: sorted_coins_Cons)

lemma sorted_coins_above:
  "sorted_coins (b # bs) \<Longrightarrow> d < Denom b \<Longrightarrow> x \<in> Denom ` set (b # bs) \<Longrightarrow> d < x"
  by (auto simp: sorted_coins_Cons dest: less_trans)

lemma sorted_coins_tl: "sorted_coins (a # as) \<Longrightarrow> sorted_coins as"
  by (simp add: sorted_coins_Cons)

lemma sorted_coins_hd: "sorted_coins (a # as) \<Longrightarrow> x \<in> Denom ` set as \<Longrightarrow> Denom a < x"
  unfolding sorted_coins_Cons by blast

lemma safeAdd_sorted_aux:
  assumes "safeAdd as bs = Inr cs"
  shows "(sorted_coins as \<longrightarrow> sorted_coins bs \<longrightarrow> sorted_coins cs) \<and>
     Denom ` set cs \<subseteq> Denom ` set as \<union> Denom ` set bs"
  using assms
proof (induction rule: safeAdd_result_induct)
  case (left bs)
  then show ?case using sorted_removeZero [of bs] by (auto simp: removeZero_filter)
next
  case (right as)
  then show ?case using sorted_removeZero [of as] by (auto simp: removeZero_filter)
next
  case (lt a as b bs s)
  have "sorted_coins (if Amount a = 0 then s else a # s)" if "sorted_coins (a # as)" "sorted_coins (b # bs)"
    using lt that sorted_coins_above [of b bs "Denom a"] sorted_coins_hd [of a as] sorted_coins_tl [of a as]
    by (intro sorted_coins_ConsI [of s "Denom ` set as \<union> Denom ` set (b # bs)"]) blast+
  then show ?case using lt(2) by auto
next
  case (eq a as b bs s)
  let ?c = "\<lparr>Denom = Denom a, Amount = Amount a + Amount b\<rparr>"
  have "sorted_coins (if Amount a + Amount b = 0 then s else ?c # s)"
    if "sorted_coins (a # as)" "sorted_coins (b # bs)"
  proof (rule sorted_coins_ConsI [of s "Denom ` set as \<union> Denom ` set bs"])
    show "sorted_coins s" using that eq(2) sorted_coins_tl by blast
    show "Denom ` set s \<subseteq> Denom ` set as \<union> Denom ` set bs" using eq(2) by blast
    show "Denom ?c < x" if "x \<in> Denom ` set as \<union> Denom ` set bs" for x
      using that \<open>sorted_coins (a # as)\<close> \<open>sorted_coins (b # bs)\<close> eq(1) sorted_coins_hd [of a as x] sorted_coins_hd [of b bs x]
      by auto
  qed
  then show ?case using eq(2) by auto
next
  case (gt a as b bs s)
  have "sorted_coins (if Amount b = 0 then s else b # s)" if "sorted_coins (a # as)" "sorted_coins (b # bs)"
    using gt that sorted_coins_above [of a as "Denom b"] sorted_coins_hd [of b bs] sorted_coins_tl [of b bs]
    by (intro sorted_coins_ConsI [of s "Denom ` set (a # as) \<union> Denom ` set bs"]) blast+
  then show ?case using gt(2) by auto
qed

lemma safeAdd_sorted:
  "safeAdd as bs = Inr cs \<Longrightarrow> sorted_coins as \<Longrightarrow> sorted_coins bs \<Longrightarrow> sorted_coins cs"
  using safeAdd_sorted_aux by blast

lemma amt_negative [simp]: "amt (negative cs) d = - amt cs d"
  by (induction cs) (auto simp: negative_def)

lemma sorted_negative [simp]: "sorted_coins (negative cs) = sorted_coins cs"
  by (simp add: sorted_coins_def negative_def comp_def)

lemma amt_notin: "d \<notin> Denom ` set cs \<Longrightarrow> amt cs d = 0"
  by (induction cs) auto

lemma amt_sorted_mem: "sorted_coins cs \<Longrightarrow> c \<in> set cs \<Longrightarrow> amt cs (Denom c) = Amount c"
proof (induction cs)
  case (Cons a as)
  show ?case
  proof (cases "c = a")
    case True
    with Cons.prems have "Denom c \<notin> Denom ` set as" by (auto simp: sorted_coins_Cons)
    with True show ?thesis by (simp add: amt_notin)
  next
    case False
    with Cons show ?thesis by (auto simp: sorted_coins_Cons)
  qed
qed simp

lemma amt_nonzero_mem: "amt cs d \<noteq> 0 \<Longrightarrow> d \<in> Denom ` set cs"
  using amt_notin by blast

lemma amt_nonzero_sorted: "sorted_coins cs \<Longrightarrow> no_zero cs \<Longrightarrow> Denom ` set cs = {d. amt cs d \<noteq> 0}"
  using amt_sorted_mem by (fastforce simp: no_zero_def dest: amt_nonzero_mem)

lemma IsAnyNegative_amt: "sorted_coins cs \<Longrightarrow> IsAnyNegative cs \<longleftrightarrow> (\<exists>d. amt cs d < 0)"
proof -
  assume s: "sorted_coins cs"
  have "\<exists>c \<in> set cs. Amount c < 0" if "amt cs d < 0" for d
  proof -
    from that amt_nonzero_mem [of cs d] obtain c where "c \<in> set cs" "Denom c = d" by auto
    with s that amt_sorted_mem show ?thesis by fastforce
  qed
  moreover have "\<exists>d. amt cs d < 0" if "c \<in> set cs" "Amount c < 0" for c
    using that s amt_sorted_mem by metis
  ultimately show ?thesis
    by (auto simp: IsAnyNegative_def list_ex_iff DecCoin_IsNegative_def)
qed

lemma SafeSub_spec:
  assumes "SafeSub as bs = Inr (diff, neg)"
  shows "amt diff d = amt as d - amt bs d" "no_zero diff"
    "sorted_coins as \<Longrightarrow> sorted_coins bs \<Longrightarrow> sorted_coins diff"
    "sorted_coins as \<Longrightarrow> sorted_coins bs \<Longrightarrow> neg \<longleftrightarrow> (\<exists>d. amt as d < amt bs d)"
proof -
  from assms have add: "safeAdd as (negative bs) = Inr diff" and neg: "neg = IsAnyNegative diff"
    by (auto simp: SafeSub_def)
  show a: "amt diff d = amt as d - amt bs d" for d using safeAdd_amt [OF add] by simp
  show "no_zero diff" using safeAdd_no_zero [OF add] .
  show s: "sorted_coins diff" if "sorted_coins as" "sorted_coins bs"
    using safeAdd_sorted [OF add] that by simp
  show "neg \<longleftrightarrow> (\<exists>d. amt as d < amt bs d)" if "sorted_coins as" "sorted_coins bs"
    using IsAnyNegative_amt [OF s] that a neg by (metis diff_less_0_iff_less)
qed

lemma DecCoins_Sub_spec:
  assumes "DecCoins_Sub as bs = Inr diff"
  shows "amt diff d = amt as d - amt bs d" "no_zero diff"
    "sorted_coins as \<Longrightarrow> sorted_coins bs \<Longrightarrow> sorted_coins diff"
    "sorted_coins as \<Longrightarrow> sorted_coins bs \<Longrightarrow> amt bs d \<le> amt as d"
proof -
  have sub: "SafeSub as bs = Inr (diff, False)"
    using assms by (auto simp: DecCoins_Sub_def split: if_splits)
  show "amt diff d = amt as d - amt bs d" "no_zero diff" using SafeSub_spec(1,2) [OF sub] .
  show "sorted_coins diff" if "sorted_coins as" "sorted_coins bs" using SafeSub_spec(3) [OF sub that] .
  show "amt bs d \<le> amt as d" if "sorted_coins as" "sorted_coins bs"
    using SafeSub_spec(4) [OF sub that] linorder_not_less by blast
qed

text \<open>A sorted set without zero coins is determined by its amounts.\<close>

lemma coins_ext:
  "sorted_coins as \<Longrightarrow> sorted_coins bs \<Longrightarrow> no_zero as \<Longrightarrow> no_zero bs \<Longrightarrow>
   (\<And>d. amt as d = amt bs d) \<Longrightarrow> as = bs"
proof -
  assume s: "sorted_coins as" "sorted_coins bs" and z: "no_zero as" "no_zero bs"
    and eq: "\<And>d. amt as d = amt bs d"
  have "set (map Denom as) = set (map Denom bs)"
    unfolding set_map amt_nonzero_sorted [OF s(1) z(1)] amt_nonzero_sorted [OF s(2) z(2)] eq ..
  then have den: "map Denom as = map Denom bs"
    using s by (intro strict_sorted_equal) (auto simp: sorted_coins_def)
  have "map Amount as = map Amount bs"
  proof -
    have "map Amount cs = map (amt cs) (map Denom cs)" if "sorted_coins cs" for cs
      using amt_sorted_mem [OF that] by simp
    moreover have "amt as = amt bs" using eq by auto
    ultimately show ?thesis using s den by metis
  qed
  with den show ?thesis
    by (induction as bs rule: list_induct2') auto
qed

section \<open>Lookup\<close>

lemma mustValidateDenom_eq_Inr [simp]: "mustValidateDenom d = Inr u \<longleftrightarrow> ValidateDenom d = Inr u"
  by (auto simp: mustValidateDenom_def split: sum.splits)

lemma mustValidateDenom_ok: "ValidateDenom d = Inr u \<Longrightarrow> mustValidateDenom d = Inr u"
  by simp

lemma sorted_coins_append:
  "sorted_coins (as @ bs) \<longleftrightarrow> sorted_coins as \<and> sorted_coins bs \<and> (\<forall>a\<in>set as. \<forall>b\<in>set bs. Denom a < Denom b)"
  by (auto simp: sorted_coins_def sorted_wrt_append)

lemma amt_split_mid:
  assumes s: "sorted_coins cs" and m: "m < length cs"
  shows "d < Denom (cs ! m) \<Longrightarrow> amt cs d = amt (take m cs) d"
    and "Denom (cs ! m) < d \<Longrightarrow> amt cs d = amt (drop (Suc m) cs) d"
proof -
  have cs: "cs = take m cs @ cs ! m # drop (Suc m) cs"
    using m by (rule id_take_nth_drop)
  have s': "sorted_coins (take m cs @ cs ! m # drop (Suc m) cs)" using s cs by simp
  have lo: "Denom a < Denom (cs ! m)" if "a \<in> set (take m cs)" for a
    using s' that unfolding sorted_coins_append by auto
  have hi: "Denom (cs ! m) < Denom b" if "b \<in> set (drop (Suc m) cs)" for b
    using s' that unfolding sorted_coins_append sorted_coins_Cons by auto
  have amt: "amt cs d = amt (take m cs) d + ((if Denom (cs ! m) = d then Amount (cs ! m) else 0) + amt (drop (Suc m) cs) d)" for d
    by (subst cs) (simp only: amt_simps)
  show "amt cs d = amt (take m cs) d" if "d < Denom (cs ! m)"
  proof -
    have "d \<notin> Denom ` set (drop (Suc m) cs)" using hi that by (fastforce dest: less_trans)
    with amt_notin [of d "drop (Suc m) cs"] amt [of d] that show ?thesis by auto
  qed
  show "amt cs d = amt (drop (Suc m) cs) d" if "Denom (cs ! m) < d"
  proof -
    have "d \<notin> Denom ` set (take m cs)" using lo that by (fastforce dest: less_trans)
    with amt_notin [of d "take m cs"] amt [of d] that show ?thesis by auto
  qed
qed

lemma sorted_coins_take: "sorted_coins cs \<Longrightarrow> sorted_coins (take m cs)"
  and sorted_coins_drop: "sorted_coins cs \<Longrightarrow> sorted_coins (drop m cs)"
  by (simp_all add: sorted_coins_def sorted_wrt_take sorted_wrt_drop flip: take_map drop_map)

lemma AmountOf_sorted:
  assumes "ValidateDenom d = Inr ()" "sorted_coins cs"
  shows "AmountOf cs d = Inr (amt cs d)"
  using assms(2)
proof (induction "length cs" arbitrary: cs rule: less_induct)
  case less
  have v: "mustValidateDenom d = Inr ()" using assms(1) by simp
  consider "cs = []" | c where "cs = [c]" | "2 \<le> length cs"
    by (cases cs; cases "tl cs") auto
  then show ?case
  proof cases
    case 1
    then show ?thesis by (simp add: AmountOf.simps [of "[]" d] v ZeroDec_def)
  next
    case (2 c)
    then show ?thesis by (simp add: AmountOf.simps [of "[c]" d] v ZeroDec_def)
  next
    case 3
    define m where "m = length cs div 2"
    have m: "m < length cs" "0 < m" using 3 by (auto simp: m_def)
    have unf: "AmountOf cs d = (if d < Denom (cs ! m) then AmountOf (take m cs) d
        else if d = Denom (cs ! m) then Inr (Amount (cs ! m)) else AmountOf (drop (m + 1) cs) d)"
    proof -
      have n: "(length cs = 0) = False" "(length cs = 1) = False" using 3 by auto
      show ?thesis
        unfolding AmountOf.simps [of cs d] v rbind_simps Let_def n if_False m_def [symmetric] ..
    qed
    consider "d < Denom (cs ! m)" | "d = Denom (cs ! m)" | "Denom (cs ! m) < d" by fastforce
    then show ?thesis
    proof cases
      case 1
      have "AmountOf (take m cs) d = Inr (amt (take m cs) d)"
        using less m by (intro less.hyps) (auto simp: sorted_coins_take)
      with 1 unf amt_split_mid(1) [OF less.prems m(1) 1] show ?thesis by simp
    next
      case 2
      with unf amt_sorted_mem [OF less.prems, of "cs ! m"] m show ?thesis by simp
    next
      case 3
      have "AmountOf (drop (m + 1) cs) d = Inr (amt (drop (m + 1) cs) d)"
        using less m by (intro less.hyps) (auto simp: sorted_coins_drop)
      moreover have "\<not> d < Denom (cs ! m)" "d \<noteq> Denom (cs ! m)" using 3 by auto
      ultimately show ?thesis using unf amt_split_mid(2) [OF less.prems m(1) 3] by simp
    qed
  qed
qed

lemma AmountOf_eq_Inr: "sorted_coins cs \<Longrightarrow> AmountOf cs d = Inr a \<longleftrightarrow> ValidateDenom d = Inr () \<and> a = amt cs d"
proof (cases "ValidateDenom d")
  case (Inl e)
  then show "?thesis" by (subst AmountOf.simps) auto
next
  case (Inr u)
  assume "sorted_coins cs"
  with Inr AmountOf_sorted [of d cs] show ?thesis by auto
qed

section \<open>Validity\<close>

lemma IsValid_loop_sorted:
  "IsValid_loop d cs \<Longrightarrow> sorted_coins cs \<and> (\<forall>c\<in>set cs. d < Denom c \<and> 0 < Amount c)"
proof (induction d cs rule: IsValid_loop.induct)
  case (2 d c cs)
  then have "sorted_coins cs" "\<forall>x\<in>set cs. Denom c < Denom x \<and> 0 < Amount x" "d < Denom c" "0 < Amount c"
    by (auto simp: DecCoin_IsPositive_def)
  then show ?case by (auto simp: sorted_coins_Cons intro: less_trans)
qed (simp add: sorted_coins_def)

lemma IsValid_sorted:
  assumes "IsValid cs" shows "sorted_coins cs" "\<forall>c\<in>set cs. 0 < Amount c" "no_zero cs"
proof -
  have "sorted_coins cs \<and> (\<forall>c\<in>set cs. 0 < Amount c)"
  proof (cases cs)
    case (Cons c cs')
    with assms IsValid_loop_sorted [of "Denom c" cs'] show ?thesis
      by (auto simp: sorted_coins_Cons DecCoin_IsPositive_def split: sum.splits)
  qed (simp add: sorted_coins_def)
  then show "sorted_coins cs" "\<forall>c\<in>set cs. 0 < Amount c" "no_zero cs"
    by (auto simp: no_zero_def)
qed

lemma amt_nonneg: "\<forall>c\<in>set cs. 0 \<le> Amount c \<Longrightarrow> 0 \<le> amt cs d"
  by (induction cs) auto

lemma IsValid_amt_nonneg: "IsValid cs \<Longrightarrow> 0 \<le> amt cs d"
  using IsValid_sorted(2) amt_nonneg [of cs d] by fastforce

lemma IsValid_single:
  "IsValid [c] \<longleftrightarrow> ValidateDenom (Denom c) = Inr () \<and> 0 < Amount c"
  by (auto simp: DecCoin_IsPositive_def split: sum.splits)

section \<open>Loops over coin sets\<close>

lemma DecCoins_Add_spec:
  assumes "DecCoins_Add as bs = Inr cs"
  shows "amt cs d = amt as d + amt bs d" "no_zero cs"
    "sorted_coins as \<Longrightarrow> sorted_coins bs \<Longrightarrow> sorted_coins cs"
    "Denom ` set cs \<subseteq> Denom ` set as \<union> Denom ` set bs"
  using assms safeAdd_amt [of as bs cs d] safeAdd_no_zero [of as bs cs] safeAdd_sorted [of as bs cs]
    safeAdd_denoms [of as bs cs]
  by (auto simp: DecCoins_Add_def)

lemma sorted_coins_single [simp]: "sorted_coins []" "sorted_coins [c]"
  by (simp_all add: sorted_coins_def)

lemma no_zero_Nil [simp]: "no_zero []"
  by (simp add: no_zero_def)

definition canonical :: "DecCoins \<Rightarrow> bool" where
  "canonical cs \<longleftrightarrow> sorted_coins cs \<and> no_zero cs"

lemma canonical_Nil [simp]: "canonical []"
  by (simp add: canonical_def)

lemma canonical_Add: "DecCoins_Add as bs = Inr cs \<Longrightarrow> canonical as \<Longrightarrow> canonical bs \<Longrightarrow> canonical cs"
  using DecCoins_Add_spec [of as bs cs] by (simp add: canonical_def)

lemma canonical_Sub: "DecCoins_Sub as bs = Inr cs \<Longrightarrow> canonical as \<Longrightarrow> canonical bs \<Longrightarrow> canonical cs"
  using DecCoins_Sub_spec [of as bs cs] by (simp add: canonical_def)

lemma IsValid_canonical: "IsValid cs \<Longrightarrow> canonical cs"
  using IsValid_sorted by (auto simp: canonical_def)

lemma canonical_ext: "canonical as \<Longrightarrow> canonical bs \<Longrightarrow> (\<And>d. amt as d = amt bs d) \<Longrightarrow> as = bs"
  using coins_ext by (simp add: canonical_def)

text \<open>One step of the loops: a coin is added to the result unless it is zero.\<close>

definition add_nonzero :: "DecCoins \<Rightarrow> DecCoin \<Rightarrow> DecCoins res" where
  "add_nonzero cs c = (if \<not> DecCoin_IsZero c then DecCoins_Add cs [c] else Inr cs)"

lemma add_nonzero_spec:
  assumes "add_nonzero cs c = Inr r" "canonical cs"
  shows "canonical r" "amt r d = amt cs d + amt [c] d"
proof -
  have "canonical r \<and> amt r d = amt cs d + amt [c] d"
  proof (cases "Amount c = 0")
    case False
    then have "DecCoins_Add cs [c] = Inr r" using assms(1) by (simp add: add_nonzero_def DecCoin_IsZero_def)
    note add = DecCoins_Add_spec [OF this]
    show ?thesis using add(1) [of d] add(2,3) assms(2) unfolding canonical_def by (meson sorted_coins_single)
  qed (use assms in \<open>simp add: add_nonzero_def DecCoin_IsZero_def\<close>)
  then show "canonical r" "amt r d = amt cs d + amt [c] d" by auto
qed

lemma rfold_scale:
  assumes "rfold (\<lambda>c res. rbind (f (Amount c)) (\<lambda>a. add_nonzero res \<lparr>Denom = Denom c, Amount = a\<rparr>)) cs acc = Inr r"
    "canonical acc"
  shows "canonical r \<and> (\<forall>c\<in>set cs. \<exists>a. f (Amount c) = Inr a) \<and>
    amt r d = amt acc d + (\<Sum>c\<leftarrow>cs. if Denom c = d then projr (f (Amount c)) else 0)"
  using assms
proof (induction cs arbitrary: acc)
  case (Cons c cs)
  from Cons.prems(1) obtain a acc' where st: "f (Amount c) = Inr a"
      "add_nonzero acc \<lparr>Denom = Denom c, Amount = a\<rparr> = Inr acc'"
      and rest: "rfold (\<lambda>c res. rbind (f (Amount c)) (\<lambda>a. add_nonzero res \<lparr>Denom = Denom c, Amount = a\<rparr>)) cs acc' = Inr r"
    by auto
  from add_nonzero_spec [OF st(2) Cons.prems(2)]
  have c': "canonical acc'" "amt acc' d = amt acc d + (if Denom c = d then a else 0)" by simp_all
  show ?case using Cons.IH [OF rest c'(1)] c'(2) st(1) by simp
qed simp

lemma scale_coins_eq:
  "scale_coins f cs = rfold (\<lambda>c res. rbind (f (Amount c)) (\<lambda>a. add_nonzero res \<lparr>Denom = Denom c, Amount = a\<rparr>)) cs []"
  by (simp add: scale_coins_def add_nonzero_def Let_def)

lemma scale_coins_spec:
  assumes "scale_coins f cs = Inr r"
  shows "canonical r" "c \<in> set cs \<Longrightarrow> \<exists>a. f (Amount c) = Inr a"
    "amt r d = (\<Sum>c\<leftarrow>cs. if Denom c = d then projr (f (Amount c)) else 0)"
  using rfold_scale [of f cs "[]" r d] assms by (auto simp: scale_coins_eq)

lemma sum_list_unique_denom:
  assumes "sorted_coins cs" "c \<in> set cs"
  shows "(\<Sum>x\<leftarrow>cs. if Denom x = Denom c then g (Amount x) else 0) = (g (Amount c) :: int)"
  using assms
proof (induction cs)
  case (Cons a as)
  have *: "(\<Sum>x\<leftarrow>as. if Denom x = d then g (Amount x) else 0) = 0" if "d \<notin> Denom ` set as" for d
    using that by (induction as) auto
  show ?case
  proof (cases "c \<in> set as")
    case True
    with Cons.prems have "Denom a < Denom c" by (auto simp: sorted_coins_Cons)
    with True Cons show ?thesis by (auto simp: sorted_coins_Cons)
  next
    case False
    with Cons.prems have "c = a" "Denom a \<notin> Denom ` set as" by (auto simp: sorted_coins_Cons)
    with * show ?thesis by simp
  qed
qed simp

text \<open>On a sorted set the loop applies \<open>f\<close> to every amount.\<close>

lemma scale_coins_sorted:
  assumes "scale_coins f cs = Inr r" "sorted_coins cs"
  shows "d \<in> Denom ` set cs \<Longrightarrow> f (amt cs d) = Inr (amt r d)"
    and "d \<notin> Denom ` set cs \<Longrightarrow> amt r d = 0"
proof -
  assume "d \<in> Denom ` set cs"
  then obtain c where c: "c \<in> set cs" "d = Denom c" by blast
  from scale_coins_spec(2) [OF assms(1) c(1)] obtain a where a: "f (Amount c) = Inr a" by blast
  have "amt r d = a"
    unfolding scale_coins_spec(3) [OF assms(1)] c(2) sum_list_unique_denom [OF assms(2) c(1), of "\<lambda>x. projr (f x)"] a
    by simp
  with a show "f (amt cs d) = Inr (amt r d)" unfolding c(2) amt_sorted_mem [OF assms(2) c(1)] by simp
next
  assume n: "d \<notin> Denom ` set cs"
  have "(\<Sum>c\<leftarrow>cs. if Denom c = d then projr (f (Amount c)) else 0) = 0"
    using n by (induction cs) auto
  then show "amt r d = 0" unfolding scale_coins_spec(3) [OF assms(1)] .
qed

lemma rfold_split:
  assumes "rfold (\<lambda>c (t, r). rbind (f c) (\<lambda>(a, b). rbind (add_nonzero t a) (\<lambda>t. rbind (add_nonzero r b) (\<lambda>r. Inr (t, r)))))
      cs (t0, r0) = Inr (t, r)"
    "canonical t0" "canonical r0"
    "\<And>c a b. f c = Inr (a, b) \<Longrightarrow> amt [a] d + amt [b] d = amt [c] d"
  shows "canonical t \<and> canonical r \<and> amt t d + amt r d = amt t0 d + amt r0 d + amt cs d"
  using assms(1-3)
proof (induction cs arbitrary: t0 r0)
  case (Cons c cs)
  let ?g = "\<lambda>c (t, r). rbind (f c) (\<lambda>(a, b). rbind (add_nonzero t a) (\<lambda>t. rbind (add_nonzero r b) (\<lambda>r. Inr (t, r))))"
  from Cons.prems(1) obtain a b t1 r1 where st: "f c = Inr (a, b)" "add_nonzero t0 a = Inr t1" "add_nonzero r0 b = Inr r1"
      and rest: "rfold ?g cs (t1, r1) = Inr (t, r)"
    by auto
  note t1 = add_nonzero_spec [OF st(2) Cons.prems(2)] and r1 = add_nonzero_spec [OF st(3) Cons.prems(3)]
  have "amt t1 d + amt r1 d = amt t0 d + amt r0 d + amt [c] d"
    using assms(4) [OF st(1)] t1(2) [of d] r1(2) [of d] by linarith
  with Cons.IH [OF rest t1(1) r1(1)] show ?case by simp
qed simp

lemma split_coins_eq:
  "split_coins f cs =
     rfold (\<lambda>c (t, r). rbind (f c) (\<lambda>(a, b). rbind (add_nonzero t a) (\<lambda>t. rbind (add_nonzero r b) (\<lambda>r. Inr (t, r))))) cs ([], [])"
  by (simp add: split_coins_def add_nonzero_def)

lemma split_coins_spec:
  assumes "split_coins f cs = Inr (t, r)" "\<And>c a b. f c = Inr (a, b) \<Longrightarrow> amt [a] d + amt [b] d = amt [c] d"
  shows "canonical t" "canonical r" "amt t d + amt r d = amt cs d"
  using rfold_split [OF assms(1) [unfolded split_coins_eq] _ _ assms(2)] by auto

lemma NewDecCoin_eq_Inr:
  "NewDecCoin d n = Inr c \<longleftrightarrow> ValidateDenom d = Inr () \<and> 0 \<le> n \<and> c = \<lparr>Denom = d, Amount = n * precisionReuse\<rparr>"
  by (auto simp: NewDecCoin_def validate_def split: sum.splits)

lemma NewDecCoinFromDec_eq_Inr:
  "NewDecCoinFromDec d a = Inr c \<longleftrightarrow> ValidateDenom d = Inr () \<and> 0 \<le> a \<and> c = \<lparr>Denom = d, Amount = a\<rparr>"
  by (auto simp: NewDecCoinFromDec_def)

lemma DecCoin_TruncateDecimal_sum:
  "DecCoin_TruncateDecimal c = Inr (t, r) \<Longrightarrow> Denom t = Denom c \<and> Denom r = Denom c \<and> Amount t + Amount r = Amount c"
  by (auto simp: DecCoin_TruncateDecimal_def NewDecCoin_eq_Inr NewDecCoinFromDec_eq_Inr)

lemma DecCoin_TruncateWithPrec_sum:
  "DecCoin_TruncateWithPrec c p = Inr (t, r) \<Longrightarrow> Denom t = Denom c \<and> Denom r = Denom c \<and> Amount t + Amount r = Amount c"
  by (auto simp: DecCoin_TruncateWithPrec_def NewDecCoinFromDec_eq_Inr split: if_splits)

lemma TruncateDecimal_spec:
  assumes "TruncateDecimal cs = Inr (t, r)"
  shows "canonical t" "canonical r" "amt t d + amt r d = amt cs d"
  using split_coins_spec [OF assms [unfolded TruncateDecimal_def], of d] DecCoin_TruncateDecimal_sum
  by fastforce+

lemma TruncateWithPrec_spec:
  assumes "TruncateWithPrec cs p = Inr (t, r)"
  shows "canonical t" "canonical r" "amt t d + amt r d = amt cs d"
  using split_coins_spec [OF assms [unfolded TruncateWithPrec_def], of d] DecCoin_TruncateWithPrec_sum
  by fastforce+

section \<open>Success\<close>

lemma safeAdd_Cons_Cons_total:
  assumes "Denom a < Denom b \<Longrightarrow> \<exists>cs. safeAdd as (b # bs) = Inr cs"
    and "Denom a = Denom b \<Longrightarrow> dec_ok (Amount a + Amount b) \<and> (\<exists>cs. safeAdd as bs = Inr cs)"
    and "Denom b < Denom a \<Longrightarrow> \<exists>cs. safeAdd (a # as) bs = Inr cs"
  shows "\<exists>cs. safeAdd (a # as) (b # bs) = Inr cs"
proof -
  consider "Denom a < Denom b" | "Denom a = Denom b" | "Denom b < Denom a" by fastforce
  then show ?thesis
  proof cases
    case 1
    with assms(1) obtain s where "safeAdd as (b # bs) = Inr s" by blast
    then show ?thesis unfolding safeAdd.simps(4) if_P [OF 1] by simp
  next
    case 2
    with assms(2) obtain s where "dec_ok (Amount a + Amount b)" "safeAdd as bs = Inr s" by blast
    then show ?thesis unfolding safeAdd_eq [OF 2] by (simp add: DecCoin_Add_def 2 Dec_Add_def dec_fit_ok)
  next
    case 3
    with assms(3) obtain s where "safeAdd (a # as) bs = Inr s" by blast
    then show ?thesis unfolding safeAdd_gt [OF 3] by simp
  qed
qed

lemma safeAdd_total:
  assumes "sorted_coins as" "sorted_coins bs" "\<And>d. dec_ok (amt as d + amt bs d)"
  shows "\<exists>cs. safeAdd as bs = Inr cs"
  using assms
proof (induction as bs rule: safeAdd.induct)
  case (4 a as b bs)
  have s: "sorted_coins as" "sorted_coins bs" using 4(4,5) sorted_coins_tl by blast+
  have notin: "amt cs d = 0" if "sorted_coins (c # cs)" "d \<le> Denom c" for c cs d
    using that by (intro amt_notin) (auto simp: sorted_coins_Cons)
  show ?case
  proof (rule safeAdd_Cons_Cons_total)
    assume lt: "Denom a < Denom b"
    have "dec_ok (amt as d + amt (b # bs) d)" for d
    proof (cases "d = Denom a")
      case True
      then have "amt as d = 0" "amt (b # bs) d = 0" using lt notin [OF 4(4)] notin [OF 4(5)] by auto
      then show ?thesis by (simp add: dec_ok_def)
    next
      case False then show ?thesis using 4(6) [of d] by simp
    qed
    then show "\<exists>cs. safeAdd as (b # bs) = Inr cs" using 4(1) [OF lt s(1) 4(5)] by blast
  next
    assume eq: "Denom a = Denom b"
    have z: "amt as (Denom a) = 0" "amt bs (Denom a) = 0" using notin [OF 4(4)] notin [OF 4(5)] eq by auto
    have "dec_ok (amt as d + amt bs d)" for d
      using 4(6) [of d] z eq by (cases "d = Denom a") (auto simp: dec_ok_def)
    moreover have "dec_ok (Amount a + Amount b)" using 4(6) [of "Denom a"] z eq by simp
    ultimately show "dec_ok (Amount a + Amount b) \<and> (\<exists>cs. safeAdd as bs = Inr cs)"
      using 4(2) [OF _ eq _ s] eq by (auto simp: DecCoin_Add_def)
  next
    assume gt: "Denom b < Denom a"
    then have ng: "\<not> Denom a < Denom b" "Denom a \<noteq> Denom b" by auto
    have "dec_ok (amt (a # as) d + amt bs d)" for d
    proof (cases "d = Denom b")
      case True
      then have "amt bs d = 0" "amt (a # as) d = 0" using gt notin [OF 4(4)] notin [OF 4(5)] by auto
      then show ?thesis by (simp add: dec_ok_def)
    next
      case False then show ?thesis using 4(6) [of d] by simp
    qed
    then show "\<exists>cs. safeAdd (a # as) bs = Inr cs" using 4(3) [OF ng 4(4) s(2)] by blast
  qed
qed auto

lemma DecCoins_Sub_total:
  assumes "sorted_coins as" "sorted_coins bs" "\<And>d. amt bs d \<le> amt as d" "\<And>d. dec_ok (amt as d - amt bs d)"
  shows "\<exists>cs. DecCoins_Sub as bs = Inr cs"
proof -
  have "dec_ok (amt as d + amt (negative bs) d)" for d using assms(4) [of d] by simp
  then obtain diff where d: "safeAdd as (negative bs) = Inr diff"
    using safeAdd_total [OF assms(1), of "negative bs"] assms(2) by auto
  then have sub: "SafeSub as bs = Inr (diff, IsAnyNegative diff)" by (simp add: SafeSub_def)
  have "\<not> IsAnyNegative diff" using SafeSub_spec(4) [OF sub assms(1,2)] assms(3) by (meson not_less)
  with sub show ?thesis by (simp add: DecCoins_Sub_def)
qed

text \<open>Subtracting from a sum of coin sets the set that was added returns the first set
  itself, coin by coin, and never panics.\<close>

theorem DecCoins_Add_Sub:
  assumes "canonical as" "canonical bs" "\<And>d. 0 \<le> amt as d \<and> dec_ok (amt as d)"
    and "DecCoins_Add as bs = Inr cs"
  shows "DecCoins_Sub cs bs = Inr as"
proof -
  have cs: "canonical cs" "amt cs d = amt as d + amt bs d" for d
    using assms canonical_Add DecCoins_Add_spec(1) by blast+
  have "\<exists>r. DecCoins_Sub cs bs = Inr r"
    using assms cs by (intro DecCoins_Sub_total) (auto simp: canonical_def)
  then obtain r where r: "DecCoins_Sub cs bs = Inr r" ..
  then have "r = as" using DecCoins_Sub_spec(1) [OF r] cs assms canonical_Sub [OF r]
    by (intro canonical_ext) auto
  with r show ?thesis by simp
qed

theorem DecCoins_Add_Sub_witness:
  "DecCoins_Sub [\<lparr>Denom = ''btc'', Amount = 2\<rparr>, \<lparr>Denom = ''okb'', Amount = 8\<rparr>] [\<lparr>Denom = ''okb'', Amount = 3\<rparr>] =
   Inr [\<lparr>Denom = ''btc'', Amount = 2\<rparr>, \<lparr>Denom = ''okb'', Amount = 5\<rparr>]"
proof (rule DecCoins_Add_Sub)
  show "DecCoins_Add [\<lparr>Denom = ''btc'', Amount = 2\<rparr>, \<lparr>Denom = ''okb'', Amount = 5\<rparr>] [\<lparr>Denom = ''okb'', Amount = 3\<rparr>] =
    Inr [\<lparr>Denom = ''btc'', Amount = 2\<rparr>, \<lparr>Denom = ''okb'', Amount = 8\<rparr>]" by code_simp
qed (auto simp: canonical_def sorted_coins_def no_zero_def dec_ok_def less_list_code)

text \<open>\<open>SafeSub\<close> reports a negative result exactly when some denomination of the first set is
  short of what the second takes; the difference is pointwise in any case.\<close>

theorem SafeSub_insufficient:
  assumes "sorted_coins as" "sorted_coins bs" "SafeSub as bs = Inr (diff, neg)"
  shows "(neg \<longleftrightarrow> (\<exists>d. amt as d < amt bs d)) \<and> (\<forall>d. amt diff d = amt as d - amt bs d) \<and> canonical diff"
  using SafeSub_spec [OF assms(3)] assms(1,2) by (simp add: canonical_def)

theorem SafeSub_insufficient_witness:
  "SafeSub [\<lparr>Denom = ''okb'', Amount = 3\<rparr>] [\<lparr>Denom = ''btc'', Amount = 1\<rparr>] =
     Inr ([\<lparr>Denom = ''btc'', Amount = - 1\<rparr>, \<lparr>Denom = ''okb'', Amount = 3\<rparr>], True) \<and>
   (\<exists>d. amt [\<lparr>Denom = ''okb'', Amount = 3\<rparr>] d < amt [\<lparr>Denom = ''btc'', Amount = 1\<rparr>] d)"
proof -
  have e: "SafeSub [\<lparr>Denom = ''okb'', Amount = 3\<rparr>] [\<lparr>Denom = ''btc'', Amount = 1\<rparr>] =
     Inr ([\<lparr>Denom = ''btc'', Amount = - 1\<rparr>, \<lparr>Denom = ''okb'', Amount = 3\<rparr>], True)" by code_simp
  show ?thesis using SafeSub_insufficient [OF _ _ e] e by simp
qed

text \<open>The binary search of \<open>AmountOf\<close> returns, on every sorted set, the amount of the
  denomination (zero when it is absent), and panics exactly on a malformed denomination.\<close>

theorem AmountOf_is_amt:
  assumes "sorted_coins cs"
  shows "AmountOf cs d = (if ValidateDenom d = Inr () then Inr (amt cs d) else Inl (Panic ''invalid denom''))"
proof (cases "ValidateDenom d")
  case (Inl e)
  then show ?thesis by (subst AmountOf.simps) (simp add: mustValidateDenom_def)
next
  case (Inr u)
  with AmountOf_sorted [OF _ assms] show ?thesis by simp
qed

theorem AmountOf_is_amt_witness:
  "AmountOf [\<lparr>Denom = ''btc'', Amount = 2\<rparr>, \<lparr>Denom = ''eth'', Amount = 4\<rparr>, \<lparr>Denom = ''okb'', Amount = 8\<rparr>] ''eth'' = Inr 4"
  using AmountOf_is_amt [of "[\<lparr>Denom = ''btc'', Amount = 2\<rparr>, \<lparr>Denom = ''eth'', Amount = 4\<rparr>, \<lparr>Denom = ''okb'', Amount = 8\<rparr>]" "''eth''"]
  by (simp add: sorted_coins_def less_list_code) code_simp


section \<open>Truncation, intersection, comparison\<close>

lemma rfold_split_frame:
  assumes "rfold (\<lambda>c (t, r). rbind (f c) (\<lambda>(a, b). rbind (add_nonzero t a) (\<lambda>t. rbind (add_nonzero r b) (\<lambda>r. Inr (t, r)))))
      cs (t0, r0) = Inr (t, r)"
    "canonical t0" "canonical r0" "d \<notin> Denom ` set cs"
    "\<And>c a b. f c = Inr (a, b) \<Longrightarrow> Denom a = Denom c \<and> Denom b = Denom c"
  shows "amt t d = amt t0 d \<and> amt r d = amt r0 d"
  using assms(1-4)
proof (induction cs arbitrary: t0 r0)
  case (Cons x cs)
  let ?g = "\<lambda>c (t, r). rbind (f c) (\<lambda>(a, b). rbind (add_nonzero t a) (\<lambda>t. rbind (add_nonzero r b) (\<lambda>r. Inr (t, r))))"
  from Cons.prems(1) obtain a b t1 r1 where st: "f x = Inr (a, b)" "add_nonzero t0 a = Inr t1" "add_nonzero r0 b = Inr r1"
    and rest: "rfold ?g cs (t1, r1) = Inr (t, r)" by auto
  note t1 = add_nonzero_spec [OF st(2) Cons.prems(2)] and r1 = add_nonzero_spec [OF st(3) Cons.prems(3)]
  have "Denom a \<noteq> d" "Denom b \<noteq> d" using assms(5) [OF st(1)] Cons.prems(4) by auto
  with Cons.IH [OF rest t1(1) r1(1)] Cons.prems(4) t1(2) [of d] r1(2) [of d] show ?case by simp
qed simp

lemma split_coins_parts:
  assumes "split_coins f cs = Inr (t, r)" "sorted_coins cs" "c \<in> set cs"
    "\<And>c a b. f c = Inr (a, b) \<Longrightarrow> Denom a = Denom c \<and> Denom b = Denom c"
  shows "\<exists>a b. f c = Inr (a, b) \<and> amt t (Denom c) = Amount a \<and> amt r (Denom c) = Amount b"
proof -
  let ?g = "\<lambda>c (t, r). rbind (f c) (\<lambda>(a, b). rbind (add_nonzero t a) (\<lambda>t. rbind (add_nonzero r b) (\<lambda>r. Inr (t, r))))"
  let ?D = "Denom c"
  have "\<exists>a b. f c = Inr (a, b) \<and> amt t ?D = Amount a + amt t0 ?D \<and> amt r ?D = Amount b + amt r0 ?D"
    if "rfold ?g cs (t0, r0) = Inr (t, r)" "canonical t0" "canonical r0" "sorted_coins cs" "c \<in> set cs" for t0 r0 cs
    using that
  proof (induction cs arbitrary: t0 r0)
    case (Cons x cs)
    from Cons.prems(1) obtain a b t1 r1 where st: "f x = Inr (a, b)" "add_nonzero t0 a = Inr t1" "add_nonzero r0 b = Inr r1"
      and rest: "rfold ?g cs (t1, r1) = Inr (t, r)" by auto
    note t1 = add_nonzero_spec [OF st(2) Cons.prems(2)] and r1 = add_nonzero_spec [OF st(3) Cons.prems(3)]
    note den = assms(4) [OF st(1)] and s = Cons.prems(4) [unfolded sorted_coins_Cons]
    show ?case
    proof (cases "c = x")
      case True
      then have "?D \<notin> Denom ` set cs" using s by auto
      from rfold_split_frame [OF rest t1(1) r1(1) this assms(4)] st(1) t1(2) [of ?D] r1(2) [of ?D] den True
      show ?thesis by simp
    next
      case False
      then have "c \<in> set cs" "Denom a \<noteq> ?D" "Denom b \<noteq> ?D" using s den Cons.prems(5) by auto
      with Cons.IH [OF rest t1(1) r1(1)] s t1(2) [of ?D] r1(2) [of ?D] show ?thesis by simp
    qed
  qed simp
  from this [OF assms(1) [unfolded split_coins_eq] _ _ assms(2,3)] show ?thesis by simp
qed

lemma split_coins_notin:
  assumes "split_coins f cs = Inr (t, r)" "d \<notin> Denom ` set cs"
    "\<And>c a b. f c = Inr (a, b) \<Longrightarrow> Denom a = Denom c \<and> Denom b = Denom c"
  shows "amt t d = 0 \<and> amt r d = 0"
  using rfold_split_frame [OF assms(1) [unfolded split_coins_eq] _ _ assms(2,3)] by simp

lemma TruncateDecimal_parts:
  assumes "TruncateDecimal cs = Inr (t, r)" "sorted_coins cs"
  shows "amt t d = big_quo (amt cs d) precisionReuse * precisionReuse \<and> amt r d = big_rem (amt cs d) precisionReuse"
proof (cases "d \<in> Denom ` set cs")
  case True
  then obtain c where c: "c \<in> set cs" "d = Denom c" by blast
  have den: "Denom a = Denom c \<and> Denom b = Denom c" if "DecCoin_TruncateDecimal c = Inr (a, b)" for c a b
    using DecCoin_TruncateDecimal_sum [OF that] by blast
  from split_coins_parts [OF assms(1) [unfolded TruncateDecimal_def] assms(2) c(1) den]
  obtain a b where ab: "DecCoin_TruncateDecimal c = Inr (a, b)" "amt t d = Amount a" "amt r d = Amount b"
    using c(2) by blast
  then show ?thesis unfolding c(2) amt_sorted_mem [OF assms(2) c(1)]
    by (auto simp: DecCoin_TruncateDecimal_def NewDecCoin_eq_Inr NewDecCoinFromDec_eq_Inr Dec_TruncateInt_def
        chopPrecisionAndTruncate_def big_rem_def mult.commute)
next
  case False
  have "amt t d = 0 \<and> amt r d = 0"
    using split_coins_notin [OF assms(1) [unfolded TruncateDecimal_def] False] DecCoin_TruncateDecimal_sum by blast
  with False show ?thesis by (simp add: amt_notin big_rem_def)
qed

text \<open>\<open>TruncateDecimal\<close> splits every amount of a coin set into its whole coins and a change
  below one coin; nothing is lost and both parts are canonical sets.\<close>

theorem TruncateDecimal_splits:
  assumes "IsValid cs" "TruncateDecimal cs = Inr (t, r)"
  shows "amt t d = amt cs d div precisionReuse * precisionReuse \<and> amt r d = amt cs d mod precisionReuse \<and>
    amt t d + amt r d = amt cs d \<and> canonical t \<and> canonical r"
  using TruncateDecimal_parts [OF assms(2) IsValid_sorted(1) [OF assms(1)], of d]
    TruncateDecimal_spec [OF assms(2)] IsValid_amt_nonneg [OF assms(1), of d]
  by (simp add: big_quo_nonneg big_rem_nonneg)

theorem TruncateDecimal_splits_witness:
  "amt [\<lparr>Denom = ''okb'', Amount = 2 * precisionReuse\<rparr>] ''okb'' = (2 * precisionReuse + 7) div precisionReuse * precisionReuse"
proof -
  have v: "IsValid [\<lparr>Denom = ''okb'', Amount = 2 * precisionReuse + 7\<rparr>]" by code_simp
  have "TruncateDecimal [\<lparr>Denom = ''okb'', Amount = 2 * precisionReuse + 7\<rparr>] =
    Inr ([\<lparr>Denom = ''okb'', Amount = 2 * precisionReuse\<rparr>], [\<lparr>Denom = ''okb'', Amount = 7\<rparr>])" by code_simp
  from TruncateDecimal_splits [OF v this, of "''okb''"] show ?thesis by simp
qed

lemma Intersect_loop_amt:
  assumes "Intersect_loop as bs = Inr r" "sorted_coins as" "sorted_coins bs"
  shows "map Denom r = map Denom as \<and> amt r d = (if d \<in> Denom ` set as then min (amt as d) (amt bs d) else 0)"
  using assms
proof (induction as arbitrary: r)
  case (Cons a as)
  from Cons.prems obtain b r' where b: "AmountOf bs (Denom a) = Inr b" and r': "Intersect_loop as bs = Inr r'"
    and r: "r = \<lparr>Denom = Denom a, Amount = MinDec (Amount a) b\<rparr> # r'" by auto
  have b': "b = amt bs (Denom a)" using b Cons.prems(3) by (simp add: AmountOf_eq_Inr)
  have s: "sorted_coins as" "Denom a \<notin> Denom ` set as" using Cons.prems(2) by (auto simp: sorted_coins_Cons)
  note IH = Cons.IH [OF r' s(1) Cons.prems(3)]
  show ?case
  proof (cases "d = Denom a")
    case True
    then show ?thesis using IH s(2) by (simp add: r b' MinDec_def amt_notin min_def)
  next
    case False
    then show ?thesis using IH by (auto simp: r)
  qed
qed simp

text \<open>\<open>Intersect\<close> is the pointwise minimum of two coin sets, and canonical.\<close>

theorem Intersect_min:
  assumes "IsValid as" "IsValid bs" "Intersect as bs = Inr r"
  shows "amt r d = min (amt as d) (amt bs d) \<and> canonical r"
proof -
  from assms(3) obtain x where x: "Intersect_loop as bs = Inr x" "r = removeZeroDecCoins x" by (auto simp: Intersect_def)
  note sa = IsValid_sorted(1) [OF assms(1)] and sb = IsValid_sorted(1) [OF assms(2)]
  note loop = Intersect_loop_amt [OF x(1) sa sb]
  have "sorted_coins x" using loop [of "[]"] sa by (simp add: sorted_coins_def)
  then have "canonical r" unfolding canonical_def x(2) using sorted_removeZero by (auto simp: removeZero_filter no_zero_def)
  moreover have "amt r d = min (amt as d) (amt bs d)"
    using loop [of d] IsValid_amt_nonneg [OF assms(2), of d] by (auto simp: x(2) amt_notin)
  ultimately show ?thesis by blast
qed

theorem Intersect_min_witness:
  "amt [\<lparr>Denom = ''okb'', Amount = 3\<rparr>] ''okb'' =
     min (amt [\<lparr>Denom = ''btc'', Amount = 2\<rparr>, \<lparr>Denom = ''okb'', Amount = 5\<rparr>] ''okb'') (amt [\<lparr>Denom = ''okb'', Amount = 3\<rparr>] ''okb'')"
proof -
  have v: "IsValid [\<lparr>Denom = ''btc'', Amount = 2\<rparr>, \<lparr>Denom = ''okb'', Amount = 5\<rparr>]"
    "IsValid [\<lparr>Denom = ''okb'', Amount = 3\<rparr>]" by code_simp+
  have "Intersect [\<lparr>Denom = ''btc'', Amount = 2\<rparr>, \<lparr>Denom = ''okb'', Amount = 5\<rparr>] [\<lparr>Denom = ''okb'', Amount = 3\<rparr>] =
    Inr [\<lparr>Denom = ''okb'', Amount = 3\<rparr>]" by code_simp
  from Intersect_min [OF v this, of "''okb''"] show ?thesis by blast
qed

lemma rall_eq_Inr:
  "rall P xs = Inr True \<longleftrightarrow> (\<forall>x\<in>set xs. P x = Inr True)"
proof (induction xs)
  case (Cons x xs)
  then show ?case by (cases "P x") auto
qed simp

lemma MulDecTruncate_amt:
  assumes "MulDecTruncate cs k = Inr r" "IsValid cs" "0 \<le> k"
  shows "amt r d = amt cs d * k div precisionReuse \<and> canonical r"
proof -
  note sc = assms(1) [unfolded MulDecTruncate_def] and s = IsValid_sorted(1) [OF assms(2)]
  have "amt r d = amt cs d * k div precisionReuse"
  proof (cases "d \<in> Denom ` set cs")
    case True
    from scale_coins_sorted(1) [OF sc s True] IsValid_amt_nonneg [OF assms(2), of d] assms(3)
    show ?thesis by (simp add: Dec_MulTruncate_def chopPrecisionAndTruncate_def big_quo_nonneg)
  next
    case False
    then show ?thesis using scale_coins_sorted(2) [OF sc s False] by (simp add: amt_notin)
  qed
  then show ?thesis using scale_coins_spec(1) [OF sc] by blast
qed

lemma IsAllGTE_iff:
  assumes "IsValid as" "IsValid bs" "IsAllGTE as bs = Inr b"
  shows "b \<Longrightarrow> amt bs d \<le> amt as d"
proof -
  assume b
  show "amt bs d \<le> amt as d"
  proof (cases "bs = [] \<or> d \<notin> Denom ` set bs")
    case True
    then show ?thesis using IsValid_amt_nonneg [OF assms(1), of d] by (auto simp: amt_notin)
  next
    case False
    then obtain c where c: "c \<in> set bs" "d = Denom c" by blast
    from assms(3) \<open>b\<close> False have "rall (\<lambda>b. rbind (AmountOf as (Denom b)) (\<lambda>a. Inr (\<not> Amount b > a))) bs = Inr True"
      by (auto simp: IsAllGTE_def split: if_splits)
    with c(1) have "\<not> Amount c > amt as d"
      by (auto simp: rall_eq_Inr AmountOf_eq_Inr [OF IsValid_sorted(1) [OF assms(1)]] c(2))
    then show ?thesis unfolding c(2) amt_sorted_mem [OF IsValid_sorted(1) [OF assms(2)] c(1)] by simp
  qed
qed

end
