(* ===== verification/KVStore.thy ===== *)
theory KVStore
  imports Prelude
begin

text \<open>
  The key-value stores behind the keepers (\<open>KVStore\<close> of \<open>store/types/store.go\<close>): \<open>Get\<close>, \<open>Has\<close>,
  \<open>Set\<close>, \<open>Delete\<close> and iteration in ascending key order.  A store holds typed values instead of
  their encodings; compound byte keys are tuples of their parts, ordered lexicographically, so a
  prefix iteration is a filter on the first parts.

  \<open>kv\<close> is the abstract store, a list of entries with strictly ascending keys.  The locale
  \<open>kv_store\<close> is the interface: what a read returns after a write or a delete and what an iteration
  visits.  Sums over all entries, the form in which the components state conservation, are proved
  once in the locale.
\<close>

section \<open>Sorted association lists\<close>

fun upd_list :: "'k::linorder \<Rightarrow> 'v \<Rightarrow> ('k \<times> 'v) list \<Rightarrow> ('k \<times> 'v) list" where
  "upd_list k v [] = [(k, v)]"
| "upd_list k v ((a, b) # ps) =
     (if k < a then (k, v) # (a, b) # ps else if k = a then (k, v) # ps else (a, b) # upd_list k v ps)"

definition del_list :: "'k::linorder \<Rightarrow> ('k \<times> 'v) list \<Rightarrow> ('k \<times> 'v) list" where
  "del_list k ps = filter (\<lambda>p. fst p \<noteq> k) ps"

definition asc :: "('k::linorder \<times> 'v) list \<Rightarrow> bool" where
  "asc ps \<longleftrightarrow> sorted_wrt (<) (map fst ps)"

lemma asc_simps [simp]:
  "asc []" "asc ((a, b) # ps) \<longleftrightarrow> (\<forall>x \<in> fst ` set ps. a < x) \<and> asc ps"
  by (auto simp: asc_def)

lemma upd_list_keys: "fst ` set (upd_list k v ps) = insert k (fst ` set ps)"
  by (induction k v ps rule: upd_list.induct) auto

lemma asc_upd_list [simp]: "asc ps \<Longrightarrow> asc (upd_list k v ps)"
  by (induction k v ps rule: upd_list.induct) (auto simp: upd_list_keys)

lemma asc_filter [simp]: "asc ps \<Longrightarrow> asc (filter P ps)"
  unfolding asc_def by (rule sorted_wrt_map_fst_filter)

lemma asc_del_list [simp]: "asc ps \<Longrightarrow> asc (del_list k ps)"
  by (simp add: del_list_def)

lemma map_of_upd_list: "asc ps \<Longrightarrow> map_of (upd_list k v ps) = (map_of ps)(k \<mapsto> v)"
  by (induction k v ps rule: upd_list.induct) (auto simp: fun_upd_twist)

lemma map_of_del_list: "map_of (del_list k ps) = (map_of ps)(k := None)"
  by (induction ps) (auto simp: del_list_def)

lemma asc_distinct: "asc ps \<Longrightarrow> distinct (map fst ps)"
  unfolding asc_def by (simp add: strict_sorted_iff)

section \<open>The store interface\<close>

locale kv_store =
  fixes wf :: "'s \<Rightarrow> bool"
    and entries :: "'s \<Rightarrow> ('k::linorder \<times> 'v) list"
    and look :: "'s \<Rightarrow> 'k \<Rightarrow> 'v option"
    and put :: "'k \<Rightarrow> 'v \<Rightarrow> 's \<Rightarrow> 's"
    and remove :: "'k \<Rightarrow> 's \<Rightarrow> 's"
  assumes entries_asc: "wf s \<Longrightarrow> asc (entries s)"
    and look_entries: "wf s \<Longrightarrow> look s k = map_of (entries s) k"
    and wf_put: "wf s \<Longrightarrow> wf (put k v s)"
    and wf_remove: "wf s \<Longrightarrow> wf (remove k s)"
    and entries_put: "wf s \<Longrightarrow> map_of (entries (put k v s)) = (map_of (entries s))(k \<mapsto> v)"
    and entries_remove: "wf s \<Longrightarrow> map_of (entries (remove k s)) = (map_of (entries s))(k := None)"
begin

lemma look_put: "wf s \<Longrightarrow> look (put k v s) k' = (if k' = k then Some v else look s k')"
  by (simp add: look_entries wf_put entries_put)

lemma look_remove: "wf s \<Longrightarrow> look (remove k s) k' = (if k' = k then None else look s k')"
  by (simp add: look_entries wf_remove entries_remove)

lemma in_entries: "wf s \<Longrightarrow> (k, v) \<in> set (entries s) \<longleftrightarrow> look s k = Some v"
  using asc_distinct [OF entries_asc] by (simp add: look_entries)

lemma look_Some_iff: "wf s \<Longrightarrow> look s k \<noteq> None \<longleftrightarrow> k \<in> fst ` set (entries s)"
  by (simp add: look_entries map_of_eq_None_iff)

text \<open>Iteration order and the entries are determined by what reads return.\<close>

lemma entries_ext:
  assumes "wf s" "wf t" "\<And>k. look s k = look t k"
  shows "entries s = entries t"
proof -
  have "map_of (entries s) = map_of (entries t)" using assms by (auto simp: look_entries)
  then have "set (entries s) = set (entries t)"
    using asc_distinct [OF entries_asc [OF assms(1)]] asc_distinct [OF entries_asc [OF assms(2)]]
    by (metis map_of_inject_set)
  moreover have "sorted (map fst (entries s))" "sorted (map fst (entries t))"
    using entries_asc assms(1,2) by (auto simp: asc_def strict_sorted_iff)
  moreover have "distinct (map fst (entries s))" "distinct (map fst (entries t))"
    using asc_distinct entries_asc assms(1,2) by blast+
  ultimately show ?thesis
    by (intro map_sorted_distinct_set_unique [where f = fst]) (simp_all add: distinct_map)
qed

definition total :: "('k \<Rightarrow> 'v \<Rightarrow> int) \<Rightarrow> 's \<Rightarrow> int" where
  "total f s = (\<Sum>(k, v)\<leftarrow>entries s. f k v)"

lemma total_sum: "wf s \<Longrightarrow> total f s = (\<Sum>(k, v) \<in> set (entries s). f k v)"
  using asc_distinct [OF entries_asc] by (simp add: total_def sum_list_distinct_conv_sum_set distinct_map)

lemma entries_remove_set: "wf s \<Longrightarrow> set (entries (remove k s)) = {p \<in> set (entries s). fst p \<noteq> k}"
  by (auto simp: in_entries wf_remove look_remove split: if_splits)

lemma entries_put_set: "wf s \<Longrightarrow> set (entries (put k v s)) = insert (k, v) {p \<in> set (entries s). fst p \<noteq> k}"
  by (auto simp: in_entries wf_put look_put split: if_splits)

lemma total_remove:
  assumes "wf s"
  shows "total f (remove k s) = total f s - (case look s k of None \<Rightarrow> 0 | Some v \<Rightarrow> f k v)"
proof -
  let ?R = "{p \<in> set (entries s). fst p \<noteq> k}"
  have "total f s = (\<Sum>(k, v) \<in> ?R. f k v) + (case look s k of None \<Rightarrow> 0 | Some v \<Rightarrow> f k v)"
  proof (cases "look s k")
    case None
    then have "set (entries s) = ?R" using in_entries [OF assms] by fastforce
    with None show ?thesis by (simp add: total_sum [OF assms])
  next
    case (Some v)
    then have ins: "set (entries s) = insert (k, v) ?R" using in_entries [OF assms] by fastforce
    have "total f s = (\<Sum>(k, v) \<in> insert (k, v) ?R. f k v)" unfolding total_sum [OF assms] using ins by simp
    also have "\<dots> = f k v + (\<Sum>(k, v) \<in> ?R. f k v)" by (subst sum.insert) auto
    finally show ?thesis using Some by simp
  qed
  then show ?thesis by (simp add: total_sum [OF wf_remove [OF assms]] entries_remove_set [OF assms])
qed

lemma total_put:
  assumes "wf s"
  shows "total f (put k v s) = total f s + f k v - (case look s k of None \<Rightarrow> 0 | Some w \<Rightarrow> f k w)"
proof -
  have "total f (put k v s) = f k v + total f (remove k s)"
    by (simp add: total_sum wf_put wf_remove assms entries_put_set entries_remove_set)
  then show ?thesis by (simp add: total_remove assms)
qed

lemma total_nonneg: "wf s \<Longrightarrow> (\<And>k v. look s k = Some v \<Longrightarrow> 0 \<le> f k v) \<Longrightarrow> 0 \<le> total f s"
  unfolding total_sum by (rule sum_nonneg) (auto simp: in_entries)

lemma total_ge:
  assumes "wf s" "\<And>k v. look s k = Some v \<Longrightarrow> 0 \<le> f k v" "look s k = Some v"
  shows "f k v \<le> total f s"
proof -
  have "0 \<le> total f (remove k s)"
    using assms(1,2) by (intro total_nonneg) (auto simp: wf_remove look_remove split: if_splits)
  with assms show ?thesis by (simp add: total_remove)
qed

end

section \<open>The abstract store\<close>

typedef (overloaded) ('k::linorder, 'v) kv = "{ps :: ('k \<times> 'v) list. asc ps}"
  morphisms kv_entries Kv
  by (rule exI [of _ "[]"]) simp

setup_lifting type_definition_kv

lift_definition kv_empty :: "('k::linorder, 'v) kv" is "[]" by simp

lift_definition kv_get :: "('k::linorder, 'v) kv \<Rightarrow> 'k \<Rightarrow> 'v option" is map_of .

lift_definition kv_set :: "'k::linorder \<Rightarrow> 'v \<Rightarrow> ('k, 'v) kv \<Rightarrow> ('k, 'v) kv" is upd_list by simp

lift_definition kv_del :: "'k::linorder \<Rightarrow> ('k, 'v) kv \<Rightarrow> ('k, 'v) kv" is del_list by simp

definition kv_has :: "('k::linorder, 'v) kv \<Rightarrow> 'k \<Rightarrow> bool" where
  "kv_has s k \<longleftrightarrow> kv_get s k \<noteq> None"

instantiation kv :: (linorder, equal) equal
begin

definition equal_kv :: "('a, 'b) kv \<Rightarrow> ('a, 'b) kv \<Rightarrow> bool" where
  "equal_kv s t \<longleftrightarrow> kv_entries s = kv_entries t"

instance
  by standard (simp add: equal_kv_def kv_entries_inject)

end

interpretation kvs: kv_store "\<lambda>_. True" kv_entries kv_get kv_set kv_del
  by unfold_locales (transfer, simp add: map_of_upd_list map_of_del_list)+

lemmas kv_simps [simp] = kvs.look_put [simplified] kvs.look_remove [simplified]

lemma kv_get_empty [simp]: "kv_get kv_empty k = None"
  by transfer simp

lemma kv_entries_empty [simp]: "kv_entries kv_empty = []"
  by transfer simp

definition kv_total :: "('k::linorder \<Rightarrow> 'v \<Rightarrow> int) \<Rightarrow> ('k, 'v) kv \<Rightarrow> int" where
  "kv_total f s = (\<Sum>(k, v)\<leftarrow>kv_entries s. f k v)"

lemma kv_total_simps [simp]:
  "kv_total f kv_empty = 0"
  "kv_total f (kv_set k v s) = kv_total f s + f k v - (case kv_get s k of None \<Rightarrow> 0 | Some w \<Rightarrow> f k w)"
  "kv_total f (kv_del k s) = kv_total f s - (case kv_get s k of None \<Rightarrow> 0 | Some w \<Rightarrow> f k w)"
  using kvs.total_put [where s = s and f = f and k = k and v = v] kvs.total_remove [where s = s and f = f and k = k]
  by (simp_all add: kv_total_def kvs.total_def)

lemma kv_in_entries: "(k, v) \<in> set (kv_entries s) \<longleftrightarrow> kv_get s k = Some v"
  by (rule kvs.in_entries [OF TrueI])

lemma kv_ext: "(\<And>k. kv_get s k = kv_get t k) \<Longrightarrow> s = t"
  using kvs.entries_ext [OF TrueI TrueI, of s t] by (simp add: kv_entries_inject)

lemma kv_total_nonneg: "(\<And>k v. kv_get s k = Some v \<Longrightarrow> 0 \<le> f k v) \<Longrightarrow> 0 \<le> kv_total f s"
  using kvs.total_nonneg [where s = s and f = f] by (simp add: kv_total_def kvs.total_def)

lemma kv_total_ge: "(\<And>k v. kv_get s k = Some v \<Longrightarrow> 0 \<le> f k v) \<Longrightarrow> kv_get s k = Some v \<Longrightarrow> f k v \<le> kv_total f s"
  using kvs.total_ge [where s = s and f = f and k = k and v = v] by (simp add: kv_total_def kvs.total_def)

lemma kv_total_cong: "(\<And>k v. kv_get s k = Some v \<Longrightarrow> f k v = g k v) \<Longrightarrow> kv_total f s = kv_total g s"
  unfolding kv_total_def by (rule arg_cong [where f = sum_list], rule map_cong) (auto simp: kv_in_entries)

lemma kv_total_add: "kv_total (\<lambda>k v. f k v + g k v) s = kv_total f s + kv_total g s"
  unfolding kv_total_def by (induction "kv_entries s") (simp_all add: case_prod_beta sum_list_addf)

text \<open>Deleting the keys an iterator found.\<close>

lemma kv_get_dels: "kv_get (fold (\<lambda>(x, _). kv_del x) xs m) y = (if y \<in> fst ` set xs then None else kv_get m y)"
  by (induction xs arbitrary: m) auto

lemma kv_total_zero: "(\<And>k v. kv_get s k = Some v \<Longrightarrow> f k v = 0) \<Longrightarrow> kv_total f s = 0"
proof -
  assume "\<And>k v. kv_get s k = Some v \<Longrightarrow> f k v = 0"
  then have "map (\<lambda>(k, v). f k v) (kv_entries s) = map (\<lambda>_. 0) (kv_entries s)" by (auto simp: kv_in_entries)
  then show ?thesis unfolding kv_total_def by (simp only: sum_list_0)
qed

lemma kv_total_count:
  "kv_total (\<lambda>k v. if P k v then 1 else 0) s = int (card {k. \<exists>v. kv_get s k = Some v \<and> P k v})"
proof -
  have "kv_total (\<lambda>k v. if P k v then 1 else 0) s = (\<Sum>p\<in>set (kv_entries s). if P (fst p) (snd p) then 1 else 0)"
    using kvs.total_sum [OF TrueI, of "\<lambda>k v. if P k v then 1 else 0" s] by (simp add: kv_total_def kvs.total_def case_prod_beta)
  also have "\<dots> = int (card {p \<in> set (kv_entries s). P (fst p) (snd p)})"
    by (simp add: sum.If_cases Int_def)
  also have "{p \<in> set (kv_entries s). P (fst p) (snd p)} = (\<lambda>k. (k, the (kv_get s k))) ` {k. \<exists>v. kv_get s k = Some v \<and> P k v}"
    by (auto simp: kv_in_entries image_iff)
  also have "card \<dots> = card {k. \<exists>v. kv_get s k = Some v \<and> P k v}"
    by (rule card_image) (simp add: inj_on_def)
  finally show ?thesis .
qed

section \<open>Iterators\<close>

text \<open>The order in which an iterator hands out keys.\<close>

definition dir_lt :: "bool \<Rightarrow> 'k::linorder \<Rightarrow> 'k \<Rightarrow> bool" where
  "dir_lt up x y \<longleftrightarrow> (if up then x < y else y < x)"

definition dir_list :: "bool \<Rightarrow> 'a list \<Rightarrow> 'a list" where
  "dir_list up xs = (if up then xs else rev xs)"

lemma dir_lt_trans: "dir_lt up x y \<Longrightarrow> dir_lt up y z \<Longrightarrow> dir_lt up x z"
  by (auto simp: dir_lt_def split: if_splits)

lemma dir_lt_irrefl [simp]: "\<not> dir_lt up x x"
  by (simp add: dir_lt_def)

lemma dir_lt_linear: "dir_lt up x y \<or> x = y \<or> dir_lt up y x"
  by (auto simp: dir_lt_def)

lemma dir_sorted: "sorted_wrt (dir_lt up) (map fst (dir_list up ps)) \<longleftrightarrow> asc ps"
proof -
  have "dir_lt True = ((<) :: 'a \<Rightarrow> _)" "dir_lt False = (\<lambda>x y :: 'a. y < x)" by (auto simp: dir_lt_def fun_eq_iff)
  then show ?thesis by (cases up) (simp_all add: asc_def dir_list_def rev_map [symmetric] sorted_wrt_rev)
qed

lemma dir_list_simps [simp]:
  "dir_list up (dir_list up xs) = xs" "set (dir_list up xs) = set xs" "map f (dir_list up xs) = dir_list up (map f xs)"
  "filter P (dir_list up xs) = dir_list up (filter P xs)" "distinct (dir_list up xs) \<longleftrightarrow> distinct xs"
  by (simp_all add: dir_list_def rev_map rev_filter)

lemma map_of_dir_list: "distinct (map fst ps) \<Longrightarrow> map_of (dir_list up ps) = map_of ps"
  by (subst map_of_inject_set) simp_all

lemma asc_unique: "asc xs \<Longrightarrow> asc ys \<Longrightarrow> map_of xs = map_of ys \<Longrightarrow> xs = ys"
  by (metis Kv_inverse kv_get.rep_eq kv_ext mem_Collect_eq)

lemma dir_unique:
  assumes "sorted_wrt (dir_lt up) (map fst xs)" "asc ps" "map_of xs = map_of ps"
  shows "xs = dir_list up ps"
proof -
  have a: "asc (dir_list up xs)" using assms(1) dir_sorted [of up "dir_list up xs"] by simp
  then have "distinct (map fst xs)" using asc_distinct by fastforce
  then have "dir_list up xs = ps" using a assms(2,3) by (intro asc_unique) (simp_all add: map_of_dir_list)
  then show ?thesis by auto
qed

text \<open>The entries with a key from \<open>start\<close> up to \<open>end\<close>, in the order of the iteration; \<open>None\<close> is an open end.\<close>

definition in_range :: "'k::linorder option \<Rightarrow> 'k option \<Rightarrow> bool \<Rightarrow> 'k \<Rightarrow> bool" where
  "in_range start end inclusive k \<longleftrightarrow> (case start of None \<Rightarrow> True | Some a \<Rightarrow> a \<le> k) \<and>
     (case end of None \<Rightarrow> True | Some b \<Rightarrow> if inclusive then k \<le> b else k < b)"

definition range_list :: "'k::linorder option \<Rightarrow> 'k option \<Rightarrow> bool \<Rightarrow> bool \<Rightarrow> ('k \<times> 'v) list \<Rightarrow> ('k \<times> 'v) list" where
  "range_list start end ascending inclusive ps =
     (let qs = filter (\<lambda>p. in_range start end inclusive (fst p)) ps in if ascending then qs else rev qs)"

lemma range_list_append:
  "range_list start end True inclusive (ps @ qs) = range_list start end True inclusive ps @ range_list start end True inclusive qs"
  "range_list start end False inclusive (ps @ qs) = range_list start end False inclusive qs @ range_list start end False inclusive ps"
  by (simp_all add: range_list_def Let_def)

lemma range_list_dir: "range_list start end up inclusive ps = dir_list up (filter (\<lambda>p. in_range start end inclusive (fst p)) ps)"
  by (simp add: range_list_def dir_list_def Let_def)

lemma map_of_filter_key: "map_of (filter (\<lambda>p. P (fst p)) ps) x = (if P x then map_of ps x else None)"
  by (induction ps) auto

text \<open>An iterator over a changing state: \<open>view\<close> is what is still to come.  \<open>collect\<close> is the loop that
  collects all entries.\<close>

locale ordered_iterator =
  fixes up :: bool
    and ok :: "'s \<Rightarrow> bool"
    and step :: "'s \<Rightarrow> (('k::linorder \<times> 'v) \<times> 's) option"
    and weight :: "'s \<Rightarrow> nat"
    and view :: "'s \<Rightarrow> 'k \<Rightarrow> 'v option"
    and collect :: "'s \<Rightarrow> ('k \<times> 'v) list"
  assumes stop: "ok s \<Longrightarrow> step s = None \<Longrightarrow> view s k = None"
    and ok_next: "ok s \<Longrightarrow> step s = Some (p, s') \<Longrightarrow> ok s'"
    and weight_next: "ok s \<Longrightarrow> step s = Some (p, s') \<Longrightarrow> weight s' < weight s"
    and view_next: "ok s \<Longrightarrow> step s = Some (p, s') \<Longrightarrow> view s = (view s')(fst p \<mapsto> snd p)"
    and order_next: "ok s \<Longrightarrow> step s = Some (p, s') \<Longrightarrow> view s' x \<noteq> None \<Longrightarrow> dir_lt up (fst p) x"
    and collect_next: "ok s \<Longrightarrow> collect s = (case step s of None \<Rightarrow> [] | Some (p, s') \<Rightarrow> p # collect s')"
begin

lemma collect_spec: "ok s \<Longrightarrow> sorted_wrt (dir_lt up) (map fst (collect s)) \<and> map_of (collect s) = view s"
proof (induction "weight s" arbitrary: s rule: less_induct)
  case less
  show ?case
  proof (cases "step s")
    case None
    then show ?thesis using less.prems by (auto simp: collect_next stop)
  next
    case (Some ps)
    then obtain p s' where s': "step s = Some (p, s')" by (cases ps) auto
    have IH: "sorted_wrt (dir_lt up) (map fst (collect s'))" "map_of (collect s') = view s'"
      using less.hyps [OF weight_next [OF less.prems s'] ok_next [OF less.prems s']] by auto
    have "view s' x \<noteq> None" if "x \<in> fst ` set (collect s')" for x using that IH(2) map_of_eq_None_iff [of "collect s'" x] by auto
    then have "\<forall>x \<in> fst ` set (collect s'). dir_lt up (fst p) x" using order_next [OF less.prems s'] by blast
    then show ?thesis using IH view_next [OF less.prems s'] less.prems s' by (cases p) (auto simp: collect_next)
  qed
qed

lemma collect_exact: "ok s \<Longrightarrow> asc ps \<Longrightarrow> view s = map_of ps \<Longrightarrow> collect s = dir_list up ps"
  using collect_spec by (intro dir_unique) auto

end

end
