(* ===== verification/Ledger.thy ===== *)
theory Ledger
  imports Coins KVStore
begin

text \<open>
  Accounts and balances: the account keeper (\<open>x/auth/keeper\<close>), the bank keeper and its message
  handlers (\<open>x/bank\<close>) and the supply keeper with its module accounts (\<open>x/supply\<close>).

  The state is one record: the account store, the account number counter, the stored supply of
  each token and the send switch.  A transaction that fails is rolled back by the caller, so a
  failing operation returns no state.  Gas accounting, events and the inner-transaction log are
  left out; accounts are base (Ethereum) accounts or module accounts, not vesting accounts, so
  spendable coins are the coins of the account.

  Main results: transfers move exactly the given coins and leave every other balance alone, every
  balance stays non-negative, and the stored supply stays the sum of all balances (the invariant
  the code checks at run time in \<open>TotalSupply\<close>).
\<close>

section \<open>Accounts\<close>

datatype acc_kind = EthAcc | ModuleAcc string "string list"

record Account =
  acc_Address :: bytes
  acc_Coins :: DecCoins
  AccountNumber :: nat
  Sequence :: nat
  acc_type :: acc_kind

record ledger =
  accounts :: "(bytes, Account) kv"
  GlobalAccountNumber :: nat
  tokenSupply :: "(string, Dec) kv"
  ParamSendEnabled :: bool

definition GetNextAccountNumber :: "ledger \<Rightarrow> nat \<times> ledger" where
  "GetNextAccountNumber s =
     (let accNumber = GlobalAccountNumber s in (accNumber, s\<lparr>GlobalAccountNumber := accNumber + 1\<rparr>))"

definition NewAccount :: "Account \<Rightarrow> ledger \<Rightarrow> Account \<times> ledger" where
  "NewAccount acc s = (let (n, s') = GetNextAccountNumber s in (acc\<lparr>AccountNumber := n\<rparr>, s'))"

definition ProtoAccount :: Account where
  "ProtoAccount = \<lparr>acc_Address = [], acc_Coins = [], AccountNumber = 0, Sequence = 0, acc_type = EthAcc\<rparr>"

definition NewAccountWithAddress :: "bytes \<Rightarrow> ledger \<Rightarrow> Account \<times> ledger" where
  "NewAccountWithAddress addr s = NewAccount (ProtoAccount\<lparr>acc_Address := addr\<rparr>) s"

definition GetAccount :: "ledger \<Rightarrow> bytes \<Rightarrow> Account option" where
  "GetAccount s addr = kv_get (accounts s) addr"

definition SetAccount :: "Account \<Rightarrow> ledger \<Rightarrow> ledger" where
  "SetAccount acc s = s\<lparr>accounts := kv_set (acc_Address acc) acc (accounts s)\<rparr>"

definition GetAllAccounts :: "ledger \<Rightarrow> Account list" where
  "GetAllAccounts s = map snd (kv_entries (accounts s))"

section \<open>Bank keeper\<close>

definition GetCoins :: "ledger \<Rightarrow> bytes \<Rightarrow> DecCoins" where
  "GetCoins s addr = (case GetAccount s addr of None \<Rightarrow> [] | Some acc \<Rightarrow> acc_Coins acc)"

definition HasCoins :: "ledger \<Rightarrow> bytes \<Rightarrow> DecCoins \<Rightarrow> bool res" where
  "HasCoins s addr cs = IsAllGTE (GetCoins s addr) cs"

text \<open>The account passed along is used when it has the right address.\<close>

definition getAccount :: "ledger \<Rightarrow> bytes \<Rightarrow> Account option \<Rightarrow> Account option" where
  "getAccount s addr acc =
     (case acc of Some a \<Rightarrow> if acc_Address a = addr then Some a else GetAccount s addr
      | None \<Rightarrow> GetAccount s addr)"

definition account_or_new :: "bytes \<Rightarrow> Account option \<Rightarrow> ledger \<Rightarrow> Account \<times> ledger" where
  "account_or_new addr acc s = (case acc of Some a \<Rightarrow> (a, s) | None \<Rightarrow> NewAccountWithAddress addr s)"

definition setCoinsToAccount :: "bytes \<Rightarrow> Account option \<Rightarrow> DecCoins \<Rightarrow> ledger \<Rightarrow> ledger res" where
  "setCoinsToAccount addr acc cs s =
     (if \<not> IsValid cs then Inl (Err ''ErrInvalidCoins'')
      else let (a, s') = account_or_new addr (getAccount s addr acc) s
           in Inr (SetAccount (a\<lparr>acc_Coins := cs\<rparr>) s'))"

text \<open>The validity check of \<open>SetCoins\<close> builds an error and drops it.\<close>

definition SetCoins :: "bytes \<Rightarrow> DecCoins \<Rightarrow> ledger \<Rightarrow> ledger res" where
  "SetCoins addr cs s =
     (let (a, s') = account_or_new addr (GetAccount s addr) s
      in Inr (SetAccount (a\<lparr>acc_Coins := cs\<rparr>) s'))"

definition coins_of :: "Account option \<Rightarrow> DecCoins" where
  "coins_of acc = (case acc of None \<Rightarrow> [] | Some a \<Rightarrow> acc_Coins a)"

definition subtractCoins :: "bytes \<Rightarrow> Account option \<Rightarrow> DecCoins \<Rightarrow> ledger \<Rightarrow> (DecCoins \<times> ledger) res" where
  "subtractCoins addr acc cs s =
     (let oldCoins = coins_of acc; spendableCoins = coins_of acc
      in rbind (SafeSub spendableCoins cs) (\<lambda>(_, hasNeg).
           if hasNeg then Inl (Err ''ErrInsufficientFunds'')
           else rbind (DecCoins_Sub oldCoins cs) (\<lambda>newCoins.
                rbind (setCoinsToAccount addr acc newCoins s) (\<lambda>s'. Inr (newCoins, s')))))"

definition SubtractCoins :: "bytes \<Rightarrow> DecCoins \<Rightarrow> ledger \<Rightarrow> (DecCoins \<times> ledger) res" where
  "SubtractCoins addr cs s =
     (if \<not> IsValid cs then Inl (Err ''ErrInvalidCoins'') else subtractCoins addr (GetAccount s addr) cs s)"

definition addCoins :: "bytes \<Rightarrow> Account option \<Rightarrow> DecCoins \<Rightarrow> ledger \<Rightarrow> (DecCoins \<times> ledger) res" where
  "addCoins addr acc cs s =
     rbind (DecCoins_Add (coins_of acc) cs) (\<lambda>newCoins.
       if IsAnyNegative newCoins then Inl (Err ''ErrInsufficientFunds'')
       else rbind (setCoinsToAccount addr acc newCoins s) (\<lambda>s'. Inr (newCoins, s')))"

definition AddCoins :: "bytes \<Rightarrow> DecCoins \<Rightarrow> ledger \<Rightarrow> (DecCoins \<times> ledger) res" where
  "AddCoins addr cs s =
     (if \<not> IsValid cs then Inl (Err ''ErrInvalidCoins'') else addCoins addr (GetAccount s addr) cs s)"

text \<open>The account cache of the context only saves reads: it is filled by the Ethereum ante
  handler and checked against the address, so both accounts are read from the store here.\<close>

definition SendCoins :: "bytes \<Rightarrow> bytes \<Rightarrow> DecCoins \<Rightarrow> ledger \<Rightarrow> ledger res" where
  "SendCoins fromAddr toAddr cs s =
     (if \<not> IsValid cs then Inl (Err ''ErrInvalidCoins'')
      else rbind (subtractCoins fromAddr (GetAccount s fromAddr) cs s) (\<lambda>(_, s1).
           rbind (addCoins toAddr (GetAccount s1 toAddr) cs s1) (\<lambda>(_, s2). Inr s2)))"

definition trackDelegation :: "Account \<Rightarrow> DecCoins \<Rightarrow> Account res" where
  "trackDelegation acc cs = rbind (DecCoins_Sub (acc_Coins acc) cs) (\<lambda>c. Inr (acc\<lparr>acc_Coins := c\<rparr>))"

definition trackUndelegation :: "Account \<Rightarrow> DecCoins \<Rightarrow> Account res" where
  "trackUndelegation acc cs = rbind (DecCoins_Add (acc_Coins acc) cs) (\<lambda>c. Inr (acc\<lparr>acc_Coins := c\<rparr>))"

definition DelegateCoins :: "bytes \<Rightarrow> bytes \<Rightarrow> DecCoins \<Rightarrow> ledger \<Rightarrow> ledger res" where
  "DelegateCoins delegatorAddr moduleAccAddr cs s =
     (case GetAccount s delegatorAddr of
        None \<Rightarrow> Inl (Err ''ErrUnknownAddress'')
      | Some delegatorAcc \<Rightarrow>
          (case GetAccount s moduleAccAddr of
             None \<Rightarrow> Inl (Err ''ErrUnknownAddress'')
           | Some _ \<Rightarrow>
               if \<not> IsValid cs then Inl (Err ''ErrInvalidCoins'')
               else rbind (SafeSub (acc_Coins delegatorAcc) cs) (\<lambda>(_, hasNeg).
                 if hasNeg then Inl (Err ''ErrInsufficientFunds'')
                 else rbind (trackDelegation delegatorAcc cs) (\<lambda>acc.
                      rbind (AddCoins moduleAccAddr cs (SetAccount acc s)) (\<lambda>(_, s'). Inr s')))))"

definition UndelegateCoins :: "bytes \<Rightarrow> bytes \<Rightarrow> DecCoins \<Rightarrow> ledger \<Rightarrow> ledger res" where
  "UndelegateCoins moduleAccAddr delegatorAddr cs s =
     (case GetAccount s delegatorAddr of
        None \<Rightarrow> Inl (Err ''ErrUnknownAddress'')
      | Some delegatorAcc \<Rightarrow>
          (case GetAccount s moduleAccAddr of
             None \<Rightarrow> Inl (Err ''ErrUnknownAddress'')
           | Some moduleAcc \<Rightarrow>
               if \<not> IsValid cs then Inl (Err ''ErrInvalidCoins'')
               else rbind (SafeSub (acc_Coins moduleAcc) cs) (\<lambda>(newCoins, hasNeg).
                 if hasNeg then Inl (Err ''ErrInsufficientFunds'')
                 else rbind (SetCoins moduleAccAddr newCoins s) (\<lambda>s'.
                      rbind (trackUndelegation delegatorAcc cs) (\<lambda>acc. Inr (SetAccount acc s'))))))"

section \<open>Bank messages\<close>

record Input =
  io_Address :: bytes
  io_Coins :: DecCoins

text \<open>\<open>Input\<close> and \<open>Output\<close> have the same fields and the same \<open>ValidateBasic\<close>.\<close>

definition Input_ValidateBasic :: "Input \<Rightarrow> unit res" where
  "Input_ValidateBasic i =
     (if length (io_Address i) = 0 then Inl (Err ''ErrInvalidAddress'')
      else if \<not> IsValid (io_Coins i) then Inl (Err ''ErrInvalidCoins'')
      else if \<not> IsAllPositive (io_Coins i) then Inl (Err ''ErrInvalidCoins'')
      else Inr ())"

definition total_io :: "Input list \<Rightarrow> DecCoins res" where
  "total_io ios = rfold (\<lambda>i tot. rbind (Input_ValidateBasic i) (\<lambda>_. DecCoins_Add tot (io_Coins i))) ios []"

definition ValidateInputsOutputs :: "Input list \<Rightarrow> Input list \<Rightarrow> unit res" where
  "ValidateInputsOutputs inputs outputs =
     rbind (total_io inputs) (\<lambda>totalIn.
     rbind (total_io outputs) (\<lambda>totalOut.
     rbind (DecCoins_IsEqual totalIn totalOut) (\<lambda>eq.
       if \<not> eq then Inl (Err ''ErrInputOutputMismatch'') else Inr ())))"

definition InputOutputCoins :: "Input list \<Rightarrow> Input list \<Rightarrow> ledger \<Rightarrow> ledger res" where
  "InputOutputCoins inputs outputs s =
     rbind (ValidateInputsOutputs inputs outputs) (\<lambda>_.
     rbind (rfold (\<lambda>i s. rbind (SubtractCoins (io_Address i) (io_Coins i) s) (\<lambda>(_, s'). Inr s')) inputs s) (\<lambda>s1.
       rfold (\<lambda>out s. rbind (AddCoins (io_Address out) (io_Coins out) s) (\<lambda>(_, s').
         case GetAccount s' (io_Address out) of
           None \<Rightarrow> (let (a, s'') = NewAccountWithAddress (io_Address out) s' in Inr (SetAccount a s''))
         | Some _ \<Rightarrow> Inr s')) outputs s1))"

datatype bank_msg =
    MsgSend bytes bytes DecCoins
  | MsgMultiSend "Input list" "Input list"

text \<open>The restricted recipients are the keeper's \<open>blacklistedAddrs\<close>.\<close>

definition handleMsgSend :: "(bytes \<Rightarrow> bool) \<Rightarrow> bytes \<Rightarrow> bytes \<Rightarrow> DecCoins \<Rightarrow> ledger \<Rightarrow> ledger res" where
  "handleMsgSend BlacklistedAddr fromAddress toAddress cs s =
     (if \<not> ParamSendEnabled s then Inl (Err ''ErrSendDisabled'')
      else if BlacklistedAddr toAddress then Inl (Err ''ErrUnauthorized'')
      else SendCoins fromAddress toAddress cs s)"

definition handleMsgMultiSend :: "(bytes \<Rightarrow> bool) \<Rightarrow> Input list \<Rightarrow> Input list \<Rightarrow> ledger \<Rightarrow> ledger res" where
  "handleMsgMultiSend BlacklistedAddr inputs outputs s =
     (if \<not> ParamSendEnabled s then Inl (Err ''ErrSendDisabled'')
      else if list_ex (\<lambda>out. BlacklistedAddr (io_Address out)) outputs then Inl (Err ''ErrUnauthorized'')
      else InputOutputCoins inputs outputs s)"

definition bank_Handler :: "(bytes \<Rightarrow> bool) \<Rightarrow> bank_msg \<Rightarrow> ledger \<Rightarrow> ledger res" where
  "bank_Handler BlacklistedAddr msg s =
     (case msg of MsgSend f t cs \<Rightarrow> handleMsgSend BlacklistedAddr f t cs s
      | MsgMultiSend ins outs \<Rightarrow> handleMsgMultiSend BlacklistedAddr ins outs s)"

definition MsgSend_ValidateBasic :: "bytes \<Rightarrow> bytes \<Rightarrow> DecCoins \<Rightarrow> unit res" where
  "MsgSend_ValidateBasic f t cs =
     (if f = [] then Inl (Err ''ErrInvalidAddress'')
      else if t = [] then Inl (Err ''ErrInvalidAddress'')
      else if \<not> IsValid cs then Inl (Err ''ErrInvalidCoins'')
      else if \<not> IsAllPositive cs then Inl (Err ''ErrInvalidCoins'')
      else Inr ())"

definition NonnegativeBalanceInvariant :: "ledger \<Rightarrow> bool" where
  "NonnegativeBalanceInvariant s \<longleftrightarrow>
     length (filter (\<lambda>acc. IsAnyNegative (acc_Coins acc)) (GetAllAccounts s)) \<noteq> 0"

section \<open>Supply keeper\<close>

definition Minter :: string where "Minter = ''minter''"
definition Burner :: string where "Burner = ''burner''"
definition Staking :: string where "Staking = ''staking''"

record PermissionsForAddress =
  pa_permissions :: "string list"
  pa_address :: bytes

text \<open>\<open>AddressHash\<close> is the hash of a module name (\<open>crypto.AddressHash\<close>), a parameter.\<close>

record supply_keeper =
  AddressHash :: "string \<Rightarrow> bytes"
  permAddrs :: "string \<rightharpoonup> PermissionsForAddress"
  blacklistedAddrs :: "bytes \<Rightarrow> bool"

definition NewModuleAddress :: "supply_keeper \<Rightarrow> string \<Rightarrow> bytes" where
  "NewModuleAddress k name = AddressHash k name"

definition NewKeeper :: "(string \<Rightarrow> bytes) \<Rightarrow> (bytes \<Rightarrow> bool) \<Rightarrow> (string \<times> string list) list \<Rightarrow> supply_keeper" where
  "NewKeeper hash blacklisted maccPerms =
     \<lparr>AddressHash = hash,
      permAddrs = (\<lambda>name. map_option (\<lambda>perms. \<lparr>pa_permissions = perms, pa_address = hash name\<rparr>) (map_of maccPerms name)),
      blacklistedAddrs = blacklisted\<rparr>"

text \<open>The modules of the application and the restricted recipients it derives from them.\<close>

definition maccPerms :: "(string \<times> string list) list" where
  "maccPerms =
     [(''fee_collector'', []), (''distribution'', []), (''mint'', [Minter]),
      (''bonded_tokens_pool'', [Burner, Staking]), (''not_bonded_tokens_pool'', [Burner, Staking]),
      (''gov'', []), (''token'', [Minter, Burner]), (''transfer'', [Minter, Burner]), (''erc20'', [Minter, Burner]),
      (''wasm'', []), (''feesplit'', []), (''feeibc'', []), (''interchainaccounts'', [])]"

definition ModuleAccountAddrs :: "(string \<Rightarrow> bytes) \<Rightarrow> bytes \<Rightarrow> bool" where
  "ModuleAccountAddrs hash a \<longleftrightarrow> list_ex (\<lambda>(name, _). hash name = a) maccPerms"

definition app_keeper :: "(string \<Rightarrow> bytes) \<Rightarrow> supply_keeper" where
  "app_keeper hash = NewKeeper hash (ModuleAccountAddrs hash) maccPerms"

definition is_space :: "char \<Rightarrow> bool" where
  "is_space c \<longleftrightarrow> c \<in> {CHR '' '', CHR 0x09, CHR 0x0A, CHR 0x0B, CHR 0x0C, CHR 0x0D}"

definition validatePermissions :: "string list \<Rightarrow> unit res" where
  "validatePermissions perms =
     (if list_ex (list_all is_space) perms then Inl (Err ''module permission is empty'') else Inr ())"

definition NewEmptyModuleAccount :: "supply_keeper \<Rightarrow> string \<Rightarrow> string list \<Rightarrow> Account res" where
  "NewEmptyModuleAccount k name perms =
     (case validatePermissions perms of Inl _ \<Rightarrow> Inl (Panic ''module permission is empty'')
      | Inr _ \<Rightarrow> Inr \<lparr>acc_Address = NewModuleAddress k name, acc_Coins = [], AccountNumber = 0, Sequence = 0,
                       acc_type = ModuleAcc name perms\<rparr>)"

definition HasPermission :: "Account \<Rightarrow> string \<Rightarrow> bool" where
  "HasPermission acc perm = (case acc_type acc of ModuleAcc _ perms \<Rightarrow> list_ex (\<lambda>p. p = perm) perms | EthAcc \<Rightarrow> False)"

definition GetModuleAddress :: "supply_keeper \<Rightarrow> string \<Rightarrow> bytes option" where
  "GetModuleAddress k name = map_option pa_address (permAddrs k name)"

definition GetModuleAccount :: "supply_keeper \<Rightarrow> string \<Rightarrow> ledger \<Rightarrow> (Account option \<times> ledger) res" where
  "GetModuleAccount k name s =
     (case permAddrs k name of
        None \<Rightarrow> Inr (None, s)
      | Some pa \<Rightarrow>
          (case GetAccount s (pa_address pa) of
             Some acc \<Rightarrow> (case acc_type acc of EthAcc \<Rightarrow> Inl (Panic ''account is not a module account'')
                          | ModuleAcc _ _ \<Rightarrow> Inr (Some acc, s))
           | None \<Rightarrow> rbind (NewEmptyModuleAccount k name (pa_permissions pa)) (\<lambda>macc.
               let (acc, s') = NewAccount macc s in Inr (Some acc, SetAccount acc s'))))"

text \<open>Every use of a module account panics when the module is not registered.\<close>

definition module_account :: "supply_keeper \<Rightarrow> string \<Rightarrow> ledger \<Rightarrow> (Account \<times> ledger) res" where
  "module_account k name s =
     rbind (GetModuleAccount k name s) (\<lambda>(acc, s').
       case acc of None \<Rightarrow> Inl (Panic ''module account does not exist'') | Some a \<Rightarrow> Inr (a, s'))"

definition SendCoinsFromModuleToAccount :: "supply_keeper \<Rightarrow> string \<Rightarrow> bytes \<Rightarrow> DecCoins \<Rightarrow> ledger \<Rightarrow> ledger res" where
  "SendCoinsFromModuleToAccount k senderModule recipientAddr cs s =
     (if blacklistedAddrs k recipientAddr then Inl (Err ''ErrUnknownAddress'')
      else case GetModuleAddress k senderModule of
             None \<Rightarrow> Inl (Panic ''module account does not exist'')
           | Some senderAddr \<Rightarrow> SendCoins senderAddr recipientAddr cs s)"

definition SendCoinsFromModuleToModule :: "supply_keeper \<Rightarrow> string \<Rightarrow> string \<Rightarrow> DecCoins \<Rightarrow> ledger \<Rightarrow> ledger res" where
  "SendCoinsFromModuleToModule k senderModule recipientModule cs s =
     (case GetModuleAddress k senderModule of
        None \<Rightarrow> Inl (Panic ''module account does not exist'')
      | Some senderAddr \<Rightarrow>
          rbind (module_account k recipientModule s) (\<lambda>(recipientAcc, s').
            SendCoins senderAddr (acc_Address recipientAcc) cs s'))"

definition SendCoinsFromAccountToModule :: "supply_keeper \<Rightarrow> bytes \<Rightarrow> string \<Rightarrow> DecCoins \<Rightarrow> ledger \<Rightarrow> ledger res" where
  "SendCoinsFromAccountToModule k senderAddr recipientModule cs s =
     rbind (module_account k recipientModule s) (\<lambda>(recipientAcc, s').
       SendCoins senderAddr (acc_Address recipientAcc) cs s')"

definition DelegateCoinsFromAccountToModule :: "supply_keeper \<Rightarrow> bytes \<Rightarrow> string \<Rightarrow> DecCoins \<Rightarrow> ledger \<Rightarrow> ledger res" where
  "DelegateCoinsFromAccountToModule k senderAddr recipientModule cs s =
     rbind (module_account k recipientModule s) (\<lambda>(recipientAcc, s').
       if \<not> HasPermission recipientAcc Staking then Inl (Panic ''ErrUnauthorized'')
       else DelegateCoins senderAddr (acc_Address recipientAcc) cs s')"

definition UndelegateCoinsFromModuleToAccount :: "supply_keeper \<Rightarrow> string \<Rightarrow> bytes \<Rightarrow> DecCoins \<Rightarrow> ledger \<Rightarrow> ledger res" where
  "UndelegateCoinsFromModuleToAccount k senderModule recipientAddr cs s =
     rbind (module_account k senderModule s) (\<lambda>(acc, s').
       if \<not> HasPermission acc Staking then Inl (Panic ''ErrUnauthorized'')
       else UndelegateCoins (acc_Address acc) recipientAddr cs s')"

definition GetSupplyByDenom :: "ledger \<Rightarrow> string \<Rightarrow> Dec" where
  "GetSupplyByDenom s denom = (case kv_get (tokenSupply s) denom of None \<Rightarrow> ZeroDec | Some a \<Rightarrow> a)"

definition setTokenSupplyAmount :: "string \<Rightarrow> Dec \<Rightarrow> ledger \<Rightarrow> ledger" where
  "setTokenSupplyAmount tokenSymbol supplyAmount s = s\<lparr>tokenSupply := kv_set tokenSymbol supplyAmount (tokenSupply s)\<rparr>"

definition inflate :: "string \<Rightarrow> Dec \<Rightarrow> ledger \<Rightarrow> ledger res" where
  "inflate tokenSymbol amount s =
     (if amount = ZeroDec then Inr s
      else rbind (Dec_Add (GetSupplyByDenom s tokenSymbol) amount) (\<lambda>a. Inr (setTokenSupplyAmount tokenSymbol a s)))"

definition deflate :: "string \<Rightarrow> Dec \<Rightarrow> ledger \<Rightarrow> ledger res" where
  "deflate tokenSymbol deflationAmount s =
     rbind (Dec_Sub (GetSupplyByDenom s tokenSymbol) deflationAmount) (\<lambda>supplyAmount.
       if supplyAmount < 0 then Inl (Err ''ErrInvalidDeflation'')
       else Inr (setTokenSupplyAmount tokenSymbol supplyAmount s))"

definition MintCoins :: "supply_keeper \<Rightarrow> string \<Rightarrow> DecCoins \<Rightarrow> ledger \<Rightarrow> ledger res" where
  "MintCoins k moduleName cs s =
     rbind (module_account k moduleName s) (\<lambda>(acc, s1).
       if \<not> HasPermission acc Minter then Inl (Panic ''ErrUnauthorized'')
       else rbind (AddCoins (acc_Address acc) cs s1) (\<lambda>(_, s2).
         rfold (\<lambda>c. inflate (Denom c) (Amount c)) cs s2))"

definition BurnCoins :: "supply_keeper \<Rightarrow> string \<Rightarrow> DecCoins \<Rightarrow> ledger \<Rightarrow> ledger res" where
  "BurnCoins k moduleName cs s =
     rbind (module_account k moduleName s) (\<lambda>(acc, s1).
       if \<not> HasPermission acc Burner then Inl (Panic ''ErrUnauthorized'')
       else rbind (SubtractCoins (acc_Address acc) cs s1) (\<lambda>(_, s2).
         rfold (\<lambda>c. deflate (Denom c) (Amount c)) cs s2))"

definition GetSupply :: "ledger \<Rightarrow> DecCoins res" where
  "GetSupply s = rfold (\<lambda>(d, a) tot. rbind (NewDecCoinFromDec d a) (\<lambda>c. Inr (tot @ [c]))) (kv_entries (tokenSupply s)) []"

definition SetSupply :: "DecCoins \<Rightarrow> ledger \<Rightarrow> ledger" where
  "SetSupply supply s = fold (\<lambda>c. setTokenSupplyAmount (Denom c) (Amount c)) supply s"

text \<open>The run-time invariant; the result says whether it is broken.\<close>

definition TotalSupply :: "ledger \<Rightarrow> bool res" where
  "TotalSupply s =
     rbind (GetSupply s) (\<lambda>supply.
     rbind (rfold (\<lambda>acc tot. DecCoins_Add tot (acc_Coins acc)) (GetAllAccounts s) []) (\<lambda>expectedTotal.
     rbind (rfold (\<lambda>c tot. if Amount c \<noteq> 0 then DecCoins_Add tot [c] else Inr tot) supply []) (\<lambda>supplyCoins.
     rbind (DecCoins_IsEqual expectedTotal supplyCoins) (\<lambda>eq. Inr (\<not> eq)))))"

section \<open>Balances\<close>

definition bal :: "ledger \<Rightarrow> bytes \<Rightarrow> string \<Rightarrow> int" where
  "bal s a d = amt (GetCoins s a) d"

definition total_bal :: "ledger \<Rightarrow> string \<Rightarrow> int" where
  "total_bal s d = kv_total (\<lambda>_ acc. amt (acc_Coins acc) d) (accounts s)"

text \<open>Positive amounts in strictly ascending denominations: what the stored coins are.\<close>

definition coins_ok :: "DecCoins \<Rightarrow> bool" where
  "coins_ok cs \<longleftrightarrow> sorted_coins cs \<and> (\<forall>c \<in> set cs. 0 < Amount c)"

definition ledger_ok :: "ledger \<Rightarrow> bool" where
  "ledger_ok s \<longleftrightarrow> (\<forall>a acc. GetAccount s a = Some acc \<longrightarrow> acc_Address acc = a \<and> coins_ok (acc_Coins acc))"

lemma coins_okD: "coins_ok cs \<Longrightarrow> canonical cs" "coins_ok cs \<Longrightarrow> 0 \<le> amt cs d" "coins_ok cs \<Longrightarrow> sorted_coins cs"
  by (auto simp: coins_ok_def canonical_def no_zero_def order_less_imp_le amt_nonneg)

lemma coins_ok_iff: "coins_ok cs \<longleftrightarrow> canonical cs \<and> (\<forall>d. 0 \<le> amt cs d)"
proof
  assume c: "canonical cs \<and> (\<forall>d. 0 \<le> amt cs d)"
  have "0 < Amount c" if "c \<in> set cs" for c
  proof -
    have "amt cs (Denom c) = Amount c" using c that amt_sorted_mem by (simp add: canonical_def)
    moreover have "Amount c \<noteq> 0" using c that by (auto simp: canonical_def no_zero_def)
    ultimately show ?thesis using c by (metis order_le_less)
  qed
  with c show "coins_ok cs" by (simp add: coins_ok_def canonical_def)
qed (simp add: coins_okD)

lemma IsValid_coins_ok: "IsValid cs \<Longrightarrow> coins_ok cs"
  using IsValid_sorted by (auto simp: coins_ok_def)

lemma coins_ok_Nil [simp]: "coins_ok []"
  by (simp add: coins_ok_def)

lemma coins_ok_Add: "coins_ok as \<Longrightarrow> coins_ok bs \<Longrightarrow> DecCoins_Add as bs = Inr cs \<Longrightarrow> coins_ok cs"
  using canonical_Add DecCoins_Add_spec(1) unfolding coins_ok_iff by (metis add_nonneg_nonneg)

lemma coins_ok_Sub: "coins_ok as \<Longrightarrow> coins_ok bs \<Longrightarrow> DecCoins_Sub as bs = Inr cs \<Longrightarrow> coins_ok cs"
  using canonical_Sub DecCoins_Sub_spec(1,4) coins_okD(3) unfolding coins_ok_iff by (metis diff_ge_0_iff_ge canonical_def)

lemma coins_ok_SafeSub: "coins_ok as \<Longrightarrow> coins_ok bs \<Longrightarrow> SafeSub as bs = Inr (cs, False) \<Longrightarrow> coins_ok cs"
  using coins_ok_Sub [of as bs cs] by (simp add: DecCoins_Sub_def)

lemma GetCoins_ok: "ledger_ok s \<Longrightarrow> coins_ok (GetCoins s a)"
  by (auto simp: ledger_ok_def GetCoins_def split: option.split)

lemma bal_nonneg: "ledger_ok s \<Longrightarrow> 0 \<le> bal s a d"
  unfolding bal_def using GetCoins_ok coins_okD(2) by blast

text \<open>Writing an account sets the balances at its address.\<close>

lemma GetAccount_SetAccount [simp]:
  "GetAccount (SetAccount acc s) a = (if a = acc_Address acc then Some acc else GetAccount s a)"
  by (simp add: GetAccount_def SetAccount_def)

lemma GetCoins_SetAccount: "GetCoins (SetAccount acc s) a = (if a = acc_Address acc then acc_Coins acc else GetCoins s a)"
  by (simp add: GetCoins_def)

lemma ledger_ok_SetAccount: "ledger_ok s \<Longrightarrow> coins_ok (acc_Coins acc) \<Longrightarrow> ledger_ok (SetAccount acc s)"
  by (auto simp: ledger_ok_def)

lemma SetAccount_frame [simp]:
  "tokenSupply (SetAccount acc s) = tokenSupply s" "ParamSendEnabled (SetAccount acc s) = ParamSendEnabled s"
  by (simp_all add: SetAccount_def)

lemma ledger_frame:
  assumes "accounts s' = accounts s"
  shows "GetAccount s' a = GetAccount s a" "GetCoins s' a = GetCoins s a" "bal s' a d = bal s a d"
    "total_bal s' d = total_bal s d" "ledger_ok s' \<longleftrightarrow> ledger_ok s"
  using assms by (simp_all add: GetAccount_def GetCoins_def bal_def total_bal_def ledger_ok_def)

lemma NewAccount_frame:
  "accounts (snd (NewAccount acc s)) = accounts s" "tokenSupply (snd (NewAccount acc s)) = tokenSupply s"
  "acc_Address (fst (NewAccount acc s)) = acc_Address acc" "acc_Coins (fst (NewAccount acc s)) = acc_Coins acc"
  "acc_type (fst (NewAccount acc s)) = acc_type acc" "ParamSendEnabled (snd (NewAccount acc s)) = ParamSendEnabled s"
  by (simp_all add: NewAccount_def GetNextAccountNumber_def Let_def)

text \<open>The effect of an operation on the ledger: \<open>f a d\<close> is added to the balances, and the stored
  supply is kept.\<close>

definition changes :: "ledger \<Rightarrow> ledger \<Rightarrow> (bytes \<Rightarrow> string \<Rightarrow> int) \<Rightarrow> bool" where
  "changes s s' f \<longleftrightarrow> ledger_ok s' \<and> (\<forall>a d. bal s' a d = bal s a d + f a d) \<and> tokenSupply s' = tokenSupply s \<and>
     (\<forall>a acc. GetAccount s a = Some acc \<longrightarrow> (\<exists>acc'. GetAccount s' a = Some acc' \<and> acc_type acc' = acc_type acc))"

definition credit :: "bytes \<Rightarrow> DecCoins \<Rightarrow> bytes \<Rightarrow> string \<Rightarrow> int" where
  "credit x cs a d = (if a = x then amt cs d else 0)"

definition transfer :: "bytes \<Rightarrow> bytes \<Rightarrow> DecCoins \<Rightarrow> bytes \<Rightarrow> string \<Rightarrow> int" where
  "transfer x y cs a d = credit y cs a d - credit x cs a d"

lemma changes_trans:
  assumes "changes s s1 f" "changes s1 s2 g" shows "changes s s2 (\<lambda>a d. f a d + g a d)"
  using assms unfolding changes_def by (metis add.assoc)

lemma changes_refl: "ledger_ok s \<Longrightarrow> changes s s (\<lambda>_ _. 0)"
  by (simp add: changes_def)

lemma changes_cong: "changes s s' f \<Longrightarrow> (\<And>a d. f a d = g a d) \<Longrightarrow> changes s s' g"
  by (simp add: changes_def)

lemma changesD:
  assumes "changes s s' f"
  shows "ledger_ok s'" "bal s' a d = bal s a d + f a d" "tokenSupply s' = tokenSupply s"
  using assms by (auto simp: changes_def)

lemma SetAccount_changes:
  assumes "ledger_ok s" "coins_ok (acc_Coins acc)"
    and "\<And>acc0. GetAccount s (acc_Address acc) = Some acc0 \<Longrightarrow> acc_type acc = acc_type acc0"
  shows "changes s (SetAccount acc s) (\<lambda>a d. if a = acc_Address acc then amt (acc_Coins acc) d - bal s a d else 0)"
  using assms by (auto simp: changes_def ledger_ok_SetAccount bal_def GetCoins_SetAccount)

lemma account_or_new_spec:
  assumes "ledger_ok s" "account_or_new addr (GetAccount s addr) s = (a, s')"
  shows "acc_Address a = addr" "accounts s' = accounts s" "tokenSupply s' = tokenSupply s"
    "GetAccount s addr = Some acc0 \<Longrightarrow> acc_type a = acc_type acc0" "ParamSendEnabled s' = ParamSendEnabled s"
  using assms NewAccount_frame [of "ProtoAccount\<lparr>acc_Address := addr\<rparr>" s]
  by (auto simp: account_or_new_def ledger_ok_def NewAccountWithAddress_def split: option.splits)

lemma getAccount_same [simp]: "ledger_ok s \<Longrightarrow> getAccount s addr (GetAccount s addr) = GetAccount s addr"
  by (auto simp: getAccount_def ledger_ok_def split: option.splits)

lemma SetCoins_changes:
  assumes "ledger_ok s" "coins_ok cs" "SetCoins addr cs s = Inr s'"
  shows "changes s s' (\<lambda>a d. if a = addr then amt cs d - bal s a d else 0)"
proof -
  obtain a s1 where a: "account_or_new addr (GetAccount s addr) s = (a, s1)" by fastforce
  note spec = account_or_new_spec [OF assms(1) a]
  have s': "s' = SetAccount (a\<lparr>acc_Coins := cs\<rparr>) s1" using assms(3) a by (simp add: SetCoins_def)
  have "changes s1 s' (\<lambda>b d. if b = addr then amt cs d - bal s1 b d else 0)"
    unfolding s' using SetAccount_changes [of s1 "a\<lparr>acc_Coins := cs\<rparr>"] assms(1,2) spec ledger_frame [OF spec(2)]
    by (simp cong: if_cong)
  then show ?thesis unfolding changes_def using ledger_frame [OF spec(2)] spec(3) by (simp cong: if_cong)
qed

lemma setCoinsToAccount_changes:
  assumes "ledger_ok s" "setCoinsToAccount addr (GetAccount s addr) cs s = Inr s'"
  shows "changes s s' (\<lambda>a d. if a = addr then amt cs d - bal s a d else 0)"
proof -
  have "SetCoins addr cs s = Inr s'" "IsValid cs"
    using assms by (auto simp: setCoinsToAccount_def SetCoins_def split: if_splits)
  then show ?thesis using SetCoins_changes [OF assms(1)] IsValid_coins_ok by blast
qed

lemma coins_of_GetAccount [simp]: "coins_of (GetAccount s a) = GetCoins s a"
  by (simp add: coins_of_def GetCoins_def)

lemma subtractCoins_changes:
  assumes "ledger_ok s" "IsValid cs" "subtractCoins addr (GetAccount s addr) cs s = Inr (nc, s')"
  shows "changes s s' (\<lambda>a d. - credit addr cs a d)" "amt cs d \<le> bal s addr d"
proof -
  from assms(3) have sub: "DecCoins_Sub (GetCoins s addr) cs = Inr nc"
    and set: "setCoinsToAccount addr (GetAccount s addr) nc s = Inr s'"
    by (auto simp: subtractCoins_def split: if_splits prod.splits)
  have n: "amt nc d = bal s addr d - amt cs d" for d using DecCoins_Sub_spec(1) [OF sub] by (simp add: bal_def)
  show "changes s s' (\<lambda>a d. - credit addr cs a d)"
    using setCoinsToAccount_changes [OF assms(1) set] by (rule changes_cong) (simp add: n credit_def)
  show "amt cs d \<le> bal s addr d"
    using DecCoins_Sub_spec(4) [OF sub] coins_okD(3) GetCoins_ok [OF assms(1)] IsValid_coins_ok [OF assms(2)]
    by (simp add: bal_def)
qed

lemma addCoins_changes:
  assumes "ledger_ok s" "IsValid cs" "addCoins addr (GetAccount s addr) cs s = Inr (nc, s')"
  shows "changes s s' (credit addr cs)"
proof -
  from assms(3) have add: "DecCoins_Add (GetCoins s addr) cs = Inr nc"
    and set: "setCoinsToAccount addr (GetAccount s addr) nc s = Inr s'"
    by (auto simp: addCoins_def split: if_splits)
  have n: "amt nc d = bal s addr d + amt cs d" for d using DecCoins_Add_spec(1) [OF add] by (simp add: bal_def)
  show ?thesis
    using setCoinsToAccount_changes [OF assms(1) set] by (rule changes_cong) (simp add: n credit_def)
qed

lemma SubtractCoins_changes:
  assumes "ledger_ok s" "SubtractCoins addr cs s = Inr (nc, s')"
  shows "changes s s' (\<lambda>a d. - credit addr cs a d)" "amt cs d \<le> bal s addr d" "IsValid cs"
  using subtractCoins_changes [OF assms(1), of cs addr nc s'] assms(2)
  by (auto simp: SubtractCoins_def split: if_splits)

lemma AddCoins_changes:
  assumes "ledger_ok s" "AddCoins addr cs s = Inr (nc, s')"
  shows "changes s s' (credit addr cs)" "IsValid cs"
  using addCoins_changes [OF assms(1), of cs addr nc s'] assms(2) by (auto simp: AddCoins_def split: if_splits)

lemma SendCoins_changes:
  assumes "ledger_ok s" "SendCoins x y cs s = Inr s'"
  shows "changes s s' (transfer x y cs)" "amt cs d \<le> bal s x d" "IsValid cs"
proof -
  from assms(2) obtain nc s1 nc' where v: "IsValid cs"
    and sub: "subtractCoins x (GetAccount s x) cs s = Inr (nc, s1)"
    and add: "addCoins y (GetAccount s1 y) cs s1 = Inr (nc', s')"
    by (auto simp: SendCoins_def split: if_splits prod.splits)
  note c1 = subtractCoins_changes [OF assms(1) v sub]
  show "changes s s' (transfer x y cs)"
    using changes_trans [OF c1(1) addCoins_changes [OF changesD(1) [OF c1(1)] v add]]
    by (rule changes_cong) (simp add: transfer_def)
  show "amt cs d \<le> bal s x d" "IsValid cs" using c1(2) v by auto
qed

section \<open>The transfer contract\<close>

text \<open>Operations that promise to move coins from one account to another.  The condition \<open>adm\<close> is
  what the operation needs of the two addresses.\<close>

locale transfer_op =
  fixes src :: "'x \<Rightarrow> bytes" and dst :: "'y \<Rightarrow> bytes"
    and run :: "'x \<Rightarrow> 'y \<Rightarrow> DecCoins \<Rightarrow> ledger \<Rightarrow> ledger res"
    and adm :: "'x \<Rightarrow> 'y \<Rightarrow> bool"
  assumes run_changes: "ledger_ok s \<Longrightarrow> adm x y \<Longrightarrow> run x y cs s = Inr s' \<Longrightarrow> changes s s' (transfer (src x) (dst y) cs)"
    and run_covered: "ledger_ok s \<Longrightarrow> adm x y \<Longrightarrow> run x y cs s = Inr s' \<Longrightarrow> amt cs d \<le> bal s (src x) d"
    and run_valid: "ledger_ok s \<Longrightarrow> adm x y \<Longrightarrow> run x y cs s = Inr s' \<Longrightarrow> IsValid cs"
begin

lemma run_ok: "ledger_ok s \<Longrightarrow> adm x y \<Longrightarrow> run x y cs s = Inr s' \<Longrightarrow> ledger_ok s'"
  using run_changes changesD(1) by blast

lemma run_bal:
  "ledger_ok s \<Longrightarrow> adm x y \<Longrightarrow> run x y cs s = Inr s' \<Longrightarrow> bal s' a d = bal s a d + transfer (src x) (dst y) cs a d"
  using changesD(2) [OF run_changes] .

lemma run_sender:
  "ledger_ok s \<Longrightarrow> adm x y \<Longrightarrow> src x \<noteq> dst y \<Longrightarrow> run x y cs s = Inr s' \<Longrightarrow> bal s' (src x) d = bal s (src x) d - amt cs d"
  by (simp add: run_bal transfer_def credit_def)

lemma run_recipient:
  "ledger_ok s \<Longrightarrow> adm x y \<Longrightarrow> src x \<noteq> dst y \<Longrightarrow> run x y cs s = Inr s' \<Longrightarrow> bal s' (dst y) d = bal s (dst y) d + amt cs d"
  by (simp add: run_bal transfer_def credit_def)

lemma run_other:
  "ledger_ok s \<Longrightarrow> adm x y \<Longrightarrow> a \<noteq> src x \<Longrightarrow> a \<noteq> dst y \<Longrightarrow> run x y cs s = Inr s' \<Longrightarrow> bal s' a d = bal s a d"
  by (simp add: run_bal transfer_def credit_def)

lemma run_self: "ledger_ok s \<Longrightarrow> adm x y \<Longrightarrow> src x = dst y \<Longrightarrow> run x y cs s = Inr s' \<Longrightarrow> bal s' a d = bal s a d"
  by (simp add: run_bal transfer_def credit_def)

end

lemma total_bal_sum:
  assumes "finite A" "fst ` set (kv_entries (accounts s)) \<subseteq> A"
  shows "total_bal s d = (\<Sum>a\<in>A. bal s a d)"
proof -
  let ?E = "set (kv_entries (accounts s))"
  have b: "bal s a d = amt (acc_Coins acc) d" if "(a, acc) \<in> ?E" for a acc
    using that by (simp add: kv_in_entries bal_def GetCoins_def GetAccount_def)
  have dist: "distinct (map fst (kv_entries (accounts s)))" using asc_distinct kvs.entries_asc by blast
  have "total_bal s d = (\<Sum>p\<leftarrow>kv_entries (accounts s). bal s (fst p) d)"
    unfolding total_bal_def kv_total_def by (rule arg_cong [where f = sum_list], rule map_cong) (auto simp: b)
  also have "\<dots> = (\<Sum>a\<in>fst ` ?E. bal s a d)"
    using sum_list_distinct_conv_sum_set [OF dist, of "\<lambda>a. bal s a d"] by (simp add: comp_def)
  also have "\<dots> = (\<Sum>a\<in>A. bal s a d)"
  proof (rule sum.mono_neutral_left [OF assms])
    have "bal s a d = 0" if "a \<notin> fst ` ?E" for a
      using that kvs.look_Some_iff [OF TrueI, of "accounts s" a] by (simp add: bal_def GetCoins_def GetAccount_def)
    then show "\<forall>a\<in>A - fst ` ?E. bal s a d = 0" by blast
  qed
  finally show ?thesis .
qed

text \<open>A change with finitely many affected addresses changes the total by the sum of the changes.\<close>

lemma changes_total:
  assumes "changes s s' f" "finite B" "\<And>a. a \<notin> B \<Longrightarrow> f a d = 0"
  shows "total_bal s' d = total_bal s d + (\<Sum>a\<in>B. f a d)"
proof -
  let ?A = "fst ` set (kv_entries (accounts s)) \<union> fst ` set (kv_entries (accounts s')) \<union> B"
  have fin: "finite ?A" using assms(2) by simp
  have "total_bal s' d = (\<Sum>a\<in>?A. bal s a d + f a d)"
    using total_bal_sum [OF fin, of s' d] changesD(2) [OF assms(1)] by auto
  also have "\<dots> = (\<Sum>a\<in>?A. bal s a d) + (\<Sum>a\<in>?A. f a d)" by (rule sum.distrib)
  also have "(\<Sum>a\<in>?A. f a d) = (\<Sum>a\<in>B. f a d)"
    by (rule sum.mono_neutral_right [OF fin]) (use assms(3) in auto)
  also have "(\<Sum>a\<in>?A. bal s a d) = total_bal s d" by (rule total_bal_sum [OF fin, symmetric]) auto
  finally show ?thesis .
qed

lemma transfer_total: "changes s s' (transfer x y cs) \<Longrightarrow> total_bal s' d = total_bal s d"
proof -
  assume c: "changes s s' (transfer x y cs)"
  have "(\<Sum>a\<in>{x, y}. transfer x y cs a d) = 0"
    by (cases "x = y") (auto simp: transfer_def credit_def)
  with changes_total [OF c, of "{x, y}" d] show ?thesis by (simp add: transfer_def credit_def)
qed

lemma credit_total: "changes s s' (credit x cs) \<Longrightarrow> total_bal s' d = total_bal s d + amt cs d"
  using changes_total [of s s' "credit x cs" "{x}" d] by (simp add: credit_def)

lemma debit_total: "changes s s' (\<lambda>a d. - credit x cs a d) \<Longrightarrow> total_bal s' d = total_bal s d - amt cs d"
  using changes_total [of s s' "\<lambda>a d. - credit x cs a d" "{x}" d] by (simp add: credit_def)

text \<open>The stored supply of each denomination and the sum of the balances.\<close>

definition supplies :: "ledger \<Rightarrow> (string, Dec) kv \<times> (string \<Rightarrow> int)" where
  "supplies s = (tokenSupply s, total_bal s)"

lemma transfer_supplies: "changes s s' (transfer x y cs) \<Longrightarrow> supplies s' = supplies s"
  using transfer_total changesD(3) by (auto simp: supplies_def)

lemma same_supplies: "changes s s' (\<lambda>_ _. 0) \<Longrightarrow> supplies s' = supplies s"
  using changes_total [where B = "{}" and f = "\<lambda>_ _. 0" and s = s and s' = s'] changesD(3) by (auto simp: supplies_def)

text \<open>The invariant behind \<open>TotalSupply\<close>: the stored supply is the sum of all balances.\<close>

definition supply_inv :: "ledger \<Rightarrow> bool" where
  "supply_inv s \<longleftrightarrow> ledger_ok s \<and> (\<forall>d. GetSupplyByDenom s d = total_bal s d)"

lemma supply_inv_supplies: "supply_inv s \<Longrightarrow> ledger_ok s' \<Longrightarrow> supplies s' = supplies s \<Longrightarrow> supply_inv s'"
  by (simp add: supply_inv_def supplies_def GetSupplyByDenom_def)

lemma supply_inv_ok: "supply_inv s \<Longrightarrow> ledger_ok s"
  by (simp add: supply_inv_def)

lemma supply_inv_transfer: "supply_inv s \<Longrightarrow> changes s s' (transfer x y cs) \<Longrightarrow> supply_inv s'"
  using transfer_total changesD(1,3) by (simp add: supply_inv_def GetSupplyByDenom_def)

context transfer_op
begin

lemma run_total: "ledger_ok s \<Longrightarrow> adm x y \<Longrightarrow> run x y cs s = Inr s' \<Longrightarrow> total_bal s' d = total_bal s d"
  using run_changes transfer_total by blast

lemma run_supply_inv:
  assumes "supply_inv s" "adm x y" "run x y cs s = Inr s'" shows "supply_inv s'"
  using supply_inv_transfer [OF assms(1) run_changes [OF supply_inv_ok [OF assms(1)] assms(2,3)]] .

text \<open>Any sequence of such transfers keeps the supply.\<close>

lemma runs_supply_inv:
  assumes "supply_inv s" "\<And>x y cs. (x, y, cs) \<in> set ts \<Longrightarrow> adm x y"
    and "rfold (\<lambda>(x, y, cs). run x y cs) ts s = Inr s'"
  shows "supply_inv s'"
  using rfold_invariant [of "\<lambda>(x, y, cs). run x y cs" ts s s' supply_inv] assms run_supply_inv by force

end

lemma DelegateCoins_changes:
  assumes "ledger_ok s" "DelegateCoins x y cs s = Inr s'"
  shows "changes s s' (transfer x y cs)" "amt cs d \<le> bal s x d" "IsValid cs"
proof -
  from assms(2) obtain acc nc nc' where acc: "GetAccount s x = Some acc" and v: "IsValid cs"
    and sub: "DecCoins_Sub (acc_Coins acc) cs = Inr nc"
    and add: "AddCoins y cs (SetAccount (acc\<lparr>acc_Coins := nc\<rparr>) s) = Inr (nc', s')"
    by (auto simp: DelegateCoins_def trackDelegation_def split: option.splits if_splits prod.splits)
  have x: "acc_Address acc = x" "coins_ok (acc_Coins acc)" using assms(1) acc by (auto simp: ledger_ok_def)
  have bal: "bal s x d = amt (acc_Coins acc) d" for d using acc by (simp add: bal_def GetCoins_def)
  have nc: "coins_ok nc" using coins_ok_Sub [OF x(2) IsValid_coins_ok [OF v] sub] .
  have "changes s (SetAccount (acc\<lparr>acc_Coins := nc\<rparr>) s) (\<lambda>a d. - credit x cs a d)"
    by (rule changes_cong [OF SetAccount_changes [OF assms(1)]])
      (use nc acc x DecCoins_Sub_spec(1) [OF sub] in \<open>auto simp: credit_def bal\<close>)
  from changes_trans [OF this AddCoins_changes(1) [OF changesD(1) [OF this] add]]
  show "changes s s' (transfer x y cs)" by (rule changes_cong) (simp add: transfer_def)
  show "amt cs d \<le> bal s x d"
    using DecCoins_Sub_spec(4) [OF sub] coins_okD(3) [OF x(2)] coins_okD(3) [OF IsValid_coins_ok [OF v]] by (simp add: bal)
  show "IsValid cs" by (rule v)
qed

lemma UndelegateCoins_changes:
  assumes "ledger_ok s" "x \<noteq> y" "UndelegateCoins x y cs s = Inr s'"
  shows "changes s s' (transfer x y cs)" "amt cs d \<le> bal s x d" "IsValid cs"
proof -
  from assms(3) obtain dacc macc nc nc' s1 where acc: "GetAccount s y = Some dacc" "GetAccount s x = Some macc"
    and v: "IsValid cs" and sub: "SafeSub (acc_Coins macc) cs = Inr (nc, False)"
    and set: "SetCoins x nc s = Inr s1" and add: "DecCoins_Add (acc_Coins dacc) cs = Inr nc'"
    and s': "s' = SetAccount (dacc\<lparr>acc_Coins := nc'\<rparr>) s1"
    by (auto simp: UndelegateCoins_def trackUndelegation_def split: option.splits if_splits prod.splits)
  have ok: "acc_Address dacc = y" "coins_ok (acc_Coins dacc)" "coins_ok (acc_Coins macc)" "coins_ok cs"
    using assms(1) acc v by (auto simp: ledger_ok_def IsValid_coins_ok)
  have bal: "bal s y d = amt (acc_Coins dacc) d" "bal s x d = amt (acc_Coins macc) d" for d
    using acc by (simp_all add: bal_def GetCoins_def)
  have nc: "coins_ok nc" using coins_ok_SafeSub [OF ok(3,4) sub] .
  have c1: "changes s s1 (\<lambda>a d. - credit x cs a d)"
    by (rule changes_cong [OF SetCoins_changes [OF assms(1) nc set]])
      (simp add: credit_def bal SafeSub_spec(1) [OF sub])
  have y1: "bal s1 y d = amt (acc_Coins dacc) d" for d
    using changesD(2) [OF c1, of y d] assms(2) by (simp add: credit_def bal)
  have ty: "acc_type dacc = acc_type acc0" if "GetAccount s1 y = Some acc0" for acc0
    using c1 acc(1) that unfolding changes_def by fastforce
  have "changes s1 s' (credit y cs)" unfolding s'
    by (rule changes_cong [OF SetAccount_changes [OF changesD(1) [OF c1]]])
      (use coins_ok_Add [OF ok(2,4) add] ty ok(1) DecCoins_Add_spec(1) [OF add] in \<open>auto simp: credit_def y1\<close>)
  from changes_trans [OF c1 this] show "changes s s' (transfer x y cs)"
    by (rule changes_cong) (simp add: transfer_def)
  show "amt cs d \<le> bal s x d"
    using SafeSub_spec(4) [OF sub] coins_okD(3) [OF ok(3)] coins_okD(3) [OF ok(4)] by (simp add: bal not_less)
  show "IsValid cs" by (rule v)
qed

text \<open>Module accounts.\<close>

definition keeper_ok :: "supply_keeper \<Rightarrow> bool" where
  "keeper_ok k \<longleftrightarrow> (\<forall>name pa. permAddrs k name = Some pa \<longrightarrow> pa_address pa = AddressHash k name)"

lemma NewKeeper_ok: "keeper_ok (NewKeeper hash blacklisted maccPerms)"
  by (auto simp: keeper_ok_def NewKeeper_def)

lemma module_account_changes:
  assumes "ledger_ok s" "keeper_ok k" "module_account k name s = Inr (acc, s')"
  shows "changes s s' (\<lambda>_ _. 0)" "acc_Address acc = AddressHash k name" "GetAccount s' (AddressHash k name) = Some acc"
proof -
  from assms(3) obtain pa where pa: "permAddrs k name = Some pa"
    by (auto simp: module_account_def GetModuleAccount_def split: option.splits)
  have addr: "pa_address pa = AddressHash k name" using assms(2) pa by (simp add: keeper_ok_def)
  have "changes s s' (\<lambda>_ _. 0) \<and> acc_Address acc = AddressHash k name \<and> GetAccount s' (AddressHash k name) = Some acc"
  proof (cases "GetAccount s (AddressHash k name)")
    case (Some a)
    then have "a = acc \<and> s' = s"
      using assms(3) pa addr by (auto simp: module_account_def GetModuleAccount_def split: acc_kind.splits)
    with Some assms(1) show ?thesis by (auto simp: changes_refl ledger_ok_def)
  next
    case None
    then obtain m where m: "NewEmptyModuleAccount k name (pa_permissions pa) = Inr m"
      and acc: "acc = fst (NewAccount m s)" "s' = SetAccount acc (snd (NewAccount m s))"
      using assms(3) pa addr by (auto simp: module_account_def GetModuleAccount_def Let_def case_prod_beta split: option.splits)
    have m': "acc_Address acc = AddressHash k name" "acc_Coins acc = []"
      using m unfolding acc(1) by (auto simp: NewAccount_frame NewEmptyModuleAccount_def NewModuleAddress_def split: sum.splits)
    note fr = NewAccount_frame [of m s] ledger_frame [OF NewAccount_frame(1) [of m s]]
    have "bal s (AddressHash k name) d = 0" for d using None by (simp add: bal_def GetCoins_def)
    then have "changes s s' (\<lambda>_ _. 0)"
      unfolding acc(2) changes_def using assms(1) fr m' None
      by (auto simp: ledger_ok_SetAccount bal_def GetCoins_SetAccount)
    with m' show ?thesis unfolding acc(2) by simp
  qed
  then show "changes s s' (\<lambda>_ _. 0)" "acc_Address acc = AddressHash k name" "GetAccount s' (AddressHash k name) = Some acc"
    by auto
qed

definition moved :: "ledger \<Rightarrow> ledger \<Rightarrow> bytes \<Rightarrow> bytes \<Rightarrow> DecCoins \<Rightarrow> bool" where
  "moved s s' x y cs \<longleftrightarrow> changes s s' (transfer x y cs) \<and> (\<forall>d. amt cs d \<le> bal s x d) \<and> IsValid cs"

text \<open>Reading the module account first, which may create it, does not change a transfer.\<close>

lemma module_account_moved:
  assumes "ledger_ok s" "keeper_ok k" "module_account k m s = Inr (acc, s1)" "ledger_ok s1 \<Longrightarrow> moved s1 s' x y cs"
  shows "moved s s' x y cs"
proof -
  note c = module_account_changes(1) [OF assms(1-3)]
  have m: "moved s1 s' x y cs" using assms(4) changesD(1) [OF c] .
  then have "changes s s' (\<lambda>a d. 0 + transfer x y cs a d)" using changes_trans [OF c] by (auto simp: moved_def)
  with m changesD(2) [OF c] show ?thesis by (simp add: moved_def)
qed

lemma SendCoins_moved: "ledger_ok s \<Longrightarrow> SendCoins x y cs s = Inr s' \<Longrightarrow> moved s s' x y cs"
  using SendCoins_changes by (simp add: moved_def)

lemma DelegateCoins_moved: "ledger_ok s \<Longrightarrow> DelegateCoins x y cs s = Inr s' \<Longrightarrow> moved s s' x y cs"
  using DelegateCoins_changes by (simp add: moved_def)

lemma UndelegateCoins_moved: "ledger_ok s \<Longrightarrow> x \<noteq> y \<Longrightarrow> UndelegateCoins x y cs s = Inr s' \<Longrightarrow> moved s s' x y cs"
  using UndelegateCoins_changes by (simp add: moved_def)

interpretation send: transfer_op "\<lambda>x. x" "\<lambda>y. y" SendCoins "\<lambda>_ _. True"
  by unfold_locales (erule (1) SendCoins_changes)+

interpretation delegate: transfer_op "\<lambda>x. x" "\<lambda>y. y" DelegateCoins "\<lambda>_ _. True"
  by unfold_locales (erule (1) DelegateCoins_changes)+

interpretation undelegate: transfer_op "\<lambda>x. x" "\<lambda>y. y" UndelegateCoins "\<lambda>x y. x \<noteq> y"
  by unfold_locales (erule (2) UndelegateCoins_changes)+

lemma SendCoinsFromModuleToAccount_eq:
  assumes "keeper_ok k" "SendCoinsFromModuleToAccount k m y cs s = Inr s'"
  shows "SendCoins (AddressHash k m) y cs s = Inr s' \<and> \<not> blacklistedAddrs k y"
  using assms by (auto simp: SendCoinsFromModuleToAccount_def GetModuleAddress_def keeper_ok_def split: if_splits option.splits)

interpretation send_module_account: transfer_op "AddressHash k" "\<lambda>y. y" "SendCoinsFromModuleToAccount k" "\<lambda>_ _. keeper_ok k"
  for k
  by unfold_locales (drule (1) SendCoinsFromModuleToAccount_eq, erule conjE, erule (1) SendCoins_changes)+

lemma SendCoinsFromAccountToModule_moved:
  assumes "ledger_ok s" "keeper_ok k" "SendCoinsFromAccountToModule k x m cs s = Inr s'"
  shows "moved s s' x (AddressHash k m) cs"
proof -
  from assms(3) obtain acc s1 where m: "module_account k m s = Inr (acc, s1)" and r: "SendCoins x (acc_Address acc) cs s1 = Inr s'"
    by (auto simp: SendCoinsFromAccountToModule_def)
  show ?thesis
    using module_account_moved [OF assms(1,2) m SendCoins_moved [OF _ r]] module_account_changes(2) [OF assms(1,2) m] by simp
qed

lemma SendCoinsFromModuleToModule_moved:
  assumes "ledger_ok s" "keeper_ok k" "SendCoinsFromModuleToModule k x m cs s = Inr s'"
  shows "moved s s' (AddressHash k x) (AddressHash k m) cs"
proof -
  from assms(2,3) obtain acc s1 where m: "module_account k m s = Inr (acc, s1)"
    and r: "SendCoins (AddressHash k x) (acc_Address acc) cs s1 = Inr s'"
    by (auto simp: SendCoinsFromModuleToModule_def GetModuleAddress_def keeper_ok_def split: option.splits)
  show ?thesis
    using module_account_moved [OF assms(1,2) m SendCoins_moved [OF _ r]] module_account_changes(2) [OF assms(1,2) m] by simp
qed

lemma DelegateCoinsFromAccountToModule_moved:
  assumes "ledger_ok s" "keeper_ok k" "DelegateCoinsFromAccountToModule k x m cs s = Inr s'"
  shows "moved s s' x (AddressHash k m) cs"
proof -
  from assms(3) obtain acc s1 where m: "module_account k m s = Inr (acc, s1)" and r: "DelegateCoins x (acc_Address acc) cs s1 = Inr s'"
    by (auto simp: DelegateCoinsFromAccountToModule_def split: if_splits)
  show ?thesis
    using module_account_moved [OF assms(1,2) m DelegateCoins_moved [OF _ r]] module_account_changes(2) [OF assms(1,2) m] by simp
qed

lemma UndelegateCoinsFromModuleToAccount_moved:
  assumes "ledger_ok s" "keeper_ok k" "AddressHash k m \<noteq> y" "UndelegateCoinsFromModuleToAccount k m y cs s = Inr s'"
  shows "moved s s' (AddressHash k m) y cs"
proof -
  from assms(4) obtain acc s1 where m: "module_account k m s = Inr (acc, s1)" and r: "UndelegateCoins (acc_Address acc) y cs s1 = Inr s'"
    by (auto simp: UndelegateCoinsFromModuleToAccount_def split: if_splits)
  note a = module_account_changes(2) [OF assms(1,2) m]
  show ?thesis
    using module_account_moved [OF assms(1,2) m UndelegateCoins_moved [OF _ _ r]] assms(3) a by simp
qed

interpretation send_account_module: transfer_op "\<lambda>x. x" "AddressHash k" "SendCoinsFromAccountToModule k" "\<lambda>_ _. keeper_ok k"
  for k
  by unfold_locales (auto dest: SendCoinsFromAccountToModule_moved simp: moved_def)

interpretation send_module_module: transfer_op "AddressHash k" "AddressHash k" "SendCoinsFromModuleToModule k" "\<lambda>_ _. keeper_ok k"
  for k
  by unfold_locales (auto dest: SendCoinsFromModuleToModule_moved simp: moved_def)

interpretation delegate_module: transfer_op "\<lambda>x. x" "AddressHash k" "DelegateCoinsFromAccountToModule k" "\<lambda>_ _. keeper_ok k"
  for k
  by unfold_locales (auto dest: DelegateCoinsFromAccountToModule_moved simp: moved_def)

interpretation undelegate_module: transfer_op "AddressHash k" "\<lambda>y. y" "UndelegateCoinsFromModuleToAccount k"
    "\<lambda>x y. keeper_ok k \<and> AddressHash k x \<noteq> y"
  for k
  by unfold_locales (auto dest: UndelegateCoinsFromModuleToAccount_moved simp: moved_def)

section \<open>Minting and burning\<close>

lemma supply_frame: "accounts s' = accounts s \<Longrightarrow> ledger_ok s \<Longrightarrow> ledger_ok s' \<and> total_bal s' d = total_bal s d"
  using ledger_frame by blast

lemma GetSupplyByDenom_set [simp]:
  "GetSupplyByDenom (setTokenSupplyAmount x a s) d = (if d = x then a else GetSupplyByDenom s d)"
  "accounts (setTokenSupplyAmount x a s) = accounts s"
  by (simp_all add: GetSupplyByDenom_def setTokenSupplyAmount_def)

lemma inflate_eq_Inr:
  assumes "inflate x a s = Inr s'"
  shows "accounts s' = accounts s" "GetSupplyByDenom s' d = GetSupplyByDenom s d + (if d = x then a else 0)"
  using assms by (auto simp: inflate_def ZeroDec_def split: if_splits)

lemma deflate_eq_Inr:
  assumes "deflate x a s = Inr s'"
  shows "accounts s' = accounts s" "GetSupplyByDenom s' d = GetSupplyByDenom s d - (if d = x then a else 0)"
  using assms by (auto simp: deflate_def split: if_splits)

lemma inflates:
  assumes "rfold (\<lambda>c. inflate (Denom c) (Amount c)) cs s = Inr s'"
  shows "accounts s' = accounts s \<and> GetSupplyByDenom s' d = GetSupplyByDenom s d + amt cs d"
  using assms
proof (induction cs arbitrary: s)
  case (Cons c cs)
  then obtain s1 where s1: "inflate (Denom c) (Amount c) s = Inr s1"
    and r: "rfold (\<lambda>c. inflate (Denom c) (Amount c)) cs s1 = Inr s'" by auto
  show ?case using Cons.IH [OF r] inflate_eq_Inr [OF s1] by simp
qed simp

lemma deflates:
  assumes "rfold (\<lambda>c. deflate (Denom c) (Amount c)) cs s = Inr s'"
  shows "accounts s' = accounts s \<and> GetSupplyByDenom s' d = GetSupplyByDenom s d - amt cs d"
  using assms
proof (induction cs arbitrary: s)
  case (Cons c cs)
  then obtain s1 where s1: "deflate (Denom c) (Amount c) s = Inr s1"
    and r: "rfold (\<lambda>c. deflate (Denom c) (Amount c)) cs s1 = Inr s'" by auto
  show ?case using Cons.IH [OF r] deflate_eq_Inr [OF s1] by simp
qed simp

lemma changes_supply: "changes s s' f \<Longrightarrow> GetSupplyByDenom s' d = GetSupplyByDenom s d"
  using changesD(3) by (simp add: GetSupplyByDenom_def)

lemma MintCoins_spec:
  assumes "ledger_ok s" "keeper_ok k" "MintCoins k m cs s = Inr s'"
  shows "ledger_ok s'" "GetSupplyByDenom s' d = GetSupplyByDenom s d + amt cs d"
    "bal s' a d = bal s a d + credit (AddressHash k m) cs a d" "total_bal s' d = total_bal s d + amt cs d" "IsValid cs"
proof -
  from assms(3) obtain acc s1 nc s2 where m: "module_account k m s = Inr (acc, s1)"
    and add: "AddCoins (acc_Address acc) cs s1 = Inr (nc, s2)"
    and inf: "rfold (\<lambda>c. inflate (Denom c) (Amount c)) cs s2 = Inr s'"
    by (auto simp: MintCoins_def split: if_splits)
  note ma = module_account_changes [OF assms(1,2) m]
  note ad = AddCoins_changes [OF changesD(1) [OF ma(1)] add]
  have c: "changes s s2 (credit (AddressHash k m) cs)"
    using changes_trans [OF ma(1) ad(1)] by (simp add: ma(2) changes_def)
  note fr = ledger_frame [OF conjunct1 [OF inflates [OF inf]]]
  show "ledger_ok s'" "bal s' a d = bal s a d + credit (AddressHash k m) cs a d"
    using fr changesD(1,2) [OF c] by simp_all
  show "GetSupplyByDenom s' d = GetSupplyByDenom s d + amt cs d"
    using inflates [OF inf, of d] changes_supply [OF c] by simp
  show "total_bal s' d = total_bal s d + amt cs d" using credit_total [OF c, of d] fr by simp
  show "IsValid cs" by (rule ad(2))
qed

lemma BurnCoins_spec:
  assumes "ledger_ok s" "keeper_ok k" "BurnCoins k m cs s = Inr s'"
  shows "ledger_ok s'" "GetSupplyByDenom s' d = GetSupplyByDenom s d - amt cs d"
    "bal s' a d = bal s a d - credit (AddressHash k m) cs a d" "total_bal s' d = total_bal s d - amt cs d" "IsValid cs"
proof -
  from assms(3) obtain acc s1 nc s2 where m: "module_account k m s = Inr (acc, s1)"
    and sub: "SubtractCoins (acc_Address acc) cs s1 = Inr (nc, s2)"
    and def: "rfold (\<lambda>c. deflate (Denom c) (Amount c)) cs s2 = Inr s'"
    by (auto simp: BurnCoins_def split: if_splits)
  note ma = module_account_changes [OF assms(1,2) m]
  note su = SubtractCoins_changes [OF changesD(1) [OF ma(1)] sub]
  have c: "changes s s2 (\<lambda>a d. - credit (AddressHash k m) cs a d)"
    using changes_trans [OF ma(1) su(1)] by (simp add: ma(2) changes_def)
  note fr = ledger_frame [OF conjunct1 [OF deflates [OF def]]]
  show "ledger_ok s'" "bal s' a d = bal s a d - credit (AddressHash k m) cs a d"
    using fr changesD(1,2) [OF c] by simp_all
  show "GetSupplyByDenom s' d = GetSupplyByDenom s d - amt cs d"
    using deflates [OF def, of d] changes_supply [OF c] by simp
  show "total_bal s' d = total_bal s d - amt cs d" using debit_total [OF c, of d] fr by simp
  show "IsValid cs" by (rule su(3))
qed

section \<open>Multiple senders and recipients\<close>

lemma rfold_add_coins:
  assumes "rfold (\<lambda>x tot. DecCoins_Add tot (f x)) xs acc = Inr r" "canonical acc" "\<And>x. x \<in> set xs \<Longrightarrow> canonical (f x)"
  shows "canonical r \<and> amt r d = amt acc d + (\<Sum>x\<leftarrow>xs. amt (f x) d)"
  using assms
proof (induction xs arbitrary: acc)
  case (Cons x xs)
  then obtain acc' where a: "DecCoins_Add acc (f x) = Inr acc'" and r: "rfold (\<lambda>x tot. DecCoins_Add tot (f x)) xs acc' = Inr r"
    by auto
  have "canonical acc'" using canonical_Add [OF a] Cons.prems by simp
  from Cons.IH [OF r this] Cons.prems(3) DecCoins_Add_spec(1) [OF a, of d] show ?case by simp
qed simp

lemma DecCoins_Sort_sorted: "sorted_coins cs \<Longrightarrow> DecCoins_Sort cs = cs"
  unfolding DecCoins_Sort_def sorted_coins_def by (rule sort_key_id_if_sorted) (simp add: strict_sorted_iff)

lemma DecCoin_IsEqual_True: "DecCoin_IsEqual a b = Inr True \<longleftrightarrow> a = b"
  by (auto simp: DecCoin_IsEqual_def)

lemma DecCoins_IsEqual_True:
  assumes "sorted_coins as" "sorted_coins bs"
  shows "DecCoins_IsEqual as bs = Inr True \<longleftrightarrow> as = bs"
proof -
  have "as = bs" if "length as = length bs" "\<forall>p\<in>set (zip as bs). fst p = snd p"
    using that by (induction as bs rule: list_induct2) auto
  then show ?thesis
    by (auto simp: DecCoins_IsEqual_def DecCoins_Sort_sorted assms rall_eq_Inr DecCoin_IsEqual_True in_set_zip case_prod_beta)
qed

lemma total_io_spec:
  assumes "total_io ios = Inr r"
  shows "canonical r \<and> amt r d = (\<Sum>i\<leftarrow>ios. amt (io_Coins i) d)" "\<forall>i\<in>set ios. IsValid (io_Coins i)"
proof -
  have "canonical r \<and> amt r d = amt acc d + (\<Sum>i\<leftarrow>ios. amt (io_Coins i) d) \<and> (\<forall>i\<in>set ios. IsValid (io_Coins i))"
    if "rfold (\<lambda>i tot. rbind (Input_ValidateBasic i) (\<lambda>_. DecCoins_Add tot (io_Coins i))) ios acc = Inr r" "canonical acc" for acc
    using that
  proof (induction ios arbitrary: acc)
    case (Cons i ios)
    then obtain acc' where v: "IsValid (io_Coins i)" and a: "DecCoins_Add acc (io_Coins i) = Inr acc'"
      and r: "rfold (\<lambda>i tot. rbind (Input_ValidateBasic i) (\<lambda>_. DecCoins_Add tot (io_Coins i))) ios acc' = Inr r"
      by (auto simp: Input_ValidateBasic_def split: if_splits)
    have "canonical acc'" using canonical_Add [OF a Cons.prems(2) IsValid_canonical [OF v]] .
    from Cons.IH [OF r this] DecCoins_Add_spec(1) [OF a, of d] v show ?case by simp
  qed simp
  from this [OF assms [unfolded total_io_def]]
  show "canonical r \<and> amt r d = (\<Sum>i\<leftarrow>ios. amt (io_Coins i) d)" "\<forall>i\<in>set ios. IsValid (io_Coins i)" by auto
qed

lemma ValidateInputsOutputs_amt:
  assumes "ValidateInputsOutputs ins outs = Inr ()"
  shows "(\<Sum>i\<leftarrow>ins. amt (io_Coins i) d) = (\<Sum>i\<leftarrow>outs. amt (io_Coins i) d)"
proof -
  from assms obtain a b where ab: "total_io ins = Inr a" "total_io outs = Inr b" and eq: "DecCoins_IsEqual a b = Inr True"
    by (auto simp: ValidateInputsOutputs_def split: if_splits)
  note t = total_io_spec(1) [OF ab(1), of d] total_io_spec(1) [OF ab(2), of d]
  then have "a = b" using eq DecCoins_IsEqual_True by (auto simp: canonical_def)
  with t show ?thesis by auto
qed

lemma subtract_all:
  assumes "rfold (\<lambda>i s. rbind (SubtractCoins (io_Address i) (io_Coins i) s) (\<lambda>(_, s'). Inr s')) ins s = Inr s'" "ledger_ok s"
  shows "ledger_ok s' \<and> tokenSupply s' = tokenSupply s \<and> total_bal s' d = total_bal s d - (\<Sum>i\<leftarrow>ins. amt (io_Coins i) d) \<and>
    (a \<notin> io_Address ` set ins \<longrightarrow> bal s' a d = bal s a d)"
  using assms
proof (induction ins arbitrary: s)
  case (Cons i ins)
  then obtain nc s1 where s1: "SubtractCoins (io_Address i) (io_Coins i) s = Inr (nc, s1)"
    and r: "rfold (\<lambda>i s. rbind (SubtractCoins (io_Address i) (io_Coins i) s) (\<lambda>(_, s'). Inr s')) ins s1 = Inr s'" by auto
  note c = SubtractCoins_changes(1) [OF Cons.prems(2) s1]
  from Cons.IH [OF r changesD(1) [OF c]] changesD(2) [OF c, of a d] changesD(3) [OF c] debit_total [OF c, of d] show ?case by (simp add: credit_def)
qed simp

lemma add_then_create:
  assumes "ledger_ok s" "AddCoins x cs s = Inr (nc, s1)"
  shows "\<exists>acc. GetAccount s1 x = Some acc"
  using assms account_or_new_spec(1) [OF assms(1), of x]
  by (auto simp: AddCoins_def addCoins_def setCoinsToAccount_def split: if_splits prod.splits)

lemma add_all:
  assumes "rfold (\<lambda>out s. rbind (AddCoins (io_Address out) (io_Coins out) s) (\<lambda>(_, s').
         case GetAccount s' (io_Address out) of
           None \<Rightarrow> (let (a, s'') = NewAccountWithAddress (io_Address out) s' in Inr (SetAccount a s''))
         | Some _ \<Rightarrow> Inr s')) outs s = Inr s'" "ledger_ok s"
  shows "ledger_ok s' \<and> tokenSupply s' = tokenSupply s \<and> total_bal s' d = total_bal s d + (\<Sum>i\<leftarrow>outs. amt (io_Coins i) d) \<and>
    (a \<notin> io_Address ` set outs \<longrightarrow> bal s' a d = bal s a d)"
  using assms
proof (induction outs arbitrary: s)
  case (Cons i outs)
  from Cons.prems(1) obtain nc s1 where s1: "AddCoins (io_Address i) (io_Coins i) s = Inr (nc, s1)" by auto
  note c = AddCoins_changes(1) [OF Cons.prems(2) s1]
  obtain acc where "GetAccount s1 (io_Address i) = Some acc" using add_then_create [OF Cons.prems(2) s1] by blast
  with Cons.prems(1) s1 have r: "rfold (\<lambda>out s. rbind (AddCoins (io_Address out) (io_Coins out) s) (\<lambda>(_, s').
         case GetAccount s' (io_Address out) of
           None \<Rightarrow> (let (a, s'') = NewAccountWithAddress (io_Address out) s' in Inr (SetAccount a s''))
         | Some _ \<Rightarrow> Inr s')) outs s1 = Inr s'" by simp
  from Cons.IH [OF r changesD(1) [OF c]] changesD(2) [OF c, of a d] changesD(3) [OF c] credit_total [OF c, of d] show ?case by (simp add: credit_def)
qed simp

lemma InputOutputCoins_spec:
  assumes "ledger_ok s" "InputOutputCoins ins outs s = Inr s'"
  shows "ledger_ok s'" "supplies s' = supplies s" "a \<notin> io_Address ` (set ins \<union> set outs) \<Longrightarrow> bal s' a d = bal s a d"
proof -
  from assms(2) obtain s1 where v: "ValidateInputsOutputs ins outs = Inr ()"
    and sub: "rfold (\<lambda>i s. rbind (SubtractCoins (io_Address i) (io_Coins i) s) (\<lambda>(_, s'). Inr s')) ins s = Inr s1"
    and add: "rfold (\<lambda>out s. rbind (AddCoins (io_Address out) (io_Coins out) s) (\<lambda>(_, s').
         case GetAccount s' (io_Address out) of
           None \<Rightarrow> (let (a, s'') = NewAccountWithAddress (io_Address out) s' in Inr (SetAccount a s''))
         | Some _ \<Rightarrow> Inr s')) outs s1 = Inr s'"
    by (auto simp: InputOutputCoins_def)
  note b = subtract_all [OF sub assms(1), where a = a]
  note a = add_all [OF add conjunct1 [OF b], where a = a]
  have "total_bal s' d = total_bal s d" for d using a [of d] b [of d] ValidateInputsOutputs_amt [OF v, of d] by simp
  with a [of d] b [of d] show "ledger_ok s'" "supplies s' = supplies s" "a \<notin> io_Address ` (set ins \<union> set outs) \<Longrightarrow> bal s' a d = bal s a d"
    by (auto simp: supplies_def)
qed

lemma InputOutputCoins_supply:
  assumes "supply_inv s" "InputOutputCoins ins outs s = Inr s'"
  shows "supply_inv s' \<and> total_bal s' d = total_bal s d"
  using InputOutputCoins_spec(1,2) [OF supply_inv_ok [OF assms(1)] assms(2)] supply_inv_supplies [OF assms(1)]
  by (auto simp: supplies_def)

section \<open>The run-time invariants\<close>

lemma GetSupply_spec:
  assumes "GetSupply s = Inr cs"
  shows "cs = map (\<lambda>(d, a). \<lparr>Denom = d, Amount = a\<rparr>) (kv_entries (tokenSupply s))"
proof -
  have "cs = acc @ map (\<lambda>(d, a). \<lparr>Denom = d, Amount = a\<rparr>) es"
    if "rfold (\<lambda>(d, a) tot. rbind (NewDecCoinFromDec d a) (\<lambda>c. Inr (tot @ [c]))) es acc = Inr cs" for es acc
    using that
  proof (induction es arbitrary: acc)
    case (Cons e es)
    obtain d a where e: "e = (d, a)" by (cases e)
    from Cons.prems have r: "rfold (\<lambda>(d, a) tot. rbind (NewDecCoinFromDec d a) (\<lambda>c. Inr (tot @ [c]))) es
        (acc @ [\<lparr>Denom = d, Amount = a\<rparr>]) = Inr cs"
      by (auto simp: e NewDecCoinFromDec_eq_Inr)
    from Cons.IH [OF r] show ?case by (simp add: e)
  qed simp
  from this [OF assms [unfolded GetSupply_def]] show ?thesis by simp
qed

lemma amt_asc:
  "asc es \<Longrightarrow> amt (map (\<lambda>(d, a). \<lparr>Denom = d, Amount = a\<rparr>) es) d = (case map_of es d of None \<Rightarrow> 0 | Some a \<Rightarrow> a)"
proof (induction es)
  case (Cons e es)
  obtain x a where e: "e = (x, a)" by (cases e)
  have "map_of es x = None" using Cons.prems by (auto simp: e map_of_eq_None_iff)
  with Cons show ?case by (simp add: e split: option.splits)
qed simp

lemma GetSupply_amt: "GetSupply s = Inr cs \<Longrightarrow> amt cs d = GetSupplyByDenom s d"
  unfolding GetSupply_spec [of s cs] GetSupplyByDenom_def ZeroDec_def kvs.look_entries [OF TrueI]
  by (rule amt_asc [OF kvs.entries_asc [OF TrueI]])

lemma rfold_add_nonzero:
  assumes "rfold (\<lambda>c tot. if Amount c \<noteq> 0 then DecCoins_Add tot [c] else Inr tot) cs acc = Inr r" "canonical acc"
  shows "canonical r \<and> amt r d = amt acc d + amt cs d"
  using assms
proof (induction cs arbitrary: acc)
  case (Cons c cs)
  then obtain acc' where a: "add_nonzero acc c = Inr acc'"
    and r: "rfold (\<lambda>c tot. if Amount c \<noteq> 0 then DecCoins_Add tot [c] else Inr tot) cs acc' = Inr r"
    by (auto simp: add_nonzero_def DecCoin_IsZero_def)
  from Cons.IH [OF r add_nonzero_spec(1) [OF a Cons.prems(2)]] add_nonzero_spec(2) [OF a Cons.prems(2), of d]
  show ?case by simp
qed simp

lemma TotalSupply_iff:
  assumes "ledger_ok s" "TotalSupply s = Inr broken"
  shows "broken \<longleftrightarrow> \<not> supply_inv s"
proof -
  obtain sup tot sc e where sup: "GetSupply s = Inr sup"
    and tot: "rfold (\<lambda>acc tot. DecCoins_Add tot (acc_Coins acc)) (GetAllAccounts s) [] = Inr tot"
    and sc: "rfold (\<lambda>c tot. if Amount c \<noteq> 0 then DecCoins_Add tot [c] else Inr tot) sup [] = Inr sc"
    and e: "DecCoins_IsEqual tot sc = Inr e" and b: "(\<not> e) = broken"
    using assms(2) unfolding TotalSupply_def rbind_eq_Inr sum.inject by blast
  have eq: "DecCoins_IsEqual tot sc = Inr (\<not> broken)" using e b by auto
  have "canonical (acc_Coins acc)" if "acc \<in> set (GetAllAccounts s)" for acc
  proof -
    from that obtain a where "(a, acc) \<in> set (kv_entries (accounts s))" by (auto simp: GetAllAccounts_def)
    then have "GetAccount s a = Some acc" by (simp add: kv_in_entries GetAccount_def)
    with assms(1) show ?thesis by (auto simp: ledger_ok_def coins_okD)
  qed
  note t = rfold_add_coins [OF tot _ this, simplified]
  have tb: "amt tot d = total_bal s d" for d
    using t [of d] by (simp add: total_bal_def kv_total_def GetAllAccounts_def case_prod_unfold comp_def)
  note c = rfold_add_nonzero [OF sc, simplified]
  have "tot = sc \<longleftrightarrow> (\<forall>d. total_bal s d = GetSupplyByDenom s d)"
    using canonical_ext [of tot sc] t c by (auto simp: GetSupply_amt [OF sup] tb [symmetric])
  moreover have "DecCoins_IsEqual tot sc = Inr True \<longleftrightarrow> tot = sc"
    using t c by (intro DecCoins_IsEqual_True) (auto simp: canonical_def)
  ultimately show ?thesis using eq assms(1) by (auto simp: supply_inv_def eq_commute [of "GetSupplyByDenom s _"])
qed

lemma NonnegativeBalance_ok: "ledger_ok s \<Longrightarrow> \<not> NonnegativeBalanceInvariant s"
proof -
  assume ok: "ledger_ok s"
  have "\<not> IsAnyNegative (acc_Coins acc)" if "acc \<in> set (GetAllAccounts s)" for acc
  proof -
    from that obtain a where "GetAccount s a = Some acc" by (auto simp: GetAllAccounts_def GetAccount_def kv_in_entries)
    with ok have "coins_ok (acc_Coins acc)" by (simp add: ledger_ok_def)
    then show ?thesis by (auto simp: IsAnyNegative_def list_ex_iff DecCoin_IsNegative_def coins_ok_def)
  qed
  then show ?thesis by (auto simp: NonnegativeBalanceInvariant_def filter_empty_conv)
qed

section \<open>Reachable ledgers\<close>

text \<open>Everything that changes balances: bank messages, mints, burns and the transfers the modules
  ask for.  A module never undelegates to its own account.\<close>

inductive ledger_step :: "supply_keeper \<Rightarrow> ledger \<Rightarrow> ledger \<Rightarrow> bool" for k where
  bank: "bank_Handler (blacklistedAddrs k) msg s = Inr s' \<Longrightarrow> ledger_step k s s'"
| mint: "MintCoins k m cs s = Inr s' \<Longrightarrow> ledger_step k s s'"
| burn: "BurnCoins k m cs s = Inr s' \<Longrightarrow> ledger_step k s s'"
| m2a: "SendCoinsFromModuleToAccount k m y cs s = Inr s' \<Longrightarrow> ledger_step k s s'"
| m2m: "SendCoinsFromModuleToModule k m n cs s = Inr s' \<Longrightarrow> ledger_step k s s'"
| a2m: "SendCoinsFromAccountToModule k x m cs s = Inr s' \<Longrightarrow> ledger_step k s s'"
| deleg: "DelegateCoinsFromAccountToModule k x m cs s = Inr s' \<Longrightarrow> ledger_step k s s'"
| undeleg: "UndelegateCoinsFromModuleToAccount k m y cs s = Inr s' \<Longrightarrow> AddressHash k m \<noteq> y \<Longrightarrow> ledger_step k s s'"

lemma bank_Handler_supply:
  assumes "supply_inv s" "bank_Handler bl msg s = Inr s'"
  shows "supply_inv s' \<and> total_bal s' d = total_bal s d"
proof (cases msg)
  case (MsgSend f t cs)
  then have r: "SendCoins f t cs s = Inr s'" using assms(2) by (auto simp: bank_Handler_def handleMsgSend_def split: if_splits)
  show ?thesis using send.run_supply_inv [OF assms(1) TrueI r] send.run_total [OF supply_inv_ok [OF assms(1)] TrueI r] by simp
next
  case (MsgMultiSend ins outs)
  then have "InputOutputCoins ins outs s = Inr s'"
    using assms(2) by (auto simp: bank_Handler_def handleMsgMultiSend_def split: if_splits)
  then show ?thesis using InputOutputCoins_supply [OF assms(1)] by blast
qed

lemma MintCoins_supply_inv: "supply_inv s \<Longrightarrow> keeper_ok k \<Longrightarrow> MintCoins k m cs s = Inr s' \<Longrightarrow> supply_inv s'"
  using MintCoins_spec(1,2,4) [of s k m cs s'] by (simp add: supply_inv_def)

lemma BurnCoins_supply_inv: "supply_inv s \<Longrightarrow> keeper_ok k \<Longrightarrow> BurnCoins k m cs s = Inr s' \<Longrightarrow> supply_inv s'"
  using BurnCoins_spec(1,2,4) [of s k m cs s'] by (simp add: supply_inv_def)

lemma ledger_step_supply:
  assumes "ledger_step k s s'" "keeper_ok k" "supply_inv s" shows "supply_inv s'"
  using assms(1)
proof cases
  case (bank msg)
  then show ?thesis using bank_Handler_supply [OF assms(3)] by blast
next
  case (mint m cs)
  then show ?thesis by (rule MintCoins_supply_inv [OF assms(3,2)])
next
  case (burn m cs)
  then show ?thesis by (rule BurnCoins_supply_inv [OF assms(3,2)])
next
  case (m2a m y cs)
  then show ?thesis by (rule send_module_account.run_supply_inv [OF assms(3,2)])
next
  case (m2m m n cs)
  then show ?thesis by (rule send_module_module.run_supply_inv [OF assms(3,2)])
next
  case (a2m x m cs)
  then show ?thesis by (rule send_account_module.run_supply_inv [OF assms(3,2)])
next
  case (deleg x m cs)
  then show ?thesis by (rule delegate_module.run_supply_inv [OF assms(3,2)])
next
  case (undeleg m y cs)
  then show ?thesis by (intro undelegate_module.run_supply_inv [OF assms(3) conjI [OF assms(2)]])
qed


text \<open>A concrete keeper for the witnesses: the application's modules, with a hash that is one-to-one.\<close>

definition demo_keeper :: supply_keeper where
  "demo_keeper = app_keeper (\<lambda>name. CHR ''#'' # name)"

definition demo_account :: "bytes \<Rightarrow> Dec \<Rightarrow> Account" where
  "demo_account a n = \<lparr>acc_Address = a, acc_Coins = [\<lparr>Denom = ''okb'', Amount = n\<rparr>], AccountNumber = 0, Sequence = 0, acc_type = EthAcc\<rparr>"

definition demo_ledger :: ledger where
  "demo_ledger = \<lparr>accounts = kv_set ''alice'' (demo_account ''alice'' 7) (kv_set ''bob'' (demo_account ''bob'' 5) kv_empty),
     GlobalAccountNumber = 2, tokenSupply = kv_set ''okb'' 12 kv_empty, ParamSendEnabled = True\<rparr>"

lemma demo_keeper_ok: "keeper_ok demo_keeper"
  unfolding demo_keeper_def app_keeper_def by (rule NewKeeper_ok)

lemma demo_supply_inv: "supply_inv demo_ledger"
  by (auto simp: supply_inv_def demo_ledger_def ledger_ok_def GetAccount_def demo_account_def coins_ok_def
      GetSupplyByDenom_def total_bal_def ZeroDec_def split: if_splits)


text \<open>C28: A successful \<open>SendCoins\<close> between two accounts takes exactly the given coins from the
  sender, who had them, gives them to the recipient and changes no other balance.\<close>

theorem SendCoins_exact:
  assumes "ledger_ok s" "SendCoins x y cs s = Inr s'" "x \<noteq> y"
  shows "bal s' x d = bal s x d - amt cs d \<and> bal s' y d = bal s y d + amt cs d \<and> 0 \<le> bal s' x d \<and>
    (\<forall>a. a \<notin> {x, y} \<longrightarrow> bal s' a d = bal s a d)"
  using send.run_sender [OF assms(1) TrueI assms(3,2)] send.run_recipient [OF assms(1) TrueI assms(3,2)]
    send.run_other [OF assms(1) TrueI _ _ assms(2)] send.run_covered [OF assms(1) TrueI assms(2)] by simp

theorem SendCoins_exact_witness:
  "\<exists>s'. SendCoins ''alice'' ''bob'' [\<lparr>Denom = ''okb'', Amount = 3\<rparr>] demo_ledger = Inr s' \<and> bal s' ''bob'' ''okb'' = 8"
proof -
  have "case SendCoins ''alice'' ''bob'' [\<lparr>Denom = ''okb'', Amount = 3\<rparr>] demo_ledger of Inl _ \<Rightarrow> False | Inr _ \<Rightarrow> True"
    by code_simp
  then obtain s' where s': "SendCoins ''alice'' ''bob'' [\<lparr>Denom = ''okb'', Amount = 3\<rparr>] demo_ledger = Inr s'"
    by (auto split: sum.splits)
  have "bal demo_ledger ''bob'' ''okb'' = 5" by code_simp
  with SendCoins_exact [OF supply_inv_ok [OF demo_supply_inv] s'] s' show ?thesis by fastforce
qed

text \<open>Minting and burning change the stored supply, the sum of all balances and the module's
  own balance by exactly the coins given, and nothing else.\<close>

theorem MintCoins_BurnCoins_exact:
  assumes "supply_inv s" "keeper_ok k" "MintCoins k m cs s = Inr s1" "BurnCoins k n bs s1 = Inr s2"
  shows "supply_inv s1 \<and> supply_inv s2 \<and> GetSupplyByDenom s1 d = GetSupplyByDenom s d + amt cs d \<and>
    GetSupplyByDenom s2 d = GetSupplyByDenom s d + amt cs d - amt bs d \<and>
    (\<forall>a. a \<notin> {AddressHash k m, AddressHash k n} \<longrightarrow> bal s2 a d = bal s a d)"
proof -
  note i1 = MintCoins_supply_inv [OF assms(1-3)]
  note m = MintCoins_spec [OF supply_inv_ok [OF assms(1)] assms(2,3)]
  note b = BurnCoins_spec [OF supply_inv_ok [OF i1] assms(2,4)]
  show ?thesis using i1 BurnCoins_supply_inv [OF i1 assms(2,4)] m(2,3) b(2,3) by (simp add: credit_def)
qed

theorem MintCoins_BurnCoins_exact_witness:
  "\<exists>s1 s2. MintCoins demo_keeper ''token'' [\<lparr>Denom = ''okb'', Amount = 3\<rparr>] demo_ledger = Inr s1 \<and>
     BurnCoins demo_keeper ''token'' [\<lparr>Denom = ''okb'', Amount = 1\<rparr>] s1 = Inr s2 \<and> GetSupplyByDenom s2 ''okb'' = 14"
proof -
  have "case MintCoins demo_keeper ''token'' [\<lparr>Denom = ''okb'', Amount = 3\<rparr>] demo_ledger of Inl _ \<Rightarrow> False
    | Inr s1 \<Rightarrow> (case BurnCoins demo_keeper ''token'' [\<lparr>Denom = ''okb'', Amount = 1\<rparr>] s1 of Inl _ \<Rightarrow> False | Inr _ \<Rightarrow> True)"
    by code_simp
  then obtain s1 s2 where s: "MintCoins demo_keeper ''token'' [\<lparr>Denom = ''okb'', Amount = 3\<rparr>] demo_ledger = Inr s1"
    "BurnCoins demo_keeper ''token'' [\<lparr>Denom = ''okb'', Amount = 1\<rparr>] s1 = Inr s2"
    by (auto split: sum.splits)
  have "GetSupplyByDenom demo_ledger ''okb'' = 12" by code_simp
  with MintCoins_BurnCoins_exact [OF demo_supply_inv demo_keeper_ok s, of "''okb''"] s show ?thesis by simp
qed



section \<open>Coin operations on proper coin sets\<close>

lemma coins_ok_canonicalI: "canonical cs \<Longrightarrow> (\<And>d. 0 \<le> amt cs d) \<Longrightarrow> coins_ok cs"
  by (simp add: coins_ok_iff)

lemma scale_coins_ok:
  assumes "scale_coins f cs = Inr r" "coins_ok cs" "\<And>a b. 0 \<le> a \<Longrightarrow> f a = Inr b \<Longrightarrow> 0 \<le> b"
  shows "coins_ok r"
proof (rule coins_ok_canonicalI)
  show "canonical r" using scale_coins_spec(1) [OF assms(1)] .
  show "0 \<le> amt r d" for d
    using scale_coins_sorted [OF assms(1) coins_okD(3) [OF assms(2)], of d] coins_okD(2) [OF assms(2), of d] assms(3)
    by (cases "d \<in> Denom ` set cs") auto
qed

lemma MulDecTruncate_ok:
  assumes "MulDecTruncate cs k = Inr r" "coins_ok cs" "0 \<le> k"
  shows "coins_ok r" "amt r d = amt cs d * k div precisionReuse"
proof -
  note sc = assms(1) [unfolded MulDecTruncate_def] and s = coins_okD(3) [OF assms(2)]
  show "coins_ok r"
    by (rule scale_coins_ok [OF sc assms(2)])
      (use assms(3) in \<open>auto simp: Dec_MulTruncate_def chopPrecisionAndTruncate_def big_quo_nonneg pos_imp_zdiv_nonneg_iff\<close>)
  show "amt r d = amt cs d * k div precisionReuse"
  proof (cases "d \<in> Denom ` set cs")
    case True
    from scale_coins_sorted(1) [OF sc s True] coins_okD(2) [OF assms(2), of d] assms(3)
    show ?thesis by (simp add: Dec_MulTruncate_def chopPrecisionAndTruncate_def big_quo_nonneg)
  next
    case False
    then show ?thesis using scale_coins_sorted(2) [OF sc s False] by (simp add: amt_notin)
  qed
qed

lemma MulDec_ok: "MulDec cs k = Inr r \<Longrightarrow> coins_ok cs \<Longrightarrow> 0 \<le> k \<Longrightarrow> coins_ok r"
  unfolding MulDec_def by (erule (1) scale_coins_ok) (auto simp: Dec_Mul_def chopPrecisionAndRound_sign)

lemma Intersect_ok:
  assumes "coins_ok as" "coins_ok bs" "Intersect as bs = Inr r"
  shows "coins_ok r" "amt r d = min (amt as d) (amt bs d)"
proof -
  from assms(3) obtain x where x: "Intersect_loop as bs = Inr x" "r = removeZeroDecCoins x" by (auto simp: Intersect_def)
  note sa = coins_okD(3) [OF assms(1)] and sb = coins_okD(3) [OF assms(2)]
  note loop = Intersect_loop_amt [OF x(1) sa sb]
  have "sorted_coins x" using loop [of "[]"] sa by (simp add: sorted_coins_def)
  then have c: "canonical r" unfolding canonical_def x(2) using sorted_removeZero by (auto simp: removeZero_filter no_zero_def)
  show m: "amt r d = min (amt as d) (amt bs d)" for d
    using loop [of d] coins_okD(2) [OF assms(2), of d] by (auto simp: x(2) amt_notin)
  show "coins_ok r" using coins_ok_canonicalI [OF c] m coins_okD(2) [OF assms(1)] coins_okD(2) [OF assms(2)] by simp
qed

lemma split_coins_nonneg:
  assumes "split_coins f cs = Inr (t, r)" "\<And>c a b. f c = Inr (a, b) \<Longrightarrow> 0 \<le> Amount a \<and> 0 \<le> Amount b"
  shows "coins_ok t \<and> coins_ok r"
proof -
  let ?g = "\<lambda>c (t, r). rbind (f c) (\<lambda>(a, b). rbind (add_nonzero t a) (\<lambda>t. rbind (add_nonzero r b) (\<lambda>r. Inr (t, r))))"
  have step: "coins_ok y" if "add_nonzero x c = Inr y" "coins_ok x" "0 \<le> Amount c" for x c y
    using add_nonzero_spec [OF that(1) coins_okD(1) [OF that(2)]] coins_okD(2) [OF that(2)] that(3)
    by (intro coins_ok_canonicalI) auto
  have "case (t, r) of (t, r) \<Rightarrow> coins_ok t \<and> coins_ok r"
    by (rule rfold_invariant [OF assms(1) [unfolded split_coins_eq]]) (use step assms(2) in fastforce)+
  then show ?thesis by simp
qed

lemma TruncateDecimal_ok: "TruncateDecimal cs = Inr (t, r) \<Longrightarrow> coins_ok t \<and> coins_ok r"
  unfolding TruncateDecimal_def
  by (erule split_coins_nonneg) (auto simp: DecCoin_TruncateDecimal_def NewDecCoin_eq_Inr NewDecCoinFromDec_eq_Inr)

lemma TruncateWithPrec_ok: "TruncateWithPrec cs p = Inr (t, r) \<Longrightarrow> coins_ok t \<and> coins_ok r"
  unfolding TruncateWithPrec_def
  by (erule split_coins_nonneg) (auto simp: DecCoin_TruncateWithPrec_def NewDecCoinFromDec_eq_Inr split: if_splits)

lemma DecCoins_IsZero_amt: "coins_ok cs \<Longrightarrow> DecCoins_IsZero cs \<Longrightarrow> cs = []"
  by (cases cs) (auto simp: DecCoins_IsZero_def coins_ok_def)

end
