(* ===== verification/StakingStore.thy ===== *)
theory StakingStore
  imports Ledger
begin

text \<open>
  Types and stores of the staking module (\<open>x/staking/types\<close>, the store accessors of
  \<open>x/staking/keeper\<close>): validators, delegators, undelegations, the power index and the queues.
  Each prefix of the module's store is one field of the record \<open>staking\<close>.

  A public key is its type and bytes; its address is the hash \<open>AddressHash\<close> of the bytes, the
  function that also gives module addresses their value.  Times are nanoseconds.
\<close>

section \<open>Validators\<close>

type_synonym time = int

record PubKey =
  pk_type :: string
  pk_bytes :: bytes

record Description =
  Moniker :: string
  Identity :: string
  Website :: string
  Details :: string

definition MaxMonikerLength :: nat where "MaxMonikerLength = 70"
definition MaxIdentityLength :: nat where "MaxIdentityLength = 3000"
definition MaxWebsiteLength :: nat where "MaxWebsiteLength = 140"
definition MaxDetailsLength :: nat where "MaxDetailsLength = 280"
definition DoNotModifyDesc :: string where "DoNotModifyDesc = ''[do-not-modify]''"

definition EnsureLength :: "Description \<Rightarrow> Description res" where
  "EnsureLength d =
     (if length (Moniker d) > MaxMonikerLength then Inl (Err ''ErrDescriptionLength'')
      else if length (Identity d) > MaxIdentityLength then Inl (Err ''ErrDescriptionLength'')
      else if length (Website d) > MaxWebsiteLength then Inl (Err ''ErrDescriptionLength'')
      else if length (Details d) > MaxDetailsLength then Inl (Err ''ErrDescriptionLength'')
      else Inr d)"

definition UpdateDescription :: "Description \<Rightarrow> Description \<Rightarrow> Description res" where
  "UpdateDescription d d2 =
     EnsureLength \<lparr>Moniker = (if Moniker d2 = DoNotModifyDesc then Moniker d else Moniker d2),
                   Identity = (if Identity d2 = DoNotModifyDesc then Identity d else Identity d2),
                   Website = (if Website d2 = DoNotModifyDesc then Website d else Website d2),
                   Details = (if Details d2 = DoNotModifyDesc then Details d else Details d2)\<rparr>"

record Commission =
  Rate :: Dec
  MaxRate :: Dec
  MaxChangeRate :: Dec
  UpdateTime :: time

definition NewCommission :: "Dec \<Rightarrow> Dec \<Rightarrow> Dec \<Rightarrow> Commission" where
  "NewCommission rate maxRate maxChangeRate =
     \<lparr>Rate = rate, MaxRate = maxRate, MaxChangeRate = maxChangeRate, UpdateTime = 0\<rparr>"

definition CommissionRates_Validate :: "Commission \<Rightarrow> unit res" where
  "CommissionRates_Validate c =
     (if MaxRate c < ZeroDec then Inl (Err ''ErrCommissionNegative'')
      else if MaxRate c > OneDec then Inl (Err ''ErrCommissionHuge'')
      else if Rate c < ZeroDec then Inl (Err ''ErrCommissionNegative'')
      else if Rate c > MaxRate c then Inl (Err ''ErrCommissionGTMaxRate'')
      else if MaxChangeRate c < ZeroDec then Inl (Err ''ErrCommissionChangeRateNegative'')
      else if MaxChangeRate c > MaxRate c then Inl (Err ''ErrCommissionChangeRateGTMaxRate'')
      else Inr ())"

text \<open>24 hours in nanoseconds.\<close>

definition DefaultValidateRateUpdateInterval :: time where
  "DefaultValidateRateUpdateInterval = 24 * 3600 * 1000000000"

definition ValidateNewRate :: "Commission \<Rightarrow> Dec \<Rightarrow> time \<Rightarrow> unit res" where
  "ValidateNewRate c newRate blockTime =
     (if blockTime - UpdateTime c < DefaultValidateRateUpdateInterval then Inl (Err ''ErrCommissionUpdateTime'')
      else if newRate < ZeroDec then Inl (Err ''ErrCommissionNegative'')
      else if newRate > MaxRate c then Inl (Err ''ErrCommissionGTMaxRate'')
      else Inr ())"

datatype BondStatus = Unbonded | Unbonding | Bonded

record Validator =
  OperatorAddress :: bytes
  ConsPubKey :: PubKey
  Jailed :: bool
  Status :: BondStatus
  val_Tokens :: SdkInt
  DelegatorShares :: Dec
  val_Description :: Description
  UnbondingHeight :: int
  UnbondingCompletionTime :: time
  val_Commission :: Commission
  MinSelfDelegation :: Dec

definition NewValidator :: "bytes \<Rightarrow> PubKey \<Rightarrow> Description \<Rightarrow> Dec \<Rightarrow> Validator" where
  "NewValidator operator pubKey description minSelfDelegation =
     \<lparr>OperatorAddress = operator, ConsPubKey = pubKey, Jailed = False, Status = Unbonded, val_Tokens = 0,
      DelegatorShares = ZeroDec, val_Description = description, UnbondingHeight = 0, UnbondingCompletionTime = 0,
      val_Commission = NewCommission ZeroDec ZeroDec ZeroDec, MinSelfDelegation = minSelfDelegation\<rparr>"

definition ConsAddress :: "supply_keeper \<Rightarrow> Validator \<Rightarrow> bytes" where
  "ConsAddress k v = AddressHash k (pk_bytes (ConsPubKey v))"

definition IsBonded :: "Validator \<Rightarrow> bool" where "IsBonded v \<longleftrightarrow> Status v = Bonded"
definition IsUnbonded :: "Validator \<Rightarrow> bool" where "IsUnbonded v \<longleftrightarrow> Status v = Unbonded"
definition IsUnbonding :: "Validator \<Rightarrow> bool" where "IsUnbonding v \<longleftrightarrow> Status v = Unbonding"

definition UpdateStatus :: "Validator \<Rightarrow> BondStatus \<Rightarrow> Validator" where
  "UpdateStatus v newStatus = v\<lparr>Status := newStatus\<rparr>"

definition SetInitialCommission :: "Validator \<Rightarrow> Commission \<Rightarrow> Validator res" where
  "SetInitialCommission v c = rbind (CommissionRates_Validate c) (\<lambda>_. Inr (v\<lparr>val_Commission := c\<rparr>))"

definition PowerReduction :: SdkInt where "PowerReduction = 10 ^ 18"

text \<open>\<open>Int64\<close> of \<open>math/big\<close> keeps the low 64 bits.\<close>

definition sharesToConsensusPower :: "Dec \<Rightarrow> int res" where
  "sharesToConsensusPower shares = rmap wrap64 (Dec_QuoInt shares PowerReduction)"

definition PotentialConsensusPowerByShares :: "Validator \<Rightarrow> int res" where
  "PotentialConsensusPowerByShares v = sharesToConsensusPower (DelegatorShares v)"

definition ConsensusPowerByShares :: "Validator \<Rightarrow> int res" where
  "ConsensusPowerByShares v = (if IsBonded v then PotentialConsensusPowerByShares v else Inr 0)"

record ValidatorUpdate =
  vu_PubKey :: PubKey
  vu_Power :: int

definition ABCIValidatorUpdateByShares :: "Validator \<Rightarrow> ValidatorUpdate res" where
  "ABCIValidatorUpdateByShares v =
     rbind (ConsensusPowerByShares v) (\<lambda>p. Inr \<lparr>vu_PubKey = ConsPubKey v, vu_Power = p\<rparr>)"

definition ABCIValidatorUpdateZero :: "Validator \<Rightarrow> ValidatorUpdate" where
  "ABCIValidatorUpdateZero v = \<lparr>vu_PubKey = ConsPubKey v, vu_Power = 0\<rparr>"

section \<open>Delegators\<close>

record Delegator =
  DelegatorAddress :: bytes
  ValidatorAddresses :: "bytes list"
  Shares :: Dec
  Tokens :: Dec
  IsProxy :: bool
  TotalDelegatedTokens :: Dec
  ProxyAddress :: "bytes option"

definition NewDelegator :: "bytes \<Rightarrow> Delegator" where
  "NewDelegator delAddr =
     \<lparr>DelegatorAddress = delAddr, ValidatorAddresses = [], Shares = ZeroDec, Tokens = ZeroDec, IsProxy = False,
      TotalDelegatedTokens = ZeroDec, ProxyAddress = None\<rparr>"

definition UnbindProxy :: "Delegator \<Rightarrow> Delegator" where
  "UnbindProxy d = d\<lparr>ProxyAddress := None\<rparr>"

definition BindProxy :: "Delegator \<Rightarrow> bytes \<Rightarrow> Delegator" where
  "BindProxy d proxyAddr = d\<lparr>ProxyAddress := Some proxyAddr, IsProxy := False\<rparr>"

definition RegProxy :: "Delegator \<Rightarrow> bool \<Rightarrow> Delegator" where
  "RegProxy d reg = (let d' = d\<lparr>IsProxy := reg\<rparr> in if reg then UnbindProxy d' else d')"

definition HasProxy :: "Delegator \<Rightarrow> bool" where
  "HasProxy d \<longleftrightarrow> ProxyAddress d \<noteq> None"

record UndelegationInfo =
  ud_DelegatorAddress :: bytes
  Quantity :: Dec
  CompletionTime :: time

definition NewUndelegationInfo :: "bytes \<Rightarrow> Dec \<Rightarrow> time \<Rightarrow> UndelegationInfo" where
  "NewUndelegationInfo delegatorAddr sharesQuantity completionTime =
     \<lparr>ud_DelegatorAddress = delegatorAddr, Quantity = sharesQuantity, CompletionTime = completionTime\<rparr>"

section \<open>The store\<close>

record staking_params =
  UnbondingTime :: time
  MaxValidators :: int
  ParamsEpoch :: int
  MaxValsToAddShares :: nat
  MinDelegation :: Dec
  ParamsMinSelfDelegation :: Dec
  HistoricalEntries :: int
  ConsensusType :: string
  EnableDposOp :: bool

definition PoA :: string where "PoA = ''poa''"
definition DPoS :: string where "DPoS = ''dpos''"

text \<open>The power index is keyed by the power as a big-endian \<open>uint64\<close> and the complemented address.
  Reading an absent total power, epoch or end of epoch gives 0, the default epoch and 0.\<close>

record staking =
  validators :: "(bytes, Validator) kv"
  validatorsByConsAddr :: "(bytes, bytes) kv"
  validatorsByPowerIndex :: "(int \<times> bytes, bytes) kv"
  lastValidatorPower :: "(bytes, int) kv"
  LastTotalPower :: SdkInt
  validatorQueue :: "(time, bytes list) kv"
  sharesStore :: "(bytes \<times> bytes, Dec) kv"
  delegators :: "(bytes, Delegator) kv"
  undelegationInfos :: "(bytes, UndelegationInfo) kv"
  undelegateQueue :: "(time \<times> bytes, unit) kv"
  proxyBindings :: "(bytes \<times> bytes, unit) kv"
  proposeValidators :: "(bytes, bool) kv"
  abandonedValidators :: "bytes list"
  storedEpoch :: "int option"
  TheEndOfLastEpoch :: int
  params :: staking_params

definition BondedPoolName :: string where "BondedPoolName = ''bonded_tokens_pool''"
definition NotBondedPoolName :: string where "NotBondedPoolName = ''not_bonded_tokens_pool''"

definition GetValidator :: "staking \<Rightarrow> bytes \<Rightarrow> Validator option" where
  "GetValidator st addr = kv_get (validators st) addr"

definition mustGetValidator :: "staking \<Rightarrow> bytes \<Rightarrow> Validator res" where
  "mustGetValidator st addr =
     (case GetValidator st addr of None \<Rightarrow> Inl (Panic ''validator record not found'') | Some v \<Rightarrow> Inr v)"

definition GetValidatorByConsAddr :: "staking \<Rightarrow> bytes \<Rightarrow> Validator option" where
  "GetValidatorByConsAddr st consAddr =
     (case kv_get (validatorsByConsAddr st) consAddr of None \<Rightarrow> None | Some opAddr \<Rightarrow> GetValidator st opAddr)"

definition mustGetValidatorByConsAddr :: "staking \<Rightarrow> bytes \<Rightarrow> Validator res" where
  "mustGetValidatorByConsAddr st consAddr =
     (case GetValidatorByConsAddr st consAddr of
        None \<Rightarrow> Inl (Panic ''validator with consensus-Address not found'') | Some v \<Rightarrow> Inr v)"

definition SetValidator :: "Validator \<Rightarrow> staking \<Rightarrow> staking" where
  "SetValidator v st = st\<lparr>validators := kv_set (OperatorAddress v) v (validators st)\<rparr>"

definition SetValidatorByConsAddr :: "supply_keeper \<Rightarrow> Validator \<Rightarrow> staking \<Rightarrow> staking" where
  "SetValidatorByConsAddr k v st =
     st\<lparr>validatorsByConsAddr := kv_set (ConsAddress k v) (OperatorAddress v) (validatorsByConsAddr st)\<rparr>"

definition complement_byte :: "char \<Rightarrow> char" where
  "complement_byte c = char_of (255 - of_char c :: int)"

definition getValidatorPowerRank :: "Validator \<Rightarrow> (int \<times> bytes) res" where
  "getValidatorPowerRank v =
     rmap (\<lambda>p. (p mod 2 ^ 64, map complement_byte (OperatorAddress v))) (sharesToConsensusPower (DelegatorShares v))"

definition SetNewValidatorByPowerIndex :: "Validator \<Rightarrow> staking \<Rightarrow> staking res" where
  "SetNewValidatorByPowerIndex v st =
     rbind (getValidatorPowerRank v) (\<lambda>key.
       Inr (st\<lparr>validatorsByPowerIndex := kv_set key (OperatorAddress v) (validatorsByPowerIndex st)\<rparr>))"

definition SetValidatorByPowerIndex :: "Validator \<Rightarrow> staking \<Rightarrow> staking res" where
  "SetValidatorByPowerIndex v st = (if Jailed v then Inr st else SetNewValidatorByPowerIndex v st)"

definition DeleteValidatorByPowerIndex :: "Validator \<Rightarrow> staking \<Rightarrow> staking res" where
  "DeleteValidatorByPowerIndex v st =
     rbind (getValidatorPowerRank v) (\<lambda>key.
       Inr (st\<lparr>validatorsByPowerIndex := kv_del key (validatorsByPowerIndex st)\<rparr>))"

definition GetAllValidators :: "staking \<Rightarrow> Validator list" where
  "GetAllValidators st = map snd (kv_entries (validators st))"

definition SetLastValidatorPower :: "bytes \<Rightarrow> int \<Rightarrow> staking \<Rightarrow> staking" where
  "SetLastValidatorPower operator pow st = st\<lparr>lastValidatorPower := kv_set operator pow (lastValidatorPower st)\<rparr>"

definition DeleteLastValidatorPower :: "bytes \<Rightarrow> staking \<Rightarrow> staking" where
  "DeleteLastValidatorPower operator st = st\<lparr>lastValidatorPower := kv_del operator (lastValidatorPower st)\<rparr>"

definition SetLastTotalPower :: "SdkInt \<Rightarrow> staking \<Rightarrow> staking" where
  "SetLastTotalPower pow st = st\<lparr>LastTotalPower := pow\<rparr>"

definition GetLastValidatorsByAddr :: "staking \<Rightarrow> (bytes \<times> int) list" where
  "GetLastValidatorsByAddr st = kv_entries (lastValidatorPower st)"

text \<open>The iterator over the power index runs from the highest key to the lowest.\<close>

definition ValidatorsPowerStoreIterator :: "staking \<Rightarrow> ((int \<times> bytes) \<times> bytes) list" where
  "ValidatorsPowerStoreIterator st = rev (kv_entries (validatorsByPowerIndex st))"

definition GetValidatorQueueTimeSlice :: "staking \<Rightarrow> time \<Rightarrow> bytes list" where
  "GetValidatorQueueTimeSlice st t = (case kv_get (validatorQueue st) t of None \<Rightarrow> [] | Some vs \<Rightarrow> vs)"

definition SetValidatorQueueTimeSlice :: "time \<Rightarrow> bytes list \<Rightarrow> staking \<Rightarrow> staking" where
  "SetValidatorQueueTimeSlice t vs st = st\<lparr>validatorQueue := kv_set t vs (validatorQueue st)\<rparr>"

definition DeleteValidatorQueueTimeSlice :: "time \<Rightarrow> staking \<Rightarrow> staking" where
  "DeleteValidatorQueueTimeSlice t st = st\<lparr>validatorQueue := kv_del t (validatorQueue st)\<rparr>"

definition InsertValidatorQueue :: "Validator \<Rightarrow> staking \<Rightarrow> staking" where
  "InsertValidatorQueue v st =
     (let timeSlice = GetValidatorQueueTimeSlice st (UnbondingCompletionTime v);
          keys = (if length timeSlice = 0 then [OperatorAddress v] else timeSlice @ [OperatorAddress v])
      in SetValidatorQueueTimeSlice (UnbondingCompletionTime v) keys st)"

definition DeleteValidatorQueue :: "Validator \<Rightarrow> staking \<Rightarrow> staking" where
  "DeleteValidatorQueue v st =
     (let timeSlice = GetValidatorQueueTimeSlice st (UnbondingCompletionTime v);
          newTimeSlice = filter (\<lambda>a. a \<noteq> OperatorAddress v) timeSlice
      in if length newTimeSlice = 0 then DeleteValidatorQueueTimeSlice (UnbondingCompletionTime v) st
         else SetValidatorQueueTimeSlice (UnbondingCompletionTime v) newTimeSlice st)"

definition GetDelegator :: "staking \<Rightarrow> bytes \<Rightarrow> Delegator option" where
  "GetDelegator st delAddr = kv_get (delegators st) delAddr"

definition SetDelegator :: "Delegator \<Rightarrow> staking \<Rightarrow> staking" where
  "SetDelegator d st = st\<lparr>delegators := kv_set (DelegatorAddress d) d (delegators st)\<rparr>"

definition DeleteDelegator :: "bytes \<Rightarrow> staking \<Rightarrow> staking" where
  "DeleteDelegator delAddr st = st\<lparr>delegators := kv_del delAddr (delegators st)\<rparr>"

definition SetShares :: "bytes \<Rightarrow> bytes \<Rightarrow> Dec \<Rightarrow> staking \<Rightarrow> staking" where
  "SetShares delAddr valAddr shares st = st\<lparr>sharesStore := kv_set (valAddr, delAddr) shares (sharesStore st)\<rparr>"

definition DeleteShares :: "bytes \<Rightarrow> bytes \<Rightarrow> staking \<Rightarrow> staking" where
  "DeleteShares valAddr delAddr st = st\<lparr>sharesStore := kv_del (valAddr, delAddr) (sharesStore st)\<rparr>"

definition GetValidatorAllShares :: "staking \<Rightarrow> bytes \<Rightarrow> (bytes \<times> Dec) list" where
  "GetValidatorAllShares st valAddr =
     map (\<lambda>((_, delAddr), shares). (delAddr, shares)) (filter (\<lambda>((v, _), _). v = valAddr) (kv_entries (sharesStore st)))"

definition SetProxyBinding :: "bytes \<Rightarrow> bytes \<Rightarrow> bool \<Rightarrow> staking \<Rightarrow> staking" where
  "SetProxyBinding proxyAddress delegatorAddress isRemove st =
     (if isRemove then st\<lparr>proxyBindings := kv_del (proxyAddress, delegatorAddress) (proxyBindings st)\<rparr>
      else st\<lparr>proxyBindings := kv_set (proxyAddress, delegatorAddress) () (proxyBindings st)\<rparr>)"

definition GetUndelegating :: "staking \<Rightarrow> bytes \<Rightarrow> UndelegationInfo option" where
  "GetUndelegating st delAddr = kv_get (undelegationInfos st) delAddr"

definition SetUndelegating :: "UndelegationInfo \<Rightarrow> staking \<Rightarrow> staking" where
  "SetUndelegating ud st = st\<lparr>undelegationInfos := kv_set (ud_DelegatorAddress ud) ud (undelegationInfos st)\<rparr>"

definition DeleteUndelegating :: "bytes \<Rightarrow> staking \<Rightarrow> staking" where
  "DeleteUndelegating delAddr st = st\<lparr>undelegationInfos := kv_del delAddr (undelegationInfos st)\<rparr>"

definition SetAddrByTimeKeyWithNilValue :: "time \<Rightarrow> bytes \<Rightarrow> staking \<Rightarrow> staking" where
  "SetAddrByTimeKeyWithNilValue t delAddr st = st\<lparr>undelegateQueue := kv_set (t, delAddr) () (undelegateQueue st)\<rparr>"

definition DeleteAddrByTimeKey :: "time \<Rightarrow> bytes \<Rightarrow> staking \<Rightarrow> staking" where
  "DeleteAddrByTimeKey t delAddr st = st\<lparr>undelegateQueue := kv_del (t, delAddr) (undelegateQueue st)\<rparr>"

definition AppendAbandonedValidatorAddrs :: "bytes \<Rightarrow> staking \<Rightarrow> staking res" where
  "AppendAbandonedValidatorAddrs consAddr st =
     rbind (mustGetValidatorByConsAddr st consAddr) (\<lambda>v.
       Inr (st\<lparr>abandonedValidators := abandonedValidators st @ [OperatorAddress v]\<rparr>))"

definition DeleteAbandonedValidatorAddrs :: "staking \<Rightarrow> staking" where
  "DeleteAbandonedValidatorAddrs st = st\<lparr>abandonedValidators := []\<rparr>"

definition IsKickedOut :: "staking \<Rightarrow> bool" where
  "IsKickedOut st \<longleftrightarrow> abandonedValidators st \<noteq> []"

definition SetProposeValidator :: "bytes \<Rightarrow> bool \<Rightarrow> staking \<Rightarrow> staking" where
  "SetProposeValidator operator isAdd st = st\<lparr>proposeValidators := kv_set operator isAdd (proposeValidators st)\<rparr>"

definition DeleteProposeValidators :: "staking \<Rightarrow> staking" where
  "DeleteProposeValidators st =
     fold (\<lambda>(v, _) st. st\<lparr>proposeValidators := kv_del v (proposeValidators st)\<rparr>) (kv_entries (proposeValidators st)) st"

definition DefaultEpoch :: int where "DefaultEpoch = 252"

definition GetEpoch :: "staking \<Rightarrow> int" where
  "GetEpoch st = (case storedEpoch st of None \<Rightarrow> DefaultEpoch | Some e \<Rightarrow> e)"

definition SetEpoch :: "int \<Rightarrow> staking \<Rightarrow> staking" where
  "SetEpoch e st = st\<lparr>storedEpoch := Some e\<rparr>"

definition SetTheEndOfLastEpoch :: "int \<Rightarrow> staking \<Rightarrow> staking" where
  "SetTheEndOfLastEpoch height st = st\<lparr>TheEndOfLastEpoch := height\<rparr>"

definition IsEndOfEpoch :: "int \<Rightarrow> staking \<Rightarrow> bool res" where
  "IsEndOfEpoch height st =
     (if GetEpoch st = 0 then Inl (Panic ''integer divide by zero'')
      else Inr (big_rem (wrap64 (height - TheEndOfLastEpoch st)) (GetEpoch st) = 0))"

section \<open>Jailing\<close>

definition jailValidator :: "Validator \<Rightarrow> staking \<Rightarrow> staking res" where
  "jailValidator v st =
     (if Jailed v then Inl (Panic ''cannot jail already jailed validator'')
      else let v' = v\<lparr>Jailed := True\<rparr> in DeleteValidatorByPowerIndex v' (SetValidator v' st))"

definition unjailValidator :: "Validator \<Rightarrow> staking \<Rightarrow> staking res" where
  "unjailValidator v st =
     (if \<not> Jailed v then Inl (Panic ''cannot unjail already unjailed validator'')
      else let v' = v\<lparr>Jailed := False\<rparr>
           in rbind (SetValidatorByPowerIndex v' (SetValidator v' st)) (\<lambda>st'.
                Inr (if ConsensusType (params st') = PoA then SetProposeValidator (OperatorAddress v') True st' else st')))"

definition Jail :: "bytes \<Rightarrow> staking \<Rightarrow> staking res" where
  "Jail consAddr st = rbind (mustGetValidatorByConsAddr st consAddr) (\<lambda>v. jailValidator v st)"

definition Unjail :: "bytes \<Rightarrow> staking \<Rightarrow> staking res" where
  "Unjail consAddr st = rbind (mustGetValidatorByConsAddr st consAddr) (\<lambda>v. unjailValidator v st)"

end
