(* ===== verification/Chain.thy ===== *)
theory Chain
  imports StakingStore
begin

text \<open>
  The state the staking, distribution and slashing modules share, and the stores of the last two
  (\<open>x/distribution/keeper/store*.go\<close>, \<open>x/slashing/internal/keeper/signing_info.go\<close>).

  Each module keeps its own store; the record \<open>chain\<close> holds them beside the ledger.  The block
  context (height, time, consensus parameters, milestone) is an argument.  Reading an absent
  key panics where the code unmarshals the empty value.  Periods are \<open>uint64\<close>.
\<close>

section \<open>The distribution store\<close>

record DelegatorStartingInfo =
  PreviousPeriod :: int
  Stake :: Dec
  si_Height :: int

record ValidatorHistoricalRewards =
  CumulativeRewardRatio :: DecCoins
  ReferenceCount :: int

record ValidatorCurrentRewards =
  Rewards :: DecCoins
  Period :: int

text \<open>The last three parameters have a default when the parameter store lacks them.\<close>

record distribution =
  FeePool :: "DecCoins option"
  PreviousProposer :: "bytes option"
  delegatorWithdrawAddrs :: "(bytes, bytes) kv"
  accumulatedCommissions :: "(bytes, DecCoins) kv"
  startingInfos :: "(bytes \<times> bytes, DelegatorStartingInfo) kv"
  historicalRewards :: "(bytes \<times> int, ValidatorHistoricalRewards) kv"
  currentRewards :: "(bytes, ValidatorCurrentRewards) kv"
  outstandingRewards :: "(bytes, DecCoins) kv"
  CommunityTax :: Dec
  WithdrawAddrEnabled :: bool
  paramDistributionType :: "int option"
  paramWithdrawRewardEnabled :: "bool option"
  paramRewardTruncatePrecision :: "int option"

definition DistributionTypeOffChain :: int where "DistributionTypeOffChain = 0"
definition DistributionTypeOnChain :: int where "DistributionTypeOnChain = 1"

definition GetDistributionType :: "distribution \<Rightarrow> int" where
  "GetDistributionType ds = (case paramDistributionType ds of None \<Rightarrow> DistributionTypeOffChain | Some t \<Rightarrow> t)"

definition GetWithdrawRewardEnabled :: "distribution \<Rightarrow> bool" where
  "GetWithdrawRewardEnabled ds = (case paramWithdrawRewardEnabled ds of None \<Rightarrow> True | Some b \<Rightarrow> b)"

definition GetRewardTruncatePrecision :: "distribution \<Rightarrow> int" where
  "GetRewardTruncatePrecision ds = (case paramRewardTruncatePrecision ds of None \<Rightarrow> 0 | Some p \<Rightarrow> p)"

text \<open>Unmarshalling the value of an absent key panics.\<close>

definition must_get :: "('k::linorder, 'v) kv \<Rightarrow> 'k \<Rightarrow> 'v res" where
  "must_get m x = (case kv_get m x of None \<Rightarrow> Inl (Panic ''cannot decode empty bytes'') | Some v \<Rightarrow> Inr v)"

definition GetDelegatorWithdrawAddr :: "distribution \<Rightarrow> bytes \<Rightarrow> bytes" where
  "GetDelegatorWithdrawAddr ds delAddr =
     (case kv_get (delegatorWithdrawAddrs ds) delAddr of None \<Rightarrow> delAddr | Some a \<Rightarrow> a)"

definition SetDelegatorWithdrawAddr :: "bytes \<Rightarrow> bytes \<Rightarrow> distribution \<Rightarrow> distribution" where
  "SetDelegatorWithdrawAddr delAddr withdrawAddr ds =
     ds\<lparr>delegatorWithdrawAddrs := kv_set delAddr withdrawAddr (delegatorWithdrawAddrs ds)\<rparr>"

definition GetFeePool :: "distribution \<Rightarrow> DecCoins res" where
  "GetFeePool ds = (case FeePool ds of None \<Rightarrow> Inl (Panic ''Stored fee pool should not have been nil'') | Some p \<Rightarrow> Inr p)"

definition SetFeePool :: "DecCoins \<Rightarrow> distribution \<Rightarrow> distribution" where
  "SetFeePool p ds = ds\<lparr>FeePool := Some p\<rparr>"

definition GetPreviousProposerConsAddr :: "distribution \<Rightarrow> bytes res" where
  "GetPreviousProposerConsAddr ds =
     (case PreviousProposer ds of None \<Rightarrow> Inl (Panic ''Previous proposer not set'') | Some a \<Rightarrow> Inr a)"

definition SetPreviousProposerConsAddr :: "bytes \<Rightarrow> distribution \<Rightarrow> distribution" where
  "SetPreviousProposerConsAddr consAddr ds = ds\<lparr>PreviousProposer := Some consAddr\<rparr>"

definition GetValidatorAccumulatedCommission :: "distribution \<Rightarrow> bytes \<Rightarrow> DecCoins" where
  "GetValidatorAccumulatedCommission ds v = (case kv_get (accumulatedCommissions ds) v of None \<Rightarrow> [] | Some c \<Rightarrow> c)"

definition SetValidatorAccumulatedCommission :: "bytes \<Rightarrow> DecCoins \<Rightarrow> distribution \<Rightarrow> distribution" where
  "SetValidatorAccumulatedCommission v commission ds =
     ds\<lparr>accumulatedCommissions :=
          kv_set v (if DecCoins_IsZero commission then [] else commission) (accumulatedCommissions ds)\<rparr>"

definition deleteValidatorAccumulatedCommission :: "bytes \<Rightarrow> distribution \<Rightarrow> distribution" where
  "deleteValidatorAccumulatedCommission v ds = ds\<lparr>accumulatedCommissions := kv_del v (accumulatedCommissions ds)\<rparr>"

definition GetDelegatorStartingInfo :: "distribution \<Rightarrow> bytes \<Rightarrow> bytes \<Rightarrow> DelegatorStartingInfo res" where
  "GetDelegatorStartingInfo ds v del = must_get (startingInfos ds) (v, del)"

definition SetDelegatorStartingInfo :: "bytes \<Rightarrow> bytes \<Rightarrow> DelegatorStartingInfo \<Rightarrow> distribution \<Rightarrow> distribution" where
  "SetDelegatorStartingInfo v del info ds = ds\<lparr>startingInfos := kv_set (v, del) info (startingInfos ds)\<rparr>"

definition HasDelegatorStartingInfo :: "distribution \<Rightarrow> bytes \<Rightarrow> bytes \<Rightarrow> bool" where
  "HasDelegatorStartingInfo ds v del = kv_has (startingInfos ds) (v, del)"

definition DeleteDelegatorStartingInfo :: "bytes \<Rightarrow> bytes \<Rightarrow> distribution \<Rightarrow> distribution" where
  "DeleteDelegatorStartingInfo v del ds = ds\<lparr>startingInfos := kv_del (v, del) (startingInfos ds)\<rparr>"

definition GetValidatorHistoricalRewards :: "distribution \<Rightarrow> bytes \<Rightarrow> int \<Rightarrow> ValidatorHistoricalRewards res" where
  "GetValidatorHistoricalRewards ds v period = must_get (historicalRewards ds) (v, period)"

definition SetValidatorHistoricalRewards :: "bytes \<Rightarrow> int \<Rightarrow> ValidatorHistoricalRewards \<Rightarrow> distribution \<Rightarrow> distribution" where
  "SetValidatorHistoricalRewards v period rewards ds =
     ds\<lparr>historicalRewards := kv_set (v, period) rewards (historicalRewards ds)\<rparr>"

definition DeleteValidatorHistoricalReward :: "bytes \<Rightarrow> int \<Rightarrow> distribution \<Rightarrow> distribution" where
  "DeleteValidatorHistoricalReward v period ds = ds\<lparr>historicalRewards := kv_del (v, period) (historicalRewards ds)\<rparr>"

definition DeleteValidatorHistoricalRewards :: "bytes \<Rightarrow> distribution \<Rightarrow> distribution" where
  "DeleteValidatorHistoricalRewards v ds =
     fold (\<lambda>(key, _) ds. ds\<lparr>historicalRewards := kv_del key (historicalRewards ds)\<rparr>)
       (filter (\<lambda>(key, _). fst key = v) (kv_entries (historicalRewards ds))) ds"

definition GetValidatorCurrentRewards :: "distribution \<Rightarrow> bytes \<Rightarrow> ValidatorCurrentRewards res" where
  "GetValidatorCurrentRewards ds v = must_get (currentRewards ds) v"

definition SetValidatorCurrentRewards :: "bytes \<Rightarrow> ValidatorCurrentRewards \<Rightarrow> distribution \<Rightarrow> distribution" where
  "SetValidatorCurrentRewards v rewards ds = ds\<lparr>currentRewards := kv_set v rewards (currentRewards ds)\<rparr>"

definition DeleteValidatorCurrentRewards :: "bytes \<Rightarrow> distribution \<Rightarrow> distribution" where
  "DeleteValidatorCurrentRewards v ds = ds\<lparr>currentRewards := kv_del v (currentRewards ds)\<rparr>"

definition GetValidatorOutstandingRewards :: "distribution \<Rightarrow> bytes \<Rightarrow> DecCoins res" where
  "GetValidatorOutstandingRewards ds v = must_get (outstandingRewards ds) v"

definition SetValidatorOutstandingRewards :: "bytes \<Rightarrow> DecCoins \<Rightarrow> distribution \<Rightarrow> distribution" where
  "SetValidatorOutstandingRewards v rewards ds = ds\<lparr>outstandingRewards := kv_set v rewards (outstandingRewards ds)\<rparr>"

definition DeleteValidatorOutstandingRewards :: "bytes \<Rightarrow> distribution \<Rightarrow> distribution" where
  "DeleteValidatorOutstandingRewards v ds = ds\<lparr>outstandingRewards := kv_del v (outstandingRewards ds)\<rparr>"

section \<open>The slashing store\<close>

datatype ValStatus = Created | Destroying | Destroyed

record ValidatorSigningInfo =
  si_Address :: bytes
  StartHeight :: int
  IndexOffset :: int
  JailedUntil :: time
  Tombstoned :: bool
  MissedBlocksCounter :: int
  ValidatorStatus :: ValStatus

record slashing =
  signingInfos :: "(bytes, ValidatorSigningInfo) kv"
  missedBlockBitArray :: "(bytes \<times> int, bool) kv"
  addrPubkeyRelation :: "(bytes, PubKey) kv"
  SignedBlocksWindow :: int
  paramMinSignedPerWindow :: Dec
  DowntimeJailDuration :: time

definition GetValidatorSigningInfo :: "slashing \<Rightarrow> bytes \<Rightarrow> ValidatorSigningInfo option" where
  "GetValidatorSigningInfo sl addr = kv_get (signingInfos sl) addr"

definition SetValidatorSigningInfo :: "bytes \<Rightarrow> ValidatorSigningInfo \<Rightarrow> slashing \<Rightarrow> slashing" where
  "SetValidatorSigningInfo addr info sl = sl\<lparr>signingInfos := kv_set addr info (signingInfos sl)\<rparr>"

definition GetValidatorMissedBlockBitArray :: "slashing \<Rightarrow> bytes \<Rightarrow> int \<Rightarrow> bool" where
  "GetValidatorMissedBlockBitArray sl addr index =
     (case kv_get (missedBlockBitArray sl) (addr, index) of None \<Rightarrow> False | Some b \<Rightarrow> b)"

definition SetValidatorMissedBlockBitArray :: "bytes \<Rightarrow> int \<Rightarrow> bool \<Rightarrow> slashing \<Rightarrow> slashing" where
  "SetValidatorMissedBlockBitArray addr index missed sl =
     sl\<lparr>missedBlockBitArray := kv_set (addr, index) missed (missedBlockBitArray sl)\<rparr>"

definition clearValidatorMissedBlockBitArray :: "bytes \<Rightarrow> slashing \<Rightarrow> slashing" where
  "clearValidatorMissedBlockBitArray addr sl =
     fold (\<lambda>(key, _) sl. sl\<lparr>missedBlockBitArray := kv_del key (missedBlockBitArray sl)\<rparr>)
       (filter (\<lambda>(key, _). fst key = addr) (kv_entries (missedBlockBitArray sl))) sl"

definition GetPubkey :: "slashing \<Rightarrow> bytes \<Rightarrow> PubKey res" where
  "GetPubkey sl addr = (case kv_get (addrPubkeyRelation sl) addr of None \<Rightarrow> Inl (Err ''address not found'') | Some pk \<Rightarrow> Inr pk)"

definition AddPubkey :: "supply_keeper \<Rightarrow> PubKey \<Rightarrow> slashing \<Rightarrow> slashing" where
  "AddPubkey k pk sl =
     sl\<lparr>addrPubkeyRelation := kv_set (AddressHash k (pk_bytes pk)) pk (addrPubkeyRelation sl)\<rparr>"

definition deleteAddrPubkeyRelation :: "bytes \<Rightarrow> slashing \<Rightarrow> slashing" where
  "deleteAddrPubkeyRelation addr sl = sl\<lparr>addrPubkeyRelation := kv_del addr (addrPubkeyRelation sl)\<rparr>"

text \<open>The key's index is a little-endian \<open>uint64\<close>; the order of the indices does not matter.\<close>

section \<open>The chain\<close>

record chain =
  led :: ledger
  stk :: staking
  dis :: distribution
  sla :: slashing

record block_ctx =
  BlockHeight :: int
  BlockTime :: time
  PubKeyTypes :: "string list option"
  milestoneEarthHeight :: int

definition HigherThanEarth :: "block_ctx \<Rightarrow> bool" where
  "HigherThanEarth ctx = (if milestoneEarthHeight ctx = 0 then False else BlockHeight ctx \<ge> milestoneEarthHeight ctx)"

text \<open>An operation of one module acts on its part of the state.\<close>

definition with_led :: "(ledger \<Rightarrow> ledger res) \<Rightarrow> chain \<Rightarrow> chain res" where
  "with_led f s = rbind (f (led s)) (\<lambda>l. Inr (s\<lparr>led := l\<rparr>))"

definition with_stk :: "(staking \<Rightarrow> staking res) \<Rightarrow> chain \<Rightarrow> chain res" where
  "with_stk f s = rbind (f (stk s)) (\<lambda>st. Inr (s\<lparr>stk := st\<rparr>))"

definition with_dis :: "(distribution \<Rightarrow> distribution) \<Rightarrow> chain \<Rightarrow> chain" where
  "with_dis f s = s\<lparr>dis := f (dis s)\<rparr>"

definition with_sla :: "(slashing \<Rightarrow> slashing) \<Rightarrow> chain \<Rightarrow> chain" where
  "with_sla f s = s\<lparr>sla := f (sla s)\<rparr>"

text \<open>Calling a method of a nil interface value panics.\<close>

definition not_nil :: "'a option \<Rightarrow> 'a res" where
  "not_nil x = (case x of None \<Rightarrow> Inl (Panic ''nil pointer dereference'') | Some v \<Rightarrow> Inr v)"

text \<open>A call whose error the caller turns into a panic.\<close>

definition must :: "'a res \<Rightarrow> 'a res" where
  "must r = (case r of Inl (Err e) \<Rightarrow> Inl (Panic e) | _ \<Rightarrow> r)"

definition DistributionModuleName :: string where "DistributionModuleName = ''distribution''"
definition FeeCollectorName :: string where "FeeCollectorName = ''fee_collector''"

lemma with_led_eq_Inr [simp]: "with_led f s = Inr s' \<longleftrightarrow> (\<exists>l. f (led s) = Inr l \<and> s' = s\<lparr>led := l\<rparr>)"
  by (auto simp: with_led_def)

lemma with_stk_eq_Inr [simp]: "with_stk f s = Inr s' \<longleftrightarrow> (\<exists>st. f (stk s) = Inr st \<and> s' = s\<lparr>stk := st\<rparr>)"
  by (auto simp: with_stk_def)

lemma must_eq_Inr [simp]: "must r = Inr x \<longleftrightarrow> r = Inr x"
  by (auto simp: must_def split: sum.splits gerr.splits)

section \<open>A concrete chain\<close>

text \<open>A chain with one bonded validator, ten tokens of collected fees and one funded account.\<close>

definition okb :: "int \<Rightarrow> DecCoins" where
  "okb n = [\<lparr>Denom = ''okb'', Amount = n * 10 ^ 18\<rparr>]"

definition demo_funded :: "bytes \<Rightarrow> acc_kind \<Rightarrow> int \<Rightarrow> Account" where
  "demo_funded a t n = \<lparr>acc_Address = a, acc_Coins = okb n, AccountNumber = 0, Sequence = 0, acc_type = t\<rparr>"

definition demo_validator :: Validator where
  "demo_validator = (NewValidator ''val'' \<lparr>pk_type = ''ed25519'', pk_bytes = ''pk''\<rparr> \<lparr>Moniker = [], Identity = [], Website = [], Details = []\<rparr> (10 * 10 ^ 18))
     \<lparr>Status := Bonded, DelegatorShares := OneDec, val_Commission := NewCommission (10 ^ 17) OneDec OneDec\<rparr>"

definition demo_staking :: staking where
  "demo_staking = \<lparr>validators = kv_set ''val'' demo_validator kv_empty, validatorsByConsAddr = kv_set ''#pk'' ''val'' kv_empty,
     validatorsByPowerIndex = kv_set (1, map complement_byte ''val'') ''val'' kv_empty,
     lastValidatorPower = kv_set ''val'' 1 kv_empty, LastTotalPower = 1, validatorQueue = kv_empty, sharesStore = kv_empty,
     delegators = kv_empty, undelegationInfos = kv_empty, undelegateQueue = kv_empty, proxyBindings = kv_empty,
     proposeValidators = kv_empty, abandonedValidators = [], storedEpoch = None, TheEndOfLastEpoch = 0,
     params = \<lparr>UnbondingTime = 1209600, MaxValidators = 21, ParamsEpoch = 10, MaxValsToAddShares = 30, MinDelegation = 1,
       ParamsMinSelfDelegation = 10 * 10 ^ 18, HistoricalEntries = 0, ConsensusType = DPoS, EnableDposOp = True\<rparr>\<rparr>"

definition demo_distribution :: distribution where
  "demo_distribution = \<lparr>FeePool = Some [], PreviousProposer = Some ''#pk'', delegatorWithdrawAddrs = kv_empty,
     accumulatedCommissions = kv_set ''val'' [] kv_empty, startingInfos = kv_empty,
     historicalRewards = kv_set (''val'', 0) \<lparr>CumulativeRewardRatio = [], ReferenceCount = 1\<rparr> kv_empty,
     currentRewards = kv_set ''val'' \<lparr>Rewards = [], Period = 1\<rparr> kv_empty, outstandingRewards = kv_set ''val'' [] kv_empty,
     CommunityTax = 2 * 10 ^ 16, WithdrawAddrEnabled = True, paramDistributionType = Some DistributionTypeOnChain,
     paramWithdrawRewardEnabled = None, paramRewardTruncatePrecision = None\<rparr>"

definition demo_slashing :: slashing where
  "demo_slashing = \<lparr>signingInfos = kv_set ''#pk'' \<lparr>si_Address = ''#pk'', StartHeight = 0, IndexOffset = 0, JailedUntil = 0,
       Tombstoned = False, MissedBlocksCounter = 0, ValidatorStatus = Created\<rparr> kv_empty,
     missedBlockBitArray = kv_empty, addrPubkeyRelation = kv_set ''#pk'' \<lparr>pk_type = ''ed25519'', pk_bytes = ''pk''\<rparr> kv_empty,
     SignedBlocksWindow = 4, paramMinSignedPerWindow = 5 * 10 ^ 17, DowntimeJailDuration = 600\<rparr>"

definition demo_chain :: chain where
  "demo_chain = \<lparr>led = \<lparr>accounts = kv_set ''alice'' (demo_funded ''alice'' EthAcc 100)
         (kv_set ''#fee_collector'' (demo_funded ''#fee_collector'' (ModuleAcc ''fee_collector'' []) 10)
           (kv_set ''#bonded_tokens_pool'' (demo_funded ''#bonded_tokens_pool'' (ModuleAcc ''bonded_tokens_pool'' [''burner'', ''staking'']) 10) kv_empty)),
       GlobalAccountNumber = 3, tokenSupply = kv_set ''okb'' (120 * 10 ^ 18) kv_empty, ParamSendEnabled = True\<rparr>,
     stk = demo_staking, dis = demo_distribution, sla = demo_slashing\<rparr>"

definition demo_ctx :: block_ctx where
  "demo_ctx = \<lparr>BlockHeight = 5, BlockTime = 1000, PubKeyTypes = None, milestoneEarthHeight = 0\<rparr>"

lemmas demo_defs = demo_chain_def demo_funded_def demo_validator_def demo_staking_def demo_distribution_def demo_slashing_def okb_def

lemma demo_ledger_ok: "ledger_ok (led demo_chain)"
  by (auto simp: demo_defs ledger_ok_def GetAccount_def coins_ok_def split: if_splits)

end
