(* ===== verification/Distribution.thy ===== *)
theory Distribution
  imports Chain
begin

text \<open>
  The distribution module (\<open>x/distribution\<close>): fee allocation at the start of a block, the reward
  periods of a validator, withdrawing rewards and commission, the community pool and the hooks
  the staking module calls.

  Main results: every operation keeps the module's account equal to the community pool plus the
  outstanding rewards of all validators (the invariant \<open>ModuleAccountInvariant\<close> checks), and an
  allocation hands out exactly the collected fees.
\<close>

section \<open>Reference counts and periods\<close>

definition prev_period :: "int \<Rightarrow> int" where "prev_period p = (p - 1) mod 2 ^ 64"
definition next_period :: "int \<Rightarrow> int" where "next_period p = (p + 1) mod 2 ^ 64"

definition initializeValidator :: "Validator \<Rightarrow> distribution \<Rightarrow> distribution" where
  "initializeValidator v ds =
     SetValidatorOutstandingRewards (OperatorAddress v) []
       (SetValidatorAccumulatedCommission (OperatorAddress v) []
         (SetValidatorCurrentRewards (OperatorAddress v) \<lparr>Rewards = [], Period = 1\<rparr>
           (SetValidatorHistoricalRewards (OperatorAddress v) 0 \<lparr>CumulativeRewardRatio = [], ReferenceCount = 1\<rparr> ds)))"

definition incrementReferenceCount :: "bytes \<Rightarrow> int \<Rightarrow> distribution \<Rightarrow> distribution res" where
  "incrementReferenceCount valAddr period ds =
     rbind (GetValidatorHistoricalRewards ds valAddr period) (\<lambda>historical.
       if ReferenceCount historical > 2 then Inl (Panic ''reference count should never exceed 2'')
       else Inr (SetValidatorHistoricalRewards valAddr period
                   (historical\<lparr>ReferenceCount := ReferenceCount historical + 1\<rparr>) ds))"

definition decrementReferenceCount :: "bytes \<Rightarrow> int \<Rightarrow> distribution \<Rightarrow> distribution res" where
  "decrementReferenceCount valAddr period ds =
     rbind (GetValidatorHistoricalRewards ds valAddr period) (\<lambda>historical.
       if ReferenceCount historical = 0 then Inl (Panic ''cannot set negative reference count'')
       else let historical' = historical\<lparr>ReferenceCount := ReferenceCount historical - 1\<rparr>
            in if ReferenceCount historical' = 0 then Inr (DeleteValidatorHistoricalReward valAddr period ds)
               else Inr (SetValidatorHistoricalRewards valAddr period historical' ds))"

text \<open>The first part of \<open>incrementValidatorPeriod\<close>: the reward ratio of the period that ends; a
  validator without shares gives its rewards to the community pool.\<close>

definition period_ratio :: "Validator \<Rightarrow> DecCoins \<Rightarrow> distribution \<Rightarrow> (DecCoins \<times> distribution) res" where
  "period_ratio v rewards ds =
     (if DelegatorShares v = 0 then
        rbind (GetFeePool ds) (\<lambda>feePool.
        rbind (GetValidatorOutstandingRewards ds (OperatorAddress v)) (\<lambda>outstanding.
        rbind (DecCoins_Add feePool rewards) (\<lambda>feePool'.
        rbind (DecCoins_Sub outstanding rewards) (\<lambda>outstanding'.
          Inr ([], SetValidatorOutstandingRewards (OperatorAddress v) outstanding' (SetFeePool feePool' ds))))))
      else rbind (QuoDecTruncate rewards (DelegatorShares v)) (\<lambda>current. Inr (current, ds)))"

definition incrementValidatorPeriod :: "Validator \<Rightarrow> distribution \<Rightarrow> (int \<times> distribution) res" where
  "incrementValidatorPeriod v ds =
     rbind (GetValidatorCurrentRewards ds (OperatorAddress v)) (\<lambda>rewards.
     rbind (period_ratio v (Rewards rewards) ds) (\<lambda>(current, ds1).
     rbind (GetValidatorHistoricalRewards ds1 (OperatorAddress v) (prev_period (Period rewards))) (\<lambda>last.
     rbind (decrementReferenceCount (OperatorAddress v) (prev_period (Period rewards)) ds1) (\<lambda>ds2.
     rbind (DecCoins_Add (CumulativeRewardRatio last) current) (\<lambda>ratio.
       Inr (Period rewards,
            SetValidatorCurrentRewards (OperatorAddress v) \<lparr>Rewards = [], Period = next_period (Period rewards)\<rparr>
              (SetValidatorHistoricalRewards (OperatorAddress v) (Period rewards)
                 \<lparr>CumulativeRewardRatio = ratio, ReferenceCount = 1\<rparr> ds2)))))))"

section \<open>Delegation rewards\<close>

definition initializeDelegation :: "block_ctx \<Rightarrow> bytes \<Rightarrow> bytes \<Rightarrow> chain \<Rightarrow> chain res" where
  "initializeDelegation ctx v del s =
     rbind (GetValidatorCurrentRewards (dis s) v) (\<lambda>rewards.
     let previousPeriod = prev_period (Period rewards)
     in rbind (incrementReferenceCount v previousPeriod (dis s)) (\<lambda>ds1.
        rbind (not_nil (GetDelegator (stk s) del)) (\<lambda>delegation.
          Inr (s\<lparr>dis := SetDelegatorStartingInfo v del
                  \<lparr>PreviousPeriod = previousPeriod, Stake = Shares delegation, si_Height = BlockHeight ctx mod 2 ^ 64\<rparr> ds1\<rparr>))))"

definition calculateDelegationRewardsBetween :: "distribution \<Rightarrow> Validator \<Rightarrow> int \<Rightarrow> int \<Rightarrow> Dec \<Rightarrow> DecCoins res" where
  "calculateDelegationRewardsBetween ds v startingPeriod endingPeriod stake =
     (if startingPeriod > endingPeriod then Inl (Panic ''startingPeriod cannot be greater than endingPeriod'')
      else if stake < 0 then Inl (Panic ''stake should not be negative'')
      else rbind (GetValidatorHistoricalRewards ds (OperatorAddress v) startingPeriod) (\<lambda>starting.
           rbind (GetValidatorHistoricalRewards ds (OperatorAddress v) endingPeriod) (\<lambda>ending.
           rbind (DecCoins_Sub (CumulativeRewardRatio ending) (CumulativeRewardRatio starting)) (\<lambda>difference.
             if IsAnyNegative difference then Inl (Panic ''negative rewards should not be possible'')
             else MulDecTruncate difference stake))))"

definition calculateDelegationRewards :: "block_ctx \<Rightarrow> staking \<Rightarrow> distribution \<Rightarrow> Validator \<Rightarrow> bytes \<Rightarrow> int \<Rightarrow> DecCoins res" where
  "calculateDelegationRewards ctx st ds v delAddr endingPeriod =
     rbind (not_nil (GetDelegator st delAddr)) (\<lambda>del.
     rbind (GetDelegatorStartingInfo ds (OperatorAddress v) (DelegatorAddress del)) (\<lambda>startingInfo.
       if si_Height startingInfo = BlockHeight ctx mod 2 ^ 64 then Inr []
       else if Stake startingInfo > Shares del then Inl (Panic ''calculated final stake greater than current stake'')
       else rbind (calculateDelegationRewardsBetween ds v (PreviousPeriod startingInfo) endingPeriod (Stake startingInfo)) (\<lambda>r.
              DecCoins_Add [] r)))"

text \<open>The pay-out: coins to the withdraw address of the delegator, unless there are none.\<close>

definition pay_out :: "supply_keeper \<Rightarrow> bytes \<Rightarrow> DecCoins \<Rightarrow> chain \<Rightarrow> chain res" where
  "pay_out k addr coins s =
     (if DecCoins_IsZero coins then Inr s
      else with_led (SendCoinsFromModuleToAccount k DistributionModuleName (GetDelegatorWithdrawAddr (dis s) addr) coins) s)"

definition withdrawDelegationRewards :: "supply_keeper \<Rightarrow> block_ctx \<Rightarrow> Validator \<Rightarrow> bytes \<Rightarrow> chain \<Rightarrow> (DecCoins \<times> chain) res" where
  "withdrawDelegationRewards k ctx v delAddress s =
     (if \<not> HasDelegatorStartingInfo (dis s) (OperatorAddress v) delAddress then Inl (Err ''ErrCodeEmptyDelegationDistInfo'')
      else rbind (incrementValidatorPeriod v (dis s)) (\<lambda>(endingPeriod, ds1).
           rbind (calculateDelegationRewards ctx (stk s) ds1 v delAddress endingPeriod) (\<lambda>rewardsRaw.
           rbind (GetValidatorOutstandingRewards ds1 (OperatorAddress v)) (\<lambda>outstanding.
           rbind (Intersect rewardsRaw outstanding) (\<lambda>rewards.
           rbind (DecCoins_IsEqual rewards rewardsRaw) (\<lambda>_.
           rbind (TruncateWithPrec rewards (GetRewardTruncatePrecision ds1)) (\<lambda>(coins, remainder).
           rbind (pay_out k delAddress coins (s\<lparr>dis := ds1\<rparr>)) (\<lambda>s2.
           rbind (DecCoins_Sub outstanding rewards) (\<lambda>outstanding'.
           rbind (GetFeePool (dis s2)) (\<lambda>feePool.
           rbind (DecCoins_Add feePool remainder) (\<lambda>feePool'.
           let ds3 = SetFeePool feePool' (SetValidatorOutstandingRewards (OperatorAddress v) outstanding' (dis s2))
           in rbind (GetDelegatorStartingInfo ds3 (OperatorAddress v) delAddress) (\<lambda>startingInfo.
              rbind (decrementReferenceCount (OperatorAddress v) (PreviousPeriod startingInfo) ds3) (\<lambda>ds4.
                Inr (coins, s2\<lparr>dis := DeleteDelegatorStartingInfo (OperatorAddress v) delAddress ds4\<rparr>))))))))))))))"

definition WithdrawDelegationRewards :: "supply_keeper \<Rightarrow> block_ctx \<Rightarrow> bytes \<Rightarrow> bytes \<Rightarrow> chain \<Rightarrow> (DecCoins \<times> chain) res" where
  "WithdrawDelegationRewards k ctx delAddr valAddr s =
     (case GetValidator (stk s) valAddr of
        None \<Rightarrow> Inl (Err ''ErrCodeEmptyValidatorDistInfo'')
      | Some v \<Rightarrow>
          (case GetDelegator (stk s) delAddr of
             None \<Rightarrow> Inl (Err ''ErrCodeEmptyDelegationDistInfo'')
           | Some del \<Rightarrow>
               if \<not> list_ex (\<lambda>a. a = valAddr) (ValidatorAddresses del) then Inl (Err ''ErrCodeEmptyDelegationVoteValidator'')
               else rbind (withdrawDelegationRewards k ctx v delAddr s) (\<lambda>(rewards, s1).
                    rbind (initializeDelegation ctx valAddr delAddr s1) (\<lambda>s2. Inr (rewards, s2)))))"

definition WithdrawDelegationAllRewards :: "supply_keeper \<Rightarrow> block_ctx \<Rightarrow> bytes \<Rightarrow> chain \<Rightarrow> chain res" where
  "WithdrawDelegationAllRewards k ctx delAddr s =
     (case GetDelegator (stk s) delAddr of
        None \<Rightarrow> Inl (Err ''ErrCodeEmptyDelegationDistInfo'')
      | Some del \<Rightarrow>
          if length (ValidatorAddresses del) = 0 then Inl (Err ''ErrCodeEmptyDelegationVoteValidator'')
          else rfold (\<lambda>valAddr s.
                 case GetValidator (stk s) valAddr of
                   None \<Rightarrow> Inl (Err ''ErrCodeEmptyValidatorDistInfo'')
                 | Some v \<Rightarrow> rbind (withdrawDelegationRewards k ctx v delAddr s) (\<lambda>(_, s1).
                               initializeDelegation ctx valAddr delAddr s1)) (ValidatorAddresses del) s)"

section \<open>Commission, withdraw address and community pool\<close>

definition SetWithdrawAddr :: "supply_keeper \<Rightarrow> bytes \<Rightarrow> bytes \<Rightarrow> chain \<Rightarrow> chain res" where
  "SetWithdrawAddr k delegatorAddr withdrawAddr s =
     (if blacklistedAddrs k withdrawAddr then Inl (Err ''ErrWithdrawAddrInblacklist'')
      else if \<not> WithdrawAddrEnabled (dis s) then Inl (Err ''ErrSetWithdrawAddrDisabled'')
      else Inr (with_dis (SetDelegatorWithdrawAddr delegatorAddr withdrawAddr) s))"

definition WithdrawValidatorCommission :: "supply_keeper \<Rightarrow> bytes \<Rightarrow> chain \<Rightarrow> (DecCoins \<times> chain) res" where
  "WithdrawValidatorCommission k valAddr s =
     (let accumCommission = GetValidatorAccumulatedCommission (dis s) valAddr
      in if DecCoins_IsZero accumCommission then Inl (Err ''ErrNoValidatorCommission'')
         else rbind (TruncateDecimal accumCommission) (\<lambda>(commission, remainder).
              let ds1 = SetValidatorAccumulatedCommission valAddr remainder (dis s)
              in rbind (GetValidatorOutstandingRewards ds1 valAddr) (\<lambda>outstanding.
                 rbind (NewDecCoinsFromCoins commission) (\<lambda>commission'.
                 rbind (DecCoins_Sub outstanding commission') (\<lambda>outstanding'.
                 rbind (pay_out k valAddr commission
                          (s\<lparr>dis := SetValidatorOutstandingRewards valAddr outstanding' ds1\<rparr>)) (\<lambda>s2.
                   Inr (commission, s2)))))))"

definition distributeFromFeePool :: "supply_keeper \<Rightarrow> DecCoins \<Rightarrow> bytes \<Rightarrow> chain \<Rightarrow> chain res" where
  "distributeFromFeePool k amount receiveAddr s =
     rbind (GetFeePool (dis s)) (\<lambda>feePool.
     rbind (SafeSub feePool amount) (\<lambda>(newPool, neg).
       if neg then Inl (Err ''ErrBadDistribution'')
       else rbind (with_led (SendCoinsFromModuleToAccount k DistributionModuleName receiveAddr amount) s) (\<lambda>s1.
              Inr (with_dis (SetFeePool newPool) s1))))"

definition HandleCommunityPoolSpendProposal :: "supply_keeper \<Rightarrow> bytes \<Rightarrow> DecCoins \<Rightarrow> chain \<Rightarrow> chain res" where
  "HandleCommunityPoolSpendProposal k recipient amount s =
     (if blacklistedAddrs k recipient then Inl (Err ''ErrUnauthorized'')
      else distributeFromFeePool k amount recipient s)"

definition HandleChangeDistributionTypeProposal :: "int \<Rightarrow> chain \<Rightarrow> chain res" where
  "HandleChangeDistributionTypeProposal ty s =
     (if GetDistributionType (dis s) = ty then Inr s
      else Inr (with_dis (\<lambda>ds. ds\<lparr>paramDistributionType := Some ty\<rparr>) s))"

definition HandleWithdrawRewardEnabledProposal :: "bool \<Rightarrow> chain \<Rightarrow> chain res" where
  "HandleWithdrawRewardEnabledProposal enabled s = Inr (with_dis (\<lambda>ds. ds\<lparr>paramWithdrawRewardEnabled := Some enabled\<rparr>) s)"

definition HandleRewardTruncatePrecisionProposal :: "int \<Rightarrow> chain \<Rightarrow> chain res" where
  "HandleRewardTruncatePrecisionProposal precision s =
     Inr (with_dis (\<lambda>ds. ds\<lparr>paramRewardTruncatePrecision := Some precision\<rparr>) s)"

section \<open>Allocation\<close>

record VoteInfo =
  vote_Address :: bytes
  vote_Power :: int
  SignedLastBlock :: bool

definition valPortion :: Dec where "valPortion = 25 * 10 ^ 16"
definition votePortion :: Dec where "votePortion = 75 * 10 ^ 16"

definition AllocateTokensToValidator :: "Validator \<Rightarrow> DecCoins \<Rightarrow> distribution \<Rightarrow> distribution res" where
  "AllocateTokensToValidator v tokens ds =
     (let rate = (if GetDistributionType ds = DistributionTypeOnChain then Rate (val_Commission v) else OneDec)
      in rbind (MulDec tokens rate) (\<lambda>commission.
         rbind (DecCoins_Sub tokens commission) (\<lambda>shared.
         rbind (DecCoins_Add (GetValidatorAccumulatedCommission ds (OperatorAddress v)) commission) (\<lambda>currentCommission.
         let ds1 = SetValidatorAccumulatedCommission (OperatorAddress v) currentCommission ds
         in rbind (GetValidatorCurrentRewards ds1 (OperatorAddress v)) (\<lambda>current.
            rbind (DecCoins_Add (Rewards current) shared) (\<lambda>rewards'.
            let ds2 = SetValidatorCurrentRewards (OperatorAddress v) (current\<lparr>Rewards := rewards'\<rparr>) ds1
            in rbind (GetValidatorOutstandingRewards ds2 (OperatorAddress v)) (\<lambda>outstanding.
               rbind (DecCoins_Add outstanding tokens) (\<lambda>outstanding'.
                 Inr (SetValidatorOutstandingRewards (OperatorAddress v) outstanding' ds2)))))))))"

definition unjailed_voters :: "staking \<Rightarrow> VoteInfo list \<Rightarrow> Validator list" where
  "unjailed_voters st previousVotes =
     concat (map (\<lambda>vote. case GetValidatorByConsAddr st (vote_Address vote) of
                           None \<Rightarrow> [] | Some v \<Rightarrow> if Jailed v then [] else [v]) previousVotes)"

definition allocateByEqual :: "staking \<Rightarrow> DecCoins \<Rightarrow> VoteInfo list \<Rightarrow> distribution \<Rightarrow> (DecCoins \<times> distribution) res" where
  "allocateByEqual st rewards previousVotes ds =
     (let vals = unjailed_voters st previousVotes
      in rbind (NewDec 1) (\<lambda>one.
         rbind (NewDec (int (length vals))) (\<lambda>n.
         rbind (Dec_QuoTruncate one n) (\<lambda>powerFraction.
         rbind (MulDecTruncate rewards powerFraction) (\<lambda>reward.
           rfold (\<lambda>v (remaining, ds).
             rbind (AllocateTokensToValidator v reward ds) (\<lambda>ds'.
             rbind (DecCoins_Sub remaining reward) (\<lambda>remaining'. Inr (remaining', ds')))) vals (rewards, ds))))))"

definition unjailed_validators :: "staking \<Rightarrow> Validator list" where
  "unjailed_validators st = filter (\<lambda>v. \<not> Jailed v) (GetAllValidators st)"

definition allocateByShares :: "staking \<Rightarrow> DecCoins \<Rightarrow> distribution \<Rightarrow> (DecCoins \<times> distribution) res" where
  "allocateByShares st rewards ds =
     (let vals = unjailed_validators st
      in rbind (rfold (\<lambda>v totalVotes. Dec_Add totalVotes (DelegatorShares v)) vals 0) (\<lambda>totalVotes.
           rfold (\<lambda>v (remaining, ds).
             rbind (Dec_QuoTruncate (DelegatorShares v) totalVotes) (\<lambda>powerFraction.
             rbind (MulDecTruncate rewards powerFraction) (\<lambda>reward.
             rbind (AllocateTokensToValidator v reward ds) (\<lambda>ds'.
             rbind (DecCoins_Sub remaining reward) (\<lambda>remaining'. Inr (remaining', ds')))))) vals (rewards, ds)))"

text \<open>Fees that no validator receives go to the community pool; the pool written back is the one
  read before the allocation.\<close>

definition add_to_community :: "DecCoins \<Rightarrow> DecCoins \<Rightarrow> distribution \<Rightarrow> distribution res" where
  "add_to_community feePool coins ds =
     (if DecCoins_IsZero coins then Inr ds
      else rbind (DecCoins_Add feePool coins) (\<lambda>feePool'. Inr (SetFeePool feePool' ds)))"

definition allocate_fees :: "staking \<Rightarrow> DecCoins \<Rightarrow> int \<Rightarrow> VoteInfo list \<Rightarrow> distribution \<Rightarrow> distribution res" where
  "allocate_fees st feesCollected totalPreviousPower previousVotes ds =
     rbind (GetFeePool ds) (\<lambda>feePool.
       if totalPreviousPower = 0 then
         rbind (DecCoins_Add feePool feesCollected) (\<lambda>feePool'. Inr (SetFeePool feePool' ds))
       else
         rbind (Dec_Sub OneDec (CommunityTax ds)) (\<lambda>untaxed.
         rbind (MulDecTruncate feesCollected untaxed) (\<lambda>feesToVals.
         rbind (MulDecTruncate feesToVals valPortion) (\<lambda>feeByEqual.
         rbind (MulDecTruncate feesToVals votePortion) (\<lambda>feeByVote.
         rbind (DecCoins_Add feeByEqual feeByVote) (\<lambda>feeToBoth.
         rbind (DecCoins_Sub feesCollected feeToBoth) (\<lambda>feesToCommunity.
         rbind (allocateByEqual st feeByEqual previousVotes ds) (\<lambda>(remainByEqual, ds1).
         rbind (allocateByShares st feeByVote ds1) (\<lambda>(remainByShare, ds2).
         rbind (DecCoins_Add remainByEqual remainByShare) (\<lambda>remain.
         rbind (DecCoins_Add feesToCommunity remain) (\<lambda>feesToCommunity'.
           add_to_community feePool feesToCommunity' ds2)))))))))))"

definition AllocateTokens :: "supply_keeper \<Rightarrow> int \<Rightarrow> bytes \<Rightarrow> VoteInfo list \<Rightarrow> chain \<Rightarrow> chain res" where
  "AllocateTokens k totalPreviousPower previousProposer previousVotes s =
     rbind (module_account k FeeCollectorName (led s)) (\<lambda>(feeCollector, l1).
     let feesCollected = acc_Coins feeCollector; s1 = s\<lparr>led := l1\<rparr>
     in if feesCollected = [] then Inr s1
        else rbind (must (with_led (SendCoinsFromModuleToModule k FeeCollectorName DistributionModuleName feesCollected) s1)) (\<lambda>s2.
             rbind (allocate_fees (stk s2) feesCollected totalPreviousPower previousVotes (dis s2)) (\<lambda>ds.
               Inr (s2\<lparr>dis := ds\<rparr>))))"

definition PoAAllocateTokens :: "supply_keeper \<Rightarrow> VoteInfo list \<Rightarrow> chain \<Rightarrow> chain res" where
  "PoAAllocateTokens k previousVotes s =
     rbind (module_account k FeeCollectorName (led s)) (\<lambda>(feeCollector, l1).
     let feesCollected = acc_Coins feeCollector; s1 = s\<lparr>led := l1\<rparr>
     in if feesCollected = [] then Inr s1
        else rbind (must (with_led (SendCoinsFromModuleToModule k FeeCollectorName DistributionModuleName feesCollected) s1)) (\<lambda>s2.
             rbind (GetFeePool (dis s2)) (\<lambda>feePool.
             rbind (allocateByEqual (stk s2) feesCollected previousVotes (dis s2)) (\<lambda>(remainByEqual, ds1).
             rbind (add_to_community feePool remainByEqual ds1) (\<lambda>ds2.
               Inr (s2\<lparr>dis := ds2\<rparr>))))))"

definition distr_BeginBlocker :: "supply_keeper \<Rightarrow> block_ctx \<Rightarrow> VoteInfo list \<Rightarrow> bytes \<Rightarrow> chain \<Rightarrow> chain res" where
  "distr_BeginBlocker k ctx votes proposerAddress s =
     (let previousTotalPower = fold (\<lambda>v t. wrap64 (t + vote_Power v)) votes 0
      in rbind (if BlockHeight ctx > 1 then
                  rbind (GetPreviousProposerConsAddr (dis s)) (\<lambda>previousProposer.
                    if ConsensusType (params (stk s)) = PoA then PoAAllocateTokens k votes s
                    else AllocateTokens k previousTotalPower previousProposer votes s)
                else Inr s) (\<lambda>s1.
           Inr (with_dis (SetPreviousProposerConsAddr proposerAddress) s1)))"

section \<open>Hooks\<close>

definition distr_AfterValidatorCreated :: "bytes \<Rightarrow> chain \<Rightarrow> chain res" where
  "distr_AfterValidatorCreated valAddr s =
     rbind (not_nil (GetValidator (stk s) valAddr)) (\<lambda>v. Inr (with_dis (initializeValidator v) s))"

text \<open>The forced withdrawal of the commission when a validator is removed.\<close>

definition force_withdraw_commission :: "supply_keeper \<Rightarrow> bytes \<Rightarrow> DecCoins \<Rightarrow> DecCoins \<Rightarrow> chain \<Rightarrow> (DecCoins \<times> chain) res" where
  "force_withdraw_commission k valAddr commission outstanding s =
     (if DecCoins_IsZero commission then Inr (outstanding, s)
      else rbind (DecCoins_Sub outstanding commission) (\<lambda>outstanding'.
           rbind (TruncateDecimal commission) (\<lambda>(coins, remainder).
           rbind (if DecCoins_IsZero remainder then Inr s
                  else rbind (GetFeePool (dis s)) (\<lambda>feePool.
                       rbind (DecCoins_Add feePool remainder) (\<lambda>feePool'. Inr (with_dis (SetFeePool feePool') s)))) (\<lambda>s1.
           rbind (must (pay_out k valAddr coins s1)) (\<lambda>s2. Inr (outstanding', s2))))))"

definition distr_AfterValidatorRemoved :: "supply_keeper \<Rightarrow> bytes \<Rightarrow> chain \<Rightarrow> chain res" where
  "distr_AfterValidatorRemoved k valAddr s =
     rbind (GetValidatorOutstandingRewards (dis s) valAddr) (\<lambda>outstanding.
     rbind (force_withdraw_commission k valAddr (GetValidatorAccumulatedCommission (dis s) valAddr) outstanding s) (\<lambda>(outstanding', s1).
     rbind (GetFeePool (dis s1)) (\<lambda>feePool.
     rbind (DecCoins_Add feePool outstanding') (\<lambda>feePool'.
       Inr (with_dis (\<lambda>ds.
              DeleteValidatorCurrentRewards valAddr
                (DeleteValidatorHistoricalRewards valAddr
                  (deleteValidatorAccumulatedCommission valAddr
                    (DeleteValidatorOutstandingRewards valAddr (SetFeePool feePool' ds))))) s1)))))"

definition distr_BeforeDelegationCreated :: "bytes list \<Rightarrow> chain \<Rightarrow> chain res" where
  "distr_BeforeDelegationCreated valAddrs s =
     rfold (\<lambda>valAddr s.
       rbind (not_nil (GetValidator (stk s) valAddr)) (\<lambda>v.
       rbind (incrementValidatorPeriod v (dis s)) (\<lambda>(_, ds). Inr (s\<lparr>dis := ds\<rparr>)))) valAddrs s"

definition distr_BeforeDelegationSharesModified :: "supply_keeper \<Rightarrow> block_ctx \<Rightarrow> bytes \<Rightarrow> bytes list \<Rightarrow> chain \<Rightarrow> chain res" where
  "distr_BeforeDelegationSharesModified k ctx delAddr valAddrs s =
     rfold (\<lambda>valAddr s.
       rbind (not_nil (GetValidator (stk s) valAddr)) (\<lambda>v.
       rbind (must (withdrawDelegationRewards k ctx v delAddr s)) (\<lambda>(_, s'). Inr s'))) valAddrs s"

definition distr_AfterDelegationModified :: "block_ctx \<Rightarrow> bytes \<Rightarrow> bytes list \<Rightarrow> chain \<Rightarrow> chain res" where
  "distr_AfterDelegationModified ctx delAddr valAddrs s =
     rfold (\<lambda>valAddr s. initializeDelegation ctx valAddr delAddr s) valAddrs s"

section \<open>Messages and the run-time invariant\<close>

datatype distr_msg =
    MsgSetWithdrawAddress bytes bytes
  | MsgWithdrawValidatorCommission bytes
  | MsgWithdrawDelegatorReward bytes bytes
  | MsgWithdrawDelegatorAllRewards bytes

definition distr_Handler :: "supply_keeper \<Rightarrow> block_ctx \<Rightarrow> distr_msg \<Rightarrow> chain \<Rightarrow> chain res" where
  "distr_Handler k ctx msg s =
     (if \<not> GetWithdrawRewardEnabled (dis s) then Inl (Err ''ErrCodeDisabledWithdrawRewards'')
      else case msg of
        MsgSetWithdrawAddress delegatorAddress withdrawAddress \<Rightarrow> SetWithdrawAddr k delegatorAddress withdrawAddress s
      | MsgWithdrawValidatorCommission validatorAddress \<Rightarrow>
          rbind (WithdrawValidatorCommission k validatorAddress s) (\<lambda>(_, s'). Inr s')
      | MsgWithdrawDelegatorReward delegatorAddress validatorAddress \<Rightarrow>
          rbind (WithdrawDelegationRewards k ctx delegatorAddress validatorAddress s) (\<lambda>(_, s'). Inr s')
      | MsgWithdrawDelegatorAllRewards delegatorAddress \<Rightarrow> WithdrawDelegationAllRewards k ctx delegatorAddress s)"

text \<open>The result says whether the invariant is broken; reading the module account may create it.\<close>

definition distr_ModuleAccountInvariant :: "supply_keeper \<Rightarrow> chain \<Rightarrow> bool res" where
  "distr_ModuleAccountInvariant k s =
     rbind (rfold (\<lambda>(_, reward) tot. DecCoins_Add tot reward) (kv_entries (outstandingRewards (dis s))) []) (\<lambda>accumulatedOutstanding.
     rbind (GetFeePool (dis s)) (\<lambda>communityPool.
     rbind (module_account k DistributionModuleName (led s)) (\<lambda>(macc, _).
     rbind (DecCoins_Add communityPool accumulatedOutstanding) (\<lambda>expected.
     rbind (DecCoins_IsEqual (acc_Coins macc) expected) (\<lambda>eq. Inr (\<not> eq))))))"

section \<open>What the module owes\<close>

lemmas distr_store_defs =
  SetDelegatorWithdrawAddr_def SetFeePool_def SetPreviousProposerConsAddr_def SetValidatorAccumulatedCommission_def
  deleteValidatorAccumulatedCommission_def SetDelegatorStartingInfo_def DeleteDelegatorStartingInfo_def
  SetValidatorHistoricalRewards_def DeleteValidatorHistoricalReward_def SetValidatorCurrentRewards_def
  DeleteValidatorCurrentRewards_def SetValidatorOutstandingRewards_def DeleteValidatorOutstandingRewards_def

lemmas distr_read_defs =
  GetFeePool_def GetValidatorOutstandingRewards_def GetValidatorCurrentRewards_def GetValidatorHistoricalRewards_def
  GetDelegatorStartingInfo_def GetValidatorAccumulatedCommission_def must_get_def not_nil_def

definition pool_amt :: "distribution \<Rightarrow> string \<Rightarrow> int" where
  "pool_amt ds d = (case FeePool ds of None \<Rightarrow> 0 | Some p \<Rightarrow> amt p d)"

definition owed :: "distribution \<Rightarrow> string \<Rightarrow> int" where
  "owed ds d = pool_amt ds d + kv_total (\<lambda>_ c. amt c d) (outstandingRewards ds)"

text \<open>The stored coin sets are proper: no zero or negative amounts, sorted.\<close>

definition dis_ok :: "distribution \<Rightarrow> bool" where
  "dis_ok ds \<longleftrightarrow> (\<exists>p. FeePool ds = Some p \<and> coins_ok p) \<and>
     (\<forall>v c. kv_get (outstandingRewards ds) v = Some c \<longrightarrow> coins_ok c) \<and>
     (\<forall>v c. kv_get (accumulatedCommissions ds) v = Some c \<longrightarrow> coins_ok c) \<and>
     (\<forall>v r. kv_get (currentRewards ds) v = Some r \<longrightarrow> coins_ok (Rewards r)) \<and>
     (\<forall>key h. kv_get (historicalRewards ds) key = Some h \<longrightarrow> canonical (CumulativeRewardRatio h))"

text \<open>A step that keeps what is owed, the proper coin sets and the set of validators with rewards.\<close>

definition keeps_owed :: "distribution \<Rightarrow> distribution \<Rightarrow> bool" where
  "keeps_owed ds ds' \<longleftrightarrow> (\<forall>d. owed ds' d = owed ds d) \<and> dis_ok ds' \<and>
     (\<forall>v. kv_has (outstandingRewards ds') v \<longleftrightarrow> kv_has (outstandingRewards ds) v) \<and>
     delegatorWithdrawAddrs ds' = delegatorWithdrawAddrs ds"

lemma keeps_owed_refl: "dis_ok ds \<Longrightarrow> keeps_owed ds ds"
  by (simp add: keeps_owed_def)

lemma keeps_owedD:
  assumes "keeps_owed ds ds'"
  shows "owed ds' d = owed ds d" "dis_ok ds'" "kv_has (outstandingRewards ds') v \<longleftrightarrow> kv_has (outstandingRewards ds) v"
    "delegatorWithdrawAddrs ds' = delegatorWithdrawAddrs ds"
  using assms by (auto simp: keeps_owed_def)

lemma dis_okD:
  assumes "dis_ok ds"
  shows "FeePool ds = Some p \<Longrightarrow> coins_ok p" "kv_get (outstandingRewards ds) v = Some c \<Longrightarrow> coins_ok c"
    "kv_get (accumulatedCommissions ds) v = Some c \<Longrightarrow> coins_ok c"
    "kv_get (currentRewards ds) v = Some r \<Longrightarrow> coins_ok (Rewards r)"
    "kv_get (historicalRewards ds) key = Some h \<Longrightarrow> canonical (CumulativeRewardRatio h)"
  using assms by (auto simp: dis_ok_def simp del: split_paired_All)

lemma keeps_owed_trans [trans]: "keeps_owed a b \<Longrightarrow> keeps_owed b c \<Longrightarrow> keeps_owed a c"
  by (auto simp: keeps_owed_def)

lemma must_get_eq_Inr [simp]: "must_get m x = Inr v \<longleftrightarrow> kv_get m x = Some v"
  by (simp add: must_get_def split: option.split)

lemma not_nil_eq_Inr [simp]: "not_nil x = Inr v \<longleftrightarrow> x = Some v"
  by (simp add: not_nil_def split: option.split)

lemma GetFeePool_eq_Inr [simp]: "GetFeePool ds = Inr p \<longleftrightarrow> FeePool ds = Some p"
  by (simp add: GetFeePool_def split: option.split)

lemma incrementReferenceCount_keeps: "dis_ok ds \<Longrightarrow> incrementReferenceCount v p ds = Inr ds' \<Longrightarrow> keeps_owed ds ds'"
  by (auto simp: incrementReferenceCount_def GetValidatorHistoricalRewards_def keeps_owed_def owed_def pool_amt_def dis_ok_def
      SetValidatorHistoricalRewards_def split: if_splits)

lemma decrementReferenceCount_keeps: "dis_ok ds \<Longrightarrow> decrementReferenceCount v p ds = Inr ds' \<Longrightarrow> keeps_owed ds ds'"
  by (auto simp: decrementReferenceCount_def GetValidatorHistoricalRewards_def keeps_owed_def owed_def pool_amt_def dis_ok_def
      SetValidatorHistoricalRewards_def DeleteValidatorHistoricalReward_def Let_def split: if_splits)

lemma decrementReferenceCount_frame:
  assumes "decrementReferenceCount v p ds = Inr ds'"
  shows "FeePool ds' = FeePool ds" "outstandingRewards ds' = outstandingRewards ds" "currentRewards ds' = currentRewards ds"
    "accumulatedCommissions ds' = accumulatedCommissions ds" "startingInfos ds' = startingInfos ds"
  using assms by (auto simp: decrementReferenceCount_def SetValidatorHistoricalRewards_def DeleteValidatorHistoricalReward_def
      Let_def split: if_splits)

lemma QuoDecTruncate_canonical: "QuoDecTruncate cs x = Inr r \<Longrightarrow> canonical r"
  by (auto simp: QuoDecTruncate_def scale_coins_spec(1) split: if_splits)

lemma period_ratio_keeps:
  assumes "dis_ok ds" "coins_ok rewards" "period_ratio v rewards ds = Inr (current, ds')"
  shows "keeps_owed ds ds'" "canonical current" "historicalRewards ds' = historicalRewards ds" "currentRewards ds' = currentRewards ds"
proof -
  have "keeps_owed ds ds' \<and> canonical current \<and> historicalRewards ds' = historicalRewards ds \<and> currentRewards ds' = currentRewards ds"
  proof (cases "DelegatorShares v = 0")
    case True
    then obtain p c p' c' where p: "FeePool ds = Some p" and c: "kv_get (outstandingRewards ds) (OperatorAddress v) = Some c"
      and add: "DecCoins_Add p rewards = Inr p'" and sub: "DecCoins_Sub c rewards = Inr c'"
      and r: "current = []" "ds' = SetValidatorOutstandingRewards (OperatorAddress v) c' (SetFeePool p' ds)"
      using assms(3) by (auto simp: period_ratio_def GetValidatorOutstandingRewards_def)
    have "dis_ok ds'"
      using assms(1) p c coins_ok_Add [OF _ assms(2) add] coins_ok_Sub [OF _ assms(2) sub]
      by (auto simp: r dis_ok_def SetValidatorOutstandingRewards_def SetFeePool_def)
    then show ?thesis using p c DecCoins_Add_spec(1) [OF add] DecCoins_Sub_spec(1) [OF sub]
      by (auto simp: r keeps_owed_def owed_def pool_amt_def SetValidatorOutstandingRewards_def SetFeePool_def kv_has_def)
  next
    case False
    then show ?thesis using assms(1,3) QuoDecTruncate_canonical by (auto simp: period_ratio_def keeps_owed_refl)
  qed
  then show "keeps_owed ds ds'" "canonical current" "historicalRewards ds' = historicalRewards ds" "currentRewards ds' = currentRewards ds"
    by auto
qed

lemma incrementValidatorPeriod_keeps:
  assumes "dis_ok ds" "incrementValidatorPeriod v ds = Inr (p, ds')"
  shows "keeps_owed ds ds'"
proof -
  from assms(2) obtain rewards current ds1 h ds2 ratio where
      cur: "kv_get (currentRewards ds) (OperatorAddress v) = Some rewards"
      and ratio: "period_ratio v (Rewards rewards) ds = Inr (current, ds1)"
      and h: "kv_get (historicalRewards ds1) (OperatorAddress v, prev_period (Period rewards)) = Some h"
      and dec: "decrementReferenceCount (OperatorAddress v) (prev_period (Period rewards)) ds1 = Inr ds2"
      and add: "DecCoins_Add (CumulativeRewardRatio h) current = Inr ratio"
      and ds': "ds' = SetValidatorCurrentRewards (OperatorAddress v) \<lparr>Rewards = [], Period = next_period (Period rewards)\<rparr>
              (SetValidatorHistoricalRewards (OperatorAddress v) (Period rewards)
                 \<lparr>CumulativeRewardRatio = ratio, ReferenceCount = 1\<rparr> ds2)"
    by (auto simp: incrementValidatorPeriod_def GetValidatorCurrentRewards_def GetValidatorHistoricalRewards_def)
  note r = period_ratio_keeps [OF assms(1) dis_okD(4) [OF assms(1) cur] ratio]
  have k2: "keeps_owed ds ds2"
    using keeps_owed_trans [OF r(1) decrementReferenceCount_keeps [OF keeps_owedD(2) [OF r(1)] dec]] .
  have "canonical ratio"
    using canonical_Add [OF add dis_okD(5) [OF keeps_owedD(2) [OF r(1)] h] r(2)] .
  then have "keeps_owed ds2 ds'"
    using keeps_owedD(2) [OF k2]
    by (auto simp: ds' keeps_owed_def owed_def pool_amt_def dis_ok_def SetValidatorCurrentRewards_def SetValidatorHistoricalRewards_def)
  with k2 show ?thesis by (rule keeps_owed_trans)
qed

lemma initializeValidator_owed:
  assumes "dis_ok ds" "\<not> kv_has (outstandingRewards ds) (OperatorAddress v)"
  shows "owed (initializeValidator v ds) d = owed ds d" "dis_ok (initializeValidator v ds)"
    "kv_has (outstandingRewards (initializeValidator v ds)) a \<longleftrightarrow> a = OperatorAddress v \<or> kv_has (outstandingRewards ds) a"
  using assms
  by (auto simp: initializeValidator_def distr_store_defs owed_def pool_amt_def dis_ok_def kv_has_def amt_simps
      split: option.splits if_splits)

section \<open>The module account\<close>

text \<open>The keeper's module accounts have distinct addresses, which nobody else can be paid at.\<close>

definition modules_ok :: "supply_keeper \<Rightarrow> bool" where
  "modules_ok k \<longleftrightarrow> keeper_ok k \<and>
     (\<forall>m \<in> {BondedPoolName, NotBondedPoolName, DistributionModuleName, FeeCollectorName}. blacklistedAddrs k (AddressHash k m)) \<and>
     distinct (map (AddressHash k) [BondedPoolName, NotBondedPoolName, DistributionModuleName, FeeCollectorName])"

lemma modules_okD: "modules_ok k \<Longrightarrow> keeper_ok k"
  by (simp add: modules_ok_def)

lemma app_keeper_modules_ok:
  assumes "inj_on hash {BondedPoolName, NotBondedPoolName, DistributionModuleName, FeeCollectorName}"
  shows "modules_ok (app_keeper hash)"
proof -
  let ?N = "{BondedPoolName, NotBondedPoolName, DistributionModuleName, FeeCollectorName}"
  have "BondedPoolName \<noteq> NotBondedPoolName" "BondedPoolName \<noteq> DistributionModuleName" "BondedPoolName \<noteq> FeeCollectorName"
    "NotBondedPoolName \<noteq> DistributionModuleName" "NotBondedPoolName \<noteq> FeeCollectorName" "DistributionModuleName \<noteq> FeeCollectorName"
    by (simp_all add: BondedPoolName_def NotBondedPoolName_def DistributionModuleName_def FeeCollectorName_def)
  then have "distinct (map hash [BondedPoolName, NotBondedPoolName, DistributionModuleName, FeeCollectorName])"
    using assms by (auto dest: inj_onD)
  moreover have "ModuleAccountAddrs hash (hash m)" if "m \<in> ?N" for m
    using that by (auto simp: ModuleAccountAddrs_def maccPerms_def list_ex_iff
        BondedPoolName_def NotBondedPoolName_def DistributionModuleName_def FeeCollectorName_def)
  ultimately show ?thesis
    unfolding modules_ok_def app_keeper_def using NewKeeper_ok by (auto simp: NewKeeper_def)
qed

definition distr_gap :: "supply_keeper \<Rightarrow> chain \<Rightarrow> string \<Rightarrow> int" where
  "distr_gap k s d = bal (led s) (AddressHash k DistributionModuleName) d - owed (dis s) d"

text \<open>The contract of the module's operations: staking and slashing stores are left alone, the account
  covers what is owed as before, and no other module account changes.\<close>

definition distr_step :: "supply_keeper \<Rightarrow> chain \<Rightarrow> chain \<Rightarrow> bool" where
  "distr_step k s s' \<longleftrightarrow> stk s' = stk s \<and> sla s' = sla s \<and> ledger_ok (led s') \<and> dis_ok (dis s') \<and>
     (\<forall>d. distr_gap k s' d = distr_gap k s d) \<and> supplies (led s') = supplies (led s) \<and>
     (\<forall>a d. blacklistedAddrs k a \<longrightarrow> a \<noteq> AddressHash k DistributionModuleName \<longrightarrow> bal (led s') a d = bal (led s) a d) \<and>
     (\<forall>v. kv_has (outstandingRewards (dis s')) v \<longleftrightarrow> kv_has (outstandingRewards (dis s)) v)"

definition distr_ready :: "chain \<Rightarrow> bool" where
  "distr_ready s \<longleftrightarrow> ledger_ok (led s) \<and> dis_ok (dis s)"

lemma distr_step_refl: "distr_ready s \<Longrightarrow> distr_step k s s"
  by (simp add: distr_step_def distr_ready_def)

lemma distr_step_trans [trans]: "distr_step k a b \<Longrightarrow> distr_step k b c \<Longrightarrow> distr_step k a c"
  by (simp add: distr_step_def)

lemma distr_step_ready: "distr_step k s s' \<Longrightarrow> distr_ready s'"
  by (simp add: distr_step_def distr_ready_def)

text \<open>Operations that keep this contract, and loops over them.\<close>

locale distr_op =
  fixes k :: supply_keeper and run :: "'a \<Rightarrow> chain \<Rightarrow> chain res"
  assumes run_step: "modules_ok k \<Longrightarrow> distr_ready s \<Longrightarrow> run x s = Inr s' \<Longrightarrow> distr_step k s s'"
begin

lemma runs_step:
  assumes "modules_ok k" "distr_ready s" "rfold run xs s = Inr s'"
  shows "distr_step k s s'"
proof -
  have "distr_step k s s' \<and> distr_ready s'"
    by (rule rfold_invariant [OF assms(3), where P = "\<lambda>t. distr_step k s t \<and> distr_ready t"])
      (use assms(1,2) run_step distr_step_refl distr_step_trans distr_step_ready in blast)+
  then show ?thesis by blast
qed

end

lemma keeps_owed_step: "distr_ready s \<Longrightarrow> keeps_owed (dis s) ds \<Longrightarrow> distr_step k s (s\<lparr>dis := ds\<rparr>)"
  by (auto simp: distr_step_def distr_ready_def distr_gap_def keeps_owed_def)

section \<open>Withdrawing keeps the account balanced\<close>

lemma calculateDelegationRewards_ok:
  assumes "dis_ok ds" "calculateDelegationRewards ctx st ds v del p = Inr r"
  shows "coins_ok r"
proof -
  have btw: "coins_ok x" if "calculateDelegationRewardsBetween ds v a b stake = Inr x" for a b stake x
  proof -
    from that obtain hs he diff where h: "kv_get (historicalRewards ds) (OperatorAddress v, a) = Some hs"
        "kv_get (historicalRewards ds) (OperatorAddress v, b) = Some he"
      and sub: "DecCoins_Sub (CumulativeRewardRatio he) (CumulativeRewardRatio hs) = Inr diff"
      and n: "\<not> IsAnyNegative diff" "\<not> stake < 0" and m: "MulDecTruncate diff stake = Inr x"
      by (auto simp: calculateDelegationRewardsBetween_def GetValidatorHistoricalRewards_def split: if_splits)
    have c: "canonical diff"
      using canonical_Sub [OF sub dis_okD(5) [OF assms(1) h(2)] dis_okD(5) [OF assms(1) h(1)]] .
    have "coins_ok diff"
      using coins_ok_canonicalI [OF c] IsAnyNegative_amt [of diff] n(1) c by (auto simp: canonical_def not_less)
    then show ?thesis using MulDecTruncate_ok(1) [OF m] n(2) by simp
  qed
  from assms(2) show ?thesis
    by (auto simp: calculateDelegationRewards_def split: if_splits intro: coins_ok_Add [OF coins_ok_Nil] dest: btw)
qed

text \<open>A pay-out lowers the module's account by the coins.\<close>

lemma pay_out_spec:
  assumes "modules_ok k" "ledger_ok (led s)" "pay_out k a coins s = Inr s'" "coins_ok coins"
  shows "dis s' = dis s" "stk s' = stk s" "sla s' = sla s" "ledger_ok (led s')" "supplies (led s') = supplies (led s)"
    "bal (led s') (AddressHash k DistributionModuleName) d = bal (led s) (AddressHash k DistributionModuleName) d - amt coins d"
    "blacklistedAddrs k b \<Longrightarrow> b \<noteq> AddressHash k DistributionModuleName \<Longrightarrow> bal (led s') b d = bal (led s) b d"
proof -
  let ?D = "AddressHash k DistributionModuleName"
  have "dis s' = dis s \<and> stk s' = stk s \<and> sla s' = sla s \<and> ledger_ok (led s') \<and> supplies (led s') = supplies (led s) \<and>
    bal (led s') ?D d = bal (led s) ?D d - amt coins d \<and>
    (blacklistedAddrs k b \<and> b \<noteq> ?D \<longrightarrow> bal (led s') b d = bal (led s) b d)"
  proof (cases "DecCoins_IsZero coins")
    case True
    then show ?thesis using assms DecCoins_IsZero_amt [OF assms(4)] by (simp add: pay_out_def)
  next
    case False
    then obtain l where l: "SendCoinsFromModuleToAccount k DistributionModuleName (GetDelegatorWithdrawAddr (dis s) a) coins (led s) = Inr l"
      and s': "s' = s\<lparr>led := l\<rparr>" using assms(3) by (auto simp: pay_out_def)
    note send = SendCoinsFromModuleToAccount_eq [OF modules_okD [OF assms(1)] l]
    note c = SendCoins_changes(1) [OF assms(2) conjunct1 [OF send]]
    have "blacklistedAddrs k ?D" using assms(1) by (simp add: modules_ok_def)
    then have "GetDelegatorWithdrawAddr (dis s) a \<noteq> ?D" using send by auto
    then show ?thesis using changesD [OF c] transfer_supplies [OF c] send by (auto simp: s' transfer_def credit_def)
  qed
  then show "dis s' = dis s" "stk s' = stk s" "sla s' = sla s" "ledger_ok (led s')" "supplies (led s') = supplies (led s)"
    "bal (led s') ?D d = bal (led s) ?D d - amt coins d"
    "blacklistedAddrs k b \<Longrightarrow> b \<noteq> ?D \<Longrightarrow> bal (led s') b d = bal (led s) b d"
    by auto
qed

text \<open>A pay-out together with a bookkeeping step that lowers what is owed by the same coins.\<close>

lemma pay_out_step:
  assumes "modules_ok k" "distr_ready s" "pay_out k a coins s1 = Inr s2" "coins_ok coins" "led s1 = led s" "stk s1 = stk s" "sla s1 = sla s"
    and "\<And>d. owed ds d = owed (dis s) d - amt coins d" "dis_ok ds"
    and "\<And>v. kv_has (outstandingRewards ds) v \<longleftrightarrow> kv_has (outstandingRewards (dis s)) v"
  shows "distr_step k s (s2\<lparr>dis := ds\<rparr>)"
  using pay_out_spec [OF assms(1) _ assms(3,4)] assms unfolding distr_step_def distr_gap_def distr_ready_def by simp

lemma withdrawDelegationRewards_step:
  assumes "modules_ok k" "distr_ready s" "withdrawDelegationRewards k ctx v del s = Inr (coins, s')"
  shows "distr_step k s s'"
proof -
  from assms(3) obtain p ds1 raw out rewards rem s2 out' fp fp' pp ds4 where
      inc: "incrementValidatorPeriod v (dis s) = Inr (p, ds1)"
      and raw: "calculateDelegationRewards ctx (stk s) ds1 v del p = Inr raw"
      and out: "kv_get (outstandingRewards ds1) (OperatorAddress v) = Some out"
      and int: "Intersect raw out = Inr rewards"
      and tr: "TruncateWithPrec rewards (GetRewardTruncatePrecision ds1) = Inr (coins, rem)"
      and pay: "pay_out k del coins (s\<lparr>dis := ds1\<rparr>) = Inr s2"
      and sub: "DecCoins_Sub out rewards = Inr out'" and fp: "FeePool (dis s2) = Some fp"
      and add: "DecCoins_Add fp rem = Inr fp'"
      and dec: "decrementReferenceCount (OperatorAddress v) pp
          (SetFeePool fp' (SetValidatorOutstandingRewards (OperatorAddress v) out' (dis s2))) = Inr ds4"
      and s': "s' = s2\<lparr>dis := DeleteDelegatorStartingInfo (OperatorAddress v) del ds4\<rparr>"
    by (auto simp: withdrawDelegationRewards_def GetValidatorOutstandingRewards_def Let_def split: if_splits)
  let ?ds3 = "SetFeePool fp' (SetValidatorOutstandingRewards (OperatorAddress v) out' (dis s2))"
  have rdy: "ledger_ok (led s)" "dis_ok (dis s)" using assms(2) by (simp_all add: distr_ready_def)
  note k1 = incrementValidatorPeriod_keeps [OF rdy(2) inc]
  note ok1 = keeps_owedD(2) [OF k1]
  note rok = Intersect_ok(1) [OF calculateDelegationRewards_ok [OF ok1 raw] dis_okD(2) [OF ok1 out] int]
  note cok = TruncateWithPrec_ok [OF tr]
  have ds2: "dis s2 = ds1" using pay_out_spec(1) [OF assms(1) _ pay] rdy(1) cok by simp
  have o3: "owed ?ds3 d = owed ds1 d - amt coins d" for d
    using DecCoins_Sub_spec(1) [OF sub, of d] DecCoins_Add_spec(1) [OF add, of d] TruncateWithPrec_spec(3) [OF tr, of d] out fp
    by (simp add: ds2 owed_def pool_amt_def SetFeePool_def SetValidatorOutstandingRewards_def)
  have ok3: "dis_ok ?ds3"
    using ok1 fp coins_ok_Sub [OF dis_okD(2) [OF ok1 out] rok sub]
      coins_ok_Add [OF dis_okD(1) [OF ok1] _ add] cok
    unfolding ds2 by (auto simp: dis_ok_def SetFeePool_def SetValidatorOutstandingRewards_def)
  note k4 = decrementReferenceCount_keeps [OF ok3 dec]
  have has: "kv_has (outstandingRewards ?ds3) a \<longleftrightarrow> kv_has (outstandingRewards ds1) a" for a
    using out by (auto simp: ds2 SetFeePool_def SetValidatorOutstandingRewards_def kv_has_def)
  show ?thesis unfolding s'
  proof (rule pay_out_step [OF assms(1,2) pay])
    show "owed (DeleteDelegatorStartingInfo (OperatorAddress v) del ds4) d = owed (dis s) d - amt coins d" for d
      using keeps_owedD(1) [OF k4, of d] o3 [of d] keeps_owedD(1) [OF k1, of d]
      by (simp add: DeleteDelegatorStartingInfo_def owed_def pool_amt_def)
    show "dis_ok (DeleteDelegatorStartingInfo (OperatorAddress v) del ds4)"
      using keeps_owedD(2) [OF k4] by (simp add: DeleteDelegatorStartingInfo_def dis_ok_def)
    show "kv_has (outstandingRewards (DeleteDelegatorStartingInfo (OperatorAddress v) del ds4)) a \<longleftrightarrow>
        kv_has (outstandingRewards (dis s)) a" for a
      using keeps_owedD(3) [OF k4] has keeps_owedD(3) [OF k1] by (simp add: DeleteDelegatorStartingInfo_def)
  qed (use cok in simp_all)
qed

section \<open>The operations of the module\<close>

lemma initializeDelegation_step:
  assumes "distr_ready s" "initializeDelegation ctx v del s = Inr s'"
  shows "distr_step k s s'"
proof -
  from assms(2) obtain p ds1 info where inc: "incrementReferenceCount v p (dis s) = Inr ds1"
    and s': "s' = s\<lparr>dis := SetDelegatorStartingInfo v del info ds1\<rparr>"
    by (auto simp: initializeDelegation_def Let_def)
  have k1: "keeps_owed (dis s) ds1" using assms(1) incrementReferenceCount_keeps [OF _ inc] by (simp add: distr_ready_def)
  have "keeps_owed ds1 (SetDelegatorStartingInfo v del info ds1)"
    using keeps_owedD(2) [OF k1] by (simp add: keeps_owed_def owed_def pool_amt_def dis_ok_def SetDelegatorStartingInfo_def)
  then show ?thesis unfolding s' using keeps_owed_step [OF assms(1) keeps_owed_trans [OF k1]] by blast
qed

interpretation reward_hook: distr_op k "\<lambda>valAddr s. rbind (not_nil (GetValidator (stk s) valAddr)) (\<lambda>v.
    rbind (must (withdrawDelegationRewards k ctx v del s)) (\<lambda>(_, s'). Inr s'))" for k ctx del
  by unfold_locales (auto dest: withdrawDelegationRewards_step)

interpretation period_hook: distr_op k "\<lambda>valAddr s. rbind (not_nil (GetValidator (stk s) valAddr)) (\<lambda>v.
    rbind (incrementValidatorPeriod v (dis s)) (\<lambda>(_, ds). Inr (s\<lparr>dis := ds\<rparr>)))" for k
  by unfold_locales
    (auto intro!: keeps_owed_step incrementValidatorPeriod_keeps simp: distr_ready_def)

interpretation delegation_hook: distr_op k "\<lambda>valAddr s. initializeDelegation ctx valAddr del s" for k ctx del
  by unfold_locales (rule initializeDelegation_step)

lemma distr_BeforeDelegationSharesModified_step:
  "modules_ok k \<Longrightarrow> distr_ready s \<Longrightarrow> distr_BeforeDelegationSharesModified k ctx del vs s = Inr s' \<Longrightarrow> distr_step k s s'"
  unfolding distr_BeforeDelegationSharesModified_def by (rule reward_hook.runs_step)

lemma distr_BeforeDelegationCreated_step:
  "modules_ok k \<Longrightarrow> distr_ready s \<Longrightarrow> distr_BeforeDelegationCreated vs s = Inr s' \<Longrightarrow> distr_step k s s'"
  unfolding distr_BeforeDelegationCreated_def by (rule period_hook.runs_step)

lemma distr_AfterDelegationModified_step:
  "modules_ok k \<Longrightarrow> distr_ready s \<Longrightarrow> distr_AfterDelegationModified ctx del vs s = Inr s' \<Longrightarrow> distr_step k s s'"
  unfolding distr_AfterDelegationModified_def by (rule delegation_hook.runs_step)

lemma WithdrawDelegationRewards_step:
  assumes "modules_ok k" "distr_ready s" "WithdrawDelegationRewards k ctx del v s = Inr (r, s')"
  shows "distr_step k s s'"
proof -
  from assms(3) obtain val s1 where w: "withdrawDelegationRewards k ctx val del s = Inr (r, s1)"
    and i: "initializeDelegation ctx v del s1 = Inr s'"
    by (auto simp: WithdrawDelegationRewards_def split: option.splits if_splits)
  note st = withdrawDelegationRewards_step [OF assms(1,2) w]
  show ?thesis using distr_step_trans [OF st initializeDelegation_step [OF distr_step_ready [OF st] i]] .
qed

interpretation all_rewards: distr_op k "\<lambda>valAddr s. case GetValidator (stk s) valAddr of
      None \<Rightarrow> Inl (Err ''ErrCodeEmptyValidatorDistInfo'')
    | Some v \<Rightarrow> rbind (withdrawDelegationRewards k ctx v del s) (\<lambda>(_, s1). initializeDelegation ctx valAddr del s1)" for k ctx del
proof
  fix s x s'
  assume a: "modules_ok k" "distr_ready s"
    "(case GetValidator (stk s) x of None \<Rightarrow> Inl (Err ''ErrCodeEmptyValidatorDistInfo'')
      | Some v \<Rightarrow> rbind (withdrawDelegationRewards k ctx v del s) (\<lambda>(_, s1). initializeDelegation ctx x del s1)) = Inr s'"
  from a(3) obtain v r s1 where w: "withdrawDelegationRewards k ctx v del s = Inr (r, s1)"
    and i: "initializeDelegation ctx x del s1 = Inr s'" by (auto split: option.splits)
  note st = withdrawDelegationRewards_step [OF a(1,2) w]
  show "distr_step k s s'" using distr_step_trans [OF st initializeDelegation_step [OF distr_step_ready [OF st] i]] .
qed

lemma WithdrawDelegationAllRewards_step:
  assumes "modules_ok k" "distr_ready s" "WithdrawDelegationAllRewards k ctx del s = Inr s'"
  shows "distr_step k s s'"
proof -
  from assms(3) obtain vs where "rfold (\<lambda>valAddr s. case GetValidator (stk s) valAddr of
      None \<Rightarrow> Inl (Err ''ErrCodeEmptyValidatorDistInfo'')
    | Some v \<Rightarrow> rbind (withdrawDelegationRewards k ctx v del s) (\<lambda>(_, s1). initializeDelegation ctx valAddr del s1)) vs s = Inr s'"
    by (auto simp: WithdrawDelegationAllRewards_def split: option.splits if_splits)
  then show ?thesis by (rule all_rewards.runs_step [OF assms(1,2)])
qed

lemma amt_sort [simp]: "amt (DecCoins_Sort cs) d = amt cs d"
proof -
  have "amt (insort_key Denom c cs) d = amt (c # cs) d" for c cs
    by (induction cs) auto
  then show ?thesis unfolding DecCoins_Sort_def by (induction cs) auto
qed

lemma NewCoins_spec:
  assumes "NewCoins cs = Inr r" shows "amt r d = amt cs d" "IsValid r"
proof -
  have z: "amt (removeZeroCoins cs) d = amt cs d" for d
    using amt_removeZero [of cs d] by (simp add: removeZeroCoins_def removeZeroDecCoins_def)
  have n: "removeZeroCoins cs = [] \<Longrightarrow> amt cs d = 0" using z [of d] by simp
  show "amt r d = amt cs d" "IsValid r"
    using assms z n by (auto simp: NewCoins_def Let_def split: if_splits)
qed

lemma WithdrawValidatorCommission_step:
  assumes "modules_ok k" "distr_ready s" "WithdrawValidatorCommission k v s = Inr (coins, s')"
  shows "distr_step k s s'"
proof -
  let ?ac = "GetValidatorAccumulatedCommission (dis s) v"
  from assms(3) obtain rem out coins' out' where tr: "TruncateDecimal ?ac = Inr (coins, rem)"
      and out: "kv_get (outstandingRewards (dis s)) v = Some out"
      and nc: "NewDecCoinsFromCoins coins = Inr coins'" and sub: "DecCoins_Sub out coins' = Inr out'"
      and pay: "pay_out k v coins (s\<lparr>dis := SetValidatorOutstandingRewards v out' (SetValidatorAccumulatedCommission v rem (dis s))\<rparr>) = Inr s'"
    by (auto simp: WithdrawValidatorCommission_def GetValidatorOutstandingRewards_def SetValidatorAccumulatedCommission_def Let_def
        split: if_splits)
  let ?ds = "SetValidatorOutstandingRewards v out' (SetValidatorAccumulatedCommission v rem (dis s))"
  have rdy: "ledger_ok (led s)" "dis_ok (dis s)" using assms(2) by (simp_all add: distr_ready_def)
  note cok = TruncateDecimal_ok [OF tr]
  have c': "amt coins' d = amt coins d" "coins_ok coins'" for d
    using nc NewCoins_spec [of coins coins'] IsValid_coins_ok by (auto simp: NewDecCoinsFromCoins_def split: if_splits)
  have eq: "s'\<lparr>dis := ?ds\<rparr> = s'" using pay_out_spec(1) [OF assms(1) _ pay] rdy(1) cok by simp
  have "distr_step k s (s'\<lparr>dis := ?ds\<rparr>)"
  proof (rule pay_out_step [OF assms(1,2) pay])
    show "owed ?ds d = owed (dis s) d - amt coins d" for d
      using DecCoins_Sub_spec(1) [OF sub, of d] c'(1) [of d] out
      by (simp add: owed_def pool_amt_def SetValidatorOutstandingRewards_def SetValidatorAccumulatedCommission_def)
    show "dis_ok ?ds"
      using rdy(2) cok coins_ok_Sub [OF dis_okD(2) [OF rdy(2) out] c'(2) sub]
      by (auto simp: dis_ok_def SetValidatorOutstandingRewards_def SetValidatorAccumulatedCommission_def)
    show "kv_has (outstandingRewards ?ds) a \<longleftrightarrow> kv_has (outstandingRewards (dis s)) a" for a
      using out by (auto simp: SetValidatorOutstandingRewards_def SetValidatorAccumulatedCommission_def kv_has_def)
  qed (use cok in simp_all)
  then show ?thesis unfolding eq .
qed

section \<open>Removal, community pool and messages\<close>

lemma distributeFromFeePool_step:
  assumes "modules_ok k" "distr_ready s" "distributeFromFeePool k amount a s = Inr s'"
  shows "distr_step k s s'"
proof -
  from assms(3) obtain p np l where p: "FeePool (dis s) = Some p" and sub: "SafeSub p amount = Inr (np, False)"
    and l: "SendCoinsFromModuleToAccount k DistributionModuleName a amount (led s) = Inr l"
    and s': "s' = s\<lparr>led := l, dis := SetFeePool np (dis s)\<rparr>"
    by (auto simp: distributeFromFeePool_def with_dis_def split: if_splits)
  have rdy: "ledger_ok (led s)" "dis_ok (dis s)" using assms(2) by (simp_all add: distr_ready_def)
  note send = SendCoinsFromModuleToAccount_eq [OF modules_okD [OF assms(1)] l]
  note c = SendCoins_changes [OF rdy(1) conjunct1 [OF send]]
  have na: "a \<noteq> AddressHash k DistributionModuleName" using send assms(1) by (auto simp: modules_ok_def)
  have "coins_ok np" using coins_ok_SafeSub [OF dis_okD(1) [OF rdy(2) p] IsValid_coins_ok [OF c(3)] sub] .
  then have ok: "dis_ok (SetFeePool np (dis s))" using rdy(2) by (auto simp: dis_ok_def SetFeePool_def)
  show ?thesis
    using changesD [OF c(1)] transfer_supplies [OF c(1)] ok na send SafeSub_spec(1) [OF sub] p
    by (auto simp: distr_step_def s' distr_gap_def owed_def pool_amt_def SetFeePool_def transfer_def credit_def)
qed

lemma SetWithdrawAddr_step:
  assumes "distr_ready s" "SetWithdrawAddr k a b s = Inr s'" shows "distr_step k s s'"
  using assms by (auto simp: SetWithdrawAddr_def with_dis_def SetDelegatorWithdrawAddr_def distr_step_def distr_ready_def
      distr_gap_def owed_def pool_amt_def dis_ok_def split: if_splits)

lemma distr_Handler_step:
  assumes "modules_ok k" "distr_ready s" "distr_Handler k ctx msg s = Inr s'"
  shows "distr_step k s s'"
  using assms SetWithdrawAddr_step WithdrawValidatorCommission_step WithdrawDelegationRewards_step WithdrawDelegationAllRewards_step
  by (auto simp: distr_Handler_def split: if_splits distr_msg.splits)

text \<open>The rewards of a removed validator go to its withdraw address and the community pool.\<close>

lemma force_withdraw_commission_spec:
  assumes "modules_ok k" "distr_ready s" "force_withdraw_commission k v com out s = Inr (out', s')" "coins_ok com" "coins_ok out"
  shows "distr_ready s'" "stk s' = stk s" "sla s' = sla s" "supplies (led s') = supplies (led s)" "coins_ok out'"
    "distr_gap k s' d - amt out' d = distr_gap k s d - amt out d"
    "blacklistedAddrs k b \<Longrightarrow> b \<noteq> AddressHash k DistributionModuleName \<Longrightarrow> bal (led s') b d = bal (led s) b d"
    "outstandingRewards (dis s') = outstandingRewards (dis s)"
proof -
  have rdy: "ledger_ok (led s)" "dis_ok (dis s)" using assms(2) by (simp_all add: distr_ready_def)
  have "distr_ready s' \<and> stk s' = stk s \<and> sla s' = sla s \<and> supplies (led s') = supplies (led s) \<and> coins_ok out' \<and>
    distr_gap k s' d - amt out' d = distr_gap k s d - amt out d \<and>
    (blacklistedAddrs k b \<and> b \<noteq> AddressHash k DistributionModuleName \<longrightarrow> bal (led s') b d = bal (led s) b d) \<and>
    outstandingRewards (dis s') = outstandingRewards (dis s)"
  proof (cases "DecCoins_IsZero com")
    case True
    then show ?thesis using assms by (auto simp: force_withdraw_commission_def)
  next
    case False
    then obtain coins rem s1 where sub: "DecCoins_Sub out com = Inr out'" and tr: "TruncateDecimal com = Inr (coins, rem)"
      and s1: "(if DecCoins_IsZero rem then Inr s
                  else rbind (GetFeePool (dis s)) (\<lambda>feePool.
                       rbind (DecCoins_Add feePool rem) (\<lambda>feePool'. Inr (with_dis (SetFeePool feePool') s)))) = Inr s1"
      and pay: "pay_out k v coins s1 = Inr s'"
      using assms(3) by (auto simp: force_withdraw_commission_def)
    note cok = TruncateDecimal_ok [OF tr]
    have f1: "led s1 = led s \<and> stk s1 = stk s \<and> sla s1 = sla s \<and> outstandingRewards (dis s1) = outstandingRewards (dis s) \<and>
        dis_ok (dis s1) \<and> owed (dis s1) d = owed (dis s) d + amt rem d"
    proof (cases "DecCoins_IsZero rem")
      case True
      then show ?thesis using s1 DecCoins_IsZero_amt [of rem] cok rdy(2) by simp
    next
      case False
      then obtain p p' where p: "FeePool (dis s) = Some p" "DecCoins_Add p rem = Inr p'" and "s1 = with_dis (SetFeePool p') s"
        using s1 by auto
      then show ?thesis
        using rdy(2) cok coins_ok_Add [OF dis_okD(1) [OF rdy(2) p(1)] _ p(2)] DecCoins_Add_spec(1) [OF p(2), of d]
        by (auto simp: with_dis_def SetFeePool_def dis_ok_def owed_def pool_amt_def)
    qed
    note po = pay_out_spec(1-5) [OF assms(1) _ pay] pay_out_spec(6) [OF assms(1) _ pay, where d = d]
      pay_out_spec(7) [OF assms(1) _ pay, where b = b and d = d]
    show ?thesis
      using f1 po rdy cok coins_ok_Sub [OF assms(5,4) sub] DecCoins_Sub_spec(1) [OF sub, of d] TruncateDecimal_spec(3) [OF tr, of d]
      by (auto simp: distr_ready_def distr_gap_def)
  qed
  then show "distr_ready s'" "stk s' = stk s" "sla s' = sla s" "supplies (led s') = supplies (led s)" "coins_ok out'"
    "distr_gap k s' d - amt out' d = distr_gap k s d - amt out d"
    "blacklistedAddrs k b \<Longrightarrow> b \<noteq> AddressHash k DistributionModuleName \<Longrightarrow> bal (led s') b d = bal (led s) b d"
    "outstandingRewards (dis s') = outstandingRewards (dis s)" by auto
qed

lemma DeleteValidatorHistoricalRewards_eq:
  "DeleteValidatorHistoricalRewards v ds = ds\<lparr>historicalRewards :=
     fold (\<lambda>(x, _). kv_del x) (filter (\<lambda>(key, _). fst key = v) (kv_entries (historicalRewards ds))) (historicalRewards ds)\<rparr>"
proof -
  have "fold (\<lambda>(key, _) ds. ds\<lparr>historicalRewards := kv_del key (historicalRewards ds)\<rparr>) xs ds =
      ds\<lparr>historicalRewards := fold (\<lambda>(x, _). kv_del x) xs (historicalRewards ds)\<rparr>" for xs and ds :: distribution
    by (induction xs arbitrary: ds) auto
  then show ?thesis unfolding DeleteValidatorHistoricalRewards_def .
qed

lemma kv_get_DeleteValidatorHistoricalRewards:
  "kv_get (historicalRewards (DeleteValidatorHistoricalRewards v ds)) (a, p) =
     (if a = v then None else kv_get (historicalRewards ds) (a, p))"
proof -
  have "(a, p) \<in> fst ` set (filter (\<lambda>(key, _). fst key = v) (kv_entries (historicalRewards ds))) \<longleftrightarrow>
      a = v \<and> kv_get (historicalRewards ds) (a, p) \<noteq> None"
    by (force simp: kv_in_entries)
  then show ?thesis by (auto simp: DeleteValidatorHistoricalRewards_eq kv_get_dels)
qed

text \<open>What removing a validator does to the rest of the chain.\<close>

definition distr_removed :: "supply_keeper \<Rightarrow> bytes \<Rightarrow> chain \<Rightarrow> chain \<Rightarrow> bool" where
  "distr_removed k v s s' \<longleftrightarrow> stk s' = stk s \<and> sla s' = sla s \<and> ledger_ok (led s') \<and> dis_ok (dis s') \<and>
     (\<forall>d. distr_gap k s' d = distr_gap k s d) \<and> supplies (led s') = supplies (led s) \<and>
     (\<forall>a d. blacklistedAddrs k a \<longrightarrow> a \<noteq> AddressHash k DistributionModuleName \<longrightarrow> bal (led s') a d = bal (led s) a d) \<and>
     (\<forall>a. kv_has (outstandingRewards (dis s')) a \<longleftrightarrow> a \<noteq> v \<and> kv_has (outstandingRewards (dis s)) a)"

lemma distr_AfterValidatorRemoved_removed:
  assumes "modules_ok k" "distr_ready s" "distr_AfterValidatorRemoved k v s = Inr s'"
  shows "distr_removed k v s s'"
proof -
  from assms(3) obtain out out' s1 p p' where out: "kv_get (outstandingRewards (dis s)) v = Some out"
    and f: "force_withdraw_commission k v (GetValidatorAccumulatedCommission (dis s) v) out s = Inr (out', s1)"
    and p: "FeePool (dis s1) = Some p" "DecCoins_Add p out' = Inr p'"
    and s': "s' = with_dis (\<lambda>ds.
              DeleteValidatorCurrentRewards v
                (DeleteValidatorHistoricalRewards v
                  (deleteValidatorAccumulatedCommission v
                    (DeleteValidatorOutstandingRewards v (SetFeePool p' ds))))) s1"
    by (auto simp: distr_AfterValidatorRemoved_def GetValidatorOutstandingRewards_def)
  have rdy: "dis_ok (dis s)" using assms(2) by (simp add: distr_ready_def)
  have com: "coins_ok (GetValidatorAccumulatedCommission (dis s) v)"
    using dis_okD(3) [OF rdy] by (auto simp: GetValidatorAccumulatedCommission_def split: option.split)
  note f1 = force_withdraw_commission_spec [OF assms(1,2) f com dis_okD(2) [OF rdy out]]
  have ok1: "ledger_ok (led s1)" "dis_ok (dis s1)" using f1(1) by (simp_all add: distr_ready_def)
  have "dis_ok (dis s')"
    using ok1(2) coins_ok_Add [OF dis_okD(1) [OF ok1(2) p(1)] f1(5) p(2)]
    by (auto simp: s' with_dis_def dis_ok_def distr_store_defs DeleteValidatorHistoricalRewards_eq kv_get_dels split: if_splits)
  moreover have "distr_gap k s' d = distr_gap k s d" for d
    using f1(6) [of d] f1(8) p(1) out DecCoins_Add_spec(1) [OF p(2), of d]
    by (simp add: s' with_dis_def distr_store_defs DeleteValidatorHistoricalRewards_eq distr_gap_def owed_def pool_amt_def)
  ultimately show ?thesis
    using f1(2-4,7,8) ok1(1)
    by (simp add: distr_removed_def s' with_dis_def distr_store_defs DeleteValidatorHistoricalRewards_eq kv_has_def)
qed

section \<open>Allocation hands out the fees\<close>

text \<open>Commission rates are not negative.\<close>

definition rates_ok :: "staking \<Rightarrow> bool" where
  "rates_ok st \<longleftrightarrow> (\<forall>a v. kv_get (validators st) a = Some v \<longrightarrow> 0 \<le> Rate (val_Commission v))"

text \<open>A step after which the module owes \<open>x\<close> more.\<close>

definition owes_more :: "distribution \<Rightarrow> distribution \<Rightarrow> (string \<Rightarrow> int) \<Rightarrow> bool" where
  "owes_more ds ds' x \<longleftrightarrow> (\<forall>d. owed ds' d = owed ds d + x d) \<and> dis_ok ds' \<and> FeePool ds' = FeePool ds \<and>
     (\<forall>v. kv_has (outstandingRewards ds') v \<longleftrightarrow> kv_has (outstandingRewards ds) v)"

lemma owes_more_trans: "owes_more a b x \<Longrightarrow> owes_more b c y \<Longrightarrow> owes_more a c (\<lambda>d. x d + y d)"
  by (auto simp: owes_more_def)

lemma AllocateTokensToValidator_owes:
  assumes "dis_ok ds" "coins_ok tokens" "0 \<le> Rate (val_Commission v)" "AllocateTokensToValidator v tokens ds = Inr ds'"
  shows "owes_more ds ds' (amt tokens)"
proof -
  let ?op = "OperatorAddress v"
  define rate where "rate = (if GetDistributionType ds = DistributionTypeOnChain then Rate (val_Commission v) else OneDec)"
  from assms(4) obtain com shared com' cur rew out out' where mul: "MulDec tokens rate = Inr com"
      and sh: "DecCoins_Sub tokens com = Inr shared"
      and com': "DecCoins_Add (GetValidatorAccumulatedCommission ds ?op) com = Inr com'"
      and cur: "kv_get (currentRewards ds) ?op = Some cur" and rew: "DecCoins_Add (Rewards cur) shared = Inr rew"
      and out: "kv_get (outstandingRewards ds) ?op = Some out" and out': "DecCoins_Add out tokens = Inr out'"
      and ds': "ds' = SetValidatorOutstandingRewards ?op out' (SetValidatorCurrentRewards ?op (cur\<lparr>Rewards := rew\<rparr>)
          (SetValidatorAccumulatedCommission ?op com' ds))"
    by (auto simp: AllocateTokensToValidator_def Let_def rate_def GetValidatorCurrentRewards_def GetValidatorOutstandingRewards_def
        SetValidatorAccumulatedCommission_def SetValidatorCurrentRewards_def)
  have com: "coins_ok com" using MulDec_ok [OF mul assms(2)] assms(3) by (simp add: rate_def OneDec_def)
  have "coins_ok (GetValidatorAccumulatedCommission ds ?op)"
    using dis_okD(3) [OF assms(1)] by (auto simp: GetValidatorAccumulatedCommission_def split: option.split)
  then have "coins_ok com'" using coins_ok_Add com com' by blast
  moreover have "coins_ok rew"
    using coins_ok_Add [OF dis_okD(4) [OF assms(1) cur] coins_ok_Sub [OF assms(2) com sh] rew] .
  moreover have "coins_ok out'" using coins_ok_Add [OF dis_okD(2) [OF assms(1) out] assms(2) out'] .
  ultimately have "dis_ok ds'"
    using assms(1) by (auto simp: ds' dis_ok_def SetValidatorAccumulatedCommission_def SetValidatorCurrentRewards_def
        SetValidatorOutstandingRewards_def)
  then show ?thesis
    using out DecCoins_Add_spec(1) [OF out']
    by (auto simp: owes_more_def ds' owed_def pool_amt_def kv_has_def SetValidatorAccumulatedCommission_def
        SetValidatorCurrentRewards_def SetValidatorOutstandingRewards_def)
qed

text \<open>The allocation loops: what is left and what has been allocated add up to the rewards.\<close>

lemma allocation_loop:
  assumes "dis_ok ds" "coins_ok rewards" "\<And>v. v \<in> set vals \<Longrightarrow> 0 \<le> Rate (val_Commission v)"
    and "\<And>v r. v \<in> set vals \<Longrightarrow> share v = Inr r \<Longrightarrow> coins_ok r"
    and "rfold (\<lambda>v (remaining, ds).
             rbind (share v) (\<lambda>reward.
             rbind (AllocateTokensToValidator v reward ds) (\<lambda>ds'.
             rbind (DecCoins_Sub remaining reward) (\<lambda>remaining'. Inr (remaining', ds'))))) vals (rewards, ds) = Inr (remaining, ds')"
  shows "owes_more ds ds' (\<lambda>d. amt rewards d - amt remaining d) \<and> coins_ok remaining"
proof -
  let ?P = "\<lambda>(rem, ds'). owes_more ds ds' (\<lambda>d. amt rewards d - amt rem d) \<and> coins_ok rem"
  have "?P (remaining, ds')"
  proof (rule rfold_invariant [OF assms(5), where P = ?P])
    show "?P (rewards, ds)" using assms(1,2) by (simp add: owes_more_def)
    fix v t t'
    assume v: "v \<in> set vals" and P: "?P t"
      and step: "(case t of (remaining, ds) \<Rightarrow> rbind (share v) (\<lambda>reward. rbind (AllocateTokensToValidator v reward ds) (\<lambda>ds'.
             rbind (DecCoins_Sub remaining reward) (\<lambda>remaining'. Inr (remaining', ds'))))) = Inr t'"
    obtain rem1 ds1 where t: "t = (rem1, ds1)" by fastforce
    from step obtain r ds2 rem2 where r: "share v = Inr r" and al: "AllocateTokensToValidator v r ds1 = Inr ds2"
      and sub: "DecCoins_Sub rem1 r = Inr rem2" and t': "t' = (rem2, ds2)" by (auto simp: t)
    have o1: "owes_more ds ds1 (\<lambda>d. amt rewards d - amt rem1 d)" "coins_ok rem1" using P by (simp_all add: t)
    have rok: "coins_ok r" using assms(4) [OF v r] .
    have "dis_ok ds1" using o1(1) by (simp add: owes_more_def)
    from owes_more_trans [OF o1(1) AllocateTokensToValidator_owes [OF this rok assms(3) [OF v] al]]
    show "?P t'" using coins_ok_Sub [OF o1(2) rok sub] DecCoins_Sub_spec(1) [OF sub] by (simp add: t' owes_more_def)
  qed
  then show ?thesis by simp
qed

lemma unjailed_voters_mem:
  assumes "v \<in> set (unjailed_voters st votes)" shows "\<exists>a. kv_get (validators st) a = Some v \<and> \<not> Jailed v"
  using assms by (force simp: unjailed_voters_def GetValidatorByConsAddr_def GetValidator_def split: option.splits if_splits)

lemma unjailed_validators_mem:
  assumes "v \<in> set (unjailed_validators st)" shows "\<exists>a. kv_get (validators st) a = Some v \<and> \<not> Jailed v"
  using assms by (auto simp: unjailed_validators_def GetAllValidators_def kv_in_entries)

lemma Dec_QuoTruncate_nonneg: "Dec_QuoTruncate a b = Inr q \<Longrightarrow> 0 \<le> a \<Longrightarrow> 0 \<le> b \<Longrightarrow> 0 \<le> q"
  by (cases "b = 0") (auto simp: Dec_QuoTruncate_def chopPrecisionAndTruncate_def big_quo_nonneg pos_imp_zdiv_nonneg_iff)

lemma allocateByEqual_owes:
  assumes "dis_ok ds" "coins_ok rewards" "rates_ok st" "allocateByEqual st rewards votes ds = Inr (remaining, ds')"
  shows "owes_more ds ds' (\<lambda>d. amt rewards d - amt remaining d) \<and> coins_ok remaining"
proof -
  let ?vals = "unjailed_voters st votes"
  from assms(4) obtain one n f reward where n: "NewDec 1 = Inr one" "NewDec (int (length ?vals)) = Inr n"
    and f: "Dec_QuoTruncate one n = Inr f" and rew: "MulDecTruncate rewards f = Inr reward"
    and loop: "rfold (\<lambda>v (remaining, ds).
             rbind (Inr reward) (\<lambda>reward.
             rbind (AllocateTokensToValidator v reward ds) (\<lambda>ds'.
             rbind (DecCoins_Sub remaining reward) (\<lambda>remaining'. Inr (remaining', ds'))))) ?vals (rewards, ds) = Inr (remaining, ds')"
    by (auto simp: allocateByEqual_def Let_def)
  have "0 \<le> f" using Dec_QuoTruncate_nonneg [OF f] n by auto
  then have "coins_ok reward" using MulDecTruncate_ok(1) [OF rew assms(2)] by blast
  moreover have "0 \<le> Rate (val_Commission v)" if "v \<in> set ?vals" for v
    using unjailed_voters_mem [OF that] assms(3) by (auto simp: rates_ok_def)
  ultimately show ?thesis by (intro allocation_loop [OF assms(1,2) _ _ loop]) auto
qed

lemma allocateByShares_owes:
  assumes "dis_ok ds" "coins_ok rewards" "rates_ok st" "\<And>a v. kv_get (validators st) a = Some v \<Longrightarrow> 0 \<le> DelegatorShares v"
    "allocateByShares st rewards ds = Inr (remaining, ds')"
  shows "owes_more ds ds' (\<lambda>d. amt rewards d - amt remaining d) \<and> coins_ok remaining"
proof -
  let ?vals = "unjailed_validators st"
  from assms(5) obtain total where tot: "rfold (\<lambda>v t. Dec_Add t (DelegatorShares v)) ?vals 0 = Inr total"
    and loop: "rfold (\<lambda>v (remaining, ds).
             rbind (rbind (Dec_QuoTruncate (DelegatorShares v) total) (MulDecTruncate rewards)) (\<lambda>reward.
             rbind (AllocateTokensToValidator v reward ds) (\<lambda>ds'.
             rbind (DecCoins_Sub remaining reward) (\<lambda>remaining'. Inr (remaining', ds'))))) ?vals (rewards, ds) = Inr (remaining, ds')"
    by (auto simp: allocateByShares_def Let_def rbind_assoc)
  have sh: "0 \<le> DelegatorShares v" if "v \<in> set ?vals" for v using unjailed_validators_mem [OF that] assms(4) by blast
  have "0 \<le> total" by (rule rfold_invariant [OF tot]) (auto dest: sh)
  then have "coins_ok r" if "v \<in> set ?vals" "rbind (Dec_QuoTruncate (DelegatorShares v) total) (MulDecTruncate rewards) = Inr r" for v r
    using that MulDecTruncate_ok(1) [OF _ assms(2)] sh [OF that(1)] Dec_QuoTruncate_nonneg by auto
  moreover have "0 \<le> Rate (val_Commission v)" if "v \<in> set ?vals" for v
    using unjailed_validators_mem [OF that] assms(3) by (auto simp: rates_ok_def)
  ultimately show ?thesis by (intro allocation_loop [OF assms(1,2) _ _ loop]) auto
qed

section \<open>A block's allocation\<close>

lemma add_to_community_owes:
  assumes "dis_ok ds" "FeePool ds = Some p" "coins_ok coins" "add_to_community p coins ds = Inr ds'"
  shows "owed ds' d = owed ds d + amt coins d" "dis_ok ds'" "outstandingRewards ds' = outstandingRewards ds"
proof -
  have "owed ds' d = owed ds d + amt coins d \<and> dis_ok ds' \<and> outstandingRewards ds' = outstandingRewards ds"
  proof (cases "DecCoins_IsZero coins")
    case True
    then show ?thesis using assms(1,4) DecCoins_IsZero_amt [OF assms(3)] by (simp add: add_to_community_def)
  next
    case False
    then obtain p' where "DecCoins_Add p coins = Inr p'" "ds' = SetFeePool p' ds"
      using assms(4) by (auto simp: add_to_community_def)
    then show ?thesis
      using assms(1,2) coins_ok_Add [OF dis_okD(1) [OF assms(1,2)] assms(3)] DecCoins_Add_spec(1) [of p coins p' d]
      by (auto simp: SetFeePool_def owed_def pool_amt_def dis_ok_def)
  qed
  then show "owed ds' d = owed ds d + amt coins d" "dis_ok ds'" "outstandingRewards ds' = outstandingRewards ds" by auto
qed

definition shares_nonneg :: "staking \<Rightarrow> bool" where
  "shares_nonneg st \<longleftrightarrow> (\<forall>a v. kv_get (validators st) a = Some v \<longrightarrow> 0 \<le> DelegatorShares v)"

definition tax_ok :: "distribution \<Rightarrow> bool" where
  "tax_ok ds \<longleftrightarrow> 0 \<le> CommunityTax ds \<and> CommunityTax ds \<le> OneDec"

lemma allocate_fees_owes:
  assumes "dis_ok ds" "coins_ok fees" "rates_ok st" "shares_nonneg st" "tax_ok ds" "allocate_fees st fees pow votes ds = Inr ds'"
  shows "owed ds' d = owed ds d + amt fees d \<and> dis_ok ds' \<and> (\<forall>v. kv_has (outstandingRewards ds') v \<longleftrightarrow> kv_has (outstandingRewards ds) v)"
proof -
  from assms(6) obtain p where p: "FeePool ds = Some p" by (auto simp: allocate_fees_def)
  show ?thesis
  proof (cases "pow = 0")
    case True
    then obtain p' where p': "DecCoins_Add p fees = Inr p'" and ds': "ds' = SetFeePool p' ds"
      using assms(6) p by (auto simp: allocate_fees_def)
    then show ?thesis
      using assms(1) p coins_ok_Add [OF dis_okD(1) [OF assms(1) p] assms(2) p'] DecCoins_Add_spec(1) [OF p', of d]
      by (auto simp: SetFeePool_def owed_def pool_amt_def dis_ok_def)
  next
    case False
    then obtain u tv fe fv both com re ds1 rs ds2 rem com' where u: "Dec_Sub OneDec (CommunityTax ds) = Inr u"
      and tv: "MulDecTruncate fees u = Inr tv" and fe: "MulDecTruncate tv valPortion = Inr fe"
      and fv: "MulDecTruncate tv votePortion = Inr fv" and both: "DecCoins_Add fe fv = Inr both"
      and com: "DecCoins_Sub fees both = Inr com" and eq: "allocateByEqual st fe votes ds = Inr (re, ds1)"
      and sh: "allocateByShares st fv ds1 = Inr (rs, ds2)" and rem: "DecCoins_Add re rs = Inr rem"
      and com': "DecCoins_Add com rem = Inr com'" and fin: "add_to_community p com' ds2 = Inr ds'"
      using assms(6) p by (auto simp: allocate_fees_def)
    have "0 \<le> u" using u assms(5) by (simp add: tax_ok_def)
    note tvk = MulDecTruncate_ok(1) [OF tv assms(2) this]
    have fek: "coins_ok fe" "coins_ok fv"
      using MulDecTruncate_ok(1) [OF fe tvk] MulDecTruncate_ok(1) [OF fv tvk] by (simp_all add: valPortion_def votePortion_def)
    note o1 = allocateByEqual_owes [OF assms(1) fek(1) assms(3) eq]
    have ok1: "dis_ok ds1" using o1 by (simp add: owes_more_def)
    have o2: "owes_more ds1 ds2 (\<lambda>d. amt fv d - amt rs d) \<and> coins_ok rs"
      using allocateByShares_owes [OF ok1 fek(2) assms(3) _ sh] assms(4) by (auto simp: shares_nonneg_def)
    have bk: "coins_ok both" using coins_ok_Add [OF fek both] .
    have ck: "coins_ok com'"
      using coins_ok_Add [OF coins_ok_Sub [OF assms(2) bk com] coins_ok_Add [OF _ _ rem] com'] o1 o2 by blast
    have "dis_ok ds2" "FeePool ds2 = Some p" using o1 o2 p by (simp_all add: owes_more_def)
    note fin' = add_to_community_owes [OF this ck fin]
    have "amt com' d = amt fees d - amt fe d - amt fv d + amt re d + amt rs d"
      using DecCoins_Add_spec(1) [OF com', of d] DecCoins_Add_spec(1) [OF rem, of d] DecCoins_Sub_spec(1) [OF com, of d]
        DecCoins_Add_spec(1) [OF both, of d] by linarith
    then show ?thesis using fin' o1 o2 by (auto simp: owes_more_def)
  qed
qed

text \<open>Collecting the fees: from the fee collector to the module's account.\<close>

lemma collect_fees:
  assumes "modules_ok k" "ledger_ok (led s)" "module_account k FeeCollectorName (led s) = Inr (fc, l1)"
    "with_led (SendCoinsFromModuleToModule k FeeCollectorName DistributionModuleName fees) (s\<lparr>led := l1\<rparr>) = Inr s2"
  shows "ledger_ok (led s2)" "supplies (led s2) = supplies (led s)" "coins_ok fees"
    "bal (led s2) (AddressHash k DistributionModuleName) d = bal (led s) (AddressHash k DistributionModuleName) d + amt fees d"
    "bal (led s2) (AddressHash k FeeCollectorName) d = bal (led s) (AddressHash k FeeCollectorName) d - amt fees d"
    "a \<noteq> AddressHash k FeeCollectorName \<Longrightarrow> a \<noteq> AddressHash k DistributionModuleName \<Longrightarrow> bal (led s2) a d = bal (led s) a d"
    "dis s2 = dis s" "stk s2 = stk s" "sla s2 = sla s"
proof -
  note k = modules_okD [OF assms(1)]
  note c1 = module_account_changes(1) [OF assms(2) k assms(3)]
  from assms(4) obtain l where l: "SendCoinsFromModuleToModule k FeeCollectorName DistributionModuleName fees l1 = Inr l"
    and s2: "s2 = s\<lparr>led := l\<rparr>" by auto
  note m = SendCoinsFromModuleToModule_moved [OF changesD(1) [OF c1] k l]
  then have c2: "changes l1 l (transfer (AddressHash k FeeCollectorName) (AddressHash k DistributionModuleName) fees)" "IsValid fees"
    by (simp_all add: moved_def)
  have ne: "AddressHash k FeeCollectorName \<noteq> AddressHash k DistributionModuleName" using assms(1) by (auto simp: modules_ok_def)
  show "ledger_ok (led s2)" "supplies (led s2) = supplies (led s)" "coins_ok fees"
    "bal (led s2) (AddressHash k DistributionModuleName) d = bal (led s) (AddressHash k DistributionModuleName) d + amt fees d"
    "bal (led s2) (AddressHash k FeeCollectorName) d = bal (led s) (AddressHash k FeeCollectorName) d - amt fees d"
    "a \<noteq> AddressHash k FeeCollectorName \<Longrightarrow> a \<noteq> AddressHash k DistributionModuleName \<Longrightarrow> bal (led s2) a d = bal (led s) a d"
    "dis s2 = dis s" "stk s2 = stk s" "sla s2 = sla s"
    using changesD [OF c1] changesD [OF c2(1)] same_supplies [OF c1] transfer_supplies [OF c2(1)] IsValid_coins_ok [OF c2(2)] ne by (auto simp: s2 transfer_def credit_def)
qed

text \<open>An allocation step: the fee collector is emptied and the module owes what it received.\<close>

definition allocated :: "supply_keeper \<Rightarrow> chain \<Rightarrow> chain \<Rightarrow> bool" where
  "allocated k s s' \<longleftrightarrow> stk s' = stk s \<and> sla s' = sla s \<and> ledger_ok (led s') \<and> dis_ok (dis s') \<and>
     supplies (led s') = supplies (led s) \<and> (\<forall>d. bal (led s') (AddressHash k FeeCollectorName) d = 0) \<and>
     (\<forall>d. owed (dis s') d = owed (dis s) d + bal (led s) (AddressHash k FeeCollectorName) d) \<and>
     (\<forall>d. bal (led s') (AddressHash k DistributionModuleName) d =
        bal (led s) (AddressHash k DistributionModuleName) d + bal (led s) (AddressHash k FeeCollectorName) d) \<and>
     (\<forall>a d. a \<noteq> AddressHash k FeeCollectorName \<longrightarrow> a \<noteq> AddressHash k DistributionModuleName \<longrightarrow> bal (led s') a d = bal (led s) a d) \<and>
     (\<forall>v. kv_has (outstandingRewards (dis s')) v \<longleftrightarrow> kv_has (outstandingRewards (dis s)) v)"

lemma module_account_bal:
  assumes "ledger_ok l" "keeper_ok k" "module_account k m l = Inr (acc, l')"
  shows "bal l (AddressHash k m) d = amt (acc_Coins acc) d"
proof -
  note c = module_account_changes [OF assms]
  have "bal l' (AddressHash k m) d = amt (acc_Coins acc) d" using c(3) by (simp add: bal_def GetCoins_def)
  then show ?thesis using changesD(2) [OF c(1)] by simp
qed

lemma allocatedI:
  assumes "modules_ok k" "distr_ready s" "module_account k FeeCollectorName (led s) = Inr (fc, l1)"
    and "with_led (SendCoinsFromModuleToModule k FeeCollectorName DistributionModuleName (acc_Coins fc)) (s\<lparr>led := l1\<rparr>) = Inr s2"
    and "\<And>d. owed ds d = owed (dis s) d + amt (acc_Coins fc) d" "dis_ok ds"
    and "\<And>v. kv_has (outstandingRewards ds) v \<longleftrightarrow> kv_has (outstandingRewards (dis s)) v"
  shows "allocated k s (s2\<lparr>dis := ds\<rparr>)"
proof -
  have ok: "ledger_ok (led s)" using assms(2) by (simp add: distr_ready_def)
  note b = module_account_bal [OF ok modules_okD [OF assms(1)] assms(3)] and c = collect_fees [OF assms(1) ok assms(3,4)]
  show ?thesis unfolding allocated_def using b c assms(5-7) by simp
qed

lemma allocated_nothing:
  assumes "modules_ok k" "distr_ready s" "module_account k FeeCollectorName (led s) = Inr (fc, l1)" "acc_Coins fc = []"
  shows "allocated k s (s\<lparr>led := l1\<rparr>)"
proof -
  have ok: "ledger_ok (led s)" "dis_ok (dis s)" using assms(2) by (simp_all add: distr_ready_def)
  note k = modules_okD [OF assms(1)]
  note c = module_account_changes(1) [OF ok(1) k assms(3)]
  show ?thesis
    using changesD [OF c] same_supplies [OF c] module_account_bal [OF ok(1) k assms(3)] assms(4) ok(2)
    by (simp add: allocated_def)
qed

section \<open>The begin blocker and the run-time check\<close>

lemma AllocateTokens_allocated:
  assumes "modules_ok k" "distr_ready s" "rates_ok (stk s)" "shares_nonneg (stk s)" "tax_ok (dis s)"
    "AllocateTokens k pow proposer votes s = Inr s'"
  shows "allocated k s s'"
proof -
  from assms(6) obtain fc l1 where fc: "module_account k FeeCollectorName (led s) = Inr (fc, l1)"
    by (auto simp: AllocateTokens_def)
  show ?thesis
  proof (cases "acc_Coins fc = []")
    case True
    then show ?thesis using assms(6) fc allocated_nothing [OF assms(1,2) fc True] by (simp add: AllocateTokens_def)
  next
    case False
    then obtain s2 ds where s2: "with_led (SendCoinsFromModuleToModule k FeeCollectorName DistributionModuleName (acc_Coins fc)) (s\<lparr>led := l1\<rparr>) = Inr s2"
      and ds: "allocate_fees (stk s2) (acc_Coins fc) pow votes (dis s2) = Inr ds" and s': "s' = s2\<lparr>dis := ds\<rparr>"
      using assms(6) fc by (auto simp: AllocateTokens_def Let_def)
    have ok: "ledger_ok (led s)" "dis_ok (dis s)" using assms(2) by (simp_all add: distr_ready_def)
    note c = collect_fees [OF assms(1) ok(1) fc s2]
    have "owed ds d = owed (dis s) d + amt (acc_Coins fc) d \<and> dis_ok ds \<and>
        (\<forall>v. kv_has (outstandingRewards ds) v \<longleftrightarrow> kv_has (outstandingRewards (dis s)) v)" for d
      by (rule allocate_fees_owes [OF ok(2) c(3) assms(3-5)]) (use ds c(7,8) in simp)
    then show ?thesis unfolding s' by (intro allocatedI [OF assms(1,2) fc s2]) auto
  qed
qed

lemma PoAAllocateTokens_allocated:
  assumes "modules_ok k" "distr_ready s" "rates_ok (stk s)" "PoAAllocateTokens k votes s = Inr s'"
  shows "allocated k s s'"
proof -
  from assms(4) obtain fc l1 where fc: "module_account k FeeCollectorName (led s) = Inr (fc, l1)"
    by (auto simp: PoAAllocateTokens_def)
  show ?thesis
  proof (cases "acc_Coins fc = []")
    case True
    then show ?thesis using assms(4) fc allocated_nothing [OF assms(1,2) fc True] by (simp add: PoAAllocateTokens_def)
  next
    case False
    then obtain s2 p r ds1 ds where s2: "with_led (SendCoinsFromModuleToModule k FeeCollectorName DistributionModuleName (acc_Coins fc)) (s\<lparr>led := l1\<rparr>) = Inr s2"
      and p: "FeePool (dis s2) = Some p" and eq: "allocateByEqual (stk s2) (acc_Coins fc) votes (dis s2) = Inr (r, ds1)"
      and ds: "add_to_community p r ds1 = Inr ds" and s': "s' = s2\<lparr>dis := ds\<rparr>"
      using assms(4) fc by (auto simp: PoAAllocateTokens_def Let_def)
    have ok: "ledger_ok (led s)" "dis_ok (dis s)" using assms(2) by (simp_all add: distr_ready_def)
    note c = collect_fees [OF assms(1) ok(1) fc s2]
    have o1: "owes_more (dis s) ds1 (\<lambda>d. amt (acc_Coins fc) d - amt r d) \<and> coins_ok r"
      by (rule allocateByEqual_owes [OF ok(2) c(3) assms(3)]) (use eq c(7,8) in simp)
    then have "dis_ok ds1" "FeePool ds1 = Some p" "coins_ok r" using p c(7) by (simp_all add: owes_more_def)
    note fin = add_to_community_owes [OF this ds]
    show ?thesis unfolding s' by (rule allocatedI [OF assms(1,2) fc s2]) (use o1 fin in \<open>auto simp: owes_more_def\<close>)
  qed
qed

lemma allocated_gap: "allocated k s s' \<Longrightarrow> distr_gap k s' d = distr_gap k s d"
  by (simp add: allocated_def distr_gap_def)

text \<open>What a block start does: nothing at height one, an allocation afterwards.\<close>

lemma distr_BeginBlocker_allocated:
  assumes "modules_ok k" "distr_ready s" "rates_ok (stk s)" "shares_nonneg (stk s)" "tax_ok (dis s)"
    "distr_BeginBlocker k ctx votes proposer s = Inr s'" "BlockHeight ctx > 1"
  shows "allocated k s s'" "PreviousProposer (dis s') = Some proposer"
proof -
  obtain s1 where s1: "allocated k s s1" and s': "s' = with_dis (SetPreviousProposerConsAddr proposer) s1"
    using assms(6,7) AllocateTokens_allocated [OF assms(1-5)] PoAAllocateTokens_allocated [OF assms(1-3)]
    by (fastforce simp: distr_BeginBlocker_def Let_def split: if_splits)
  have "allocated k s s' \<and> PreviousProposer (dis s') = Some proposer"
    using s1 by (simp add: s' with_dis_def SetPreviousProposerConsAddr_def allocated_def owed_def dis_ok_def pool_amt_def)
  then show "allocated k s s'" "PreviousProposer (dis s') = Some proposer" by simp_all
qed

lemma sum_outstanding:
  assumes "\<And>v c. (v, c) \<in> set xs \<Longrightarrow> coins_ok c" "coins_ok acc" "rfold (\<lambda>(_, r) tot. DecCoins_Add tot r) xs acc = Inr r"
  shows "amt r d = amt acc d + (\<Sum>(_, c)\<leftarrow>xs. amt c d) \<and> coins_ok r"
  using assms
proof (induction xs arbitrary: acc)
  case (Cons x xs)
  obtain v c where x: "x = (v, c)" by force
  then obtain acc' where a: "DecCoins_Add acc c = Inr acc'" "rfold (\<lambda>(_, r) tot. DecCoins_Add tot r) xs acc' = Inr r"
    using Cons.prems(3) by auto
  have c: "coins_ok c" using Cons.prems(1) x by (meson list.set_intros(1))
  have "amt r d = amt acc' d + (\<Sum>(_, c)\<leftarrow>xs. amt c d) \<and> coins_ok r"
    by (rule Cons.IH [OF _ coins_ok_Add [OF Cons.prems(2) c a(1)] a(2)]) (use Cons.prems(1) in auto)
  then show ?case using DecCoins_Add_spec(1) [OF a(1), of d] by (simp add: x)
qed simp


lemma distr_ModuleAccountInvariant_iff:
  assumes "keeper_ok k" "distr_ready s" "distr_ModuleAccountInvariant k s = Inr broken"
  shows "broken \<longleftrightarrow> (\<exists>d. distr_gap k s d \<noteq> 0)"
proof -
  have ok: "ledger_ok (led s)" "dis_ok (dis s)" using assms(2) by (simp_all add: distr_ready_def)
  from assms(3) obtain out p macc l exp where
    out: "rfold (\<lambda>(_, r) tot. DecCoins_Add tot r) (kv_entries (outstandingRewards (dis s))) [] = Inr out"
    and p: "FeePool (dis s) = Some p" and m: "module_account k DistributionModuleName (led s) = Inr (macc, l)"
    and exp: "DecCoins_Add p out = Inr exp" and eq: "DecCoins_IsEqual (acc_Coins macc) exp = Inr (\<not> broken)"
    by (fastforce simp: distr_ModuleAccountInvariant_def)
  have o: "amt out d = kv_total (\<lambda>_ c. amt c d) (outstandingRewards (dis s)) \<and> coins_ok out" for d
    using sum_outstanding [OF _ _ out, of d] dis_okD(2) [OF ok(2)] by (simp add: kv_in_entries kv_total_def)
  have e: "coins_ok exp" using coins_ok_Add [OF dis_okD(1) [OF ok(2) p] _ exp] o by blast
  have owed: "amt exp d = owed (dis s) d" for d
    using DecCoins_Add_spec(1) [OF exp, of d] o [of d] p by (simp add: owed_def pool_amt_def)
  note c = module_account_changes [OF ok(1) assms(1) m]
  have macc: "coins_ok (acc_Coins macc)" using c changesD(1) [OF c(1)] by (auto simp: ledger_ok_def)
  have "\<not> broken \<longleftrightarrow> (\<forall>d. amt (acc_Coins macc) d = amt exp d)"
    using DecCoins_IsEqual_True [OF coins_okD(3) [OF macc] coins_okD(3) [OF e]] eq canonical_ext [OF coins_okD(1) [OF macc] coins_okD(1) [OF e]] by auto
  then show ?thesis using owed module_account_bal [OF ok(1) assms(1) m] by (auto simp: distr_gap_def)
qed

section \<open>Properties of the distribution module\<close>

lemma demo_modules_ok: "modules_ok demo_keeper"
  unfolding demo_keeper_def by (rule app_keeper_modules_ok) (simp add: inj_on_def)

lemma demo_dis_ok: "dis_ok (dis demo_chain)"
  by (auto simp: dis_ok_def demo_defs split: if_splits)

lemma demo_distr_ready: "distr_ready demo_chain"
  by (simp add: distr_ready_def demo_ledger_ok demo_dis_ok)

lemma demo_rates: "rates_ok (stk demo_chain)" "shares_nonneg (stk demo_chain)" "tax_ok (dis demo_chain)"
  by (auto simp: rates_ok_def shares_nonneg_def tax_ok_def demo_defs NewCommission_def OneDec_def precisionReuse_def split: if_splits)

text \<open>C17: The block start after the first hands out exactly the fees of the last block: the fee
  collector is left empty, the module account receives what it held, what the module owes (the community
  pool and all outstanding rewards) grows by just that amount in every denomination, no other balance
  and not the supply changes, and the proposer is recorded.\<close>

theorem distr_BeginBlocker_allocates:
  assumes "modules_ok k" "ledger_ok (led s)" "dis_ok (dis s)" "rates_ok (stk s)" "shares_nonneg (stk s)" "tax_ok (dis s)"
    and "distr_BeginBlocker k ctx votes proposer s = Inr s'" "BlockHeight ctx > 1"
  shows "bal (led s') (AddressHash k FeeCollectorName) d = 0 \<and>
    bal (led s') (AddressHash k DistributionModuleName) d =
      bal (led s) (AddressHash k DistributionModuleName) d + bal (led s) (AddressHash k FeeCollectorName) d \<and>
    owed (dis s') d = owed (dis s) d + bal (led s) (AddressHash k FeeCollectorName) d \<and>
    (a \<noteq> AddressHash k FeeCollectorName \<longrightarrow> a \<noteq> AddressHash k DistributionModuleName \<longrightarrow> bal (led s') a d = bal (led s) a d) \<and>
    tokenSupply (led s') = tokenSupply (led s) \<and> PreviousProposer (dis s') = Some proposer"
  using distr_BeginBlocker_allocated [OF assms(1) _ assms(4-8)] assms(2,3) by (simp add: supplies_def distr_ready_def allocated_def)

theorem distr_BeginBlocker_allocates_witness:
  "\<exists>s'. distr_BeginBlocker demo_keeper demo_ctx [\<lparr>vote_Address = ''#pk'', vote_Power = 1, SignedLastBlock = True\<rparr>] ''#pk'' demo_chain = Inr s' \<and>
     owed (dis s') ''okb'' = 10 * 10 ^ 18"
proof -
  have "case distr_BeginBlocker demo_keeper demo_ctx [\<lparr>vote_Address = ''#pk'', vote_Power = 1, SignedLastBlock = True\<rparr>] ''#pk'' demo_chain of
     Inl _ \<Rightarrow> False | Inr _ \<Rightarrow> True" by code_simp
  then obtain s' where s': "distr_BeginBlocker demo_keeper demo_ctx [\<lparr>vote_Address = ''#pk'', vote_Power = 1, SignedLastBlock = True\<rparr>] ''#pk'' demo_chain = Inr s'"
    using res_Inr by blast
  have "owed (dis demo_chain) ''okb'' = 0" "bal (led demo_chain) (AddressHash demo_keeper FeeCollectorName) ''okb'' = 10 * 10 ^ 18"
    "BlockHeight demo_ctx > 1" by code_simp+
  then show ?thesis
    using distr_BeginBlocker_allocates [OF demo_modules_ok demo_ledger_ok demo_dis_ok demo_rates s', of "''okb''"] s' by auto
qed

text \<open>C18: Every message of the module (setting a withdraw address, withdrawing commission, one reward or all
  rewards) keeps the difference between the module account and what the module owes, in every
  denomination, and leaves the supply, the staking and slashing stores and every other module account as
  they are.\<close>

theorem distr_Handler_balanced:
  assumes "modules_ok k" "ledger_ok (led s)" "dis_ok (dis s)" "distr_Handler k ctx msg s = Inr s'"
  shows "distr_gap k s' d = distr_gap k s d \<and> tokenSupply (led s') = tokenSupply (led s) \<and> stk s' = stk s \<and> sla s' = sla s \<and>
    (blacklistedAddrs k a \<longrightarrow> a \<noteq> AddressHash k DistributionModuleName \<longrightarrow> bal (led s') a d = bal (led s) a d) \<and> dis_ok (dis s')"
  using distr_Handler_step [OF assms(1) _ assms(4)] assms(2,3) by (simp add: supplies_def distr_ready_def distr_step_def)

definition demo_rewarded :: chain where
  "demo_rewarded = demo_chain\<lparr>dis := demo_distribution
     \<lparr>accumulatedCommissions := kv_set ''val'' (okb 3) kv_empty, outstandingRewards := kv_set ''val'' (okb 4) kv_empty\<rparr>,
     led := (led demo_chain)\<lparr>accounts := kv_set ''#distribution'' (demo_funded ''#distribution'' (ModuleAcc ''distribution'' []) 4)
       (accounts (led demo_chain))\<rparr>\<rparr>"

lemma demo_rewarded_ok: "ledger_ok (led demo_rewarded)" "dis_ok (dis demo_rewarded)"
  by (auto simp: demo_rewarded_def demo_defs ledger_ok_def GetAccount_def coins_ok_def dis_ok_def split: if_splits)

theorem distr_Handler_balanced_witness:
  "\<exists>s'. distr_Handler demo_keeper demo_ctx (MsgWithdrawValidatorCommission ''val'') demo_rewarded = Inr s' \<and>
     distr_gap demo_keeper s' ''okb'' = 0"
proof -
  have "case distr_Handler demo_keeper demo_ctx (MsgWithdrawValidatorCommission ''val'') demo_rewarded of Inl _ \<Rightarrow> False | Inr _ \<Rightarrow> True"
    by code_simp
  then obtain s' where s': "distr_Handler demo_keeper demo_ctx (MsgWithdrawValidatorCommission ''val'') demo_rewarded = Inr s'"
    using res_Inr by blast
  have "distr_gap demo_keeper demo_rewarded ''okb'' = 0" by code_simp
  then show ?thesis using distr_Handler_balanced [OF demo_modules_ok demo_rewarded_ok s', of "''okb''"] s' by auto
qed

text \<open>When a validator is removed, its commission goes to its withdraw address and the rest of its
  outstanding rewards to the community pool: the account stays balanced against what is owed and exactly
  this validator's entry disappears.\<close>

theorem distr_AfterValidatorRemoved_balanced:
  assumes "modules_ok k" "ledger_ok (led s)" "dis_ok (dis s)" "distr_AfterValidatorRemoved k v s = Inr s'"
  shows "distr_gap k s' d = distr_gap k s d \<and> tokenSupply (led s') = tokenSupply (led s) \<and>
    (kv_has (outstandingRewards (dis s')) a \<longleftrightarrow> a \<noteq> v \<and> kv_has (outstandingRewards (dis s)) a)"
  using distr_AfterValidatorRemoved_removed [OF assms(1) _ assms(4)] assms(2,3) by (simp add: supplies_def distr_ready_def distr_removed_def)

theorem distr_AfterValidatorRemoved_balanced_witness:
  "\<exists>s'. distr_AfterValidatorRemoved demo_keeper ''val'' demo_rewarded = Inr s' \<and> distr_gap demo_keeper s' ''okb'' = 0"
proof -
  have "case distr_AfterValidatorRemoved demo_keeper ''val'' demo_rewarded of Inl _ \<Rightarrow> False | Inr _ \<Rightarrow> True" by code_simp
  then obtain s' where s': "distr_AfterValidatorRemoved demo_keeper ''val'' demo_rewarded = Inr s'" using res_Inr by blast
  have "distr_gap demo_keeper demo_rewarded ''okb'' = 0" by code_simp
  then show ?thesis using distr_AfterValidatorRemoved_balanced [OF demo_modules_ok demo_rewarded_ok s', of "''okb''"] s' by auto
qed

text \<open>The run-time check is exact: on proper stores it reports a broken invariant just when the
  account and what is owed differ in some denomination.\<close>

theorem distr_ModuleAccountInvariant_exact:
  assumes "keeper_ok k" "ledger_ok (led s)" "dis_ok (dis s)" "distr_ModuleAccountInvariant k s = Inr broken"
  shows "broken \<longleftrightarrow> (\<exists>d. bal (led s) (AddressHash k DistributionModuleName) d \<noteq> owed (dis s) d)"
  using distr_ModuleAccountInvariant_iff [OF assms(1) _ assms(4)] assms(2,3) by (simp add: distr_ready_def distr_gap_def)

theorem distr_ModuleAccountInvariant_exact_witness:
  "distr_ModuleAccountInvariant demo_keeper demo_rewarded = Inr False \<and>
   bal (led demo_rewarded) (AddressHash demo_keeper DistributionModuleName) ''okb'' = owed (dis demo_rewarded) ''okb''"
proof -
  have b: "distr_ModuleAccountInvariant demo_keeper demo_rewarded = Inr False" by code_simp
  then show ?thesis using distr_ModuleAccountInvariant_exact [OF demo_keeper_ok demo_rewarded_ok b] by simp
qed



end
