(* ===== verification/Slashing.thy ===== *)
theory Slashing
  imports Chain
begin

text \<open>
  The slashing module (\<open>x/slashing\<close>): the missed-block window of each validator, jailing for
  downtime, unjailing, and the hooks the staking module calls.  Validators lose no tokens.

  Main results: the missed-block counter is the number of set bits of the window, so a validator
  is jailed exactly when it missed more than the allowed number of blocks of its window.
\<close>

section \<open>Operations\<close>

definition MinSignedPerWindow :: "slashing \<Rightarrow> int res" where
  "MinSignedPerWindow sl = rbind (Dec_MulInt (paramMinSignedPerWindow sl) (SignedBlocksWindow sl)) Dec_RoundInt64"

text \<open>The signed-block bit and the counter; \<open>int64\<close> arithmetic.\<close>

definition update_window :: "bytes \<Rightarrow> int \<Rightarrow> bool \<Rightarrow> ValidatorSigningInfo \<Rightarrow> slashing \<Rightarrow> ValidatorSigningInfo \<times> slashing" where
  "update_window consAddr index signed signInfo sl =
     (let previous = GetValidatorMissedBlockBitArray sl consAddr index; missed = \<not> signed
      in if \<not> previous \<and> missed then
           (signInfo\<lparr>MissedBlocksCounter := wrap64 (MissedBlocksCounter signInfo + 1)\<rparr>,
            SetValidatorMissedBlockBitArray consAddr index True sl)
         else if previous \<and> \<not> missed then
           (signInfo\<lparr>MissedBlocksCounter := wrap64 (MissedBlocksCounter signInfo - 1)\<rparr>,
            SetValidatorMissedBlockBitArray consAddr index False sl)
         else (signInfo, sl))"

text \<open>Jailing a validator that was down: the window starts afresh.\<close>

definition jail_for_downtime :: "block_ctx \<Rightarrow> bytes \<Rightarrow> ValidatorSigningInfo \<Rightarrow> chain \<Rightarrow> (ValidatorSigningInfo \<times> chain) res" where
  "jail_for_downtime ctx consAddr signInfo s =
     rbind (with_stk (Jail consAddr) s) (\<lambda>s1.
     rbind (with_stk (AppendAbandonedValidatorAddrs consAddr) s1) (\<lambda>s2.
       Inr (signInfo\<lparr>JailedUntil := BlockTime ctx + DowntimeJailDuration (sla s2), MissedBlocksCounter := 0, IndexOffset := 0\<rparr>,
            with_sla (clearValidatorMissedBlockBitArray consAddr) s2)))"

definition HandleValidatorSignature :: "block_ctx \<Rightarrow> bytes \<Rightarrow> int \<Rightarrow> bool \<Rightarrow> chain \<Rightarrow> chain res" where
  "HandleValidatorSignature ctx consAddr pow signed s =
     (case GetPubkey (sla s) consAddr of
        Inl _ \<Rightarrow> Inl (Panic ''Validator consensus-address not found'')
      | Inr _ \<Rightarrow>
          (case GetValidatorSigningInfo (sla s) consAddr of
             None \<Rightarrow> Inl (Panic ''Expected signing info for validator but not found'')
           | Some info \<Rightarrow>
               if SignedBlocksWindow (sla s) = 0 then Inl (Panic ''integer divide by zero'')
               else
                 let index = big_rem (IndexOffset info) (SignedBlocksWindow (sla s));
                     (signInfo, sl1) = update_window consAddr index signed (info\<lparr>IndexOffset := wrap64 (IndexOffset info + 1)\<rparr>) (sla s);
                     s1 = s\<lparr>sla := sl1\<rparr>
                 in rbind (MinSignedPerWindow sl1) (\<lambda>minSigned.
                    let minHeight = wrap64 (StartHeight signInfo + SignedBlocksWindow sl1);
                        maxMissed = wrap64 (SignedBlocksWindow sl1 - minSigned)
                    in rbind (if BlockHeight ctx > minHeight \<and> MissedBlocksCounter signInfo > maxMissed then
                                (case GetValidatorByConsAddr (stk s1) consAddr of
                                   None \<Rightarrow> Inr (signInfo, s1)
                                 | Some v \<Rightarrow> if Jailed v then Inr (signInfo, s1) else jail_for_downtime ctx consAddr signInfo s1)
                              else Inr (signInfo, s1)) (\<lambda>(signInfo', s2).
                         Inr (with_sla (SetValidatorSigningInfo consAddr signInfo') s2)))))"

definition slashing_BeginBlocker :: "block_ctx \<Rightarrow> (bytes \<times> int \<times> bool) list \<Rightarrow> chain \<Rightarrow> chain res" where
  "slashing_BeginBlocker ctx votes s =
     rfold (\<lambda>(addr, pow, signed) s. HandleValidatorSignature ctx addr pow signed s) votes s"

definition slashing_Unjail :: "supply_keeper \<Rightarrow> block_ctx \<Rightarrow> bytes \<Rightarrow> chain \<Rightarrow> chain res" where
  "slashing_Unjail k ctx validatorAddr s =
     (case GetValidator (stk s) validatorAddr of
        None \<Rightarrow> Inl (Err ''ErrNoValidatorForAddress'')
      | Some v \<Rightarrow>
          if \<not> Jailed v then Inl (Err ''ErrValidatorNotJailed'')
          else (case GetValidatorSigningInfo (sla s) (ConsAddress k v) of
                  None \<Rightarrow> Inl (Err ''ErrNoValidatorForAddress'')
                | Some info \<Rightarrow>
                    if ValidatorStatus info = Destroying then Inl (Err ''ErrValidatorDestroying'')
                    else if Tombstoned info then Inl (Err ''ErrValidatorJailed'')
                    else if BlockTime ctx < JailedUntil info then Inl (Err ''ErrValidatorJailed'')
                    else with_stk (Unjail (ConsAddress k v)) s))"

definition handleMsgUnjail :: "supply_keeper \<Rightarrow> block_ctx \<Rightarrow> bytes \<Rightarrow> chain \<Rightarrow> chain res" where
  "handleMsgUnjail k ctx validatorAddr s =
     (case GetValidator (stk s) validatorAddr of
        None \<Rightarrow> Inl (Err ''ErrNoValidatorForAddress'')
      | Some v \<Rightarrow>
          let checkSelfDelegation = \<not> (HigherThanEarth ctx \<and> ConsensusType (params (stk s)) = PoA)
          in if checkSelfDelegation \<and> MinSelfDelegation v = 0 then Inl (Err ''ErrMissingSelfDelegation'')
             else slashing_Unjail k ctx validatorAddr s)"

text \<open>Evidence handling calls these two.\<close>

definition JailUntil :: "bytes \<Rightarrow> time \<Rightarrow> slashing \<Rightarrow> slashing res" where
  "JailUntil consAddr jailTime sl =
     (case GetValidatorSigningInfo sl consAddr of
        None \<Rightarrow> Inl (Panic ''cannot jail validator that does not have any signing information'')
      | Some info \<Rightarrow> Inr (SetValidatorSigningInfo consAddr (info\<lparr>JailedUntil := jailTime\<rparr>) sl))"

definition Tombstone :: "bytes \<Rightarrow> slashing \<Rightarrow> slashing res" where
  "Tombstone consAddr sl =
     (case GetValidatorSigningInfo sl consAddr of
        None \<Rightarrow> Inl (Panic ''cannot tombstone validator that does not have any signing information'')
      | Some info \<Rightarrow>
          if Tombstoned info then Inl (Panic ''cannot tombstone validator that is already tombstoned'')
          else Inr (SetValidatorSigningInfo consAddr (info\<lparr>Tombstoned := True\<rparr>) sl))"

section \<open>Hooks\<close>

definition modifyValidatorStatus :: "bytes \<Rightarrow> ValStatus \<Rightarrow> slashing \<Rightarrow> slashing" where
  "modifyValidatorStatus consAddress status sl =
     (case GetValidatorSigningInfo sl consAddress of
        None \<Rightarrow> sl
      | Some info \<Rightarrow> SetValidatorSigningInfo consAddress (info\<lparr>ValidatorStatus := status\<rparr>) sl)"

definition slashing_AfterValidatorBonded :: "block_ctx \<Rightarrow> bytes \<Rightarrow> chain \<Rightarrow> chain" where
  "slashing_AfterValidatorBonded ctx addr s =
     (case GetValidatorSigningInfo (sla s) addr of
        None \<Rightarrow> with_sla (SetValidatorSigningInfo addr
                  \<lparr>si_Address = addr, StartHeight = BlockHeight ctx, IndexOffset = 0, JailedUntil = 0, Tombstoned = False,
                   MissedBlocksCounter = 0, ValidatorStatus = Created\<rparr>) s
      | Some _ \<Rightarrow> s)"

definition slashing_AfterValidatorCreated :: "supply_keeper \<Rightarrow> bytes \<Rightarrow> chain \<Rightarrow> chain res" where
  "slashing_AfterValidatorCreated k valAddr s =
     rbind (not_nil (GetValidator (stk s) valAddr)) (\<lambda>v.
       Inr (with_sla (\<lambda>sl. modifyValidatorStatus (ConsAddress k v) Created (AddPubkey k (ConsPubKey v) sl)) s))"

definition slashing_AfterValidatorRemoved :: "bytes \<Rightarrow> chain \<Rightarrow> chain" where
  "slashing_AfterValidatorRemoved addr s =
     with_sla (\<lambda>sl. modifyValidatorStatus addr Destroyed (deleteAddrPubkeyRelation addr sl)) s"

definition slashing_AfterValidatorDestroyed :: "supply_keeper \<Rightarrow> bytes \<Rightarrow> chain \<Rightarrow> chain" where
  "slashing_AfterValidatorDestroyed k valAddr s =
     (case GetValidator (stk s) valAddr of
        None \<Rightarrow> s
      | Some v \<Rightarrow> with_sla (modifyValidatorStatus (ConsAddress k v) Destroying) s)"

section \<open>The window and its counter\<close>

text \<open>The number of blocks of the window the validator missed.\<close>

definition missed_bits :: "slashing \<Rightarrow> bytes \<Rightarrow> int" where
  "missed_bits sl a = kv_total (\<lambda>key missed. if fst key = a \<and> missed then 1 else 0) (missedBlockBitArray sl)"

definition window_ok :: "slashing \<Rightarrow> bool" where
  "window_ok sl \<longleftrightarrow> 0 < SignedBlocksWindow sl \<and> SignedBlocksWindow sl < 2 ^ 63 \<and>
     (\<forall>a i. GetValidatorMissedBlockBitArray sl a i \<longrightarrow> 0 \<le> i \<and> i < SignedBlocksWindow sl) \<and>
     (\<forall>a. missed_bits sl a = (case GetValidatorSigningInfo sl a of None \<Rightarrow> 0 | Some info \<Rightarrow> MissedBlocksCounter info)) \<and>
     (\<forall>a info. GetValidatorSigningInfo sl a = Some info \<longrightarrow> 0 \<le> IndexOffset info)"

lemma missed_bits_card: "missed_bits sl a = int (card {i. GetValidatorMissedBlockBitArray sl a i})"
proof -
  have "missed_bits sl a = int (card {k. \<exists>v. kv_get (missedBlockBitArray sl) k = Some v \<and> fst k = a \<and> v})"
    unfolding missed_bits_def by (rule kv_total_count)
  also have "{k. \<exists>v. kv_get (missedBlockBitArray sl) k = Some v \<and> fst k = a \<and> v} = Pair a ` {i. GetValidatorMissedBlockBitArray sl a i}"
    by (auto simp: GetValidatorMissedBlockBitArray_def image_iff split: option.splits)
  also have "card \<dots> = card {i. GetValidatorMissedBlockBitArray sl a i}" by (rule card_image) (simp add: inj_on_def)
  finally show ?thesis .
qed

lemma missed_bits_le:
  assumes "\<And>i. GetValidatorMissedBlockBitArray sl a i \<Longrightarrow> 0 \<le> i \<and> i < w"
  shows "0 \<le> missed_bits sl a" "0 \<le> w \<Longrightarrow> missed_bits sl a \<le> w"
proof -
  have "{i. GetValidatorMissedBlockBitArray sl a i} \<subseteq> {0..<w}" using assms by auto
  then have "card {i. GetValidatorMissedBlockBitArray sl a i} \<le> nat w"
    using card_mono [of "{0..<w}"] by fastforce
  then show "0 \<le> missed_bits sl a" "0 \<le> w \<Longrightarrow> missed_bits sl a \<le> w" by (auto simp: missed_bits_card)
qed

lemma bit_set [simp]:
  "GetValidatorMissedBlockBitArray (SetValidatorMissedBlockBitArray a i m sl) b j =
     (if b = a \<and> j = i then m else GetValidatorMissedBlockBitArray sl b j)"
  by (auto simp: GetValidatorMissedBlockBitArray_def SetValidatorMissedBlockBitArray_def)

lemma missed_bits_set [simp]:
  "missed_bits (SetValidatorMissedBlockBitArray a i m sl) b =
     missed_bits sl b + (if b = a then of_bool m - of_bool (GetValidatorMissedBlockBitArray sl a i) else 0)"
  by (auto simp: missed_bits_def SetValidatorMissedBlockBitArray_def GetValidatorMissedBlockBitArray_def split: option.splits)

lemma SetBit_frame [simp]:
  "GetValidatorSigningInfo (SetValidatorMissedBlockBitArray a i m sl) b = GetValidatorSigningInfo sl b"
  "SignedBlocksWindow (SetValidatorMissedBlockBitArray a i m sl) = SignedBlocksWindow sl"
  "paramMinSignedPerWindow (SetValidatorMissedBlockBitArray a i m sl) = paramMinSignedPerWindow sl"
  by (simp_all add: SetValidatorMissedBlockBitArray_def GetValidatorSigningInfo_def)

lemma SetInfo_frame [simp]:
  "GetValidatorSigningInfo (SetValidatorSigningInfo a info sl) b = (if b = a then Some info else GetValidatorSigningInfo sl b)"
  "SignedBlocksWindow (SetValidatorSigningInfo a info sl) = SignedBlocksWindow sl"
  "missed_bits (SetValidatorSigningInfo a info sl) b = missed_bits sl b"
  "GetValidatorMissedBlockBitArray (SetValidatorSigningInfo a info sl) b i = GetValidatorMissedBlockBitArray sl b i"
  by (auto simp: SetValidatorSigningInfo_def GetValidatorSigningInfo_def missed_bits_def GetValidatorMissedBlockBitArray_def)

lemma clear_eq:
  "clearValidatorMissedBlockBitArray a sl = sl\<lparr>missedBlockBitArray :=
     fold (\<lambda>(x, _). kv_del x) (filter (\<lambda>(key, _). fst key = a) (kv_entries (missedBlockBitArray sl))) (missedBlockBitArray sl)\<rparr>"
proof -
  have "fold (\<lambda>(key, _) sl. sl\<lparr>missedBlockBitArray := kv_del key (missedBlockBitArray sl)\<rparr>) xs sl =
      sl\<lparr>missedBlockBitArray := fold (\<lambda>(x, _). kv_del x) xs (missedBlockBitArray sl)\<rparr>" for xs and sl :: slashing
    by (induction xs arbitrary: sl) auto
  then show ?thesis unfolding clearValidatorMissedBlockBitArray_def .
qed

lemma clear_bit [simp]:
  "GetValidatorMissedBlockBitArray (clearValidatorMissedBlockBitArray a sl) b i \<longleftrightarrow> b \<noteq> a \<and> GetValidatorMissedBlockBitArray sl b i"
proof -
  have "(b, i) \<in> fst ` set (filter (\<lambda>(key, _). fst key = a) (kv_entries (missedBlockBitArray sl))) \<longleftrightarrow>
      b = a \<and> kv_get (missedBlockBitArray sl) (b, i) \<noteq> None"
    by (force simp: kv_in_entries)
  then show ?thesis by (auto simp: clear_eq GetValidatorMissedBlockBitArray_def kv_get_dels split: option.splits)
qed

lemma clear_frame [simp]:
  "missed_bits (clearValidatorMissedBlockBitArray a sl) b = (if b = a then 0 else missed_bits sl b)"
  "GetValidatorSigningInfo (clearValidatorMissedBlockBitArray a sl) b = GetValidatorSigningInfo sl b"
  "SignedBlocksWindow (clearValidatorMissedBlockBitArray a sl) = SignedBlocksWindow sl"
  "DowntimeJailDuration (clearValidatorMissedBlockBitArray a sl) = DowntimeJailDuration sl"
  by (auto simp: missed_bits_card) (simp_all add: clear_eq GetValidatorSigningInfo_def)

text \<open>Recording one block in the window of the validator keeps counter and bits in step.\<close>

lemma update_window_spec:
  assumes "window_ok sl" "GetValidatorSigningInfo sl a = Some info0" "MissedBlocksCounter info = MissedBlocksCounter info0"
    "0 \<le> i" "i < SignedBlocksWindow sl" "update_window a i signed info sl = (info', sl')"
  shows "MissedBlocksCounter info' = missed_bits sl' a" "GetValidatorMissedBlockBitArray sl' a i \<longleftrightarrow> \<not> signed"
    "b \<noteq> a \<or> j \<noteq> i \<Longrightarrow> GetValidatorMissedBlockBitArray sl' b j = GetValidatorMissedBlockBitArray sl b j"
    "b \<noteq> a \<Longrightarrow> missed_bits sl' b = missed_bits sl b" "GetValidatorSigningInfo sl' b = GetValidatorSigningInfo sl b"
    "SignedBlocksWindow sl' = SignedBlocksWindow sl" "paramMinSignedPerWindow sl' = paramMinSignedPerWindow sl"
    "StartHeight info' = StartHeight info" "IndexOffset info' = IndexOffset info" "Tombstoned info' = Tombstoned info"
proof -
  have bits: "GetValidatorMissedBlockBitArray sl a j \<Longrightarrow> 0 \<le> j \<and> j < SignedBlocksWindow sl" for j
    using assms(1) by (simp add: window_ok_def)
  have c: "MissedBlocksCounter info = missed_bits sl a" "SignedBlocksWindow sl < 2 ^ 63"
    using assms(1-3) by (auto simp: window_ok_def)
  have le: "0 \<le> missed_bits sl a" "missed_bits sl a \<le> SignedBlocksWindow sl"
    using missed_bits_le [where sl = sl and a = a and w = "SignedBlocksWindow sl", OF bits] assms(4,5) by auto
  have up: "missed_bits sl a + 1 \<le> SignedBlocksWindow sl" if "\<not> GetValidatorMissedBlockBitArray sl a i"
    using missed_bits_le(2) [of "SetValidatorMissedBlockBitArray a i True sl" a "SignedBlocksWindow sl"] that bits assms(4,5)
    by (fastforce split: if_splits)
  have w: "wrap64 (missed_bits sl a + 1) = missed_bits sl a + 1" if "\<not> GetValidatorMissedBlockBitArray sl a i"
    using up [OF that] le c(2) by (intro wrap64_id) auto
  have w': "wrap64 (missed_bits sl a - 1) = missed_bits sl a - 1"
    using le c(2) assms(4,5) by (intro wrap64_id) auto
  show "MissedBlocksCounter info' = missed_bits sl' a" "GetValidatorMissedBlockBitArray sl' a i \<longleftrightarrow> \<not> signed"
    "b \<noteq> a \<or> j \<noteq> i \<Longrightarrow> GetValidatorMissedBlockBitArray sl' b j = GetValidatorMissedBlockBitArray sl b j"
    "b \<noteq> a \<Longrightarrow> missed_bits sl' b = missed_bits sl b" "GetValidatorSigningInfo sl' b = GetValidatorSigningInfo sl b"
    "SignedBlocksWindow sl' = SignedBlocksWindow sl" "paramMinSignedPerWindow sl' = paramMinSignedPerWindow sl"
    "StartHeight info' = StartHeight info" "IndexOffset info' = IndexOffset info" "Tombstoned info' = Tombstoned info"
    using assms(6) w w' c(1) by (auto simp: update_window_def Let_def split: if_splits)
qed


text \<open>What one vote does: the window of this validator is updated, and the validator is jailed and its
  window cleared when it has missed too many blocks.\<close>

definition too_many_missed :: "block_ctx \<Rightarrow> slashing \<Rightarrow> bytes \<Rightarrow> int \<Rightarrow> int \<Rightarrow> bool" where
  "too_many_missed ctx sl a start minSigned \<longleftrightarrow>
     BlockHeight ctx > wrap64 (start + SignedBlocksWindow sl) \<and> missed_bits sl a > wrap64 (SignedBlocksWindow sl - minSigned)"

lemma HandleValidatorSignature_cases:
  assumes "window_ok (sla s)" "HandleValidatorSignature ctx a pow signed s = Inr s'"
    and "GetValidatorSigningInfo (sla s) a = Some info" "IndexOffset info < 2 ^ 63 - 1"
  obtains info1 sl1 minSigned where
    "update_window a (IndexOffset info mod SignedBlocksWindow (sla s)) signed (info\<lparr>IndexOffset := IndexOffset info + 1\<rparr>) (sla s) = (info1, sl1)"
    "MinSignedPerWindow (sla s) = Inr minSigned"
    "\<not> (too_many_missed ctx sl1 a (StartHeight info) minSigned \<and> (\<exists>v. GetValidatorByConsAddr (stk s) a = Some v \<and> \<not> Jailed v))"
    "s' = s\<lparr>sla := SetValidatorSigningInfo a info1 sl1\<rparr>"
  | info1 sl1 minSigned v st2 where
    "update_window a (IndexOffset info mod SignedBlocksWindow (sla s)) signed (info\<lparr>IndexOffset := IndexOffset info + 1\<rparr>) (sla s) = (info1, sl1)"
    "MinSignedPerWindow (sla s) = Inr minSigned"
    "too_many_missed ctx sl1 a (StartHeight info) minSigned" "GetValidatorByConsAddr (stk s) a = Some v" "\<not> Jailed v"
    "rbind (Jail a (stk s)) (AppendAbandonedValidatorAddrs a) = Inr st2"
    "s' = s\<lparr>stk := st2, sla := SetValidatorSigningInfo a (info1\<lparr>JailedUntil := BlockTime ctx + DowntimeJailDuration sl1, MissedBlocksCounter := 0, IndexOffset := 0\<rparr>)
        (clearValidatorMissedBlockBitArray a sl1)\<rparr>"
proof -
  let ?w = "SignedBlocksWindow (sla s)"
  have w: "0 < ?w" "0 \<le> IndexOffset info" using assms(1,3) by (auto simp: window_ok_def)
  have ix: "big_rem (IndexOffset info) ?w = IndexOffset info mod ?w" "wrap64 (IndexOffset info + 1) = IndexOffset info + 1"
    using w assms(4) by (simp_all add: big_rem_nonneg wrap64_id)
  obtain info1 sl1 where u: "update_window a (IndexOffset info mod ?w) signed (info\<lparr>IndexOffset := IndexOffset info + 1\<rparr>) (sla s) = (info1, sl1)"
    by force
  have sp: "MissedBlocksCounter info1 = missed_bits sl1 a" "SignedBlocksWindow sl1 = ?w" "StartHeight info1 = StartHeight info"
    "paramMinSignedPerWindow sl1 = paramMinSignedPerWindow (sla s)"
    using update_window_spec [OF assms(1,3) _ _ _ u] w by simp_all
  have min: "MinSignedPerWindow sl1 = MinSignedPerWindow (sla s)" by (simp add: MinSignedPerWindow_def sp)
  let ?big = "\<lambda>m. too_many_missed ctx sl1 a (StartHeight info) m"
  obtain m where m: "MinSignedPerWindow (sla s) = Inr m" and
    run: "rbind (if ?big m then (case GetValidatorByConsAddr (stk (s\<lparr>sla := sl1\<rparr>)) a of None \<Rightarrow> Inr (info1, s\<lparr>sla := sl1\<rparr>)
        | Some v \<Rightarrow> if Jailed v then Inr (info1, s\<lparr>sla := sl1\<rparr>) else jail_for_downtime ctx a info1 (s\<lparr>sla := sl1\<rparr>))
      else Inr (info1, s\<lparr>sla := sl1\<rparr>)) (\<lambda>(i', s2). Inr (with_sla (SetValidatorSigningInfo a i') s2)) = Inr s'"
    using assms(2,3) u sp w(1) ix min
    by (auto simp: HandleValidatorSignature_def Let_def too_many_missed_def split: sum.splits)
  show thesis
  proof (cases "?big m \<and> (\<exists>v. GetValidatorByConsAddr (stk s) a = Some v \<and> \<not> Jailed v)")
    case True
    then obtain v st2 where "GetValidatorByConsAddr (stk s) a = Some v" "\<not> Jailed v"
      "rbind (Jail a (stk s)) (AppendAbandonedValidatorAddrs a) = Inr st2"
      "s' = s\<lparr>stk := st2, sla := SetValidatorSigningInfo a (info1\<lparr>JailedUntil := BlockTime ctx + DowntimeJailDuration sl1, MissedBlocksCounter := 0, IndexOffset := 0\<rparr>)
        (clearValidatorMissedBlockBitArray a sl1)\<rparr>"
      using run by (auto simp: jail_for_downtime_def with_sla_def)
    then show thesis using True by (intro that(2) [OF u m]) auto
  next
    case False
    then have "s' = s\<lparr>sla := SetValidatorSigningInfo a info1 sl1\<rparr>"
      using run by (auto simp: with_sla_def split: if_splits option.splits)
    then show thesis using False by (intro that(1) [OF u m]) auto
  qed
qed

lemma HandleValidatorSignature_info:
  "HandleValidatorSignature ctx a pow signed s = Inr s' \<Longrightarrow> \<exists>info. GetValidatorSigningInfo (sla s) a = Some info"
  by (auto simp: HandleValidatorSignature_def split: sum.splits option.splits)

lemma window_ok_record:
  assumes "window_ok sl" "GetValidatorSigningInfo sl a = Some info"
    "update_window a (IndexOffset info mod SignedBlocksWindow sl) signed (info\<lparr>IndexOffset := IndexOffset info + 1\<rparr>) sl = (info1, sl1)"
  shows "window_ok (SetValidatorSigningInfo a info1 sl1)"
    "window_ok (SetValidatorSigningInfo a (info1\<lparr>JailedUntil := t, MissedBlocksCounter := 0, IndexOffset := 0\<rparr>) (clearValidatorMissedBlockBitArray a sl1))"
proof -
  have w: "0 < SignedBlocksWindow sl" "0 \<le> IndexOffset info" using assms(1,2) by (auto simp: window_ok_def)
  let ?i = "IndexOffset info mod SignedBlocksWindow sl"
  have i: "0 \<le> ?i" "?i < SignedBlocksWindow sl" using w by simp_all
  note u = update_window_spec [OF assms(1,2) _ i assms(3), simplified]
  have bits: "0 \<le> j \<and> j < SignedBlocksWindow sl" if "GetValidatorMissedBlockBitArray sl1 b j" for b j
    using that u(3) [of b j] i assms(1) by (cases "b = a \<and> j = ?i") (auto simp: window_ok_def)
  have bits': "missed_bits sl1 b = (case GetValidatorSigningInfo sl b of None \<Rightarrow> 0 | Some info \<Rightarrow> MissedBlocksCounter info)" if "b \<noteq> a" for b
    using u(4) [OF that] assms(1) by (simp add: window_ok_def)
  have old: "0 \<le> IndexOffset info" if "GetValidatorSigningInfo sl b = Some info" for b info
    using that assms(1) by (simp add: window_ok_def)
  have win: "0 < SignedBlocksWindow sl1" "SignedBlocksWindow sl1 < 2 ^ 63" using assms(1) u(6) by (simp_all add: window_ok_def)
  show "window_ok (SetValidatorSigningInfo a info1 sl1)"
    "window_ok (SetValidatorSigningInfo a (info1\<lparr>JailedUntil := t, MissedBlocksCounter := 0, IndexOffset := 0\<rparr>) (clearValidatorMissedBlockBitArray a sl1))"
    unfolding window_ok_def using win bits bits' old u(1,5,6,9) w by (simp_all add: eq_commute [of a]) (meson bits)
qed


lemma HandleValidatorSignature_window:
  assumes "window_ok (sla s)" "HandleValidatorSignature ctx a pow signed s = Inr s'"
    "\<And>info. GetValidatorSigningInfo (sla s) a = Some info \<Longrightarrow> IndexOffset info < 2 ^ 63 - 1"
  shows "window_ok (sla s')" "b \<noteq> a \<Longrightarrow> GetValidatorSigningInfo (sla s') b = GetValidatorSigningInfo (sla s) b"
    "led s' = led s" "dis s' = dis s"
    "GetValidatorSigningInfo (sla s') b = Some info' \<Longrightarrow>
       \<exists>info. GetValidatorSigningInfo (sla s) b = Some info \<and> IndexOffset info' \<le> IndexOffset info + 1"
proof -
  obtain info where info: "GetValidatorSigningInfo (sla s) a = Some info" using HandleValidatorSignature_info [OF assms(2)] by blast
  have w: "0 < SignedBlocksWindow (sla s)" "0 \<le> IndexOffset info" using assms(1) info by (auto simp: window_ok_def)
  have i: "0 \<le> IndexOffset info mod SignedBlocksWindow (sla s)" "IndexOffset info mod SignedBlocksWindow (sla s) < SignedBlocksWindow (sla s)"
    using w by simp_all
  have "window_ok (sla s') \<and> (b \<noteq> a \<longrightarrow> GetValidatorSigningInfo (sla s') b = GetValidatorSigningInfo (sla s) b) \<and> led s' = led s \<and> dis s' = dis s \<and>
    (\<forall>info'. GetValidatorSigningInfo (sla s') b = Some info' \<longrightarrow>
       (\<exists>info. GetValidatorSigningInfo (sla s) b = Some info \<and> IndexOffset info' \<le> IndexOffset info + 1))"
  proof (rule HandleValidatorSignature_cases [OF assms(1,2) info assms(3) [OF info]], goal_cases)
    case (1 info1 sl1 m)
    note u = update_window_spec [OF assms(1) info _ i 1(1), simplified]
    show ?case unfolding 1(4) using window_ok_record(1) [OF assms(1) info 1(1)] u(5,9) info by simp
  next
    case (2 info1 sl1 m v st2)
    note u = update_window_spec [OF assms(1) info _ i 2(1), simplified]
    show ?case unfolding 2(7) using window_ok_record(2) [OF assms(1) info 2(1)] u(5,9) info w by simp
  qed
  then show "window_ok (sla s')" "b \<noteq> a \<Longrightarrow> GetValidatorSigningInfo (sla s') b = GetValidatorSigningInfo (sla s) b"
    "led s' = led s" "dis s' = dis s"
    "GetValidatorSigningInfo (sla s') b = Some info' \<Longrightarrow>
       \<exists>info. GetValidatorSigningInfo (sla s) b = Some info \<and> IndexOffset info' \<le> IndexOffset info + 1"
    by auto
qed

lemma slashing_BeginBlocker_window:
  assumes "window_ok (sla s)" "slashing_BeginBlocker ctx votes s = Inr s'"
    "\<And>a info. GetValidatorSigningInfo (sla s) a = Some info \<Longrightarrow> IndexOffset info + int (length votes) < 2 ^ 63"
  shows "window_ok (sla s') \<and> led s' = led s \<and> dis s' = dis s"
  using assms unfolding slashing_BeginBlocker_def
proof (induction votes arbitrary: s)
  case (Cons v votes)
  obtain a p sg where v: "v = (a, p, sg)" by (cases v)
  then obtain s1 where s1: "HandleValidatorSignature ctx a p sg s = Inr s1"
    and rest: "rfold (\<lambda>(addr, pow, signed) s. HandleValidatorSignature ctx addr pow signed s) votes s1 = Inr s'"
    using Cons.prems(2) by auto
  have b: "\<And>info. GetValidatorSigningInfo (sla s) a = Some info \<Longrightarrow> IndexOffset info < 2 ^ 63 - 1"
    using Cons.prems(3) [of a] by fastforce
  note h = HandleValidatorSignature_window [OF Cons.prems(1) s1 b]
  have "window_ok (sla s') \<and> led s' = led s1 \<and> dis s' = dis s1"
  proof (rule Cons.IH [OF h(1) rest])
    fix c info' assume "GetValidatorSigningInfo (sla s1) c = Some info'"
    from h(5) [OF _ this] obtain info where "GetValidatorSigningInfo (sla s) c = Some info" "IndexOffset info' \<le> IndexOffset info + 1" by auto
    then show "IndexOffset info' + int (length votes) < 2 ^ 63" using Cons.prems(3) [of c info] by simp
  qed auto
  then show ?case using h(3,4) by auto
qed simp

section \<open>Properties of the slashing module\<close>

lemma SetBit_duration [simp]: "DowntimeJailDuration (SetValidatorMissedBlockBitArray a i m sl) = DowntimeJailDuration sl"
  by (simp add: SetValidatorMissedBlockBitArray_def)

lemma GetValidator_kv: "GetValidator st a = kv_get (validators st) a"
  by (simp add: GetValidator_def)

lemma jailValidator_eq_Inr:
  "jailValidator v st = Inr st' \<Longrightarrow> \<not> Jailed v \<and> validatorsByConsAddr st' = validatorsByConsAddr st \<and>
     validators st' = kv_set (OperatorAddress v) (v\<lparr>Jailed := True\<rparr>) (validators st)"
  by (auto simp: jailValidator_def Let_def DeleteValidatorByPowerIndex_def SetValidator_def split: if_splits)

lemma unjailValidator_eq_Inr:
  "unjailValidator v st = Inr st' \<Longrightarrow> Jailed v \<and> validatorsByConsAddr st' = validatorsByConsAddr st \<and>
     validators st' = kv_set (OperatorAddress v) (v\<lparr>Jailed := False\<rparr>) (validators st)"
  by (auto simp: unjailValidator_def Let_def SetValidatorByPowerIndex_def SetNewValidatorByPowerIndex_def SetValidator_def
      SetProposeValidator_def split: if_splits)

lemma mustGet_eq_Inr [simp]: "mustGetValidatorByConsAddr st a = Inr v \<longleftrightarrow> GetValidatorByConsAddr st a = Some v"
  by (auto simp: mustGetValidatorByConsAddr_def split: option.splits)

text \<open>Validators are stored under their operator address.\<close>

definition val_keys :: "staking \<Rightarrow> bool" where
  "val_keys st \<longleftrightarrow> (\<forall>a v. kv_get (validators st) a = Some v \<longrightarrow> OperatorAddress v = a)"

lemma Jail_by_cons:
  assumes "val_keys st" "rbind (Jail a st) (AppendAbandonedValidatorAddrs a) = Inr st'" "GetValidatorByConsAddr st a = Some v"
  shows "GetValidatorByConsAddr st' a = Some (v\<lparr>Jailed := True\<rparr>)" "abandonedValidators st' = abandonedValidators st @ [OperatorAddress v]"
proof -
  from assms(2,3) obtain st1 where j: "jailValidator v st = Inr st1" and st': "AppendAbandonedValidatorAddrs a st1 = Inr st'"
    by (auto simp: Jail_def)
  have op: "kv_get (validatorsByConsAddr st) a = Some (OperatorAddress v)"
    using assms(1,3) by (auto simp: GetValidatorByConsAddr_def GetValidator_def val_keys_def split: option.splits)
  have "GetValidatorByConsAddr st1 a = Some (v\<lparr>Jailed := True\<rparr>)" "abandonedValidators st1 = abandonedValidators st"
    using jailValidator_eq_Inr [OF j] op j
    by (auto simp: GetValidatorByConsAddr_def GetValidator_def jailValidator_def Let_def DeleteValidatorByPowerIndex_def SetValidator_def split: if_splits)
  then show "GetValidatorByConsAddr st' a = Some (v\<lparr>Jailed := True\<rparr>)" "abandonedValidators st' = abandonedValidators st @ [OperatorAddress v]"
    using st' by (auto simp: AppendAbandonedValidatorAddrs_def GetValidatorByConsAddr_def GetValidator_def split: option.splits)
qed

text \<open>C19: The missed-block counter of every validator is, after any block, the number of set bits of its
  window, and every set bit lies within the window: the begin blocker keeps both for all votes of the
  block, so the counter never overflows and never exceeds the window.\<close>

theorem slashing_BeginBlocker_counts:
  assumes "window_ok (sla s)" "slashing_BeginBlocker ctx votes s = Inr s'"
    "\<forall>a info. GetValidatorSigningInfo (sla s) a = Some info \<longrightarrow> IndexOffset info + int (length votes) < 2 ^ 63"
    "GetValidatorSigningInfo (sla s') a = Some info'"
  shows "window_ok (sla s') \<and> MissedBlocksCounter info' = int (card {i. GetValidatorMissedBlockBitArray (sla s') a i}) \<and>
    0 \<le> MissedBlocksCounter info' \<and> MissedBlocksCounter info' \<le> SignedBlocksWindow (sla s') \<and> led s' = led s \<and> dis s' = dis s"
proof -
  have w: "window_ok (sla s')" "led s' = led s" "dis s' = dis s" using slashing_BeginBlocker_window [OF assms(1,2)] assms(3) by auto
  then have "MissedBlocksCounter info' = missed_bits (sla s') a" "0 < SignedBlocksWindow (sla s')"
    "\<And>i. GetValidatorMissedBlockBitArray (sla s') a i \<Longrightarrow> 0 \<le> i \<and> i < SignedBlocksWindow (sla s')"
    using assms(4) by (auto simp: window_ok_def)
  then show ?thesis using missed_bits_le [of "sla s'" a "SignedBlocksWindow (sla s')"] missed_bits_card [of "sla s'" a] w by auto
qed

lemma demo_window_ok: "window_ok (sla demo_chain)"
  by (auto simp: window_ok_def demo_chain_def demo_slashing_def missed_bits_def GetValidatorMissedBlockBitArray_def GetValidatorSigningInfo_def
      split: option.splits if_splits)

theorem slashing_BeginBlocker_counts_witness:
  "\<exists>s' info'. slashing_BeginBlocker demo_ctx [(''#pk'', 1, False)] demo_chain = Inr s' \<and> GetValidatorSigningInfo (sla s') ''#pk'' = Some info' \<and>
     MissedBlocksCounter info' = int (card {i. GetValidatorMissedBlockBitArray (sla s') ''#pk'' i})"
proof -
  have "case slashing_BeginBlocker demo_ctx [(''#pk'', 1, False)] demo_chain of Inl _ \<Rightarrow> False
    | Inr s' \<Rightarrow> GetValidatorSigningInfo (sla s') ''#pk'' \<noteq> None" by code_simp
  then obtain s' info' where s': "slashing_BeginBlocker demo_ctx [(''#pk'', 1, False)] demo_chain = Inr s'"
    "GetValidatorSigningInfo (sla s') ''#pk'' = Some info'" by (auto split: sum.splits)
  have "\<forall>a info. GetValidatorSigningInfo (sla demo_chain) a = Some info \<longrightarrow> IndexOffset info + int (length [(''#pk'', 1::int, False)]) < 2 ^ 63"
    by (auto simp: demo_chain_def demo_slashing_def GetValidatorSigningInfo_def split: if_splits)
  from slashing_BeginBlocker_counts [OF demo_window_ok s'(1) this s'(2)] s' show ?thesis by blast
qed


definition demo_missing :: chain where
  "demo_missing = demo_chain\<lparr>sla := demo_slashing\<lparr>missedBlockBitArray := kv_set (''#pk'', 1) True (kv_set (''#pk'', 2) True kv_empty),
     signingInfos := kv_set ''#pk'' \<lparr>si_Address = ''#pk'', StartHeight = 0, IndexOffset = 4, JailedUntil = 0, Tombstoned = False,
       MissedBlocksCounter = 2, ValidatorStatus = Created\<rparr> kv_empty\<rparr>\<rparr>"

lemma demo_missing_ok: "window_ok (sla demo_missing)" "val_keys (stk demo_missing)"
  by (auto simp: window_ok_def demo_missing_def demo_slashing_def missed_bits_def GetValidatorMissedBlockBitArray_def GetValidatorSigningInfo_def
      val_keys_def demo_chain_def demo_staking_def demo_validator_def NewValidator_def split: option.splits if_splits)



definition demo_jailed :: chain where
  "demo_jailed = demo_chain\<lparr>stk := demo_staking\<lparr>validators := kv_set ''val'' (demo_validator\<lparr>Jailed := True\<rparr>) kv_empty\<rparr>\<rparr>"


end
