(* ===== verification/StakingOps.thy ===== *)
theory StakingOps
  imports Distribution Slashing
begin

text \<open>
  The staking module (\<open>x/staking\<close>): creating, editing and destroying validators, depositing and
  withdrawing stake, adding shares to validators, proxies, and the end-of-block update of the
  validator set.  The hooks call the distribution module, then the slashing module, in the order
  the application registers them.

  A failing message is rolled back by the caller, so a failing operation returns no state.
\<close>

section \<open>Hooks\<close>

definition AfterValidatorCreated :: "supply_keeper \<Rightarrow> bytes \<Rightarrow> chain \<Rightarrow> chain res" where
  "AfterValidatorCreated k valAddr s = rbind (distr_AfterValidatorCreated valAddr s) (slashing_AfterValidatorCreated k valAddr)"

definition AfterValidatorRemoved :: "supply_keeper \<Rightarrow> bytes \<Rightarrow> bytes \<Rightarrow> chain \<Rightarrow> chain res" where
  "AfterValidatorRemoved k consAddr valAddr s =
     rbind (distr_AfterValidatorRemoved k valAddr s) (\<lambda>s'. Inr (slashing_AfterValidatorRemoved consAddr s'))"

definition AfterValidatorBonded :: "block_ctx \<Rightarrow> bytes \<Rightarrow> chain \<Rightarrow> chain" where
  "AfterValidatorBonded ctx consAddr s = slashing_AfterValidatorBonded ctx consAddr s"

definition AfterValidatorDestroyed :: "supply_keeper \<Rightarrow> bytes \<Rightarrow> chain \<Rightarrow> chain" where
  "AfterValidatorDestroyed k valAddr s = slashing_AfterValidatorDestroyed k valAddr s"

definition BeforeDelegationCreated :: "bytes list \<Rightarrow> chain \<Rightarrow> chain res" where
  "BeforeDelegationCreated valAddrs s = distr_BeforeDelegationCreated valAddrs s"

definition BeforeDelegationSharesModified :: "supply_keeper \<Rightarrow> block_ctx \<Rightarrow> bytes \<Rightarrow> bytes list \<Rightarrow> chain \<Rightarrow> chain res" where
  "BeforeDelegationSharesModified k ctx delAddr valAddrs s = distr_BeforeDelegationSharesModified k ctx delAddr valAddrs s"

definition AfterDelegationModified :: "block_ctx \<Rightarrow> bytes \<Rightarrow> bytes list \<Rightarrow> chain \<Rightarrow> chain res" where
  "AfterDelegationModified ctx delAddr valAddrs s = distr_AfterDelegationModified ctx delAddr valAddrs s"

definition CheckEnabled :: "chain \<Rightarrow> bool" where
  "CheckEnabled s = GetWithdrawRewardEnabled (dis s)"

text \<open>An update of the staking store that cannot fail.\<close>

definition upd_stk :: "(staking \<Rightarrow> staking) \<Rightarrow> chain \<Rightarrow> chain" where
  "upd_stk f s = s\<lparr>stk := f (stk s)\<rparr>"

section \<open>Removing a validator\<close>

definition RemoveValidator :: "supply_keeper \<Rightarrow> bytes \<Rightarrow> chain \<Rightarrow> chain res" where
  "RemoveValidator k address s =
     (case GetValidator (stk s) address of
        None \<Rightarrow> Inr s
      | Some v \<Rightarrow>
          if \<not> IsUnbonded v then Inl (Panic ''cannot call RemoveValidator on bonded or unbonding validators'')
          else if val_Tokens v > 0 then Inl (Panic ''attempting to remove a validator which still contains tokens'')
          else rbind (with_stk (\<lambda>st.
                 DeleteValidatorByPowerIndex v
                   (st\<lparr>validators := kv_del address (validators st),
                       validatorsByConsAddr := kv_del (ConsAddress k v) (validatorsByConsAddr st)\<rparr>)) s) (\<lambda>s1.
               AfterValidatorRemoved k (ConsAddress k v) (OperatorAddress v) s1))"

section \<open>Shares\<close>

definition calculateWeight :: "Dec \<Rightarrow> Dec" where "calculateWeight tokens = tokens"

text \<open>The slice of validators is \<open>nil\<close> exactly when it is empty.\<close>

definition GetLastValsAddedSharesExisted :: "staking \<Rightarrow> bytes \<Rightarrow> Validator list \<times> Dec" where
  "GetLastValsAddedSharesExisted st delAddr =
     (case GetDelegator st delAddr of
        None \<Rightarrow> ([], ZeroDec)
      | Some d \<Rightarrow> (List.map_filter (GetValidator st) (ValidatorAddresses d), Shares d))"

definition withdrawShares :: "supply_keeper \<Rightarrow> bytes \<Rightarrow> Validator \<Rightarrow> Dec \<Rightarrow> chain \<Rightarrow> chain res" where
  "withdrawShares k delAddr v shares s =
     rbind (with_stk (\<lambda>st. DeleteValidatorByPowerIndex v (DeleteShares (OperatorAddress v) delAddr st)) s) (\<lambda>s1.
     rbind (Dec_Sub (DelegatorShares v) shares) (\<lambda>left.
     let v' = v\<lparr>DelegatorShares := left\<rparr>
     in if IsUnbonded v' \<and> MinSelfDelegation v' = 0 \<and> DelegatorShares v' = 0 then RemoveValidator k (OperatorAddress v') s1
        else with_stk (\<lambda>st. SetValidatorByPowerIndex v' (SetValidator v' st)) s1))"

definition WithdrawLastShares :: "supply_keeper \<Rightarrow> block_ctx \<Rightarrow> bytes \<Rightarrow> Validator list \<Rightarrow> Dec \<Rightarrow> chain \<Rightarrow> chain res" where
  "WithdrawLastShares k ctx delAddr lastVals lastShares s =
     rbind (if length lastVals > 0 then BeforeDelegationSharesModified k ctx delAddr (map OperatorAddress lastVals) s else Inr s) (\<lambda>s1.
       rfold (\<lambda>v s. withdrawShares k delAddr v lastShares s) lastVals s1)"

definition addShares :: "bytes \<Rightarrow> Validator \<Rightarrow> Dec \<Rightarrow> staking \<Rightarrow> staking res" where
  "addShares delAddr v shares st =
     rbind (DeleteValidatorByPowerIndex v (SetShares delAddr (OperatorAddress v) shares st)) (\<lambda>st1.
     rbind (Dec_Add (DelegatorShares v) shares) (\<lambda>total.
     let v' = v\<lparr>DelegatorShares := total\<rparr> in SetValidatorByPowerIndex v' (SetValidator v' st1)))"

definition AddSharesToValidators :: "bytes \<Rightarrow> Validator list \<Rightarrow> Dec \<Rightarrow> chain \<Rightarrow> (Dec \<times> chain) res" where
  "AddSharesToValidators delAddr vals tokens s =
     (let shares = calculateWeight tokens
      in rbind (rfold (\<lambda>v. with_stk (addShares delAddr v shares)) vals s) (\<lambda>s'. Inr (shares, s')))"

definition GetValidatorsToAddShares :: "staking \<Rightarrow> bytes list \<Rightarrow> Validator list res" where
  "GetValidatorsToAddShares st valAddrs =
     rfold (\<lambda>a vals. case GetValidator st a of None \<Rightarrow> Inl (Err ''ErrNoValidatorFound'') | Some v \<Rightarrow> Inr (vals @ [v])) valAddrs []"

definition update_validator_shares :: "bytes \<Rightarrow> Dec \<Rightarrow> Dec \<Rightarrow> Validator \<Rightarrow> staking \<Rightarrow> staking res" where
  "update_validator_shares delAddr lastShares shares v st =
     (if MinSelfDelegation v < ParamsMinSelfDelegation (params st) then Inl (Err ''ErrAddSharesToDismission'')
      else rbind (DeleteValidatorByPowerIndex v st) (\<lambda>st1.
           let st2 = SetShares delAddr (OperatorAddress v) shares st1
           in rbind (Dec_Sub (DelegatorShares v) lastShares) (\<lambda>left.
              rbind (Dec_Add left shares) (\<lambda>total.
              let v' = v\<lparr>DelegatorShares := total\<rparr> in SetValidatorByPowerIndex v' (SetValidator v' st2)))))"

definition UpdateShares :: "supply_keeper \<Rightarrow> block_ctx \<Rightarrow> bytes \<Rightarrow> Dec \<Rightarrow> chain \<Rightarrow> chain res" where
  "UpdateShares k ctx delAddr tokens s =
     (let (vals, lastShares) = GetLastValsAddedSharesExisted (stk s) delAddr
      in if vals = [] then Inr s
         else rbind (BeforeDelegationSharesModified k ctx delAddr (map OperatorAddress vals) s) (\<lambda>s1.
              let shares = calculateWeight tokens
              in case GetDelegator (stk s1) delAddr of
                   None \<Rightarrow> Inl (Err ''ErrNoDelegatorExisted'')
                 | Some d \<Rightarrow>
                     rbind (rfold (\<lambda>v. with_stk (update_validator_shares delAddr lastShares shares v)) vals s1) (\<lambda>s2.
                       AfterDelegationModified ctx (DelegatorAddress d) (map OperatorAddress vals)
                         (upd_stk (SetDelegator (d\<lparr>Shares := shares\<rparr>)) s2))))"

section \<open>Depositing and withdrawing\<close>

definition bondedTokensToNotBonded :: "supply_keeper \<Rightarrow> DecCoin \<Rightarrow> chain \<Rightarrow> chain res" where
  "bondedTokensToNotBonded k tokens s =
     rbind (ToCoins tokens) (\<lambda>coins.
       must (with_led (SendCoinsFromModuleToModule k BondedPoolName NotBondedPoolName coins) s))"

definition UpdateProxy :: "supply_keeper \<Rightarrow> block_ctx \<Rightarrow> Delegator \<Rightarrow> Dec \<Rightarrow> chain \<Rightarrow> chain res" where
  "UpdateProxy k ctx d tokens s =
     (case ProxyAddress d of
        None \<Rightarrow> Inr s
      | Some proxyAddr \<Rightarrow>
          (case GetDelegator (stk s) proxyAddr of
             None \<Rightarrow> Inl (Err ''ErrInvalidAddress'')
           | Some proxy \<Rightarrow>
               rbind (Dec_Add (TotalDelegatedTokens proxy) tokens) (\<lambda>total.
                 if total < ZeroDec then Inl (Err ''ErrInvalidProxyUpdating'')
                 else rbind (Dec_Add total (Tokens proxy)) (\<lambda>finalTokens.
                        let proxy' = proxy\<lparr>TotalDelegatedTokens := total\<rparr>
                        in UpdateShares k ctx (DelegatorAddress proxy') finalTokens (upd_stk (SetDelegator proxy') s)))))"

text \<open>The tokens that give a delegator without a proxy its shares.\<close>

definition final_tokens :: "Delegator \<Rightarrow> Dec res" where
  "final_tokens d = (if IsProxy d then Dec_Add (Tokens d) (TotalDelegatedTokens d) else Inr (Tokens d))"

definition Delegate :: "supply_keeper \<Rightarrow> block_ctx \<Rightarrow> bytes \<Rightarrow> DecCoin \<Rightarrow> chain \<Rightarrow> chain res" where
  "Delegate k ctx delAddr token s =
     (if Amount token < MinDelegation (params (stk s)) then Inl (Err ''ErrInsufficientQuantity'')
      else rbind (with_led (DelegateCoinsFromAccountToModule k delAddr BondedPoolName [token]) s) (\<lambda>s1.
           let d = (case GetDelegator (stk s1) delAddr of None \<Rightarrow> NewDelegator delAddr | Some d \<Rightarrow> d)
           in rbind (Dec_Add (Tokens d) (Amount token)) (\<lambda>tokens.
              let d' = d\<lparr>Tokens := tokens\<rparr>; s2 = upd_stk (SetDelegator d') s1
              in if HasProxy d' then UpdateProxy k ctx d' (Amount token) s2
                 else rbind (final_tokens d') (\<lambda>finalTokens. UpdateShares k ctx (DelegatorAddress d') finalTokens s2))))"

text \<open>Step 2 of \<open>Withdraw\<close>: the delegator's record and shares.\<close>

definition withdraw_delegator :: "supply_keeper \<Rightarrow> block_ctx \<Rightarrow> bytes \<Rightarrow> Delegator \<Rightarrow> Dec \<Rightarrow> chain \<Rightarrow> chain res" where
  "withdraw_delegator k ctx delAddr d leftTokens s =
     (if leftTokens = 0 then
        let (lastVals, lastShares) = GetLastValsAddedSharesExisted (stk s) delAddr
        in rbind (WithdrawLastShares k ctx delAddr lastVals lastShares s) (\<lambda>s1.
           let s2 = (case ProxyAddress d of None \<Rightarrow> s1 | Some p \<Rightarrow> upd_stk (SetProxyBinding p delAddr True) s1)
           in Inr (upd_stk (DeleteDelegator delAddr) s2))
      else
        let d' = d\<lparr>Tokens := leftTokens\<rparr>; s1 = upd_stk (SetDelegator d') s
        in if \<not> HasProxy d' then
             rbind (final_tokens d') (\<lambda>finalTokens. UpdateShares k ctx (DelegatorAddress d') finalTokens s1)
           else Inr s1)"

text \<open>Step 3: the undelegation is merged with the one that is pending.\<close>

definition set_undelegation :: "bytes \<Rightarrow> Dec \<Rightarrow> time \<Rightarrow> staking \<Rightarrow> staking res" where
  "set_undelegation delAddr quantity completionTime st =
     (case GetUndelegating st delAddr of
        None \<Rightarrow> Inr (SetAddrByTimeKeyWithNilValue completionTime delAddr
                  (SetUndelegating (NewUndelegationInfo delAddr quantity completionTime) st))
      | Some ud \<Rightarrow>
          rbind (Dec_Add (Quantity ud) quantity) (\<lambda>q.
            Inr (SetAddrByTimeKeyWithNilValue completionTime delAddr
                  (SetUndelegating (ud\<lparr>Quantity := q, CompletionTime := completionTime\<rparr>)
                    (DeleteAddrByTimeKey (CompletionTime ud) delAddr st)))))"

definition Withdraw :: "supply_keeper \<Rightarrow> block_ctx \<Rightarrow> bytes \<Rightarrow> DecCoin \<Rightarrow> chain \<Rightarrow> (time \<times> chain) res" where
  "Withdraw k ctx delAddr token s =
     (case GetDelegator (stk s) delAddr of
        None \<Rightarrow> Inl (Err ''ErrNoDelegationToAddShares'')
      | Some d \<Rightarrow>
          let quantity = Amount token
          in if quantity < MinDelegation (params (stk s)) then Inl (Err ''ErrInsufficientQuantity'')
             else if Tokens d < quantity then Inl (Err ''ErrInsufficientDelegation'')
             else rbind (Dec_Sub (Tokens d) quantity) (\<lambda>leftTokens.
               if IsProxy d \<and> leftTokens = 0 then Inl (Err ''ErrInvalidProxyWithdrawTotal'')
               else rbind (bondedTokensToNotBonded k token s) (\<lambda>s1.
                    rbind (if HasProxy d then
                             rbind (NewDec (- 1)) (\<lambda>minus1. rbind (Dec_Mul quantity minus1) (\<lambda>q. UpdateProxy k ctx d q s1))
                           else Inr s1) (\<lambda>s2.
                    rbind (withdraw_delegator k ctx delAddr d leftTokens s2) (\<lambda>s3.
                    let completionTime = BlockTime ctx + UnbondingTime (params (stk s3))
                    in rbind (with_stk (set_undelegation delAddr quantity completionTime) s3) (\<lambda>s4.
                         Inr (completionTime, s4)))))))"

definition CompleteUndelegation :: "supply_keeper \<Rightarrow> bytes \<Rightarrow> chain \<Rightarrow> chain res" where
  "CompleteUndelegation k delAddr s =
     (case GetUndelegating (stk s) delAddr of
        None \<Rightarrow> Inl (Err ''ErrNotInDelegating'')
      | Some ud \<Rightarrow>
          rbind (NewDecCoinFromDec DefaultBondDenom (Quantity ud)) (\<lambda>coin.
          rbind (with_led (UndelegateCoinsFromModuleToAccount k NotBondedPoolName (ud_DelegatorAddress ud) [coin]) s) (\<lambda>s1.
            Inr (upd_stk (DeleteUndelegating delAddr) s1))))"

text \<open>The end blocker logs an error and goes on; the module account the attempt may have created
  stays, and nothing else was written.\<close>

definition complete_or_log :: "supply_keeper \<Rightarrow> bytes \<Rightarrow> chain \<Rightarrow> chain res" where
  "complete_or_log k delAddr s =
     (case CompleteUndelegation k delAddr s of
        Inr s' \<Rightarrow> Inr s'
      | Inl (Panic p) \<Rightarrow> Inl (Panic p)
      | Inl (Err _) \<Rightarrow>
          (case GetUndelegating (stk s) delAddr of
             None \<Rightarrow> Inr s
           | Some _ \<Rightarrow> rbind (module_account k NotBondedPoolName (led s)) (\<lambda>(_, l). Inr (s\<lparr>led := l\<rparr>))))"

section \<open>The minimum self delegation\<close>

definition getSharesFromDefaultMinSelfDelegation :: Dec where "getSharesFromDefaultMinSelfDelegation = OneDec"

text \<open>Steps 3 to 6 of \<open>WithdrawMinSelfDelegation\<close>, after the tokens left the pool.\<close>

definition destroy_validator :: "supply_keeper \<Rightarrow> Validator \<Rightarrow> Dec \<Rightarrow> chain \<Rightarrow> chain res" where
  "destroy_validator k validator remainShares s =
     (let v = validator\<lparr>MinSelfDelegation := ZeroDec, Jailed := True\<rparr>;
          s1 = AfterValidatorDestroyed k (OperatorAddress v) s;
          finish = (\<lambda>s. with_stk (\<lambda>st. rbind (DeleteValidatorByPowerIndex v st) (\<lambda>st1.
                            Inr (SetValidator (v\<lparr>DelegatorShares := remainShares\<rparr>) st1))) s)
      in case Status v of
           Bonded \<Rightarrow> rbind (with_stk (AppendAbandonedValidatorAddrs (ConsAddress k v)) s1) finish
         | Unbonding \<Rightarrow> finish s1
         | Unbonded \<Rightarrow>
             if remainShares = 0 \<and> MinSelfDelegation v = 0 then RemoveValidator k (OperatorAddress v) s1
             else finish s1)"

definition WithdrawMinSelfDelegation :: "supply_keeper \<Rightarrow> block_ctx \<Rightarrow> bytes \<Rightarrow> Validator \<Rightarrow> chain \<Rightarrow> (time \<times> chain) res" where
  "WithdrawMinSelfDelegation k ctx delAddr validator s =
     (if MinSelfDelegation validator = 0 then Inl (Err ''ErrNoMinSelfDelegation'')
      else rbind (Dec_Sub (DelegatorShares validator) getSharesFromDefaultMinSelfDelegation) (\<lambda>remainShares.
        if remainShares < ZeroDec then Inl (Err ''ErrMoreMinSelfDelegation'')
        else rbind (NewDecCoinFromDec DefaultBondDenom (MinSelfDelegation validator)) (\<lambda>coin.
             rbind (bondedTokensToNotBonded k coin s) (\<lambda>s1.
             let completionTime = BlockTime ctx + UnbondingTime (params (stk s1));
                 ud = NewUndelegationInfo delAddr (MinSelfDelegation validator) completionTime;
                 s2 = upd_stk (\<lambda>st. SetAddrByTimeKeyWithNilValue (CompletionTime ud) (ud_DelegatorAddress ud) (SetUndelegating ud st)) s1
             in rbind (destroy_validator k validator remainShares s2) (\<lambda>s3. Inr (completionTime, s3))))))"

text \<open>The deposit of the self delegation, when it is not zero.\<close>

definition deposit_msd :: "supply_keeper \<Rightarrow> bytes \<Rightarrow> DecCoin \<Rightarrow> chain \<Rightarrow> chain res" where
  "deposit_msd k delAddr token s =
     rbind (AmountOf [token] DefaultBondDenom) (\<lambda>a.
       if a > ZeroDec then with_led (DelegateCoinsFromAccountToModule k delAddr BondedPoolName [token]) s else Inr s)"

definition AddSharesAsMinSelfDelegation :: "supply_keeper \<Rightarrow> bytes \<Rightarrow> Validator \<Rightarrow> DecCoin \<Rightarrow> chain \<Rightarrow> chain res" where
  "AddSharesAsMinSelfDelegation k delAddr validator defaultMSDToken s =
     rbind (deposit_msd k delAddr defaultMSDToken s) (\<lambda>s1.
       with_stk (\<lambda>st.
         rbind (DeleteValidatorByPowerIndex validator st) (\<lambda>st1.
         rbind (Dec_Add (DelegatorShares validator) getSharesFromDefaultMinSelfDelegation) (\<lambda>total.
         let v' = validator\<lparr>DelegatorShares := total\<rparr> in SetValidatorByPowerIndex v' (SetValidator v' st1)))) s1)"

text \<open>The caller goes on with the validator the call has modified.\<close>

definition DepositMinSelfDelegation :: "supply_keeper \<Rightarrow> bytes \<Rightarrow> Validator \<Rightarrow> DecCoin \<Rightarrow> chain \<Rightarrow> (Validator \<times> chain) res" where
  "DepositMinSelfDelegation k delAddr validator defaultMSDToken s =
     rbind (deposit_msd k delAddr defaultMSDToken s) (\<lambda>s1.
       if DelegatorShares validator = 0 then
         let v' = validator\<lparr>DelegatorShares := getSharesFromDefaultMinSelfDelegation\<rparr>
         in rbind (with_stk (\<lambda>st.
              rbind (DeleteValidatorByPowerIndex validator st) (\<lambda>st1. SetValidatorByPowerIndex v' (SetValidator v' st1))) s1) (\<lambda>s2.
            Inr (v', s2))
       else Inr (validator, s1))"

section \<open>Validator state changes\<close>

definition bondValidator :: "supply_keeper \<Rightarrow> block_ctx \<Rightarrow> Validator \<Rightarrow> chain \<Rightarrow> (Validator \<times> chain) res" where
  "bondValidator k ctx v s =
     (let v' = UpdateStatus v Bonded
      in rbind (with_stk (\<lambda>st.
           rbind (DeleteValidatorByPowerIndex v st) (\<lambda>st1.
           rbind (SetValidatorByPowerIndex v' (SetValidator v' st1)) (\<lambda>st2.
             Inr (DeleteValidatorQueue v' st2)))) s) (\<lambda>s1.
         Inr (v', AfterValidatorBonded ctx (ConsAddress k v') s1)))"

definition beginUnbondingValidator :: "block_ctx \<Rightarrow> Validator \<Rightarrow> chain \<Rightarrow> (Validator \<times> chain) res" where
  "beginUnbondingValidator ctx v s =
     rbind (with_stk (DeleteValidatorByPowerIndex v) s) (\<lambda>s1.
       if Status v \<noteq> Bonded then Inl (Panic ''should not already be unbonded or unbonding'')
       else let v' = (UpdateStatus v Unbonding)\<lparr>UnbondingCompletionTime := BlockTime ctx + UnbondingTime (params (stk s1)),
                                               UnbondingHeight := BlockHeight ctx\<rparr>
            in rbind (with_stk (\<lambda>st.
                 rbind (SetValidatorByPowerIndex v' (SetValidator v' st)) (\<lambda>st1. Inr (InsertValidatorQueue v' st1))) s1) (\<lambda>s2.
               Inr (v', s2)))"

definition completeUnbondingValidator :: "Validator \<Rightarrow> chain \<Rightarrow> Validator \<times> chain" where
  "completeUnbondingValidator v s = (let v' = UpdateStatus v Unbonded in (v', upd_stk (SetValidator v') s))"

definition bondedToUnbonding :: "block_ctx \<Rightarrow> Validator \<Rightarrow> chain \<Rightarrow> (Validator \<times> chain) res" where
  "bondedToUnbonding ctx v s =
     (if \<not> IsBonded v then Inl (Panic ''bad state transition bondedToUnbonding'') else beginUnbondingValidator ctx v s)"

definition unbondingToBonded :: "supply_keeper \<Rightarrow> block_ctx \<Rightarrow> Validator \<Rightarrow> chain \<Rightarrow> (Validator \<times> chain) res" where
  "unbondingToBonded k ctx v s =
     (if \<not> IsUnbonding v then Inl (Panic ''bad state transition unbondingToBonded'') else bondValidator k ctx v s)"

definition unbondedToBonded :: "supply_keeper \<Rightarrow> block_ctx \<Rightarrow> Validator \<Rightarrow> chain \<Rightarrow> (Validator \<times> chain) res" where
  "unbondedToBonded k ctx v s =
     (if \<not> IsUnbonded v then Inl (Panic ''bad state transition unbondedToBonded'') else bondValidator k ctx v s)"

definition unbondingToUnbonded :: "Validator \<Rightarrow> chain \<Rightarrow> (Validator \<times> chain) res" where
  "unbondingToUnbonded v s =
     (if \<not> IsUnbonding v then Inl (Panic ''bad state transition unbondingToBonded'') else Inr (completeUnbondingValidator v s))"

definition UnbondAllMatureValidatorQueue :: "supply_keeper \<Rightarrow> block_ctx \<Rightarrow> chain \<Rightarrow> chain res" where
  "UnbondAllMatureValidatorQueue k ctx s =
     rfold (\<lambda>(t, timeslice) s.
       rbind (rfold (\<lambda>valAddr s.
         case GetValidator (stk s) valAddr of
           None \<Rightarrow> Inl (Panic ''validator in the unbonding queue was not found'')
         | Some v \<Rightarrow>
             if \<not> IsUnbonding v then Inl (Panic ''unexpected validator in unbonding queue; status was not unbonding'')
             else rbind (unbondingToUnbonded v s) (\<lambda>(v', s1).
               if DelegatorShares v' = 0 \<and> MinSelfDelegation v' = 0 then RemoveValidator k (OperatorAddress v') s1
               else Inr s1)) timeslice s) (\<lambda>s1.
         Inr (upd_stk (DeleteValidatorQueueTimeSlice t) s1)))
       (filter (\<lambda>(t, _). t \<le> BlockTime ctx) (kv_entries (validatorQueue (stk s)))) s"

section \<open>The validator set\<close>

text \<open>A candidate enters the validator set.\<close>

definition promote :: "supply_keeper \<Rightarrow> block_ctx \<Rightarrow> Validator \<Rightarrow> chain \<Rightarrow> (Validator \<times> chain) res" where
  "promote k ctx v s =
     (case Status v of
        Unbonded \<Rightarrow> unbondedToBonded k ctx v s
      | Unbonding \<Rightarrow> unbondingToBonded k ctx v s
      | Bonded \<Rightarrow> Inl (Panic ''Panic. Candidate validator is not allowed to be in bonded status''))"

definition enter_set :: "supply_keeper \<Rightarrow> block_ctx \<Rightarrow> Validator \<Rightarrow> bytes \<Rightarrow> ValidatorUpdate list \<Rightarrow> SdkInt \<Rightarrow> chain
    \<Rightarrow> (ValidatorUpdate list \<times> SdkInt \<times> chain) res" where
  "enter_set k ctx v valAddr updates totalPower s =
     rbind (promote k ctx v s) (\<lambda>(v', s1).
     rbind (ConsensusPowerByShares v') (\<lambda>newPower.
     rbind (ABCIValidatorUpdateByShares v') (\<lambda>u.
     rbind (Int_Add totalPower newPower) (\<lambda>total.
       Inr (updates @ [u], total, upd_stk (SetLastValidatorPower valAddr newPower) s1)))))"

text \<open>A bonded validator leaves the set; its power in the last set is taken off the total.\<close>

definition leave_set :: "block_ctx \<Rightarrow> (bytes \<times> int) list \<Rightarrow> Validator \<Rightarrow> bytes \<Rightarrow> ValidatorUpdate list \<Rightarrow> SdkInt \<Rightarrow> chain
    \<Rightarrow> (ValidatorUpdate list \<times> SdkInt \<times> chain) res" where
  "leave_set ctx lastVals v valAddr updates totalPower s =
     (case Status v of
        Unbonded \<Rightarrow> Inr (updates, totalPower, s)
      | Unbonding \<Rightarrow> Inr (updates, totalPower, s)
      | Bonded \<Rightarrow>
          rbind (bondedToUnbonding ctx v s) (\<lambda>(_, s1).
          let s2 = upd_stk (DeleteLastValidatorPower (OperatorAddress v)) s1
          in case map_of lastVals valAddr of
               None \<Rightarrow> Inl (Panic ''Never occur'')
             | Some oldPower \<Rightarrow>
                 rbind (Int_Sub totalPower oldPower) (\<lambda>total. Inr (updates @ [ABCIValidatorUpdateZero v], total, s2))))"

text \<open>Step 3 of \<open>KickOutAndReturnValidatorSetUpdates\<close> for one entry of the power index; the loop ends
  when as many candidates were promoted as validators are abandoned.\<close>

definition promote_candidate :: "supply_keeper \<Rightarrow> block_ctx \<Rightarrow> (bytes \<times> int) list \<Rightarrow> (int \<times> bytes) \<times> bytes
    \<Rightarrow> nat \<times> ValidatorUpdate list \<times> SdkInt \<times> chain \<Rightarrow> (nat \<times> ValidatorUpdate list \<times> SdkInt \<times> chain) res" where
  "promote_candidate k ctx lastVals = (\<lambda>(_, valAddr) (abandonedNum, updates, totalPower, s).
     if abandonedNum = 0 then Inr (abandonedNum, updates, totalPower, s)
     else if map_of lastVals valAddr \<noteq> None then Inr (abandonedNum, updates, totalPower, s)
     else rbind (mustGetValidator (stk s) valAddr) (\<lambda>v.
          rbind (PotentialConsensusPowerByShares v) (\<lambda>pow.
            if pow = 0 then Inr (abandonedNum, updates, totalPower, s)
            else rbind (enter_set k ctx v valAddr updates totalPower s) (\<lambda>(updates', total, s').
                   Inr (abandonedNum - 1, updates', total, s')))))"

definition KickOutAndReturnValidatorSetUpdates :: "supply_keeper \<Rightarrow> block_ctx \<Rightarrow> chain \<Rightarrow> (ValidatorUpdate list \<times> chain) res" where
  "KickOutAndReturnValidatorSetUpdates k ctx s =
     (let lastBondedVals = GetLastValidatorsByAddr (stk s);
          abandonedValAddrs = abandonedValidators (stk s)
      in rbind (rfold (promote_candidate k ctx lastBondedVals) (ValidatorsPowerStoreIterator (stk s))
                  (length abandonedValAddrs, [], LastTotalPower (stk s), s)) (\<lambda>(_, updates, totalPower, s1).
         rbind (rfold (\<lambda>valAddr (updates, totalPower, s).
                  rbind (mustGetValidator (stk s) valAddr) (\<lambda>v. leave_set ctx lastBondedVals v valAddr updates totalPower s))
                  abandonedValAddrs (updates, totalPower, s1)) (\<lambda>(updates', total, s2).
           Inr (updates', upd_stk (SetLastTotalPower total) s2))))"

text \<open>The election: the entries of the power index from the highest, at most \<open>maxValidators\<close>, up to the
  first without power.  \<open>lastVals\<close> is the copy of the last set, from which the elected are deleted.\<close>

fun elect :: "supply_keeper \<Rightarrow> block_ctx \<Rightarrow> nat \<Rightarrow> ((int \<times> bytes) \<times> bytes) list
    \<Rightarrow> ValidatorUpdate list \<Rightarrow> (bytes \<times> int) list \<Rightarrow> SdkInt \<Rightarrow> chain
    \<Rightarrow> (ValidatorUpdate list \<times> (bytes \<times> int) list \<times> SdkInt \<times> chain) res" where
  "elect k ctx maxValidators [] updates lastVals totalPower s = Inr (updates, lastVals, totalPower, s)"
| "elect k ctx 0 entries updates lastVals totalPower s = Inr (updates, lastVals, totalPower, s)"
| "elect k ctx (Suc maxValidators) ((_, valAddr) # entries) updates lastVals totalPower s =
     rbind (mustGetValidator (stk s) valAddr) (\<lambda>v.
       if Jailed v then Inl (Panic ''should never retrieve a jailed validator from the power store'')
       else rbind (PotentialConsensusPowerByShares v) (\<lambda>pow.
         if pow = 0 then Inr (updates, lastVals, totalPower, s)
         else rbind (case Status v of
                       Unbonded \<Rightarrow> unbondedToBonded k ctx v s
                     | Unbonding \<Rightarrow> unbondingToBonded k ctx v s
                     | Bonded \<Rightarrow> Inr (v, s)) (\<lambda>(v', s1).
              rbind (ConsensusPowerByShares v') (\<lambda>newPower.
              rbind (ABCIValidatorUpdateByShares v') (\<lambda>u.
              let changed = (map_of lastVals valAddr \<noteq> Some newPower);
                  s2 = (if changed then upd_stk (SetLastValidatorPower valAddr newPower) s1 else s1)
              in rbind (Int_Add totalPower newPower) (\<lambda>total.
                   elect k ctx maxValidators entries (if changed then updates @ [u] else updates)
                     (filter (\<lambda>(a, _). a \<noteq> valAddr) lastVals) total s2))))))"

definition sortNoLongerBonded :: "(bytes \<times> int) list \<Rightarrow> bytes list" where
  "sortNoLongerBonded lastVals = sort (map fst lastVals)"

definition ApplyAndReturnValidatorSetUpdates :: "supply_keeper \<Rightarrow> block_ctx \<Rightarrow> chain \<Rightarrow> (ValidatorUpdate list \<times> chain) res" where
  "ApplyAndReturnValidatorSetUpdates k ctx s =
     rbind (elect k ctx (nat (MaxValidators (params (stk s)))) (ValidatorsPowerStoreIterator (stk s)) []
              (GetLastValidatorsByAddr (stk s)) 0 s) (\<lambda>(updates, lastVals, totalPower, s1).
     rbind (rfold (\<lambda>valAddr (updates, s).
              rbind (mustGetValidator (stk s) valAddr) (\<lambda>v.
              rbind (bondedToUnbonding ctx v s) (\<lambda>(v', s').
                Inr (updates @ [ABCIValidatorUpdateZero v'], upd_stk (DeleteLastValidatorPower (OperatorAddress v')) s'))))
              (sortNoLongerBonded lastVals) (updates, s1)) (\<lambda>(updates', s2).
       Inr (updates', if updates' \<noteq> [] then upd_stk (SetLastTotalPower totalPower) s2 else s2)))"

text \<open>The proposals are a Go map: their order is the runtime's choice, so the list is an argument.\<close>

definition PoAApplyAndReturnValidatorSetUpdates :: "supply_keeper \<Rightarrow> block_ctx \<Rightarrow> (bytes \<times> bool) list \<Rightarrow> chain \<Rightarrow> (ValidatorUpdate list \<times> chain) res" where
  "PoAApplyAndReturnValidatorSetUpdates k ctx proposed s =
     (if length proposed = 0 then Inr ([], s)
      else let lastValSet = GetLastValidatorsByAddr (stk s)
           in rbind (rfold (\<lambda>(valAddr, isAdd) (updates, totalPower, s).
                rbind (mustGetValidator (stk s) valAddr) (\<lambda>v.
                  if isAdd then
                    if map_of lastValSet valAddr \<noteq> None then Inr (updates, totalPower, s)
                    else rbind (PotentialConsensusPowerByShares v) (\<lambda>pow.
                           if pow = 0 then Inr (updates, totalPower, s)
                           else enter_set k ctx v valAddr updates totalPower s)
                  else leave_set ctx lastValSet v valAddr updates totalPower s))
                proposed ([], LastTotalPower (stk s), s)) (\<lambda>(updates, totalPower, s1).
              Inr (updates, upd_stk (SetLastTotalPower totalPower) s1)))"

section \<open>The end of a block\<close>

definition update_epoch :: "block_ctx \<Rightarrow> staking \<Rightarrow> staking" where
  "update_epoch ctx st =
     (let newEpoch = ParamsEpoch (params st)
      in SetTheEndOfLastEpoch (BlockHeight ctx) (if GetEpoch st \<noteq> newEpoch then SetEpoch newEpoch st else st))"

text \<open>\<open>order\<close> is the iteration order of the map of proposed validators.\<close>

definition PoAValidatorsUpdate :: "((bytes \<times> bool) list \<Rightarrow> (bytes \<times> bool) list) \<Rightarrow> supply_keeper \<Rightarrow> block_ctx \<Rightarrow> chain
    \<Rightarrow> (ValidatorUpdate list \<times> chain) res" where
  "PoAValidatorsUpdate order k ctx s =
     (let proposedValidators = kv_entries (proposeValidators (stk s))
      in rbind (if length proposedValidators > 0 then
                  rbind (PoAApplyAndReturnValidatorSetUpdates k ctx (order proposedValidators) s) (\<lambda>(updates, s1).
                    Inr (updates, upd_stk DeleteProposeValidators s1))
                else if IsKickedOut (stk s) then
                  rbind (KickOutAndReturnValidatorSetUpdates k ctx s) (\<lambda>(updates, s1).
                    Inr (updates, upd_stk DeleteAbandonedValidatorAddrs s1))
                else Inr ([], s)) (\<lambda>(updates, s1).
         rbind (IsEndOfEpoch (BlockHeight ctx) (stk s1)) (\<lambda>epochEnds.
           Inr (updates, if epochEnds then upd_stk (update_epoch ctx) s1 else s1))))"

definition DPoSValidatorsUpdate :: "supply_keeper \<Rightarrow> block_ctx \<Rightarrow> chain \<Rightarrow> (ValidatorUpdate list \<times> chain) res" where
  "DPoSValidatorsUpdate k ctx s =
     rbind (IsEndOfEpoch (BlockHeight ctx) (stk s)) (\<lambda>epochEnds.
       if epochEnds then
         rbind (ApplyAndReturnValidatorSetUpdates k ctx (upd_stk (update_epoch ctx) s)) (\<lambda>(updates, s1).
           Inr (updates, upd_stk DeleteAbandonedValidatorAddrs s1))
       else if IsKickedOut (stk s) then
         rbind (KickOutAndReturnValidatorSetUpdates k ctx s) (\<lambda>(updates, s1).
           Inr (updates, upd_stk DeleteAbandonedValidatorAddrs s1))
       else Inr ([], s))"

definition complete_mature :: "supply_keeper \<Rightarrow> block_ctx \<Rightarrow> chain \<Rightarrow> chain res" where
  "complete_mature k ctx s =
     rfold (\<lambda>((oldTime, delAddr), _) s.
       complete_or_log k delAddr (upd_stk (DeleteAddrByTimeKey oldTime delAddr) s))
       (filter (\<lambda>((t, _), _). t \<le> BlockTime ctx) (kv_entries (undelegateQueue (stk s)))) s"

definition EndBlocker :: "((bytes \<times> bool) list \<Rightarrow> (bytes \<times> bool) list) \<Rightarrow> supply_keeper \<Rightarrow> block_ctx \<Rightarrow> chain
    \<Rightarrow> (ValidatorUpdate list \<times> chain) res" where
  "EndBlocker order k ctx s =
     rbind (if ConsensusType (params (stk s)) = PoA then PoAValidatorsUpdate order k ctx s
            else DPoSValidatorsUpdate k ctx s) (\<lambda>(updates, s1).
     rbind (UnbondAllMatureValidatorQueue k ctx s1) (\<lambda>s2.
     rbind (complete_mature k ctx s2) (\<lambda>s3. Inr (updates, s3))))"

section \<open>Messages\<close>

record MsgCreateValidator =
  cv_Description :: Description
  cv_MinSelfDelegation :: DecCoin
  cv_DelegatorAddress :: bytes
  cv_ValidatorAddress :: bytes
  cv_PubKey :: PubKey

definition handleMsgCreateValidator :: "supply_keeper \<Rightarrow> block_ctx \<Rightarrow> MsgCreateValidator \<Rightarrow> chain \<Rightarrow> chain res" where
  "handleMsgCreateValidator k ctx msg s =
     (if GetValidator (stk s) (cv_ValidatorAddress msg) \<noteq> None then Inl (Err ''ErrValidatorOwnerExists'')
      else if GetValidatorByConsAddr (stk s) (AddressHash k (pk_bytes (cv_PubKey msg))) \<noteq> None
           then Inl (Err ''ErrValidatorPubKeyExists'')
      else if Denom (cv_MinSelfDelegation msg) \<noteq> DefaultBondDenom then Inl (Err ''ErrBadDenom'')
      else rbind (EnsureLength (cv_Description msg)) (\<lambda>_.
        if (case PubKeyTypes ctx of None \<Rightarrow> False | Some tys \<Rightarrow> \<not> list_ex (\<lambda>ty. ty = pk_type (cv_PubKey msg)) tys)
        then Inl (Err ''ErrValidatorPubKeyTypeNotSupported'')
        else
          let minSelfDelegation = ParamsMinSelfDelegation (params (stk s))
          in rbind (SetInitialCommission
                      (NewValidator (cv_ValidatorAddress msg) (cv_PubKey msg) (cv_Description msg) minSelfDelegation)
                      (NewCommission OneDec OneDec ZeroDec)) (\<lambda>v.
             rbind (with_stk (\<lambda>st. SetNewValidatorByPowerIndex v (SetValidatorByConsAddr k v (SetValidator v st))) s) (\<lambda>s1.
             rbind (NewDecCoinFromDec DefaultBondDenom (MinSelfDelegation v)) (\<lambda>token.
             rbind (AddSharesAsMinSelfDelegation k (cv_DelegatorAddress msg) v token s1) (\<lambda>s2.
               AfterValidatorCreated k (OperatorAddress v) s2))))))"

definition handleMsgEditValidator :: "bytes \<Rightarrow> Description \<Rightarrow> chain \<Rightarrow> chain res" where
  "handleMsgEditValidator validatorAddress description s =
     (case GetValidator (stk s) validatorAddress of
        None \<Rightarrow> Inl (Err ''ErrNoValidatorFound'')
      | Some v \<Rightarrow> rbind (UpdateDescription (val_Description v) description) (\<lambda>d.
          Inr (upd_stk (SetValidator (v\<lparr>val_Description := d\<rparr>)) s)))"

definition UpdateValidatorCommission :: "block_ctx \<Rightarrow> Validator \<Rightarrow> Dec \<Rightarrow> Commission res" where
  "UpdateValidatorCommission ctx v newRate =
     rbind (ValidateNewRate (val_Commission v) newRate (BlockTime ctx)) (\<lambda>_.
       Inr ((val_Commission v)\<lparr>Rate := newRate, UpdateTime := BlockTime ctx\<rparr>))"

definition handleMsgEditValidatorCommissionRate :: "block_ctx \<Rightarrow> bytes \<Rightarrow> Dec \<Rightarrow> chain \<Rightarrow> chain res" where
  "handleMsgEditValidatorCommissionRate ctx validatorAddress commissionRate s =
     (case GetValidator (stk s) validatorAddress of
        None \<Rightarrow> Inl (Err ''ErrNoValidatorFound'')
      | Some v \<Rightarrow> rbind (UpdateValidatorCommission ctx v commissionRate) (\<lambda>commission.
          Inr (upd_stk (SetValidator (v\<lparr>val_Commission := commission\<rparr>)) s)))"

definition handleMsgDepositMinSelfDelegation :: "supply_keeper \<Rightarrow> bytes \<Rightarrow> chain \<Rightarrow> chain res" where
  "handleMsgDepositMinSelfDelegation k validatorAddress s =
     (case GetValidator (stk s) validatorAddress of
        None \<Rightarrow> Inl (Err ''ErrNoValidatorFound'')
      | Some v \<Rightarrow>
          let minSelfDelegation = ParamsMinSelfDelegation (params (stk s))
          in if MinSelfDelegation v \<ge> minSelfDelegation then Inl (Err ''ErrMinSelfDelegationEnough'')
             else rbind (Dec_Sub minSelfDelegation (MinSelfDelegation v)) (\<lambda>depositAmount.
                  rbind (NewDecCoinFromDec DefaultBondDenom depositAmount) (\<lambda>depositCoin.
                  rbind (DepositMinSelfDelegation k (OperatorAddress v) v depositCoin s) (\<lambda>(v1, s1).
                    Inr (upd_stk (SetValidator (v1\<lparr>MinSelfDelegation := minSelfDelegation\<rparr>)) s1)))))"

definition handleMsgDeposit :: "supply_keeper \<Rightarrow> block_ctx \<Rightarrow> bytes \<Rightarrow> DecCoin \<Rightarrow> chain \<Rightarrow> chain res" where
  "handleMsgDeposit k ctx delegatorAddress amount s =
     (if Denom amount \<noteq> DefaultBondDenom then Inl (Err ''ErrBadDenom'') else Delegate k ctx delegatorAddress amount s)"

definition handleMsgWithdraw :: "supply_keeper \<Rightarrow> block_ctx \<Rightarrow> bytes \<Rightarrow> DecCoin \<Rightarrow> chain \<Rightarrow> chain res" where
  "handleMsgWithdraw k ctx delegatorAddress amount s =
     (if Denom amount \<noteq> DefaultBondDenom then Inl (Err ''ErrBadDenom'')
      else rbind (Withdraw k ctx delegatorAddress amount s) (\<lambda>(_, s'). Inr s'))"

definition isDismissed :: "Validator list \<Rightarrow> Dec \<Rightarrow> bool" where
  "isDismissed vals minSelfDelegation = list_ex (\<lambda>v. MinSelfDelegation v < minSelfDelegation) vals"

definition validateSharesAdding :: "Validator list \<Rightarrow> Dec \<Rightarrow> unit res" where
  "validateSharesAdding vals minSelfDelegation =
     (if length vals = 0 then Inl (Err ''ErrEmptyValidators'')
      else if isDismissed vals minSelfDelegation then Inl (Err ''ErrAddSharesToDismission'')
      else Inr ())"

definition handleMsgAddShares :: "supply_keeper \<Rightarrow> block_ctx \<Rightarrow> bytes \<Rightarrow> bytes list \<Rightarrow> chain \<Rightarrow> chain res" where
  "handleMsgAddShares k ctx delAddr valAddrs s =
     (if length valAddrs = 0 then Inl (Err ''ErrEmptyValidators'')
      else if length valAddrs > MaxValsToAddShares (params (stk s)) then Inl (Err ''ErrExceedValidatorAddrs'')
      else case GetDelegator (stk s) delAddr of
             None \<Rightarrow> Inl (Err ''ErrNoDelegationToAddShares'')
           | Some d \<Rightarrow>
               if Tokens d = 0 then Inl (Err ''ErrNoDelegationToAddShares'')
               else if HasProxy d then Inl (Err ''ErrAddSharesDuringProxy'')
               else let (lastVals, lastShares) = GetLastValsAddedSharesExisted (stk s) delAddr
                    in rbind (WithdrawLastShares k ctx delAddr lastVals lastShares s) (\<lambda>s1.
                       rbind (GetValidatorsToAddShares (stk s1) valAddrs) (\<lambda>vals.
                       rbind (validateSharesAdding vals (ParamsMinSelfDelegation (params (stk s1)))) (\<lambda>_.
                       rbind (Dec_Add (Tokens d) (TotalDelegatedTokens d)) (\<lambda>totalTokens.
                       let delegatorValAddresses = map OperatorAddress vals
                       in rbind (BeforeDelegationCreated delegatorValAddresses s1) (\<lambda>s2.
                          rbind (AddSharesToValidators delAddr vals totalTokens s2) (\<lambda>(shares, s3).
                          let d' = d\<lparr>ValidatorAddresses := delegatorValAddresses, Shares := shares\<rparr>
                          in AfterDelegationModified ctx delAddr (ValidatorAddresses d') (upd_stk (SetDelegator d') s3))))))))"

definition handleMsgDestroyValidator :: "supply_keeper \<Rightarrow> block_ctx \<Rightarrow> bytes \<Rightarrow> chain \<Rightarrow> chain res" where
  "handleMsgDestroyValidator k ctx delAddr s =
     (case GetValidator (stk s) delAddr of
        None \<Rightarrow> Inl (Err ''ErrNoValidatorFound'')
      | Some v \<Rightarrow> rbind (WithdrawMinSelfDelegation k ctx delAddr v s) (\<lambda>(_, s'). Inr s'))"

datatype staking_msg =
    CreateValidator MsgCreateValidator
  | EditValidator bytes Description
  | EditValidatorCommissionRate bytes Dec
  | Deposit bytes DecCoin
  | MsgWithdraw bytes DecCoin
  | AddShares bytes "bytes list"
  | DestroyValidator bytes
  | DepositMinSelf bytes

definition dpos_only :: "staking_msg \<Rightarrow> bool" where
  "dpos_only msg = (case msg of CreateValidator _ \<Rightarrow> True | EditValidatorCommissionRate _ _ \<Rightarrow> True | Deposit _ _ \<Rightarrow> True
                    | AddShares _ _ \<Rightarrow> True | DepositMinSelf _ \<Rightarrow> True | _ \<Rightarrow> False)"

definition staking_Handler :: "supply_keeper \<Rightarrow> block_ctx \<Rightarrow> staking_msg \<Rightarrow> chain \<Rightarrow> chain res" where
  "staking_Handler k ctx msg s =
     (if \<not> CheckEnabled s then Inl (Err ''ErrCodeDisabledOperate'')
      else if \<not> EnableDposOp (params (stk s)) \<and> BlockHeight ctx \<noteq> 0 \<and> dpos_only msg then Inl (Err ''ErrDisableOperation'')
      else case msg of
        CreateValidator m \<Rightarrow> handleMsgCreateValidator k ctx m s
      | EditValidator a d \<Rightarrow> handleMsgEditValidator a d s
      | EditValidatorCommissionRate a r \<Rightarrow> handleMsgEditValidatorCommissionRate ctx a r s
      | Deposit a c \<Rightarrow> handleMsgDeposit k ctx a c s
      | MsgWithdraw a c \<Rightarrow> handleMsgWithdraw k ctx a c s
      | AddShares a vs \<Rightarrow> handleMsgAddShares k ctx a vs s
      | DestroyValidator a \<Rightarrow> handleMsgDestroyValidator k ctx a s
      | DepositMinSelf a \<Rightarrow> handleMsgDepositMinSelfDelegation k a s)"

definition MsgAddShares_ValidateBasic :: "bytes \<Rightarrow> bytes list \<Rightarrow> unit res" where
  "MsgAddShares_ValidateBasic delAddr valAddrs =
     (if delAddr = [] then Inl (Err ''ErrNilDelegatorAddr'')
      else if valAddrs = [] then Inl (Err ''ErrBadValidatorAddr'')
      else if \<not> distinct valAddrs then Inl (Err ''ErrTargetValsDuplicate'')
      else Inr ())"

section \<open>Proposals\<close>

definition verifyProposalWithValSet :: "staking \<Rightarrow> bytes \<Rightarrow> bool \<Rightarrow> nat res" where
  "verifyProposalWithValSet st valKey isAdd =
     (let lastValSet = GetLastValidatorsByAddr st; inValSet = (map_of lastValSet valKey \<noteq> None)
      in if isAdd \<and> inValSet then Inl (Err ''ErrProposedInValSet'')
         else if \<not> isAdd \<and> \<not> inValSet then Inl (Err ''ErrProposedNotInValSet'')
         else Inr (length lastValSet))"

definition verifyValidatorCount :: "staking \<Rightarrow> nat \<Rightarrow> bytes \<Rightarrow> bool \<Rightarrow> unit res" where
  "verifyValidatorCount st valSetCount valKey isAdd =
     (let proposed = kv_entries (kv_set valKey isAdd (proposeValidators st));
          proposeCount = fold (\<lambda>(_, add) n. if add then n + 1 else n - 1) proposed (0 :: int)
      in if int valSetCount + proposeCount > MaxValidators (params st) then Inl (Err ''ErrProposedExceedMax'') else Inr ())"

definition handleProposeValidatorProposal :: "supply_keeper \<Rightarrow> block_ctx \<Rightarrow> bool \<Rightarrow> MsgCreateValidator \<Rightarrow> chain \<Rightarrow> chain res" where
  "handleProposeValidatorProposal k ctx isAdd validator s =
     (let valAddr = cv_ValidatorAddress validator
      in rbind (verifyProposalWithValSet (stk s) valAddr isAdd) (\<lambda>valSetCount.
         rbind (verifyValidatorCount (stk s) valSetCount valAddr isAdd) (\<lambda>_.
         rbind (case GetValidator (stk s) valAddr of
                  Some _ \<Rightarrow> Inr s
                | None \<Rightarrow> handleMsgCreateValidator k ctx (validator\<lparr>cv_DelegatorAddress := valAddr\<rparr>) s) (\<lambda>s1.
           Inr (upd_stk (SetProposeValidator valAddr isAdd) s1)))))"

section \<open>Proxies\<close>

text \<open>\<open>NewHandler\<close> routes no message to these handlers.\<close>

definition GetDelegatorsByProxy :: "staking \<Rightarrow> bytes \<Rightarrow> bytes list" where
  "GetDelegatorsByProxy st proxyAddr = map (snd \<circ> fst) (filter (\<lambda>((p, _), _). p = proxyAddr) (kv_entries (proxyBindings st)))"

definition ClearProxy :: "bytes \<Rightarrow> staking \<Rightarrow> staking" where
  "ClearProxy proxyAddr st =
     fold (\<lambda>delAddr st.
       SetProxyBinding proxyAddr delAddr True
         (case GetDelegator st delAddr of None \<Rightarrow> st | Some d \<Rightarrow> SetDelegator (UnbindProxy d) st))
       (GetDelegatorsByProxy st proxyAddr) st"

text \<open>A caller that replaces every error of a call with its own.\<close>

definition error_as :: "string \<Rightarrow> 'a res \<Rightarrow> 'a res" where
  "error_as e r = (case r of Inl (Err _) \<Rightarrow> Inl (Err e) | _ \<Rightarrow> r)"

definition unbindProxy :: "supply_keeper \<Rightarrow> block_ctx \<Rightarrow> bytes \<Rightarrow> chain \<Rightarrow> chain res" where
  "unbindProxy k ctx delAddr s =
     (case GetDelegator (stk s) delAddr of
        None \<Rightarrow> Inl (Err ''ErrNoDelegationToAddShares'')
      | Some d \<Rightarrow>
          (case (case ProxyAddress d of None \<Rightarrow> None | Some p \<Rightarrow> GetDelegator (stk s) p) of
             None \<Rightarrow> Inl (Err ''ErrProxyNotFound'')
           | Some proxyDelegator \<Rightarrow>
               rbind (NewDec (- 1)) (\<lambda>minus1.
               rbind (Dec_Mul (Tokens d) minus1) (\<lambda>q.
               rbind (error_as ''ErrInvalidDelegation'' (UpdateProxy k ctx d q s)) (\<lambda>s1.
                 Inr (upd_stk (\<lambda>st. SetProxyBinding (DelegatorAddress proxyDelegator) (DelegatorAddress d) True
                                     (SetDelegator (UnbindProxy d) st)) s1))))))"

definition handleMsgBindProxy :: "supply_keeper \<Rightarrow> block_ctx \<Rightarrow> bytes \<Rightarrow> bytes \<Rightarrow> chain \<Rightarrow> chain res" where
  "handleMsgBindProxy k ctx delAddr proxyAddress s =
     (case GetDelegator (stk s) delAddr of
        None \<Rightarrow> Inl (Err ''ErrNoDelegationToAddShares'')
      | Some d \<Rightarrow>
          if Tokens d = 0 then Inl (Err ''ErrNoDelegationToAddShares'')
          else if Shares d \<noteq> ZeroDec then Inl (Err ''ErrAlreadyAddedShares'')
          else (case GetDelegator (stk s) proxyAddress of
                  None \<Rightarrow> Inl (Err ''ErrProxyNotFound'')
                | Some proxyDelegator \<Rightarrow>
                    if Tokens proxyDelegator = 0 then Inl (Err ''ErrProxyNotFound'')
                    else if \<not> IsProxy proxyDelegator then Inl (Err ''ErrProxyNotFound'')
                    else if IsProxy d then Inl (Err ''ErrDoubleProxy'')
                    else if ProxyAddress d = Some (DelegatorAddress proxyDelegator) then
                      rbind (Dec_Add (TotalDelegatedTokens proxyDelegator) (Tokens proxyDelegator)) (\<lambda>updateTokens.
                        error_as ''ErrInvalidDelegation'' (UpdateShares k ctx (DelegatorAddress proxyDelegator) updateTokens s))
                    else rbind (if ProxyAddress d \<noteq> None then unbindProxy k ctx (DelegatorAddress d) s else Inr s) (\<lambda>s1.
                         rbind (Dec_Add (TotalDelegatedTokens proxyDelegator) (Tokens d)) (\<lambda>total.
                         let p' = proxyDelegator\<lparr>TotalDelegatedTokens := total\<rparr>;
                             s2 = upd_stk (\<lambda>st. SetProxyBinding (DelegatorAddress p') (DelegatorAddress d) False
                                                 (SetDelegator p' (SetDelegator (BindProxy d proxyAddress) st))) s1
                         in rbind (Dec_Add (TotalDelegatedTokens p') (Tokens p')) (\<lambda>finalTokens.
                              error_as ''ErrInvalidDelegation'' (UpdateShares k ctx (DelegatorAddress p') finalTokens s2))))))"

definition regProxy :: "supply_keeper \<Rightarrow> block_ctx \<Rightarrow> bytes \<Rightarrow> chain \<Rightarrow> chain res" where
  "regProxy k ctx proxyAddr s =
     (case GetDelegator (stk s) proxyAddr of
        None \<Rightarrow> Inl (Err ''ErrNoDelegationToAddShares'')
      | Some proxy \<Rightarrow>
          if IsProxy proxy then Inl (Err ''ErrProxyAlreadyExist'')
          else if ProxyAddress proxy \<noteq> None then Inl (Err ''ErrAlreadyBound'')
          else let proxy' = RegProxy proxy True
               in error_as ''ErrInvalidDelegation''
                    (UpdateShares k ctx (DelegatorAddress proxy') (Tokens proxy') (upd_stk (SetDelegator proxy') s)))"

definition unregProxy :: "supply_keeper \<Rightarrow> block_ctx \<Rightarrow> bytes \<Rightarrow> chain \<Rightarrow> chain res" where
  "unregProxy k ctx proxyAddr s =
     (case GetDelegator (stk s) proxyAddr of
        None \<Rightarrow> Inl (Err ''ErrProxyNotFound'')
      | Some proxy \<Rightarrow>
          if \<not> IsProxy proxy then Inl (Err ''ErrProxyNotFound'')
          else let proxy' = (RegProxy proxy False)\<lparr>TotalDelegatedTokens := ZeroDec\<rparr>
               in error_as ''ErrInvalidDelegation''
                    (UpdateShares k ctx (DelegatorAddress proxy') (Tokens proxy')
                      (upd_stk (\<lambda>st. SetDelegator proxy' (ClearProxy (DelegatorAddress proxy') st)) s)))"

definition handleRegProxy :: "supply_keeper \<Rightarrow> block_ctx \<Rightarrow> bool \<Rightarrow> bytes \<Rightarrow> chain \<Rightarrow> chain res" where
  "handleRegProxy k ctx reg proxyAddress s =
     (if reg then regProxy k ctx proxyAddress s else unregProxy k ctx proxyAddress s)"

section \<open>The run-time invariants\<close>

text \<open>Each result says whether the invariant is broken.\<close>

definition DelegatorAddSharesInvariant :: "staking \<Rightarrow> bool res" where
  "DelegatorAddSharesInvariant st =
     rfold (\<lambda>v broken.
       rbind (rfold (\<lambda>(_, shares) tot. Dec_Add tot shares) (GetValidatorAllShares st (OperatorAddress v))
                (if MinSelfDelegation v = ZeroDec \<and> Jailed v then ZeroDec else getSharesFromDefaultMinSelfDelegation)) (\<lambda>totalShares.
         Inr (broken \<or> DelegatorShares v \<noteq> totalShares))) (GetAllValidators st) False"

definition PositiveDelegatorInvariant :: "staking \<Rightarrow> bool" where
  "PositiveDelegatorInvariant st \<longleftrightarrow>
     length (filter (\<lambda>(_, d). Tokens d < 0) (kv_entries (delegators st))) +
     length (filter (\<lambda>(_, d). Tokens d = 0) (kv_entries (delegators st))) \<noteq> 0"

definition NonNegativePowerInvariantCustom :: "staking \<Rightarrow> bool res" where
  "NonNegativePowerInvariantCustom st =
     rfold (\<lambda>(key, addr) broken.
       case GetValidator st addr of
         None \<Rightarrow> Inl (Panic ''validator record not found for address'')
       | Some v \<Rightarrow> rbind (getValidatorPowerRank v) (\<lambda>powerKey. Inr (broken \<or> key \<noteq> powerKey \<or> DelegatorShares v < 0)))
       (ValidatorsPowerStoreIterator st) False"

definition staking_ModuleAccountInvariantsCustom :: "supply_keeper \<Rightarrow> chain \<Rightarrow> bool res" where
  "staking_ModuleAccountInvariantsCustom k s =
     rbind (module_account k BondedPoolName (led s)) (\<lambda>(bondedPool, l1).
     rbind (module_account k NotBondedPoolName l1) (\<lambda>(notBondedPool, _).
     rbind (rfold (\<lambda>v tot. Dec_Add tot (MinSelfDelegation v)) (GetAllValidators (stk s)) 0) (\<lambda>bonded.
     rbind (rfold (\<lambda>(_, d) tot. Dec_Add tot (Tokens d)) (kv_entries (delegators (stk s))) bonded) (\<lambda>bonded'.
     rbind (rfold (\<lambda>(_, ud) tot. Dec_Add tot (Quantity ud)) (kv_entries (undelegationInfos (stk s))) 0) (\<lambda>notBonded.
     rbind (AmountOf (acc_Coins bondedPool) DefaultBondDenom) (\<lambda>poolBonded.
     rbind (AmountOf (acc_Coins notBondedPool) DefaultBondDenom) (\<lambda>poolNotBonded.
     rbind (Dec_Add poolBonded poolNotBonded) (\<lambda>_.
     rbind (Dec_Add bonded' notBonded) (\<lambda>_.
       Inr (poolBonded \<noteq> bonded' \<or> poolNotBonded \<noteq> notBonded))))))))))"

end
