(* ===== verification/StakingPools.thy ===== *)
theory StakingPools
  imports StakingOps
begin

text \<open>
  The token pools of the staking module against its records.

  Every token of the bonded pool is either the minimum self delegation of a validator or a deposit
  of a delegator, and every token of the not-bonded pool belongs to a pending undelegation.  Each
  operation moves tokens and rewrites records; \<open>shift\<close> records how far a step moves the two
  differences, so that a whole operation is a sequence of shifts that add up to zero.
\<close>

section \<open>What the pools owe\<close>

definition msd_of :: "staking \<Rightarrow> bytes \<Rightarrow> Dec" where
  "msd_of st a = (case kv_get (validators st) a of None \<Rightarrow> 0 | Some v \<Rightarrow> MinSelfDelegation v)"

definition bonded_owed :: "staking \<Rightarrow> Dec" where
  "bonded_owed st = kv_total (\<lambda>_. MinSelfDelegation) (validators st) + kv_total (\<lambda>_. Tokens) (delegators st)"

definition unbonding_owed :: "staking \<Rightarrow> Dec" where
  "unbonding_owed st = kv_total (\<lambda>_. Quantity) (undelegationInfos st)"

definition bonded_gap :: "supply_keeper \<Rightarrow> chain \<Rightarrow> int" where
  "bonded_gap k s = bal (led s) (AddressHash k BondedPoolName) DefaultBondDenom - bonded_owed (stk s)"

definition unbonding_gap :: "supply_keeper \<Rightarrow> chain \<Rightarrow> int" where
  "unbonding_gap k s = bal (led s) (AddressHash k NotBondedPoolName) DefaultBondDenom - unbonding_owed (stk s)"

text \<open>Records are stored under their own address, commission rates are not negative, and no module
  account has an undelegation.\<close>

definition vals_ok :: "staking \<Rightarrow> bool" where
  "vals_ok st \<longleftrightarrow> (\<forall>a v. kv_get (validators st) a = Some v \<longrightarrow> OperatorAddress v = a \<and> 0 \<le> Rate (val_Commission v))"

definition stk_ok :: "supply_keeper \<Rightarrow> staking \<Rightarrow> bool" where
  "stk_ok k st \<longleftrightarrow> vals_ok st \<and> (\<forall>a d. kv_get (delegators st) a = Some d \<longrightarrow> DelegatorAddress d = a) \<and>
     (\<forall>a u. kv_get (undelegationInfos st) a = Some u \<longrightarrow> ud_DelegatorAddress u = a \<and> \<not> blacklistedAddrs k a)"

definition chain_ok :: "supply_keeper \<Rightarrow> chain \<Rightarrow> bool" where
  "chain_ok k s \<longleftrightarrow> ledger_ok (led s) \<and> dis_ok (dis s) \<and> stk_ok k (stk s) \<and>
     (\<forall>a. kv_has (outstandingRewards (dis s)) a \<longrightarrow> kv_has (validators (stk s)) a)"

definition shift :: "supply_keeper \<Rightarrow> int \<Rightarrow> int \<Rightarrow> chain \<Rightarrow> chain \<Rightarrow> bool" where
  "shift k b u s s' \<longleftrightarrow> chain_ok k s' \<and> (\<forall>d. distr_gap k s' d = distr_gap k s d) \<and> supplies (led s') = supplies (led s) \<and>
     bonded_gap k s' = bonded_gap k s + b \<and> unbonding_gap k s' = unbonding_gap k s + u"

lemma shift_refl: "chain_ok k s \<Longrightarrow> shift k 0 0 s s"
  by (simp add: shift_def)

lemma shift_trans: "shift k b u s s1 \<Longrightarrow> shift k b' u' s1 s2 \<Longrightarrow> shift k (b + b') (u + u') s s2"
  by (simp add: shift_def)

lemma shift_0_trans: "shift k 0 0 s s1 \<Longrightarrow> shift k b u s1 s2 \<Longrightarrow> shift k b u s s2"
  by (simp add: shift_def)

lemma shift_trans_0: "shift k b u s s1 \<Longrightarrow> shift k 0 0 s1 s2 \<Longrightarrow> shift k b u s s2"
  by (simp add: shift_def)

lemma shift_ok: "shift k b u s s' \<Longrightarrow> chain_ok k s'"
  by (simp add: shift_def)

lemma chain_okD:
  assumes "chain_ok k s"
  shows "ledger_ok (led s)" "dis_ok (dis s)" "stk_ok k (stk s)" "vals_ok (stk s)" "distr_ready s"
  using assms by (auto simp: chain_ok_def stk_ok_def distr_ready_def)

text \<open>An operation that keeps both differences; loops of such operations keep them too.\<close>

locale pool_op =
  fixes k :: supply_keeper and run :: "'a \<Rightarrow> chain \<Rightarrow> chain res"
  assumes run_shift: "modules_ok k \<Longrightarrow> chain_ok k s \<Longrightarrow> run x s = Inr s' \<Longrightarrow> shift k 0 0 s s'"
begin

lemma runs_shift:
  assumes "modules_ok k" "chain_ok k s" "rfold run xs s = Inr s'"
  shows "shift k 0 0 s s'"
  by (rule rfold_invariant [OF assms(3), where P = "shift k 0 0 s"])
    (use assms(1,2) run_shift shift_refl shift_trans_0 shift_ok in blast)+

end

section \<open>Steps of the parts\<close>

text \<open>The distribution module's operations touch neither pool.\<close>

lemma distr_step_shift:
  assumes "modules_ok k" "chain_ok k s" "distr_step k s s'"
  shows "shift k 0 0 s s'"
  using assms by (auto simp: shift_def chain_ok_def distr_step_def modules_ok_def bonded_gap_def unbonding_gap_def)

text \<open>A transfer between accounts that does not involve the distribution account.\<close>

lemma moved_shift:
  assumes "modules_ok k" "chain_ok k s" "moved (led s) l x y cs"
    "x \<noteq> AddressHash k DistributionModuleName" "y \<noteq> AddressHash k DistributionModuleName"
  shows "shift k (transfer x y cs (AddressHash k BondedPoolName) DefaultBondDenom)
           (transfer x y cs (AddressHash k NotBondedPoolName) DefaultBondDenom) s (s\<lparr>led := l\<rparr>)"
proof -
  have c: "changes (led s) l (transfer x y cs)" using assms(3) by (simp add: moved_def)
  show ?thesis using assms(2,4,5) changesD [OF c] transfer_supplies [OF c]
    by (simp add: shift_def chain_ok_def distr_gap_def bonded_gap_def unbonding_gap_def transfer_def credit_def)
qed

text \<open>A rewrite of the staking records.\<close>

lemma store_shift:
  assumes "chain_ok k s" "stk_ok k st" "\<And>a. kv_has (validators (stk s)) a \<Longrightarrow> kv_has (validators st) a"
  shows "shift k (bonded_owed (stk s) - bonded_owed st) (unbonding_owed (stk s) - unbonding_owed st) s (s\<lparr>stk := st\<rparr>)"
  using assms by (auto simp: shift_def chain_ok_def distr_gap_def bonded_gap_def unbonding_gap_def)

lemma sla_shift: "chain_ok k s \<Longrightarrow> shift k 0 0 s (s\<lparr>sla := sl\<rparr>)"
  by (simp add: shift_def chain_ok_def distr_gap_def bonded_gap_def unbonding_gap_def)

section \<open>Validator records\<close>

text \<open>A step that leaves delegators, undelegations and the self delegations alone.  A loop may hold a
  validator record that is out of date; what matters of it is its self delegation.\<close>

definition val_step :: "staking \<Rightarrow> staking \<Rightarrow> bool" where
  "val_step st st' \<longleftrightarrow> vals_ok st' \<and> delegators st' = delegators st \<and> undelegationInfos st' = undelegationInfos st \<and> params st' = params st \<and>
     (\<forall>a. msd_of st' a = msd_of st a) \<and>
     kv_total (\<lambda>_. MinSelfDelegation) (validators st') = kv_total (\<lambda>_. MinSelfDelegation) (validators st) \<and>
     (\<forall>a. kv_has (validators st) a \<longrightarrow> kv_has (validators st') a)"

definition current :: "staking \<Rightarrow> Validator \<Rightarrow> bool" where
  "current st v \<longleftrightarrow> MinSelfDelegation v = msd_of st (OperatorAddress v) \<and> 0 \<le> Rate (val_Commission v)"

lemma val_step_refl: "vals_ok st \<Longrightarrow> val_step st st"
  by (simp add: val_step_def)

lemma val_step_trans: "val_step st st1 \<Longrightarrow> val_step st1 st2 \<Longrightarrow> val_step st st2"
  by (simp add: val_step_def)

lemma val_stepD: "val_step st st' \<Longrightarrow> vals_ok st'" "val_step st st' \<Longrightarrow> current st' v = current st v"
  "val_step st st' \<Longrightarrow> delegators st' = delegators st"
  by (simp_all add: val_step_def current_def)

lemma val_step_SetValidator: "vals_ok st \<Longrightarrow> current st v \<Longrightarrow> val_step st (SetValidator v st)"
  by (auto simp: val_step_def vals_ok_def current_def SetValidator_def msd_of_def kv_has_def split: option.splits)

lemma val_step_frame:
  "vals_ok st \<Longrightarrow> validators st' = validators st \<Longrightarrow> delegators st' = delegators st \<Longrightarrow> undelegationInfos st' = undelegationInfos st \<Longrightarrow>
     params st' = params st \<Longrightarrow> val_step st st'"
  by (simp add: val_step_def vals_ok_def msd_of_def)

lemma stored_current: "vals_ok st \<Longrightarrow> GetValidator st a = Some v \<Longrightarrow> current st v \<and> OperatorAddress v = a"
  by (auto simp: vals_ok_def current_def GetValidator_def msd_of_def)

lemma current_upd [simp]:
  "current st (v\<lparr>DelegatorShares := x\<rparr>) = current st v" "current st (v\<lparr>Jailed := j\<rparr>) = current st v"
  "current st (v\<lparr>Status := b\<rparr>) = current st v" "current st (UpdateStatus v b) = current st v"
  "current st (v\<lparr>UnbondingCompletionTime := t\<rparr>) = current st v" "current st (v\<lparr>UnbondingHeight := h\<rparr>) = current st v"
  by (simp_all add: current_def UpdateStatus_def)

lemma power_index_step:
  assumes "vals_ok st"
  shows "DeleteValidatorByPowerIndex v st = Inr st' \<Longrightarrow> val_step st st'"
    "SetValidatorByPowerIndex v st = Inr st' \<Longrightarrow> val_step st st'" "SetNewValidatorByPowerIndex v st = Inr st' \<Longrightarrow> val_step st st'"
  using assms by (auto simp: DeleteValidatorByPowerIndex_def SetValidatorByPowerIndex_def SetNewValidatorByPowerIndex_def
      intro: val_step_frame split: if_splits)

lemma shares_step:
  "vals_ok st \<Longrightarrow> val_step st (SetShares d v x st)" "vals_ok st \<Longrightarrow> val_step st (DeleteShares v d st)"
  "vals_ok st \<Longrightarrow> val_step st (InsertValidatorQueue w st)" "vals_ok st \<Longrightarrow> val_step st (DeleteValidatorQueue w st)"
  "vals_ok st \<Longrightarrow> val_step st (SetLastValidatorPower v p st)" "vals_ok st \<Longrightarrow> val_step st (DeleteLastValidatorPower v st)"
  "vals_ok st \<Longrightarrow> val_step st (SetLastTotalPower t st)" "vals_ok st \<Longrightarrow> val_step st (DeleteAbandonedValidatorAddrs st)"
  "vals_ok st \<Longrightarrow> val_step st (DeleteValidatorQueueTimeSlice t' st)" "vals_ok st \<Longrightarrow> val_step st (SetProposeValidator v b st)"
  "vals_ok st \<Longrightarrow> val_step st (DeleteAddrByTimeKey t' d st)" "vals_ok st \<Longrightarrow> val_step st (SetAddrByTimeKeyWithNilValue t' d st)"
  "vals_ok st \<Longrightarrow> val_step st (SetProxyBinding d v b st)" "vals_ok st \<Longrightarrow> val_step st (update_epoch ctx st)"
  by (rule val_step_frame; simp add: SetShares_def DeleteShares_def InsertValidatorQueue_def DeleteValidatorQueue_def
      SetLastValidatorPower_def DeleteLastValidatorPower_def SetLastTotalPower_def DeleteAbandonedValidatorAddrs_def
      DeleteValidatorQueueTimeSlice_def SetValidatorQueueTimeSlice_def SetProposeValidator_def DeleteAddrByTimeKey_def
      SetAddrByTimeKeyWithNilValue_def SetProxyBinding_def update_epoch_def SetTheEndOfLastEpoch_def SetEpoch_def Let_def)+

lemma val_step_shift:
  assumes "chain_ok k s" "val_step (stk s) st"
  shows "shift k 0 0 s (s\<lparr>stk := st\<rparr>)"
  using store_shift [of k s st] assms by (simp add: chain_ok_def stk_ok_def val_step_def bonded_owed_def unbonding_owed_def)

section \<open>Shares\<close>

text \<open>A step of the whole chain that leaves the stake records alone.\<close>

definition share_step :: "supply_keeper \<Rightarrow> chain \<Rightarrow> chain \<Rightarrow> bool" where
  "share_step k s s' \<longleftrightarrow> shift k 0 0 s s' \<and> delegators (stk s') = delegators (stk s) \<and> undelegationInfos (stk s') = undelegationInfos (stk s) \<and>
     params (stk s') = params (stk s) \<and> (\<forall>a. msd_of (stk s') a = msd_of (stk s) a)"

lemma share_step_refl: "chain_ok k s \<Longrightarrow> share_step k s s"
  by (simp add: share_step_def shift_refl)

lemma share_step_trans: "share_step k s s1 \<Longrightarrow> share_step k s1 s2 \<Longrightarrow> share_step k s s2"
  using shift_0_trans unfolding share_step_def by metis

lemma share_stepD:
  assumes "share_step k s s'"
  shows "shift k 0 0 s s'" "chain_ok k s'" "delegators (stk s') = delegators (stk s)" "current (stk s') v = current (stk s) v"
    "GetDelegator (stk s') a = GetDelegator (stk s) a" "params (stk s') = params (stk s)"
    "undelegationInfos (stk s') = undelegationInfos (stk s)"
  using assms by (auto simp: share_step_def current_def GetDelegator_def intro: shift_ok)

lemma val_share_step: "chain_ok k s \<Longrightarrow> val_step (stk s) st \<Longrightarrow> share_step k s (s\<lparr>stk := st\<rparr>)"
  by (simp add: share_step_def val_step_shift val_step_def)

lemma distr_share_step: "modules_ok k \<Longrightarrow> chain_ok k s \<Longrightarrow> distr_step k s s' \<Longrightarrow> share_step k s s'"
  by (simp add: share_step_def distr_step_shift) (simp add: distr_step_def)

lemma hooks_share_step:
  assumes "modules_ok k" "chain_ok k s"
  shows "BeforeDelegationSharesModified k ctx d vs s = Inr s' \<Longrightarrow> share_step k s s'"
    "BeforeDelegationCreated vs s = Inr s' \<Longrightarrow> share_step k s s'"
    "AfterDelegationModified ctx d vs s = Inr s' \<Longrightarrow> share_step k s s'"
  using distr_share_step [OF assms] distr_BeforeDelegationSharesModified_step [OF assms(1) chain_okD(5) [OF assms(2)]]
    distr_BeforeDelegationCreated_step [OF assms(1) chain_okD(5) [OF assms(2)]]
    distr_AfterDelegationModified_step [OF assms(1) chain_okD(5) [OF assms(2)]]
  by (auto simp: BeforeDelegationSharesModified_def BeforeDelegationCreated_def AfterDelegationModified_def)

text \<open>Removing a validator takes its self delegation off the books.\<close>

lemma RemoveValidator_shift:
  assumes "modules_ok k" "chain_ok k s" "RemoveValidator k a s = Inr s'"
  shows "shift k (msd_of (stk s) a) 0 s s'" "delegators (stk s') = delegators (stk s)" "undelegationInfos (stk s') = undelegationInfos (stk s)"
    "params (stk s') = params (stk s)" "msd_of (stk s') b = (if b = a then 0 else msd_of (stk s) b)" "undelegateQueue (stk s') = undelegateQueue (stk s)"
proof -
  have "shift k (msd_of (stk s) a) 0 s s' \<and> delegators (stk s') = delegators (stk s) \<and> undelegationInfos (stk s') = undelegationInfos (stk s) \<and>
    params (stk s') = params (stk s) \<and> msd_of (stk s') b = (if b = a then 0 else msd_of (stk s) b) \<and> undelegateQueue (stk s') = undelegateQueue (stk s)"
  proof (cases "GetValidator (stk s) a")
    case None
    then show ?thesis using assms(2,3) by (simp add: RemoveValidator_def shift_refl msd_of_def GetValidator_def)
  next
    case (Some v)
    have op: "OperatorAddress v = a" using stored_current [OF chain_okD(4) [OF assms(2)] Some] by simp
    let ?st = "(stk s)\<lparr>validators := kv_del a (validators (stk s)), validatorsByConsAddr := kv_del (ConsAddress k v) (validatorsByConsAddr (stk s))\<rparr>"
    from assms(3) Some op obtain st1 s2 where st1: "DeleteValidatorByPowerIndex v ?st = Inr st1"
      and s2: "distr_AfterValidatorRemoved k a (s\<lparr>stk := st1\<rparr>) = Inr s2" and s': "s' = slashing_AfterValidatorRemoved (ConsAddress k v) s2"
      by (auto simp: RemoveValidator_def AfterValidatorRemoved_def split: if_splits)
    obtain ix where ix: "st1 = ?st\<lparr>validatorsByPowerIndex := ix\<rparr>" using st1 by (auto simp: DeleteValidatorByPowerIndex_def)
    have "distr_removed k a (s\<lparr>stk := st1\<rparr>) s2"
      using distr_AfterValidatorRemoved_removed [OF assms(1) _ s2] assms(2) by (simp add: distr_ready_def chain_ok_def)
    then have r: "stk s2 = st1" "ledger_ok (led s2)" "dis_ok (dis s2)" "distr_gap k s2 d = distr_gap k s d"
      "supplies (led s2) = supplies (led s)"
      "bal (led s2) (AddressHash k BondedPoolName) d = bal (led s) (AddressHash k BondedPoolName) d"
      "bal (led s2) (AddressHash k NotBondedPoolName) d = bal (led s) (AddressHash k NotBondedPoolName) d"
      "kv_has (outstandingRewards (dis s2)) c \<longleftrightarrow> c \<noteq> a \<and> kv_has (outstandingRewards (dis s)) c" for d c
      using assms(1) by (auto simp: distr_removed_def distr_gap_def modules_ok_def)
    have m: "msd_of (stk s) a = MinSelfDelegation v" using Some by (simp add: msd_of_def GetValidator_def)
    have ok: "chain_ok k s2"
      using assms(2) r by (auto simp: chain_ok_def stk_ok_def vals_ok_def ix kv_has_def split: if_splits)
    have owed: "bonded_owed (stk s2) = bonded_owed (stk s) - MinSelfDelegation v" "unbonding_owed (stk s2) = unbonding_owed (stk s)"
      using Some by (simp_all add: r(1) ix bonded_owed_def unbonding_owed_def GetValidator_def)
    have "shift k (msd_of (stk s) a) 0 s s2"
      unfolding shift_def bonded_gap_def unbonding_gap_def using ok r(4-7) owed m by simp
    moreover have "shift k 0 0 s2 s'" unfolding s' slashing_AfterValidatorRemoved_def with_sla_def by (rule sla_shift [OF ok])
    ultimately show ?thesis
      using shift_trans_0 [of k "msd_of (stk s) a" 0 s s2 s'] r(1)
      by (auto simp: s' slashing_AfterValidatorRemoved_def with_sla_def ix msd_of_def)
  qed
  then show "shift k (msd_of (stk s) a) 0 s s'" "delegators (stk s') = delegators (stk s)" "undelegationInfos (stk s') = undelegationInfos (stk s)"
    "params (stk s') = params (stk s)" "msd_of (stk s') b = (if b = a then 0 else msd_of (stk s) b)" "undelegateQueue (stk s') = undelegateQueue (stk s)" by blast+
qed

lemma RemoveValidator_share_step:
  assumes "modules_ok k" "chain_ok k s" "RemoveValidator k a s = Inr s'" "msd_of (stk s) a = 0"
  shows "share_step k s s'"
  using RemoveValidator_shift [OF assms(1-3)] assms(4) by (simp add: share_step_def)

lemma set_indexed_step:
  assumes "vals_ok st" "current st v" "rbind (DeleteValidatorByPowerIndex w st) (\<lambda>st1. SetValidatorByPowerIndex v (SetValidator v st1)) = Inr st'"
  shows "val_step st st'"
proof -
  from assms(3) obtain st1 where st1: "DeleteValidatorByPowerIndex w st = Inr st1" "SetValidatorByPowerIndex v (SetValidator v st1) = Inr st'" by auto
  note a = power_index_step(1) [OF assms(1) st1(1)]
  note b = val_step_SetValidator [OF val_stepD(1) [OF a]]
  have b: "val_step st1 (SetValidator v st1)" using b assms(2) val_stepD(2) [OF a] by simp
  show ?thesis using val_step_trans [OF a val_step_trans [OF b power_index_step(2) [OF val_stepD(1) [OF b] st1(2)]]] .
qed

lemma withdrawShares_step:
  assumes "modules_ok k" "chain_ok k s" "current (stk s) v" "withdrawShares k d v x s = Inr s'"
  shows "share_step k s s'"
proof -
  let ?v = "v\<lparr>DelegatorShares := DelegatorShares v - x\<rparr>"
  from assms(4) obtain st1 where st1: "DeleteValidatorByPowerIndex v (DeleteShares (OperatorAddress v) d (stk s)) = Inr st1"
    and rest: "(let v' = v\<lparr>DelegatorShares := DelegatorShares v - x\<rparr>
     in if IsUnbonded v' \<and> MinSelfDelegation v' = 0 \<and> DelegatorShares v' = 0 then RemoveValidator k (OperatorAddress v') (s\<lparr>stk := st1\<rparr>)
        else with_stk (\<lambda>st. SetValidatorByPowerIndex v' (SetValidator v' st)) (s\<lparr>stk := st1\<rparr>)) = Inr s'"
    by (auto simp: withdrawShares_def)
  note a = shares_step(2) [OF chain_okD(4) [OF assms(2)], of "OperatorAddress v" d]
  note b = val_step_trans [OF a power_index_step(1) [OF val_stepD(1) [OF a] st1]]
  note s1 = val_share_step [OF assms(2) b]
  have cur: "current st1 v" using val_stepD(2) [OF b] assms(3) by simp
  show ?thesis
  proof (cases "IsUnbonded v \<and> MinSelfDelegation v = 0 \<and> DelegatorShares v = x")
    case True
    then have "RemoveValidator k (OperatorAddress v) (s\<lparr>stk := st1\<rparr>) = Inr s'" using rest by (simp add: IsUnbonded_def)
    moreover have "msd_of st1 (OperatorAddress v) = 0" using cur True by (simp add: current_def)
    ultimately show ?thesis
      using share_step_trans [OF s1 RemoveValidator_share_step [OF assms(1) share_stepD(2) [OF s1]]] by simp
  next
    case False
    obtain st2 where st2: "SetValidatorByPowerIndex ?v (SetValidator ?v st1) = Inr st2" and s': "s' = s\<lparr>stk := st2\<rparr>"
      using rest False by (auto simp: IsUnbonded_def Let_def split: if_splits)
    note c = val_step_SetValidator [OF val_stepD(1) [OF b], of ?v]
    have c: "val_step st1 (SetValidator ?v st1)" using c cur by simp
    show ?thesis unfolding s'
      by (rule val_share_step [OF assms(2) val_step_trans [OF b val_step_trans [OF c power_index_step(2) [OF val_stepD(1) [OF c] st2]]]])
  qed
qed

text \<open>A loop over validator records that are current when it starts.\<close>

lemma share_loop:
  assumes "chain_ok k s" "list_all (current (stk s)) vs" "rfold f vs s = Inr s'"
    and "\<And>v t t'. chain_ok k t \<Longrightarrow> current (stk t) v \<Longrightarrow> f v t = Inr t' \<Longrightarrow> share_step k t t'"
  shows "share_step k s s'"
  by (rule rfold_invariant [OF assms(3), where P = "share_step k s"])
    (use assms(1,2,4) share_step_refl share_step_trans share_stepD(2,4) in \<open>blast, metis list_all_iff\<close>)

lemma last_vals_current:
  assumes "vals_ok st" "GetLastValsAddedSharesExisted st d = (vs, x)"
  shows "list_all (current st) vs"
  using assms by (auto simp: GetLastValsAddedSharesExisted_def list_all_iff List.map_filter_def stored_current split: option.splits)

lemma WithdrawLastShares_step:
  assumes "modules_ok k" "chain_ok k s" "list_all (current (stk s)) vs" "WithdrawLastShares k ctx d vs x s = Inr s'"
  shows "share_step k s s'"
proof -
  from assms(4) obtain s1 where s1: "share_step k s s1" and loop: "rfold (\<lambda>v s. withdrawShares k d v x s) vs s1 = Inr s'"
    using hooks_share_step(1) [OF assms(1,2)] share_step_refl [OF assms(2)] by (fastforce simp: WithdrawLastShares_def split: if_splits)
  have "list_all (current (stk s1)) vs" using assms(3) share_stepD(4) [OF s1] by (simp add: list_all_iff)
  from share_step_trans [OF s1 share_loop [OF share_stepD(2) [OF s1] this loop]] show ?thesis
    using withdrawShares_step [OF assms(1)] by blast
qed

lemma addShares_step:
  assumes "vals_ok st" "current st v" "addShares d v x st = Inr st'"
  shows "val_step st st'"
proof -
  note a = shares_step(1) [OF assms(1), of d "OperatorAddress v" x]
  from assms(3) obtain st1 t where st1: "DeleteValidatorByPowerIndex v (SetShares d (OperatorAddress v) x st) = Inr st1"
    "SetValidatorByPowerIndex (v\<lparr>DelegatorShares := t\<rparr>) (SetValidator (v\<lparr>DelegatorShares := t\<rparr>) st1) = Inr st'"
    by (auto simp: addShares_def Let_def)
  have "val_step (SetShares d (OperatorAddress v) x st) st'"
    by (rule set_indexed_step [OF val_stepD(1) [OF a], of "v\<lparr>DelegatorShares := t\<rparr>" v])
      (use st1 val_stepD(2) [OF a] assms(2) in simp_all)
  then show ?thesis by (rule val_step_trans [OF a])
qed

lemma update_validator_shares_step:
  assumes "vals_ok st" "current st v" "update_validator_shares d y x v st = Inr st'"
  shows "val_step st st'"
proof -
  from assms(3) obtain st1 t where st1: "DeleteValidatorByPowerIndex v st = Inr st1"
    and st': "SetValidatorByPowerIndex (v\<lparr>DelegatorShares := t\<rparr>) (SetValidator (v\<lparr>DelegatorShares := t\<rparr>) (SetShares d (OperatorAddress v) x st1)) = Inr st'"
    by (auto simp: update_validator_shares_def Let_def split: if_splits)
  note a = power_index_step(1) [OF assms(1) st1]
  note b = val_step_trans [OF a shares_step(1) [OF val_stepD(1) [OF a], of d "OperatorAddress v" x]]
  have c: "val_step (SetShares d (OperatorAddress v) x st1) (SetValidator (v\<lparr>DelegatorShares := t\<rparr>) (SetShares d (OperatorAddress v) x st1))"
    by (rule val_step_SetValidator [OF val_stepD(1) [OF b]]) (use val_stepD(2) [OF b] assms(2) in simp)
  show ?thesis by (rule val_step_trans [OF b val_step_trans [OF c power_index_step(2) [OF val_stepD(1) [OF c] st']]])
qed

text \<open>Rewriting a delegator's record shifts the bonded difference by the tokens it gains.\<close>

definition tokens_of :: "staking \<Rightarrow> bytes \<Rightarrow> Dec" where
  "tokens_of st a = (case kv_get (delegators st) a of None \<Rightarrow> 0 | Some d \<Rightarrow> Tokens d)"

lemma SetDelegator_shift:
  assumes "chain_ok k s"
  shows "shift k (tokens_of (stk s) (DelegatorAddress d) - Tokens d) 0 s (upd_stk (SetDelegator d) s)"
proof -
  have "bonded_owed (stk s) - bonded_owed (SetDelegator d (stk s)) = tokens_of (stk s) (DelegatorAddress d) - Tokens d"
    "unbonding_owed (SetDelegator d (stk s)) = unbonding_owed (stk s)"
    by (simp_all add: bonded_owed_def unbonding_owed_def SetDelegator_def tokens_of_def)
  moreover have "stk_ok k (SetDelegator d (stk s))" "validators (SetDelegator d (stk s)) = validators (stk s)"
    using chain_okD(3) [OF assms] by (auto simp: stk_ok_def vals_ok_def SetDelegator_def split: if_splits)
  ultimately show ?thesis unfolding upd_stk_def using store_shift [OF assms, of "SetDelegator d (stk s)"] by simp
qed

lemma SetDelegator_same:
  "chain_ok k s \<Longrightarrow> GetDelegator (stk s) (DelegatorAddress d) = Some d0 \<Longrightarrow> Tokens d = Tokens d0 \<Longrightarrow> shift k 0 0 s (upd_stk (SetDelegator d) s)"
  using SetDelegator_shift [of k s d] by (simp add: tokens_of_def GetDelegator_def)

lemma with_stk_share_step:
  assumes "chain_ok k s" "with_stk f s = Inr s'" "\<And>st'. f (stk s) = Inr st' \<Longrightarrow> val_step (stk s) st'"
  shows "share_step k s s'"
  using assms val_share_step by auto

lemma set_indexed_share_step:
  assumes "chain_ok k s" "current (stk s) v"
    "with_stk (\<lambda>st. rbind (DeleteValidatorByPowerIndex w st) (\<lambda>st1. SetValidatorByPowerIndex v (SetValidator v st1))) s = Inr s'"
  shows "share_step k s s'"
  by (rule with_stk_share_step [OF assms(1,3)]) (rule set_indexed_step [OF chain_okD(4) [OF assms(1)] assms(2)])

section \<open>Deposits and withdrawals\<close>

text \<open>A step that may rewrite delegator records, but not their tokens.\<close>

definition rec_step :: "supply_keeper \<Rightarrow> chain \<Rightarrow> chain \<Rightarrow> bool" where
  "rec_step k s s' \<longleftrightarrow> shift k 0 0 s s' \<and> (\<forall>a. tokens_of (stk s') a = tokens_of (stk s) a) \<and>
     undelegationInfos (stk s') = undelegationInfos (stk s) \<and> params (stk s') = params (stk s)"

lemma rec_step_refl: "chain_ok k s \<Longrightarrow> rec_step k s s"
  by (simp add: rec_step_def shift_refl)

lemma rec_step_trans: "rec_step k s s1 \<Longrightarrow> rec_step k s1 s2 \<Longrightarrow> rec_step k s s2"
  using shift_0_trans unfolding rec_step_def by metis

lemma share_rec_step: "share_step k s s' \<Longrightarrow> rec_step k s s'"
  by (simp add: share_step_def rec_step_def tokens_of_def)

lemma rec_stepD:
  assumes "rec_step k s s'"
  shows "shift k 0 0 s s'" "chain_ok k s'" "tokens_of (stk s') a = tokens_of (stk s) a" "params (stk s') = params (stk s)"
    "undelegationInfos (stk s') = undelegationInfos (stk s)"
  using assms by (auto simp: rec_step_def intro: shift_ok)

lemma SetDelegator_rec_step:
  assumes "chain_ok k s" "Tokens d = tokens_of (stk s) (DelegatorAddress d)"
  shows "rec_step k s (upd_stk (SetDelegator d) s)"
  using SetDelegator_shift [OF assms(1), of d] assms(2)
  by (auto simp: rec_step_def upd_stk_def SetDelegator_def tokens_of_def)

lemma UpdateShares_step:
  assumes "modules_ok k" "chain_ok k s" "UpdateShares k ctx a tokens s = Inr s'"
  shows "rec_step k s s'"
proof -
  obtain vs y where vs: "GetLastValsAddedSharesExisted (stk s) a = (vs, y)" by force
  show ?thesis
  proof (cases "vs = []")
    case True
    then show ?thesis using assms(2,3) vs by (simp add: UpdateShares_def rec_step_refl)
  next
    case False
    then obtain s1 d s2 where s1: "BeforeDelegationSharesModified k ctx a (map OperatorAddress vs) s = Inr s1"
      and d: "GetDelegator (stk s1) a = Some d"
      and s2: "rfold (\<lambda>v. with_stk (update_validator_shares a y (calculateWeight tokens) v)) vs s1 = Inr s2"
      and s': "AfterDelegationModified ctx (DelegatorAddress d) (map OperatorAddress vs)
         (upd_stk (SetDelegator (d\<lparr>Shares := calculateWeight tokens\<rparr>)) s2) = Inr s'"
      using assms(3) vs by (auto simp: UpdateShares_def Let_def split: option.splits)
    note t1 = hooks_share_step(1) [OF assms(1,2) s1]
    have "list_all (current (stk s1)) vs"
      using last_vals_current [OF chain_okD(4) [OF assms(2)] vs] share_stepD(4) [OF t1] by (simp add: list_all_iff)
    from share_loop [OF share_stepD(2) [OF t1] this s2]
    have t2: "share_step k s1 s2"
      using with_stk_share_step update_validator_shares_step chain_okD(4) by blast
    have "DelegatorAddress d = a" using d chain_okD(3) [OF share_stepD(2) [OF t1]] by (auto simp: stk_ok_def GetDelegator_def)
    then have "Tokens (d\<lparr>Shares := calculateWeight tokens\<rparr>) = tokens_of (stk s2) (DelegatorAddress (d\<lparr>Shares := calculateWeight tokens\<rparr>))"
      using d share_stepD(5) [OF t2, of a] by (simp add: tokens_of_def GetDelegator_def)
    note t3 = SetDelegator_rec_step [OF share_stepD(2) [OF t2] this]
    note t4 = hooks_share_step(3) [OF assms(1) rec_stepD(2) [OF t3] s']
    show ?thesis using rec_step_trans [OF share_rec_step [OF share_step_trans [OF t1 t2]] rec_step_trans [OF t3 share_rec_step [OF t4]]] .
  qed
qed

lemma UpdateProxy_step:
  assumes "modules_ok k" "chain_ok k s" "UpdateProxy k ctx d tokens s = Inr s'"
  shows "rec_step k s s'"
proof (cases "ProxyAddress d")
  case None
  then show ?thesis using assms(2,3) by (simp add: UpdateProxy_def rec_step_refl)
next
  case (Some p)
  then obtain proxy total final where proxy: "GetDelegator (stk s) p = Some proxy"
    and up: "UpdateShares k ctx (DelegatorAddress proxy) final (upd_stk (SetDelegator (proxy\<lparr>TotalDelegatedTokens := total\<rparr>)) s) = Inr s'"
    using assms(3) by (auto simp: UpdateProxy_def Let_def split: option.splits if_splits)
  have "DelegatorAddress proxy = p" using proxy chain_okD(3) [OF assms(2)] by (auto simp: stk_ok_def GetDelegator_def)
  then have "rec_step k s (upd_stk (SetDelegator (proxy\<lparr>TotalDelegatedTokens := total\<rparr>)) s)"
    using proxy by (intro SetDelegator_rec_step [OF assms(2)]) (simp add: tokens_of_def GetDelegator_def)
  then show ?thesis using rec_step_trans UpdateShares_step [OF assms(1) rec_stepD(2) up] by blast
qed

text \<open>The denomination of the bond token is valid, and a pool is no ordinary account.\<close>

lemma modules_distinct:
  assumes "modules_ok k"
  shows "AddressHash k BondedPoolName \<noteq> AddressHash k NotBondedPoolName"
    "AddressHash k BondedPoolName \<noteq> AddressHash k DistributionModuleName" "AddressHash k NotBondedPoolName \<noteq> AddressHash k DistributionModuleName"
    "\<not> blacklistedAddrs k a \<Longrightarrow> a \<noteq> AddressHash k BondedPoolName" "\<not> blacklistedAddrs k a \<Longrightarrow> a \<noteq> AddressHash k NotBondedPoolName"
    "\<not> blacklistedAddrs k a \<Longrightarrow> a \<noteq> AddressHash k DistributionModuleName"
  using assms by (auto simp: modules_ok_def)

lemma deposit_shift:
  assumes "modules_ok k" "chain_ok k s" "\<not> blacklistedAddrs k a" "with_led (DelegateCoinsFromAccountToModule k a BondedPoolName cs) s = Inr s'"
  shows "shift k (amt cs DefaultBondDenom) 0 s s'" "stk s' = stk s"
proof -
  from assms(4) obtain l where l: "DelegateCoinsFromAccountToModule k a BondedPoolName cs (led s) = Inr l" and s': "s' = s\<lparr>led := l\<rparr>" by auto
  note m = DelegateCoinsFromAccountToModule_moved [OF chain_okD(1) [OF assms(2)] modules_okD [OF assms(1)] l]
  note ne = modules_distinct(1-3) [OF assms(1)] modules_distinct(4-6) [OF assms(1,3)]
  show "shift k (amt cs DefaultBondDenom) 0 s s'" "stk s' = stk s"
    using moved_shift [OF assms(1,2) m] ne by (simp_all add: s' transfer_def credit_def)
qed

lemma Delegate_shift:
  assumes "modules_ok k" "chain_ok k s" "\<not> blacklistedAddrs k a" "Denom token = DefaultBondDenom" "Delegate k ctx a token s = Inr s'"
  shows "shift k 0 0 s s'"
proof -
  from assms(5) obtain s1 where s1: "with_led (DelegateCoinsFromAccountToModule k a BondedPoolName [token]) s = Inr s1"
    unfolding Delegate_def by (simp del: with_led_eq_Inr split: if_splits) blast
  define d where "d = (case GetDelegator (stk s1) a of None \<Rightarrow> NewDelegator a | Some d \<Rightarrow> d)"
  define d' where "d' = d\<lparr>Tokens := Tokens d + Amount token\<rparr>"
  have rest: "(if HasProxy d' then UpdateProxy k ctx d' (Amount token) (upd_stk (SetDelegator d') s1)
     else rbind (final_tokens d') (\<lambda>finalTokens. UpdateShares k ctx (DelegatorAddress d') finalTokens (upd_stk (SetDelegator d') s1))) = Inr s'"
    using assms(5) unfolding Delegate_def s1 rbind_simps Let_def d_def [symmetric] by (auto simp: d'_def split: if_splits)
  note t1 = deposit_shift [OF assms(1-3) s1]
  have d: "DelegatorAddress d' = a" "tokens_of (stk s1) a = Tokens d' - Amount token"
    using chain_okD(3) [OF shift_ok [OF t1(1)]]
    by (auto simp: d'_def d_def stk_ok_def GetDelegator_def NewDelegator_def tokens_of_def ZeroDec_def split: option.splits)
  have t2: "shift k (- Amount token) 0 s1 (upd_stk (SetDelegator d') s1)"
    using SetDelegator_shift [OF shift_ok [OF t1(1)], of d'] d by simp
  have t3: "shift k 0 0 (upd_stk (SetDelegator d') s1) s'"
    using rest UpdateProxy_step [OF assms(1) shift_ok [OF t2]] UpdateShares_step [OF assms(1) shift_ok [OF t2]]
    by (auto simp: rec_step_def split: if_splits)
  show ?thesis using shift_trans_0 [OF shift_trans [OF t1(1) t2] t3] assms(4) by simp
qed

lemma bondedTokensToNotBonded_shift:
  assumes "modules_ok k" "chain_ok k s" "bondedTokensToNotBonded k token s = Inr s'" "Denom token = DefaultBondDenom"
  shows "shift k (- Amount token) (Amount token) s s'" "stk s' = stk s"
proof -
  from assms(3) obtain cs l where cs: "NewCoins [token] = Inr cs"
    and l: "SendCoinsFromModuleToModule k BondedPoolName NotBondedPoolName cs (led s) = Inr l" and s': "s' = s\<lparr>led := l\<rparr>"
    by (auto simp: bondedTokensToNotBonded_def ToCoins_def)
  note m = SendCoinsFromModuleToModule_moved [OF chain_okD(1) [OF assms(2)] modules_okD [OF assms(1)] l]
  have "amt cs DefaultBondDenom = Amount token" using NewCoins_spec(1) [OF cs] assms(4) by simp
  then show "shift k (- Amount token) (Amount token) s s'" "stk s' = stk s"
    using moved_shift [OF assms(1,2) m] modules_distinct(1-3) [OF assms(1)] by (simp_all add: s' transfer_def credit_def)
qed

lemma DeleteDelegator_shift:
  assumes "chain_ok k s"
  shows "shift k (tokens_of (stk s) a) 0 s (upd_stk (DeleteDelegator a) s)"
proof -
  have "bonded_owed (stk s) - bonded_owed (DeleteDelegator a (stk s)) = tokens_of (stk s) a"
    "unbonding_owed (DeleteDelegator a (stk s)) = unbonding_owed (stk s)"
    by (simp_all add: bonded_owed_def unbonding_owed_def DeleteDelegator_def tokens_of_def)
  moreover have "stk_ok k (DeleteDelegator a (stk s))" "validators (DeleteDelegator a (stk s)) = validators (stk s)"
    using chain_okD(3) [OF assms] by (auto simp: stk_ok_def vals_ok_def DeleteDelegator_def split: if_splits)
  ultimately show ?thesis unfolding upd_stk_def using store_shift [OF assms, of "DeleteDelegator a (stk s)"] by simp
qed

lemma withdraw_delegator_shift:
  assumes "modules_ok k" "chain_ok k s" "withdraw_delegator k ctx a d left s = Inr s'" "DelegatorAddress d = a"
  shows "shift k (tokens_of (stk s) a - left) 0 s s'"
proof (cases "left = 0")
  case True
  obtain vs x where vs: "GetLastValsAddedSharesExisted (stk s) a = (vs, x)" by force
  define unbind where "unbind = (\<lambda>s. case ProxyAddress d of None \<Rightarrow> s | Some p \<Rightarrow> upd_stk (SetProxyBinding p a True) s)"
  from assms(3) True vs obtain s1 where s1: "WithdrawLastShares k ctx a vs x s = Inr s1"
    and s': "s' = upd_stk (DeleteDelegator a) (unbind s1)"
    by (auto simp: withdraw_delegator_def unbind_def)
  note t1 = WithdrawLastShares_step [OF assms(1,2) last_vals_current [OF chain_okD(4) [OF assms(2)] vs] s1]
  have t2: "share_step k s1 (unbind s1)"
    using val_share_step [OF share_stepD(2) [OF t1] shares_step(13) [OF chain_okD(4) [OF share_stepD(2) [OF t1]]]]
      share_step_refl [OF share_stepD(2) [OF t1]]
    by (auto simp: unbind_def upd_stk_def split: option.splits)
  note t = share_step_trans [OF t1 t2]
  have "tokens_of (stk (unbind s1)) a = tokens_of (stk s) a" using share_stepD(3) [OF t] by (simp add: tokens_of_def)
  then show ?thesis
    unfolding s' using shift_0_trans [OF share_stepD(1) [OF t] DeleteDelegator_shift [OF share_stepD(2) [OF t], of a]] True by simp
next
  case False
  let ?d = "d\<lparr>Tokens := left\<rparr>"
  have t1: "shift k (tokens_of (stk s) a - left) 0 s (upd_stk (SetDelegator ?d) s)"
    using SetDelegator_shift [OF assms(2), of ?d] assms(4) by simp
  have "shift k 0 0 (upd_stk (SetDelegator ?d) s) s'"
    using assms(3) False UpdateShares_step [OF assms(1) shift_ok [OF t1]] shift_refl [OF shift_ok [OF t1]]
    by (auto simp: withdraw_delegator_def Let_def rec_step_def split: if_splits)
  then show ?thesis by (rule shift_trans_0 [OF t1])
qed

text \<open>Recording an undelegation.\<close>

definition quantity_of :: "staking \<Rightarrow> bytes \<Rightarrow> Dec" where
  "quantity_of st a = (case kv_get (undelegationInfos st) a of None \<Rightarrow> 0 | Some u \<Rightarrow> Quantity u)"

lemma SetUndelegating_shift:
  assumes "chain_ok k s" "\<not> blacklistedAddrs k (ud_DelegatorAddress u)" "val_step (SetUndelegating u (stk s)) st"
  shows "shift k 0 (quantity_of (stk s) (ud_DelegatorAddress u) - Quantity u) s (s\<lparr>stk := st\<rparr>)"
proof -
  have ud: "unbonding_owed (stk s) - unbonding_owed (SetUndelegating u (stk s)) = quantity_of (stk s) (ud_DelegatorAddress u) - Quantity u"
    "bonded_owed (SetUndelegating u (stk s)) = bonded_owed (stk s)"
    by (simp_all add: bonded_owed_def unbonding_owed_def SetUndelegating_def quantity_of_def)
  have ok: "stk_ok k (SetUndelegating u (stk s))" "validators (SetUndelegating u (stk s)) = validators (stk s)"
    using chain_okD(3) [OF assms(1)] assms(2) by (auto simp: stk_ok_def vals_ok_def SetUndelegating_def split: if_splits)
  have t: "shift k 0 (quantity_of (stk s) (ud_DelegatorAddress u) - Quantity u) s (s\<lparr>stk := SetUndelegating u (stk s)\<rparr>)"
    using store_shift [OF assms(1) ok(1)] ok(2) ud by simp
  show ?thesis using shift_trans_0 [OF t val_step_shift [OF shift_ok [OF t]]] assms(3) by simp
qed

lemma SetUndelegating_DeleteAddr: "SetUndelegating u (DeleteAddrByTimeKey t a st) = DeleteAddrByTimeKey t a (SetUndelegating u st)"
  by (cases st) (simp add: SetUndelegating_def DeleteAddrByTimeKey_def)

lemma set_undelegation_shift:
  assumes "chain_ok k s" "\<not> blacklistedAddrs k a" "with_stk (set_undelegation a q t) s = Inr s'"
  shows "shift k 0 (- q) s s'"
proof (cases "GetUndelegating (stk s) a")
  case None
  let ?u = "NewUndelegationInfo a q t"
  have ok: "vals_ok (SetUndelegating ?u (stk s))"
    using chain_okD(4) [OF assms(1)] by (simp add: vals_ok_def SetUndelegating_def)
  have s': "s' = s\<lparr>stk := SetAddrByTimeKeyWithNilValue t a (SetUndelegating ?u (stk s))\<rparr>" using assms(3) None by (auto simp: set_undelegation_def)
  show ?thesis unfolding s'
    using SetUndelegating_shift [OF assms(1) _ shares_step(12) [OF ok], of t a] assms(2) None
    by (simp add: NewUndelegationInfo_def quantity_of_def GetUndelegating_def)
next
  case (Some u)
  let ?u = "u\<lparr>Quantity := Quantity u + q, CompletionTime := t\<rparr>"
  have u: "ud_DelegatorAddress u = a" using Some chain_okD(3) [OF assms(1)] by (auto simp: stk_ok_def GetUndelegating_def)
  have ok: "vals_ok (SetUndelegating ?u (stk s))"
    using chain_okD(4) [OF assms(1)] by (simp add: vals_ok_def SetUndelegating_def)
  have s': "s' = s\<lparr>stk := SetAddrByTimeKeyWithNilValue t a (DeleteAddrByTimeKey (CompletionTime u) a (SetUndelegating ?u (stk s)))\<rparr>"
    using assms(3) Some by (auto simp: set_undelegation_def SetUndelegating_DeleteAddr)
  note v = shares_step(11) [OF ok, of "CompletionTime u" a]
  show ?thesis unfolding s'
    using SetUndelegating_shift [OF assms(1) _ val_step_trans [OF v shares_step(12) [OF val_stepD(1) [OF v]]], of t a] assms(2) Some u
    by (simp add: quantity_of_def GetUndelegating_def)
qed

lemma Withdraw_shift:
  assumes "modules_ok k" "chain_ok k s" "\<not> blacklistedAddrs k a" "Denom token = DefaultBondDenom" "Withdraw k ctx a token s = Inr (t, s')"
  shows "shift k 0 0 s s'"
proof -
  let ?q = "Amount token"
  from assms(5) obtain d s1 s2 s3 where d: "GetDelegator (stk s) a = Some d" and s1: "bondedTokensToNotBonded k token s = Inr s1"
    and s2: "s2 = s1 \<or> (\<exists>q. UpdateProxy k ctx d q s1 = Inr s2)"
    and s3: "withdraw_delegator k ctx a d (Tokens d - ?q) s2 = Inr s3" and s': "with_stk (set_undelegation a ?q t) s3 = Inr s'"
    unfolding Withdraw_def by (auto simp: Let_def simp del: with_stk_eq_Inr split: option.splits if_splits) blast+
  note t1 = bondedTokensToNotBonded_shift [OF assms(1,2) s1 assms(4)]
  have t2: "rec_step k s1 s2" using s2 rec_step_refl [OF shift_ok [OF t1(1)]] UpdateProxy_step [OF assms(1) shift_ok [OF t1(1)]] by blast
  have da: "DelegatorAddress d = a" using d chain_okD(3) [OF assms(2)] by (auto simp: stk_ok_def GetDelegator_def)
  have "tokens_of (stk s2) a = Tokens d" using rec_stepD(3) [OF t2, of a] t1(2) d by (simp add: tokens_of_def GetDelegator_def)
  then have t3: "shift k ?q 0 s2 s3" using withdraw_delegator_shift [OF assms(1) rec_stepD(2) [OF t2] s3 da] by simp
  note t4 = set_undelegation_shift [OF shift_ok [OF t3] assms(3) s']
  show ?thesis using shift_trans [OF shift_trans [OF shift_trans_0 [OF t1(1) rec_stepD(1) [OF t2]] t3] t4] by simp
qed

lemma CompleteUndelegation_shift:
  assumes "modules_ok k" "chain_ok k s" "CompleteUndelegation k a s = Inr s'"
  shows "shift k 0 0 s s'"
proof -
  from assms(3) obtain u l where u: "GetUndelegating (stk s) a = Some u"
    and l: "UndelegateCoinsFromModuleToAccount k NotBondedPoolName (ud_DelegatorAddress u) [\<lparr>Denom = DefaultBondDenom, Amount = Quantity u\<rparr>] (led s) = Inr l"
    and s': "s' = upd_stk (DeleteUndelegating a) (s\<lparr>led := l\<rparr>)"
    by (auto simp: CompleteUndelegation_def NewDecCoinFromDec_eq_Inr split: option.splits)
  have ua: "ud_DelegatorAddress u = a" "\<not> blacklistedAddrs k a"
    using u chain_okD(3) [OF assms(2)] by (auto simp: stk_ok_def GetUndelegating_def)
  note ne = modules_distinct(1-3) [OF assms(1)] modules_distinct(4-6) [OF assms(1) ua(2)]
  note m = UndelegateCoinsFromModuleToAccount_moved [OF chain_okD(1) [OF assms(2)] modules_okD [OF assms(1)] _ l]
  have t1: "shift k 0 (- Quantity u) s (s\<lparr>led := l\<rparr>)"
    using moved_shift [OF assms(1,2) m] ne ua(1) by (simp add: transfer_def credit_def)
  have owed: "unbonding_owed (stk s) - unbonding_owed (DeleteUndelegating a (stk s)) = Quantity u"
    "bonded_owed (DeleteUndelegating a (stk s)) = bonded_owed (stk s)"
    using u by (simp_all add: bonded_owed_def unbonding_owed_def DeleteUndelegating_def GetUndelegating_def)
  have ok: "stk_ok k (DeleteUndelegating a (stk s))" "validators (DeleteUndelegating a (stk s)) = validators (stk s)"
    using chain_okD(3) [OF assms(2)] by (auto simp: stk_ok_def vals_ok_def DeleteUndelegating_def split: if_splits)
  have "shift k 0 (Quantity u) (s\<lparr>led := l\<rparr>) s'"
    using store_shift [OF shift_ok [OF t1], of "DeleteUndelegating a (stk s)"] ok owed by (simp add: s' upd_stk_def)
  from shift_trans [OF t1 this] show ?thesis by simp
qed

lemma module_account_shift:
  assumes "modules_ok k" "chain_ok k s" "module_account k m (led s) = Inr (acc, l)"
  shows "shift k 0 0 s (s\<lparr>led := l\<rparr>)"
proof -
  note c = module_account_changes(1) [OF chain_okD(1) [OF assms(2)] modules_okD [OF assms(1)] assms(3)]
  show ?thesis using assms(2) changesD [OF c] same_supplies [OF c] by (simp add: shift_def chain_ok_def distr_gap_def bonded_gap_def unbonding_gap_def)
qed

lemma complete_or_log_shift:
  assumes "modules_ok k" "chain_ok k s" "complete_or_log k a s = Inr s'"
  shows "shift k 0 0 s s'"
  using assms CompleteUndelegation_shift [OF assms(1,2)] module_account_shift [OF assms(1,2)] shift_refl [OF assms(2)]
  by (auto simp: complete_or_log_def split: sum.splits gerr.splits option.splits)

lemma upd_stk_shift: "chain_ok k s \<Longrightarrow> val_step (stk s) (f (stk s)) \<Longrightarrow> shift k 0 0 s (upd_stk f s)"
  using val_step_shift by (simp add: upd_stk_def)

interpretation mature: pool_op k "\<lambda>((oldTime, delAddr), _) s. complete_or_log k delAddr (upd_stk (DeleteAddrByTimeKey oldTime delAddr) s)" for k
proof (unfold_locales, goal_cases)
  case (1 s x s')
  obtain t d y where x: "x = ((t, d), y)" by (metis surj_pair)
  note t1 = upd_stk_shift [where f = "DeleteAddrByTimeKey t d", OF 1(2) shares_step(11) [OF chain_okD(4) [OF 1(2)]]]
  show ?case using shift_trans_0 [OF t1 complete_or_log_shift [OF 1(1) shift_ok [OF t1]]] 1(3) by (simp add: x)
qed

lemma complete_mature_shift: "modules_ok k \<Longrightarrow> chain_ok k s \<Longrightarrow> complete_mature k ctx s = Inr s' \<Longrightarrow> shift k 0 0 s s'"
  unfolding complete_mature_def by (rule mature.runs_shift)

section \<open>The minimum self delegation\<close>

lemma SetValidator_shift:
  assumes "chain_ok k s" "0 \<le> Rate (val_Commission v)"
  shows "shift k (msd_of (stk s) (OperatorAddress v) - MinSelfDelegation v) 0 s (upd_stk (SetValidator v) s)"
proof -
  have "bonded_owed (stk s) - bonded_owed (SetValidator v (stk s)) = msd_of (stk s) (OperatorAddress v) - MinSelfDelegation v"
    "unbonding_owed (SetValidator v (stk s)) = unbonding_owed (stk s)"
    by (simp_all add: bonded_owed_def unbonding_owed_def SetValidator_def msd_of_def)
  moreover have "stk_ok k (SetValidator v (stk s))" "kv_has (validators (stk s)) a \<Longrightarrow> kv_has (validators (SetValidator v (stk s))) a" for a
    using chain_okD(3) [OF assms(1)] assms(2) by (auto simp: stk_ok_def vals_ok_def SetValidator_def kv_has_def split: if_splits)
  ultimately show ?thesis unfolding upd_stk_def using store_shift [OF assms(1), of "SetValidator v (stk s)"] by simp
qed

lemma destroy_validator_shift:
  assumes "modules_ok k" "chain_ok k s" "current (stk s) v" "destroy_validator k v x s = Inr s'"
  shows "shift k (MinSelfDelegation v) 0 s s'"
proof -
  let ?v = "v\<lparr>MinSelfDelegation := ZeroDec, Jailed := True\<rparr>"
  let ?s1 = "AfterValidatorDestroyed k (OperatorAddress v) s"
  have t1: "shift k 0 0 s ?s1" "stk ?s1 = stk s"
    using sla_shift [OF assms(2)] shift_refl [OF assms(2)]
    by (auto simp: AfterValidatorDestroyed_def slashing_AfterValidatorDestroyed_def with_sla_def split: option.splits)
  have fin: "shift k (MinSelfDelegation v) 0 s s'"
    if t: "shift k 0 0 s t" "val_step (stk s) (stk t)"
      and f: "with_stk (\<lambda>st. rbind (DeleteValidatorByPowerIndex ?v st) (\<lambda>st1. Inr (SetValidator (?v\<lparr>DelegatorShares := x\<rparr>) st1))) t = Inr s'" for t
  proof -
    from f obtain st1 where st1: "DeleteValidatorByPowerIndex ?v (stk t) = Inr st1" and s': "s' = upd_stk (SetValidator (?v\<lparr>DelegatorShares := x\<rparr>)) (t\<lparr>stk := st1\<rparr>)"
      by (auto simp: upd_stk_def)
    note v1 = power_index_step(1) [OF chain_okD(4) [OF shift_ok [OF t(1)]] st1]
    note t2 = val_step_shift [OF shift_ok [OF t(1)] v1]
    have cur: "current st1 v" using val_stepD(2) [OF val_step_trans [OF t(2) v1]] assms(3) by simp
    have "shift k (MinSelfDelegation v) 0 (t\<lparr>stk := st1\<rparr>) s'"
      using SetValidator_shift [OF shift_ok [OF t2], of "?v\<lparr>DelegatorShares := x\<rparr>"] cur by (simp add: s' current_def ZeroDec_def)
    then show ?thesis using shift_0_trans [OF t(1) shift_0_trans [OF t2]] by blast
  qed
  have app: "shift k 0 0 s t \<and> val_step (stk s) (stk t)" if "with_stk (AppendAbandonedValidatorAddrs c) ?s1 = Inr t" for c t
  proof -
    have v: "val_step (stk ?s1) (stk t)" and t: "t = ?s1\<lparr>stk := stk t\<rparr>"
      using that chain_okD(4) [OF assms(2)] t1(2) by (auto simp: AppendAbandonedValidatorAddrs_def intro!: val_step_frame)
    show ?thesis using val_step_shift [OF shift_ok [OF t1(1)] v] t shift_trans_0 [OF t1(1)] v t1(2) by metis
  qed
  have rm: "shift k (MinSelfDelegation v) 0 s s'" if "RemoveValidator k (OperatorAddress v) ?s1 = Inr s'"
    using RemoveValidator_shift(1) [OF assms(1) shift_ok [OF t1(1)] that] shift_0_trans [OF t1(1)] assms(3) by (simp add: t1(2) current_def)
  show ?thesis
    using assms(4) fin rm app t1 val_step_refl [OF chain_okD(4) [OF assms(2)]]
    unfolding destroy_validator_def Let_def by (cases "Status v") (auto simp del: with_stk_eq_Inr split: if_splits)
qed

text \<open>The difference of the not-bonded pool grows by what the operator's pending undelegation held: the
  new undelegation replaces it.\<close>

lemma WithdrawMinSelfDelegation_shift:
  assumes "modules_ok k" "chain_ok k s" "\<not> blacklistedAddrs k a" "GetValidator (stk s) a = Some v" "WithdrawMinSelfDelegation k ctx a v s = Inr (t, s')"
  shows "shift k 0 (quantity_of (stk s) a) s s'"
proof -
  let ?m = "MinSelfDelegation v" and ?u = "\<lambda>t. NewUndelegationInfo a (MinSelfDelegation v) t"
  from assms(5) obtain s1 x where s1: "bondedTokensToNotBonded k \<lparr>Denom = DefaultBondDenom, Amount = ?m\<rparr> s = Inr s1"
    and s': "destroy_validator k v x (upd_stk (\<lambda>st. SetAddrByTimeKeyWithNilValue t a (SetUndelegating (?u t) st)) s1) = Inr s'"
    by (auto simp: WithdrawMinSelfDelegation_def NewDecCoinFromDec_eq_Inr Let_def NewUndelegationInfo_def split: if_splits)
  note t1 = bondedTokensToNotBonded_shift [OF assms(1,2) s1]
  let ?s2 = "upd_stk (\<lambda>st. SetAddrByTimeKeyWithNilValue t a (SetUndelegating (?u t) st)) s1"
  have ok: "vals_ok (SetUndelegating (?u t) (stk s1))"
    using chain_okD(4) [OF assms(2)] t1(2) by (simp add: vals_ok_def SetUndelegating_def)
  have t2: "shift k 0 (quantity_of (stk s) a - ?m) s1 ?s2"
    using SetUndelegating_shift [OF shift_ok [OF t1(1)] _ shares_step(12) [OF ok], of t a] assms(3) t1(2)
    by (simp add: NewUndelegationInfo_def upd_stk_def)
  have cur: "current (stk ?s2) v"
    using stored_current [OF chain_okD(4) [OF assms(2)] assms(4)] t1(2)
    by (simp add: current_def msd_of_def upd_stk_def SetAddrByTimeKeyWithNilValue_def SetUndelegating_def)
  note t3 = destroy_validator_shift [OF assms(1) shift_ok [OF t2] cur s']
  show ?thesis using shift_trans [OF shift_trans [OF t1(1) t2] t3] by simp
qed

lemma deposit_msd_shift:
  assumes "modules_ok k" "chain_ok k s" "\<not> blacklistedAddrs k a" "0 \<le> m"
    "deposit_msd k a \<lparr>Denom = DefaultBondDenom, Amount = m\<rparr> s = Inr s'"
  shows "shift k m 0 s s'" "stk s' = stk s" "dis s' = dis s"
proof -
  have a: "AmountOf [\<lparr>Denom = DefaultBondDenom, Amount = m\<rparr>] DefaultBondDenom = Inr x \<Longrightarrow> x = m" for x
    by (simp add: AmountOf_eq_Inr sorted_coins_def)
  show "shift k m 0 s s'" "stk s' = stk s" "dis s' = dis s"
    using assms(5) deposit_shift [OF assms(1-3), of "[\<lparr>Denom = DefaultBondDenom, Amount = m\<rparr>]" s'] shift_refl [OF assms(2)] assms(4) a
    by (auto simp: deposit_msd_def ZeroDec_def simp del: with_led_eq_Inr split: if_splits) auto
qed

lemma handleMsgDepositMinSelfDelegation_shift:
  assumes "modules_ok k" "chain_ok k s" "\<not> blacklistedAddrs k a" "handleMsgDepositMinSelfDelegation k a s = Inr s'"
  shows "shift k 0 0 s s'"
proof -
  from assms(4) obtain v v1 s1 where v: "GetValidator (stk s) a = Some v" and le: "MinSelfDelegation v < ParamsMinSelfDelegation (params (stk s))"
    and dep: "DepositMinSelfDelegation k (OperatorAddress v) v
       \<lparr>Denom = DefaultBondDenom, Amount = ParamsMinSelfDelegation (params (stk s)) - MinSelfDelegation v\<rparr> s = Inr (v1, s1)"
    and s': "s' = upd_stk (SetValidator (v1\<lparr>MinSelfDelegation := ParamsMinSelfDelegation (params (stk s))\<rparr>)) s1"
    by (auto simp: handleMsgDepositMinSelfDelegation_def Let_def NewDecCoinFromDec_eq_Inr split: option.splits if_splits)
  let ?m = "ParamsMinSelfDelegation (params (stk s))"
  note cur = stored_current [OF chain_okD(4) [OF assms(2)] v]
  from dep obtain s0 where s0: "deposit_msd k a \<lparr>Denom = DefaultBondDenom, Amount = ?m - MinSelfDelegation v\<rparr> s = Inr s0"
    and v1: "v1 = v \<and> s1 = s0 \<or> v1 = v\<lparr>DelegatorShares := getSharesFromDefaultMinSelfDelegation\<rparr> \<and> with_stk (\<lambda>st.
       rbind (DeleteValidatorByPowerIndex v st) (\<lambda>st1. SetValidatorByPowerIndex v1 (SetValidator v1 st1))) s0 = Inr s1"
    using cur by (auto simp: DepositMinSelfDelegation_def Let_def simp del: with_stk_eq_Inr split: if_splits)
  note t1 = deposit_msd_shift [OF assms(1-3) _ s0]
  have t1: "shift k (?m - MinSelfDelegation v) 0 s s0" "stk s0 = stk s" using t1 le by simp_all
  have cur0: "current (stk s0) v1" using v1 cur t1(2) by auto
  have t2: "share_step k s0 s1"
    using v1 share_step_refl [OF shift_ok [OF t1(1)]] set_indexed_share_step [OF shift_ok [OF t1(1)] cur0] by blast
  have "shift k (MinSelfDelegation v - ?m) 0 s1 s'"
    using SetValidator_shift [OF share_stepD(2) [OF t2], of "v1\<lparr>MinSelfDelegation := ?m\<rparr>"] cur0 share_stepD(4) [OF t2, of v1] v1
    by (auto simp: s' current_def)
  from shift_trans [OF shift_trans_0 [OF t1(1) share_stepD(1) [OF t2]] this] show ?thesis by simp
qed

lemma AfterValidatorCreated_shift:
  assumes "modules_ok k" "chain_ok k s" "\<not> kv_has (outstandingRewards (dis s)) a" "AfterValidatorCreated k a s = Inr s'"
  shows "shift k 0 0 s s'"
proof -
  from assms(4) obtain v where v: "GetValidator (stk s) a = Some v"
    and sl: "slashing_AfterValidatorCreated k a (with_dis (initializeValidator v) s) = Inr s'"
    by (auto simp: AfterValidatorCreated_def distr_AfterValidatorCreated_def)
  have op: "OperatorAddress v = a" using stored_current [OF chain_okD(4) [OF assms(2)] v] by simp
  note i = initializeValidator_owed [OF chain_okD(2) [OF assms(2)], of v]
  have t1: "shift k 0 0 s (with_dis (initializeValidator v) s)"
    using assms(2,3) i op v
    by (auto simp: shift_def chain_ok_def distr_gap_def bonded_gap_def unbonding_gap_def with_dis_def kv_has_def GetValidator_def)
  have "shift k 0 0 (with_dis (initializeValidator v) s) s'"
    using sl sla_shift [OF shift_ok [OF t1]] by (auto simp: slashing_AfterValidatorCreated_def with_sla_def)
  then show ?thesis by (rule shift_0_trans [OF t1])
qed

lemma handleMsgCreateValidator_shift:
  assumes "modules_ok k" "chain_ok k s" "\<not> blacklistedAddrs k (cv_DelegatorAddress m)" "handleMsgCreateValidator k ctx m s = Inr s'"
  shows "shift k 0 0 s s'"
proof -
  let ?p = "ParamsMinSelfDelegation (params (stk s))"
  define v where "v = (NewValidator (cv_ValidatorAddress m) (cv_PubKey m) (cv_Description m) ?p)\<lparr>val_Commission := NewCommission OneDec OneDec ZeroDec\<rparr>"
  from assms(4) obtain s1 s2 where new: "GetValidator (stk s) (cv_ValidatorAddress m) = None" and p: "0 \<le> ?p"
    and s1: "with_stk (\<lambda>st. SetNewValidatorByPowerIndex v (SetValidatorByConsAddr k v (SetValidator v st))) s = Inr s1"
    and s2: "AddSharesAsMinSelfDelegation k (cv_DelegatorAddress m) v \<lparr>Denom = DefaultBondDenom, Amount = ?p\<rparr> s1 = Inr s2"
    and s': "AfterValidatorCreated k (cv_ValidatorAddress m) s2 = Inr s'"
    by (auto simp: handleMsgCreateValidator_def SetInitialCommission_def Let_def NewDecCoinFromDec_eq_Inr v_def NewValidator_def
        simp del: with_stk_eq_Inr split: if_splits)
  have v: "OperatorAddress v = cv_ValidatorAddress m" "MinSelfDelegation v = ?p" "0 \<le> Rate (val_Commission v)"
    by (simp_all add: v_def NewValidator_def NewCommission_def OneDec_def precisionReuse_def)
  have t1: "shift k (- ?p) 0 s (upd_stk (SetValidator v) s)"
    using SetValidator_shift [OF assms(2) v(3)] new v by (simp add: msd_of_def GetValidator_def)
  have "\<exists>st. s1 = (upd_stk (SetValidator v) s)\<lparr>stk := st\<rparr> \<and> val_step (SetValidator v (stk s)) st"
  proof -
    have v1: "val_step (SetValidator v (stk s)) (SetValidatorByConsAddr k v (SetValidator v (stk s)))"
      using chain_okD(4) [OF shift_ok [OF t1]] by (intro val_step_frame) (simp_all add: upd_stk_def SetValidatorByConsAddr_def)
    obtain st where st: "SetNewValidatorByPowerIndex v (SetValidatorByConsAddr k v (SetValidator v (stk s))) = Inr st" "s1 = s\<lparr>stk := st\<rparr>"
      using s1 by auto
    then show ?thesis using val_step_trans [OF v1 power_index_step(3) [OF val_stepD(1) [OF v1] st(1)]] by (auto simp: upd_stk_def)
  qed
  then obtain st where st: "s1 = (upd_stk (SetValidator v) s)\<lparr>stk := st\<rparr>" "val_step (stk (upd_stk (SetValidator v) s)) st" by (auto simp: upd_stk_def)
  have t2: "share_step k (upd_stk (SetValidator v) s) s1" unfolding st(1) by (rule val_share_step [OF shift_ok [OF t1] st(2)])
  have cur1: "current (stk s1) v" using share_stepD(4) [OF t2, of v] v by (simp add: current_def msd_of_def upd_stk_def SetValidator_def)
  from s2 obtain s0 t where s0: "deposit_msd k (cv_DelegatorAddress m) \<lparr>Denom = DefaultBondDenom, Amount = ?p\<rparr> s1 = Inr s0"
    and s2': "with_stk (\<lambda>st. rbind (DeleteValidatorByPowerIndex v st) (\<lambda>st1. SetValidatorByPowerIndex (v\<lparr>DelegatorShares := t\<rparr>) (SetValidator (v\<lparr>DelegatorShares := t\<rparr>) st1))) s0 = Inr s2"
    by (auto simp: AddSharesAsMinSelfDelegation_def Let_def)
  note t3 = deposit_msd_shift [OF assms(1) share_stepD(2) [OF t2] assms(3) p s0]
  have t4: "share_step k s0 s2"
    using set_indexed_share_step [OF shift_ok [OF t3(1)] _ s2'] cur1 t3(2) by simp
  have "dis s2 = dis s" using s2' t3(3) st(1) by (auto simp: upd_stk_def)
  moreover have "\<not> kv_has (outstandingRewards (dis s)) (cv_ValidatorAddress m)"
    using assms(2) new by (auto simp: chain_ok_def kv_has_def GetValidator_def)
  ultimately have t5: "shift k 0 0 s2 s'" using AfterValidatorCreated_shift [OF assms(1) share_stepD(2) [OF t4] _ s'] by simp
  show ?thesis
    using shift_trans_0 [OF shift_trans_0 [OF shift_trans [OF shift_trans_0 [OF t1 share_stepD(1) [OF t2]] t3(1)] share_stepD(1) [OF t4]] t5] by simp
qed

section \<open>Messages\<close>

lemma SetValidator_same:
  "chain_ok k s \<Longrightarrow> current (stk s) v \<Longrightarrow> share_step k s (upd_stk (SetValidator v) s)"
  using val_share_step [OF _ val_step_SetValidator] chain_okD(4) by (simp add: upd_stk_def)

lemma edit_shift:
  assumes "chain_ok k s"
  shows "handleMsgEditValidator a d s = Inr s' \<Longrightarrow> shift k 0 0 s s'" "handleMsgEditValidatorCommissionRate ctx a r s = Inr s' \<Longrightarrow> shift k 0 0 s s'"
  using share_stepD(1) [OF SetValidator_same [OF assms]] stored_current [OF chain_okD(4) [OF assms]]
  by (auto simp: handleMsgEditValidator_def handleMsgEditValidatorCommissionRate_def UpdateValidatorCommission_def ValidateNewRate_def
      current_def ZeroDec_def split: option.splits if_splits)

lemma GetValidatorsToAddShares_current:
  assumes "vals_ok st" "GetValidatorsToAddShares st as = Inr vs"
  shows "list_all (current st) vs"
  by (rule rfold_invariant [OF assms(2) [unfolded GetValidatorsToAddShares_def], where P = "list_all (current st)"])
    (use stored_current [OF assms(1)] in \<open>auto split: option.splits\<close>)

lemma handleMsgAddShares_shift:
  assumes "modules_ok k" "chain_ok k s" "handleMsgAddShares k ctx a as s = Inr s'"
  shows "shift k 0 0 s s'"
proof -
  obtain lv lx where last: "GetLastValsAddedSharesExisted (stk s) a = (lv, lx)" by force
  from assms(3) last obtain d s1 vs total s2 s3 x where d: "GetDelegator (stk s) a = Some d"
    and s1: "WithdrawLastShares k ctx a lv lx s = Inr s1" and vs: "GetValidatorsToAddShares (stk s1) as = Inr vs"
    and s2: "BeforeDelegationCreated (map OperatorAddress vs) s1 = Inr s2" and s3: "AddSharesToValidators a vs total s2 = Inr (x, s3)"
    and s': "AfterDelegationModified ctx a (map OperatorAddress vs)
      (upd_stk (SetDelegator (d\<lparr>ValidatorAddresses := map OperatorAddress vs, Shares := x\<rparr>)) s3) = Inr s'"
    by (auto simp: handleMsgAddShares_def Let_def split: option.splits if_splits)
  note t1 = WithdrawLastShares_step [OF assms(1,2) last_vals_current [OF chain_okD(4) [OF assms(2)] last] s1]
  note t2 = hooks_share_step(2) [OF assms(1) share_stepD(2) [OF t1] s2]
  have "list_all (current (stk s2)) vs"
    using GetValidatorsToAddShares_current [OF chain_okD(4) [OF share_stepD(2) [OF t1]] vs] share_stepD(4) [OF t2] by (simp add: list_all_iff)
  moreover have "rfold (\<lambda>v. with_stk (addShares a v (calculateWeight total))) vs s2 = Inr s3"
    using s3 by (auto simp: AddSharesToValidators_def Let_def)
  ultimately have t3: "share_step k s2 s3"
    by (rule share_loop [OF share_stepD(2) [OF t2]]) (rule with_stk_share_step, assumption+, rule addShares_step [OF chain_okD(4)])
  note t = share_step_trans [OF t1 share_step_trans [OF t2 t3]]
  have da: "DelegatorAddress d = a" using d chain_okD(3) [OF assms(2)] by (auto simp: stk_ok_def GetDelegator_def)
  let ?d = "d\<lparr>ValidatorAddresses := map OperatorAddress vs, Shares := x\<rparr>"
  have "rec_step k s3 (upd_stk (SetDelegator ?d) s3)"
    using d da share_stepD(5) [OF t, of a] by (intro SetDelegator_rec_step [OF share_stepD(2) [OF t]]) (simp add: tokens_of_def GetDelegator_def)
  note t4 = rec_stepD [OF this]
  note t5 = hooks_share_step(3) [OF assms(1) t4(2) s']
  show ?thesis using shift_0_trans [OF share_stepD(1) [OF t] shift_0_trans [OF t4(1) share_stepD(1) [OF t5]]] .
qed

text \<open>The account that signs a message is not a module account.\<close>

fun msg_signer :: "staking_msg \<Rightarrow> bytes" where
  "msg_signer (CreateValidator m) = cv_DelegatorAddress m"
| "msg_signer (EditValidator a _) = a"
| "msg_signer (EditValidatorCommissionRate a _) = a"
| "msg_signer (Deposit a _) = a"
| "msg_signer (MsgWithdraw a _) = a"
| "msg_signer (AddShares a _) = a"
| "msg_signer (DestroyValidator a) = a"
| "msg_signer (DepositMinSelf a) = a"

definition msg_shift :: "staking_msg \<Rightarrow> staking \<Rightarrow> int" where
  "msg_shift msg st = (case msg of DestroyValidator a \<Rightarrow> quantity_of st a | _ \<Rightarrow> 0)"

lemma staking_Handler_shift:
  assumes "modules_ok k" "chain_ok k s" "\<not> blacklistedAddrs k (msg_signer msg)" "staking_Handler k ctx msg s = Inr s'"
  shows "shift k 0 (msg_shift msg (stk s)) s s'"
proof -
  have h: "(case msg of CreateValidator m \<Rightarrow> handleMsgCreateValidator k ctx m s | EditValidator a d \<Rightarrow> handleMsgEditValidator a d s
      | EditValidatorCommissionRate a r \<Rightarrow> handleMsgEditValidatorCommissionRate ctx a r s | Deposit a c \<Rightarrow> handleMsgDeposit k ctx a c s
      | MsgWithdraw a c \<Rightarrow> handleMsgWithdraw k ctx a c s | AddShares a vs \<Rightarrow> handleMsgAddShares k ctx a vs s
      | DestroyValidator a \<Rightarrow> handleMsgDestroyValidator k ctx a s | DepositMinSelf a \<Rightarrow> handleMsgDepositMinSelfDelegation k a s) = Inr s'"
    using assms(4) by (simp add: staking_Handler_def split: if_splits)
  show ?thesis
  proof (cases msg)
    case (CreateValidator m)
    then show ?thesis using h handleMsgCreateValidator_shift [OF assms(1,2)] assms(3) by (simp add: msg_shift_def)
  next
    case (Deposit a c)
    then show ?thesis using h Delegate_shift [OF assms(1,2)] assms(3) by (auto simp: msg_shift_def handleMsgDeposit_def split: if_splits)
  next
    case (MsgWithdraw a c)
    then show ?thesis using h Withdraw_shift [OF assms(1,2)] assms(3) by (auto simp: msg_shift_def handleMsgWithdraw_def split: if_splits)
  next
    case (DestroyValidator a)
    then show ?thesis using h WithdrawMinSelfDelegation_shift [OF assms(1,2)] assms(3)
      by (auto simp: msg_shift_def handleMsgDestroyValidator_def split: option.splits)
  next
    case (DepositMinSelf a)
    then show ?thesis using h handleMsgDepositMinSelfDelegation_shift [OF assms(1,2)] assms(3) by (simp add: msg_shift_def)
  qed (use h edit_shift [OF assms(2)] handleMsgAddShares_shift [OF assms(1,2)] in \<open>auto simp: msg_shift_def\<close>)
qed

section \<open>The validator set\<close>

lemma with_sla_share_step: "chain_ok k s \<Longrightarrow> share_step k s (s\<lparr>sla := sl\<rparr>)"
  by (simp add: share_step_def sla_shift)

lemma upd_stk_share_step: "chain_ok k s \<Longrightarrow> (\<And>st. vals_ok st \<Longrightarrow> val_step st (f st)) \<Longrightarrow> share_step k s (upd_stk f s)"
  using val_share_step chain_okD(4) by (simp add: upd_stk_def)

lemma bondValidator_step:
  assumes "chain_ok k s" "current (stk s) v" "bondValidator k ctx v s = Inr (v', s')"
  shows "share_step k s s'" "v' = UpdateStatus v Bonded"
proof -
  let ?v = "UpdateStatus v Bonded"
  from assms(3) obtain st1 st2 where st: "rbind (DeleteValidatorByPowerIndex v (stk s)) (\<lambda>st1. SetValidatorByPowerIndex ?v (SetValidator ?v st1)) = Inr st2"
    and s': "s' = AfterValidatorBonded ctx (ConsAddress k ?v) (s\<lparr>stk := DeleteValidatorQueue ?v st2\<rparr>)"
    by (auto simp: bondValidator_def Let_def)
  have a: "val_step (stk s) st2" using set_indexed_step [OF chain_okD(4) [OF assms(1)] _ st] assms(2) by simp
  note b = val_share_step [OF assms(1) val_step_trans [OF a shares_step(4) [OF val_stepD(1) [OF a], of ?v]]]
  show "share_step k s s'"
    using b share_step_trans [OF b with_sla_share_step [OF share_stepD(2) [OF b]]]
    by (auto simp: s' AfterValidatorBonded_def slashing_AfterValidatorBonded_def with_sla_def split: option.splits)
  show "v' = ?v" using assms(3) by (auto simp: bondValidator_def Let_def)
qed

lemma beginUnbondingValidator_step:
  assumes "chain_ok k s" "current (stk s) v" "beginUnbondingValidator ctx v s = Inr (v', s')"
  shows "share_step k s s'" "OperatorAddress v' = OperatorAddress v"
proof -
  let ?v = "(UpdateStatus v Unbonding)\<lparr>UnbondingCompletionTime := BlockTime ctx + UnbondingTime (params (stk s)), UnbondingHeight := BlockHeight ctx\<rparr>"
  from assms(3) obtain st1 st2 where st1: "DeleteValidatorByPowerIndex v (stk s) = Inr st1"
    and st2: "SetValidatorByPowerIndex v' (SetValidator v' st1) = Inr st2" and s': "s' = s\<lparr>stk := InsertValidatorQueue v' st2\<rparr>"
    and v': "current (stk s) v' = current (stk s) v \<and> OperatorAddress v' = OperatorAddress v"
    by (auto simp: beginUnbondingValidator_def Let_def split: if_splits) (auto simp: UpdateStatus_def)
  have "rbind (DeleteValidatorByPowerIndex v (stk s)) (\<lambda>st1. SetValidatorByPowerIndex v' (SetValidator v' st1)) = Inr st2"
    using st1 st2 by simp
  from set_indexed_step [OF chain_okD(4) [OF assms(1)] _ this] have a: "val_step (stk s) st2" using v' assms(2) by simp
  show "share_step k s s'" "OperatorAddress v' = OperatorAddress v"
    unfolding s' using val_share_step [OF assms(1) val_step_trans [OF a shares_step(3) [OF val_stepD(1) [OF a]]]] v' by simp_all
qed

lemma mustGet_current: "chain_ok k s \<Longrightarrow> mustGetValidator (stk s) a = Inr v \<Longrightarrow> current (stk s) v \<and> OperatorAddress v = a"
  using stored_current [OF chain_okD(4), of k s a v] by (auto simp: mustGetValidator_def split: option.splits)

lemma enter_set_step:
  assumes "chain_ok k s" "current (stk s) v" "enter_set k ctx v a us p s = Inr (us', p', s')"
  shows "share_step k s s'"
proof -
  from assms(3) obtain v' s1 pw where s1: "bondValidator k ctx v s = Inr (v', s1)" and s': "s' = upd_stk (SetLastValidatorPower a pw) s1"
    by (auto simp: enter_set_def promote_def unbondedToBonded_def unbondingToBonded_def split: BondStatus.splits if_splits)
  note a = bondValidator_step(1) [OF assms(1,2) s1]
  show ?thesis unfolding s' by (rule share_step_trans [OF a upd_stk_share_step [OF share_stepD(2) [OF a] shares_step(5)]])
qed

lemma leave_set_step:
  assumes "chain_ok k s" "current (stk s) v" "leave_set ctx lv v a us p s = Inr (us', p', s')"
  shows "share_step k s s'"
proof (cases "Status v = Bonded")
  case True
  then obtain v' s1 where s1: "beginUnbondingValidator ctx v s = Inr (v', s1)" and s': "s' = upd_stk (DeleteLastValidatorPower (OperatorAddress v)) s1"
    using assms(3) by (auto simp: leave_set_def bondedToUnbonding_def Let_def split: if_splits option.splits)
  note a = beginUnbondingValidator_step(1) [OF assms(1,2) s1]
  show ?thesis unfolding s' by (rule share_step_trans [OF a upd_stk_share_step [OF share_stepD(2) [OF a] shares_step(6)]])
next
  case False
  then show ?thesis using assms(3) share_step_refl [OF assms(1)] by (cases "Status v") (auto simp: leave_set_def)
qed

lemma promote_candidate_step:
  assumes "chain_ok k s" "promote_candidate k ctx lv x (n, us, p, s) = Inr (n', us', p', s')"
  shows "share_step k s s'"
  using assms enter_set_step [OF assms(1)] mustGet_current [OF assms(1)] share_step_refl [OF assms(1)]
  by (cases x) (auto simp: promote_candidate_def split: if_splits; blast)

text \<open>A loop that carries the updates and the total power along with the chain.\<close>

lemma carry_loop:
  assumes "chain_ok k (part acc)" "rfold f xs acc = Inr acc'"
    and "\<And>x a a'. chain_ok k (part a) \<Longrightarrow> f x a = Inr a' \<Longrightarrow> share_step k (part a) (part a')"
  shows "share_step k (part acc) (part acc')"
  by (rule rfold_invariant [OF assms(2), where P = "\<lambda>a. share_step k (part acc) (part a)"])
    (use assms(1,3) share_step_refl share_step_trans share_stepD(2) in blast)+

lemma leave_all_step:
  assumes "chain_ok k s" "rfold (\<lambda>a (us, p, s). rbind (mustGetValidator (stk s) a) (\<lambda>v. leave_set ctx lv v a us p s)) as (us, p, s) = Inr (us', p', s')"
  shows "share_step k s s'"
  using assms(1) carry_loop [OF _ assms(2), where part = "\<lambda>(_, _, s). s"] leave_set_step mustGet_current by fastforce

lemma KickOut_step:
  assumes "chain_ok k s" "KickOutAndReturnValidatorSetUpdates k ctx s = Inr (us, s')"
  shows "share_step k s s'"
proof -
  let ?lv = "GetLastValidatorsByAddr (stk s)"
  from assms(2) obtain n us1 p1 s1 p2 s2 where
    l1: "rfold (promote_candidate k ctx ?lv) (ValidatorsPowerStoreIterator (stk s)) (length (abandonedValidators (stk s)), [], LastTotalPower (stk s), s) = Inr (n, us1, p1, s1)"
    and l2: "rfold (\<lambda>a (us, p, s). rbind (mustGetValidator (stk s) a) (\<lambda>v. leave_set ctx ?lv v a us p s)) (abandonedValidators (stk s)) (us1, p1, s1) = Inr (us, p2, s2)"
    and s': "s' = upd_stk (SetLastTotalPower p2) s2"
    by (auto simp: KickOutAndReturnValidatorSetUpdates_def Let_def)
  have a: "share_step k s s1"
    using assms(1) carry_loop [OF _ l1, where part = "\<lambda>(_, _, _, s). s" and k = k] promote_candidate_step by fastforce
  have b: "share_step k s s2" by (rule share_step_trans [OF a leave_all_step [OF share_stepD(2) [OF a] l2]])
  show ?thesis unfolding s' by (rule share_step_trans [OF b upd_stk_share_step [OF share_stepD(2) [OF b] shares_step(7)]])
qed

lemma elect_step:
  "chain_ok k s \<Longrightarrow> elect k ctx n es us lv p s = Inr (us', lv', p', s') \<Longrightarrow> share_step k s s'"
proof (induction k ctx n es us lv p s rule: elect.induct)
  case (3 k ctx n x a es us lv p s)
  note IH = "3.IH" and ok = "3.prems"(1)
  from "3.prems"(2) obtain v where v: "mustGetValidator (stk s) a = Inr v" by auto
  note cur = mustGet_current [OF ok v]
  show ?case
  proof (cases "PotentialConsensusPowerByShares v = Inr 0")
    case True
    then show ?thesis using "3.prems"(2) v share_step_refl [OF ok] by (simp split: if_splits)
  next
    case False
    let ?bond = "case Status v of Unbonded \<Rightarrow> unbondedToBonded k ctx v s | Unbonding \<Rightarrow> unbondingToBonded k ctx v s | Bonded \<Rightarrow> Inr (v, s)"
    from "3.prems"(2) v False obtain pw v' s1 np u total where
      run: "\<not> Jailed v" "PotentialConsensusPowerByShares v = Inr pw" "pw \<noteq> 0" "?bond = Inr (v', s1)" "ConsensusPowerByShares v' = Inr np"
        "ABCIValidatorUpdateByShares v' = Inr u" "Int_Add p np = Inr total" and
      rest: "elect k ctx n es (if map_of lv a \<noteq> Some np then us @ [u] else us) (filter (\<lambda>(b, _). b \<noteq> a) lv) total
        (if map_of lv a \<noteq> Some np then upd_stk (SetLastValidatorPower a np) s1 else s1) = Inr (us', lv', p', s')"
      by (auto simp: Let_def simp del: elect.simps(3) simp: elect.simps(3) [of k ctx n x a es] split: if_splits)
    have s1: "share_step k s s1"
      using run(4) bondValidator_step(1) [OF ok] cur share_step_refl [OF ok]
      by (auto simp: unbondedToBonded_def unbondingToBonded_def split: BondStatus.splits if_splits)
    let ?s2 = "if map_of lv a \<noteq> Some np then upd_stk (SetLastValidatorPower a np) s1 else s1"
    have s2: "share_step k s ?s2"
      using s1 share_step_trans [OF s1 upd_stk_share_step [OF share_stepD(2) [OF s1] shares_step(5)]] by simp
    have "share_step k ?s2 s'"
      using IH [OF v run(1,2) run(3) run(4) refl run(5,6) refl refl run(7) share_stepD(2) [OF s2] rest] .
    then show ?thesis by (rule share_step_trans [OF s2])
  qed
qed (auto simp: share_step_refl)

lemma no_longer_bonded_step:
  assumes "chain_ok k s" "rfold (\<lambda>a (us, s). rbind (mustGetValidator (stk s) a) (\<lambda>v. rbind (bondedToUnbonding ctx v s) (\<lambda>(v', s').
      Inr (us @ [ABCIValidatorUpdateZero v'], upd_stk (DeleteLastValidatorPower (OperatorAddress v')) s')))) as (us, s) = Inr (us', s')"
  shows "share_step k s s'"
proof -
  have "share_step k (snd (us, s)) (snd (us', s'))"
  proof (rule carry_loop [OF _ assms(2)], goal_cases)
    case (2 a acc acc')
    then obtain v v' s1 where v: "mustGetValidator (stk (snd acc)) a = Inr v" and s1: "beginUnbondingValidator ctx v (snd acc) = Inr (v', s1)"
      and s2: "snd acc' = upd_stk (DeleteLastValidatorPower (OperatorAddress v')) s1"
      by (auto simp: bondedToUnbonding_def split: if_splits prod.splits)
    have t1: "share_step k (snd acc) s1" using beginUnbondingValidator_step(1) [OF 2(1) _ s1] mustGet_current [OF 2(1) v] by simp
    then show ?case unfolding s2 by (rule share_step_trans [OF _ upd_stk_share_step [OF share_stepD(2) [OF t1] shares_step(6)]])
  qed (simp add: assms(1))
  then show ?thesis by simp
qed

lemma Apply_step:
  assumes "chain_ok k s" "ApplyAndReturnValidatorSetUpdates k ctx s = Inr (us, s')"
  shows "share_step k s s'"
proof -
  from assms(2) obtain us1 lv p s1 s2 where
    e: "elect k ctx (nat (MaxValidators (params (stk s)))) (ValidatorsPowerStoreIterator (stk s)) [] (GetLastValidatorsByAddr (stk s)) 0 s = Inr (us1, lv, p, s1)"
    and l: "rfold (\<lambda>a (us, s). rbind (mustGetValidator (stk s) a) (\<lambda>v. rbind (bondedToUnbonding ctx v s) (\<lambda>(v', s').
      Inr (us @ [ABCIValidatorUpdateZero v'], upd_stk (DeleteLastValidatorPower (OperatorAddress v')) s')))) (sortNoLongerBonded lv) (us1, s1) = Inr (us, s2)"
    and s': "s' = (if us \<noteq> [] then upd_stk (SetLastTotalPower p) s2 else s2)"
    by (auto simp: ApplyAndReturnValidatorSetUpdates_def)
  note a = elect_step [OF assms(1) e]
  note b = share_step_trans [OF a no_longer_bonded_step [OF share_stepD(2) [OF a] l]]
  show ?thesis unfolding s' using b share_step_trans [OF b upd_stk_share_step [OF share_stepD(2) [OF b] shares_step(7)]] by simp
qed

lemma PoAApply_step:
  assumes "chain_ok k s" "PoAApplyAndReturnValidatorSetUpdates k ctx ps s = Inr (us, s')"
  shows "share_step k s s'"
proof (cases "ps = []")
  case True
  then show ?thesis using assms share_step_refl by (simp add: PoAApplyAndReturnValidatorSetUpdates_def)
next
  case False
  let ?lv = "GetLastValidatorsByAddr (stk s)"
  let ?f = "\<lambda>(a, isAdd) (us, p, s). rbind (mustGetValidator (stk s) a) (\<lambda>v. if isAdd then if map_of ?lv a \<noteq> None then Inr (us, p, s)
     else rbind (PotentialConsensusPowerByShares v) (\<lambda>pow. if pow = 0 then Inr (us, p, s) else enter_set k ctx v a us p s)
     else leave_set ctx ?lv v a us p s)"
  have step: "share_step k t t'" if "chain_ok k t" "?f x (us, p, t) = Inr (us', p', t')" for x us p t us' p' t'
    using that enter_set_step [OF that(1)] leave_set_step [OF that(1)] mustGet_current [OF that(1)] share_step_refl [OF that(1)]
    by (cases x) (auto split: if_splits; blast)
  from assms(2) False obtain p s1 where l: "rfold ?f ps ([], LastTotalPower (stk s), s) = Inr (us, p, s1)" and s': "s' = upd_stk (SetLastTotalPower p) s1"
    by (auto simp: PoAApplyAndReturnValidatorSetUpdates_def Let_def)
  have a: "share_step k s s1"
  proof -
    have "share_step k (snd (snd ([] :: ValidatorUpdate list, LastTotalPower (stk s), s))) (snd (snd (us, p, s1)))"
    proof (rule carry_loop [where part = "\<lambda>a. snd (snd a)", OF _ l], goal_cases)
      case (2 x a a')
      then show ?case using step [of "snd (snd a)" x "fst a" "fst (snd a)" "fst a'" "fst (snd a')" "snd (snd a')"] by simp
    qed (simp add: assms(1))
    then show ?thesis by simp
  qed
  show ?thesis unfolding s' by (rule share_step_trans [OF a upd_stk_share_step [OF share_stepD(2) [OF a] shares_step(7)]])
qed

lemma unbond_one_step:
  assumes "modules_ok k" "chain_ok k s" "(case GetValidator (stk s) a of
           None \<Rightarrow> Inl (Panic ''validator in the unbonding queue was not found'')
         | Some v \<Rightarrow>
             if \<not> IsUnbonding v then Inl (Panic ''unexpected validator in unbonding queue; status was not unbonding'')
             else rbind (unbondingToUnbonded v s) (\<lambda>(v', s1).
               if DelegatorShares v' = 0 \<and> MinSelfDelegation v' = 0 then RemoveValidator k (OperatorAddress v') s1
               else Inr s1)) = Inr s'"
  shows "shift k 0 0 s s'"
proof -
  from assms(3) obtain v where v: "GetValidator (stk s) a = Some v" by (auto split: option.splits)
  let ?v = "UpdateStatus v Unbonded"
  have cur: "current (stk s) ?v" using stored_current [OF chain_okD(4) [OF assms(2)] v] by simp
  note t1 = SetValidator_same [OF assms(2) cur]
  from assms(3) v have rest: "(if DelegatorShares ?v = 0 \<and> MinSelfDelegation ?v = 0 then RemoveValidator k (OperatorAddress ?v) (upd_stk (SetValidator ?v) s)
     else Inr (upd_stk (SetValidator ?v) s)) = Inr s'"
    by (auto simp: unbondingToUnbonded_def completeUnbondingValidator_def Let_def UpdateStatus_def split: if_splits)
  show ?thesis
  proof (cases "DelegatorShares ?v = 0 \<and> MinSelfDelegation ?v = 0")
    case True
    have "msd_of (stk (upd_stk (SetValidator ?v) s)) (OperatorAddress ?v) = 0"
      using True by (simp add: upd_stk_def SetValidator_def msd_of_def UpdateStatus_def)
    then show ?thesis
      using share_step_trans [OF t1 RemoveValidator_share_step [OF assms(1) share_stepD(2) [OF t1]]] rest True share_stepD(1) by auto
  qed (use rest share_stepD(1) [OF t1] in auto)
qed

interpretation unbond_one: pool_op k "\<lambda>a s. case GetValidator (stk s) a of
           None \<Rightarrow> Inl (Panic ''validator in the unbonding queue was not found'')
         | Some v \<Rightarrow>
             if \<not> IsUnbonding v then Inl (Panic ''unexpected validator in unbonding queue; status was not unbonding'')
             else rbind (unbondingToUnbonded v s) (\<lambda>(v', s1).
               if DelegatorShares v' = 0 \<and> MinSelfDelegation v' = 0 then RemoveValidator k (OperatorAddress v') s1
               else Inr s1)" for k
  by unfold_locales (rule unbond_one_step)

interpretation unbond_slice: pool_op k "\<lambda>(t, timeslice) s.
       rbind (rfold (\<lambda>valAddr s.
         case GetValidator (stk s) valAddr of
           None \<Rightarrow> Inl (Panic ''validator in the unbonding queue was not found'')
         | Some v \<Rightarrow>
             if \<not> IsUnbonding v then Inl (Panic ''unexpected validator in unbonding queue; status was not unbonding'')
             else rbind (unbondingToUnbonded v s) (\<lambda>(v', s1).
               if DelegatorShares v' = 0 \<and> MinSelfDelegation v' = 0 then RemoveValidator k (OperatorAddress v') s1
               else Inr s1)) timeslice s) (\<lambda>s1.
         Inr (upd_stk (DeleteValidatorQueueTimeSlice t) s1))" for k
proof (unfold_locales, goal_cases)
  case (1 s x s')
  obtain t vs where x: "x = (t, vs)" by force
  from 1(3) obtain s1 where s1: "shift k 0 0 s s1" and s': "s' = upd_stk (DeleteValidatorQueueTimeSlice t) s1"
    using unbond_one.runs_shift [OF 1(1,2)] by (auto simp: x)
  show ?case unfolding s'
    using shift_trans_0 [OF s1 upd_stk_shift [where f = "DeleteValidatorQueueTimeSlice t", OF shift_ok [OF s1] shares_step(9) [OF chain_okD(4) [OF shift_ok [OF s1]]]]] .
qed

lemma UnbondAllMatureValidatorQueue_shift:
  "modules_ok k \<Longrightarrow> chain_ok k s \<Longrightarrow> UnbondAllMatureValidatorQueue k ctx s = Inr s' \<Longrightarrow> shift k 0 0 s s'"
  unfolding UnbondAllMatureValidatorQueue_def by (rule unbond_slice.runs_shift)

lemma DeleteProposeValidators_step: "vals_ok st \<Longrightarrow> val_step st (DeleteProposeValidators st)"
proof -
  assume ok: "vals_ok st"
  have "\<exists>m. fold (\<lambda>(v, _) st. st\<lparr>proposeValidators := kv_del v (proposeValidators st)\<rparr>) xs st = st\<lparr>proposeValidators := m\<rparr>" for xs
  proof (induction xs arbitrary: st)
    case Nil
    show ?case by (rule exI [of _ "proposeValidators st"]) simp
  next
    case (Cons x xs)
    show ?case using Cons.IH [of "st\<lparr>proposeValidators := kv_del (fst x) (proposeValidators st)\<rparr>"] by (auto simp: case_prod_beta)
  qed
  then obtain m where "DeleteProposeValidators st = st\<lparr>proposeValidators := m\<rparr>" unfolding DeleteProposeValidators_def by blast
  then show ?thesis using ok by (intro val_step_frame) simp_all
qed

lemma PoAValidatorsUpdate_step:
  assumes "chain_ok k s" "PoAValidatorsUpdate order k ctx s = Inr (us, s')"
  shows "share_step k s s'"
proof -
  let ?ps = "kv_entries (proposeValidators (stk s))"
  from assms(2) obtain us1 s1 b where s1: "(if length ?ps > 0 then
        rbind (PoAApplyAndReturnValidatorSetUpdates k ctx (order ?ps) s) (\<lambda>(updates, s1). Inr (updates, upd_stk DeleteProposeValidators s1))
      else if IsKickedOut (stk s) then
        rbind (KickOutAndReturnValidatorSetUpdates k ctx s) (\<lambda>(updates, s1). Inr (updates, upd_stk DeleteAbandonedValidatorAddrs s1))
      else Inr ([], s)) = Inr (us1, s1)"
    and s': "s' = (if b then upd_stk (update_epoch ctx) s1 else s1)"
    unfolding PoAValidatorsUpdate_def Let_def rbind_eq_Inr by force
  have "share_step k s (upd_stk DeleteProposeValidators s0)" if "share_step k s s0" for s0
    using that upd_stk_share_step [OF share_stepD(2) [OF that] DeleteProposeValidators_step] share_step_trans by blast
  moreover have "share_step k s (upd_stk DeleteAbandonedValidatorAddrs s0)" if "share_step k s s0" for s0
    using that upd_stk_share_step [OF share_stepD(2) [OF that] shares_step(8)] share_step_trans by blast
  ultimately have a: "share_step k s s1"
    using s1 share_step_refl [OF assms(1)] PoAApply_step [OF assms(1)] KickOut_step [OF assms(1)] by (auto split: if_splits)
  show ?thesis unfolding s' using a share_step_trans [OF a upd_stk_share_step [OF share_stepD(2) [OF a] shares_step(14)]] by simp
qed

lemma DPoSValidatorsUpdate_step:
  assumes "chain_ok k s" "DPoSValidatorsUpdate k ctx s = Inr (us, s')"
  shows "share_step k s s'"
proof -
  note e = upd_stk_share_step [where f = "update_epoch ctx", OF assms(1) shares_step(14)]
  have fin: "share_step k s (upd_stk DeleteAbandonedValidatorAddrs s0)" if "share_step k s s0" for s0
    using that upd_stk_share_step [OF share_stepD(2) [OF that] shares_step(8)] share_step_trans by blast
  show ?thesis
    using assms(2) fin [OF share_step_trans [OF e Apply_step [OF share_stepD(2) [OF e]]]] fin [OF KickOut_step [OF assms(1)]] share_step_refl [OF assms(1)]
    by (auto simp: DPoSValidatorsUpdate_def split: if_splits)
qed

lemma EndBlocker_shift:
  assumes "modules_ok k" "chain_ok k s" "EndBlocker order k ctx s = Inr (us, s')"
  shows "shift k 0 0 s s'"
proof -
  from assms(3) obtain us1 s1 s2 where s1: "share_step k s s1" and s2: "UnbondAllMatureValidatorQueue k ctx s1 = Inr s2"
    and s': "complete_mature k ctx s2 = Inr s'"
    using PoAValidatorsUpdate_step [OF assms(2)] DPoSValidatorsUpdate_step [OF assms(2)]
    by (auto simp: EndBlocker_def split: if_splits; blast)
  note t2 = UnbondAllMatureValidatorQueue_shift [OF assms(1) share_stepD(2) [OF s1] s2]
  show ?thesis using shift_0_trans [OF share_stepD(1) [OF s1] shift_0_trans [OF t2 complete_mature_shift [OF assms(1) shift_ok [OF t2] s']]] .
qed

section \<open>Jailing, block starts and proposals\<close>

lemma jail_val_step:
  assumes "vals_ok st"
  shows "Jail c st = Inr st' \<Longrightarrow> val_step st st'" "Unjail c st = Inr st' \<Longrightarrow> val_step st st'"
    "AppendAbandonedValidatorAddrs c st = Inr st' \<Longrightarrow> val_step st st'"
proof -
  have cur: "current st v" if "mustGetValidatorByConsAddr st c = Inr v" for v
    using that stored_current [OF assms] by (auto simp: GetValidatorByConsAddr_def split: option.splits)
  show "val_step st st'" if "Jail c st = Inr st'"
  proof -
    from that obtain v where v: "mustGetValidatorByConsAddr st c = Inr v" and st': "DeleteValidatorByPowerIndex (v\<lparr>Jailed := True\<rparr>) (SetValidator (v\<lparr>Jailed := True\<rparr>) st) = Inr st'"
      unfolding Jail_def jailValidator_def by (auto simp: Let_def split: if_splits)
    have a: "val_step st (SetValidator (v\<lparr>Jailed := True\<rparr>) st)" by (rule val_step_SetValidator [OF assms]) (use cur [OF v] in simp)
    show ?thesis by (rule val_step_trans [OF a power_index_step(1) [OF val_stepD(1) [OF a] st']])
  qed
  show "val_step st st'" if "Unjail c st = Inr st'"
  proof -
    from that obtain v st1 where v: "mustGetValidatorByConsAddr st c = Inr v"
      and st1: "SetValidatorByPowerIndex (v\<lparr>Jailed := False\<rparr>) (SetValidator (v\<lparr>Jailed := False\<rparr>) st) = Inr st1"
      and st': "st' = (if ConsensusType (params st1) = PoA then SetProposeValidator (OperatorAddress v) True st1 else st1)"
      unfolding Unjail_def unjailValidator_def by (auto simp: Let_def split: if_splits)
    have a: "val_step st (SetValidator (v\<lparr>Jailed := False\<rparr>) st)" by (rule val_step_SetValidator [OF assms]) (use cur [OF v] in simp)
    note b = val_step_trans [OF a power_index_step(2) [OF val_stepD(1) [OF a] st1]]
    show ?thesis unfolding st' using b val_step_trans [OF b shares_step(10) [OF val_stepD(1) [OF b]]] by simp
  qed
  show "AppendAbandonedValidatorAddrs c st = Inr st' \<Longrightarrow> val_step st st'"
    using assms by (auto simp: AppendAbandonedValidatorAddrs_def intro: val_step_frame)
qed

lemma HandleValidatorSignature_shift:
  assumes "chain_ok k s" "HandleValidatorSignature ctx a pow signed s = Inr s'"
  shows "shift k 0 0 s s'"
proof -
  have "s' = s\<lparr>sla := sla s'\<rparr> \<or> (\<exists>st1 st2. Jail a (stk s) = Inr st1 \<and> AppendAbandonedValidatorAddrs a st1 = Inr st2 \<and> s' = s\<lparr>stk := st2, sla := sla s'\<rparr>)"
    using assms(2)
    by (auto simp: HandleValidatorSignature_def jail_for_downtime_def with_sla_def Let_def split: sum.splits option.splits if_splits prod.splits)
  then show ?thesis
  proof (elim disjE exE conjE)
    fix st1 st2 assume j: "Jail a (stk s) = Inr st1" "AppendAbandonedValidatorAddrs a st1 = Inr st2" "s' = s\<lparr>stk := st2, sla := sla s'\<rparr>"
    note v = jail_val_step(1) [OF chain_okD(4) [OF assms(1)] j(1)]
    note t = val_step_shift [OF assms(1) val_step_trans [OF v jail_val_step(3) [OF val_stepD(1) [OF v] j(2)]]]
    show ?thesis using shift_trans_0 [OF t sla_shift [OF shift_ok [OF t], of "sla s'"]] j(3) by simp
  qed (metis sla_shift [OF assms(1)])
qed

interpretation signatures: pool_op k "\<lambda>(addr, pow, signed) s. HandleValidatorSignature ctx addr pow signed s" for k ctx
  by unfold_locales (auto intro: HandleValidatorSignature_shift)

lemma handleMsgUnjail_shift:
  assumes "chain_ok k s" "handleMsgUnjail k ctx a s = Inr s'"
  shows "shift k 0 0 s s'"
  using assms(2) val_step_shift [OF assms(1) jail_val_step(2) [OF chain_okD(4) [OF assms(1)]]]
  by (auto simp: handleMsgUnjail_def slashing_Unjail_def Let_def split: option.splits if_splits)

lemma handleProposeValidatorProposal_shift:
  assumes "modules_ok k" "chain_ok k s" "\<not> blacklistedAddrs k (cv_ValidatorAddress m)" "handleProposeValidatorProposal k ctx b m s = Inr s'"
  shows "shift k 0 0 s s'"
proof -
  let ?m = "m\<lparr>cv_DelegatorAddress := cv_ValidatorAddress m\<rparr>"
  from assms(4) obtain s1 where s1: "s1 = s \<or> handleMsgCreateValidator k ctx ?m s = Inr s1"
    and s': "s' = upd_stk (SetProposeValidator (cv_ValidatorAddress m) b) s1"
    by (auto simp: handleProposeValidatorProposal_def Let_def split: option.splits)
  have t: "shift k 0 0 s s1" using s1 shift_refl [OF assms(2)] handleMsgCreateValidator_shift [OF assms(1,2), of ?m] assms(3) by auto
  show ?thesis unfolding s'
    using shift_trans_0 [OF t upd_stk_shift [where f = "SetProposeValidator (cv_ValidatorAddress m) b", OF shift_ok [OF t] shares_step(10) [OF chain_okD(4) [OF shift_ok [OF t]]]]] .
qed

lemma allocated_shift:
  assumes "modules_ok k" "chain_ok k s" "allocated k s s'"
  shows "shift k 0 0 s s'"
  using assms allocated_gap [OF assms(3)]
  by (auto simp: shift_def chain_ok_def allocated_def modules_ok_def bonded_gap_def unbonding_gap_def)

lemma distr_BeginBlocker_shift:
  assumes "modules_ok k" "chain_ok k s" "shares_nonneg (stk s)" "tax_ok (dis s)" "distr_BeginBlocker k ctx votes proposer s = Inr s'"
  shows "shift k 0 0 s s'"
proof (cases "BlockHeight ctx > 1")
  case True
  have "rates_ok (stk s)" using chain_okD(4) [OF assms(2)] by (auto simp: rates_ok_def vals_ok_def)
  then show ?thesis
    using allocated_shift [OF assms(1,2) distr_BeginBlocker_allocated(1) [OF assms(1) chain_okD(5) [OF assms(2)] _ assms(3-5) True]] by blast
next
  case False
  then show ?thesis using assms(2,5)
    by (auto simp: distr_BeginBlocker_def with_dis_def SetPreviousProposerConsAddr_def shift_def chain_ok_def distr_gap_def
        owed_def pool_amt_def dis_ok_def bonded_gap_def unbonding_gap_def)
qed

lemma distr_Handler_shift:
  assumes "modules_ok k" "chain_ok k s" "distr_Handler k ctx msg s = Inr s'"
  shows "shift k 0 0 s s'"
  using distr_step_shift [OF assms(1,2) distr_Handler_step [OF assms(1) chain_okD(5) [OF assms(2)] assms(3)]] .

lemma community_spend_shift:
  assumes "modules_ok k" "chain_ok k s" "HandleCommunityPoolSpendProposal k a cs s = Inr s'"
  shows "shift k 0 0 s s'"
  using distr_step_shift [OF assms(1,2) distributeFromFeePool_step [OF assms(1) chain_okD(5) [OF assms(2)]]] assms(3)
  by (auto simp: HandleCommunityPoolSpendProposal_def split: if_splits)

section \<open>Properties of the pools\<close>

lemma shift_zero:
  assumes "shift k 0 u s s'"
  shows "bonded_gap k s' = bonded_gap k s" "unbonding_gap k s' = unbonding_gap k s + u" "distr_gap k s' d = distr_gap k s d"
    "tokenSupply (led s') = tokenSupply (led s)" "total_bal (led s') d = total_bal (led s) d" "chain_ok k s'"
  using assms by (auto simp: shift_def supplies_def)


lemma demo_chain_ok: "chain_ok demo_keeper demo_chain"
proof -
  have "stk_ok demo_keeper (stk demo_chain)"
    by (auto simp: stk_ok_def vals_ok_def demo_defs NewValidator_def NewCommission_def split: if_splits)
  moreover have "kv_has (outstandingRewards (dis demo_chain)) a \<Longrightarrow> kv_has (validators (stk demo_chain)) a" for a
    by (auto simp: demo_defs kv_has_def split: if_splits)
  ultimately show ?thesis by (simp add: chain_ok_def demo_ledger_ok demo_dis_ok)
qed




lemma destroy_validator_undelegations:
  assumes "modules_ok k" "chain_ok k s" "destroy_validator k v x s = Inr s'"
  shows "undelegationInfos (stk s') = undelegationInfos (stk s) \<and> undelegateQueue (stk s') = undelegateQueue (stk s)"
proof -
  let ?s1 = "AfterValidatorDestroyed k (OperatorAddress v) s"
  have t1: "stk ?s1 = stk s" "chain_ok k ?s1"
    using shift_ok [OF sla_shift [OF assms(2)]] assms(2)
    by (auto simp: AfterValidatorDestroyed_def slashing_AfterValidatorDestroyed_def with_sla_def split: option.splits)
  have "undelegationInfos (stk s') = undelegationInfos (stk s) \<and> undelegateQueue (stk s') = undelegateQueue (stk s)" if "RemoveValidator k (OperatorAddress v) ?s1 = Inr s'"
    using RemoveValidator_shift(3,6) [OF assms(1) t1(2) that] t1(1) by simp
  then show ?thesis
    using assms(3) t1(1) unfolding destroy_validator_def Let_def
    by (cases "Status v") (auto simp: AppendAbandonedValidatorAddrs_def DeleteValidatorByPowerIndex_def SetValidator_def split: if_splits)
qed

text \<open>C35: Destroying a validator whose operator has an undelegation under way loses that undelegation:
  the new record holds only the self delegation, so the tokens of the old one stay in the pool without
  an owner.  The entry of the old undelegation stays in the queue, so the self delegation is paid when the
  old one is due and not after the unbonding time.\<close>

theorem DestroyValidator_loses_undelegation:
  assumes "modules_ok k" "chain_ok k s" "\<not> blacklistedAddrs k a" "handleMsgDestroyValidator k ctx a s = Inr s'"
    and "GetUndelegating (stk s) a = Some u" "GetValidator (stk s) a = Some v"
  shows "GetUndelegating (stk s') a = Some \<lparr>ud_DelegatorAddress = a, Quantity = MinSelfDelegation v, CompletionTime = BlockTime ctx + UnbondingTime (params (stk s))\<rparr> \<and>
    unbonding_gap k s' = unbonding_gap k s + Quantity u \<and> (kv_has (undelegateQueue (stk s)) entry \<longrightarrow> kv_has (undelegateQueue (stk s')) entry)"
proof -
  let ?c = "BlockTime ctx + UnbondingTime (params (stk s))"
  from assms(4,6) obtain t where w: "WithdrawMinSelfDelegation k ctx a v s = Inr (t, s')" by (auto simp: handleMsgDestroyValidator_def)
  then obtain s1 x where s1: "bondedTokensToNotBonded k \<lparr>Denom = DefaultBondDenom, Amount = MinSelfDelegation v\<rparr> s = Inr s1"
    and s': "destroy_validator k v x (upd_stk (\<lambda>st. SetAddrByTimeKeyWithNilValue t a (SetUndelegating (NewUndelegationInfo a (MinSelfDelegation v) t) st)) s1) = Inr s'"
    and t: "t = BlockTime ctx + UnbondingTime (params (stk s1))"
    by (auto simp: WithdrawMinSelfDelegation_def NewDecCoinFromDec_eq_Inr Let_def NewUndelegationInfo_def split: if_splits)
  note t1 = bondedTokensToNotBonded_shift [OF assms(1,2) s1]
  let ?s2 = "upd_stk (\<lambda>st. SetAddrByTimeKeyWithNilValue t a (SetUndelegating (NewUndelegationInfo a (MinSelfDelegation v) t) st)) s1"
  have "stk_ok k (stk ?s2)" "validators (stk ?s2) = validators (stk s1)" "led ?s2 = led s1" "dis ?s2 = dis s1"
    using chain_okD(3) [OF shift_ok [OF t1(1)]] assms(3)
    by (auto simp: upd_stk_def stk_ok_def vals_ok_def SetUndelegating_def SetAddrByTimeKeyWithNilValue_def NewUndelegationInfo_def split: if_splits)
  then have ok: "chain_ok k ?s2" using shift_ok [OF t1(1)] by (simp add: chain_ok_def)
  have queue: "kv_has (undelegateQueue (stk s')) entry" if "kv_has (undelegateQueue (stk s)) entry"
    using destroy_validator_undelegations [OF assms(1) ok s'] that t1(2) by (simp add: upd_stk_def SetUndelegating_def SetAddrByTimeKeyWithNilValue_def kv_has_def)
  have "GetUndelegating (stk s') a = GetUndelegating (stk ?s2) a"
    using destroy_validator_undelegations [OF assms(1) ok s'] by (simp add: GetUndelegating_def)
  also have "\<dots> = Some \<lparr>ud_DelegatorAddress = a, Quantity = MinSelfDelegation v, CompletionTime = ?c\<rparr>"
    using t t1(2) by (simp add: upd_stk_def GetUndelegating_def SetUndelegating_def SetAddrByTimeKeyWithNilValue_def NewUndelegationInfo_def)
  finally show ?thesis
    using shift_zero(2) [OF WithdrawMinSelfDelegation_shift [OF assms(1-3,6) w]] assms(5) queue by (simp add: quantity_of_def GetUndelegating_def)
qed

definition demo_pending :: chain where
  "demo_pending = demo_chain\<lparr>
     stk := demo_staking\<lparr>undelegationInfos := kv_set ''val'' \<lparr>ud_DelegatorAddress = ''val'', Quantity = 7 * 10 ^ 18, CompletionTime = 2000\<rparr> kv_empty,
       undelegateQueue := kv_set (2000, ''val'') () kv_empty\<rparr>,
     led := (led demo_chain)\<lparr>accounts := kv_set ''#not_bonded_tokens_pool'' (demo_funded ''#not_bonded_tokens_pool'' (ModuleAcc ''not_bonded_tokens_pool'' [''burner'', ''staking'']) 7)
       (accounts (led demo_chain))\<rparr>\<rparr>"

lemma demo_pending_ok: "chain_ok demo_keeper demo_pending"
proof -
  have "\<not> blacklistedAddrs demo_keeper ''val''" by code_simp
  then have "stk_ok demo_keeper (stk demo_pending)"
    by (auto simp: stk_ok_def vals_ok_def demo_pending_def demo_defs NewValidator_def NewCommission_def split: if_splits)
  moreover have "ledger_ok (led demo_pending)"
    by (auto simp: demo_pending_def demo_defs ledger_ok_def GetAccount_def coins_ok_def split: if_splits)
  ultimately show ?thesis using demo_chain_ok by (auto simp: chain_ok_def demo_pending_def demo_chain_def demo_staking_def)
qed

theorem DestroyValidator_loses_undelegation_witness:
  "\<exists>s'. handleMsgDestroyValidator demo_keeper demo_ctx ''val'' demo_pending = Inr s' \<and> unbonding_gap demo_keeper s' = 7 * 10 ^ 18 \<and>
     kv_has (undelegateQueue (stk s')) (2000, ''val'')"
proof -
  have "case handleMsgDestroyValidator demo_keeper demo_ctx ''val'' demo_pending of Inl _ \<Rightarrow> False | Inr _ \<Rightarrow> True" by code_simp
  then obtain s' where s': "handleMsgDestroyValidator demo_keeper demo_ctx ''val'' demo_pending = Inr s'" using res_Inr by blast
  have "\<not> blacklistedAddrs demo_keeper ''val''" "unbonding_gap demo_keeper demo_pending = 0" "kv_has (undelegateQueue (stk demo_pending)) (2000, ''val'')" by code_simp+
  moreover have "GetUndelegating (stk demo_pending) ''val'' = Some \<lparr>ud_DelegatorAddress = ''val'', Quantity = 7 * 10 ^ 18, CompletionTime = 2000\<rparr>"
    "GetValidator (stk demo_pending) ''val'' = Some demo_validator"
    by (simp_all add: demo_pending_def demo_chain_def demo_staking_def GetUndelegating_def GetValidator_def)
  ultimately show ?thesis using DestroyValidator_loses_undelegation [OF demo_modules_ok demo_pending_ok _ s', where entry = "(2000, ''val'')"] s' by simp
qed

section \<open>The run-time check of the pools\<close>

lemma Dec_sum:
  assumes "rfold (\<lambda>x tot. Dec_Add tot (f x)) xs a = Inr r"
  shows "r = a + (\<Sum>x\<leftarrow>xs. f x)"
  using assms by (induction xs arbitrary: a) (auto, metis add.assoc)

lemma module_account_AmountOf:
  assumes "ledger_ok l" "keeper_ok k" "module_account k m l = Inr (acc, l')" "AmountOf (acc_Coins acc) d = Inr x"
  shows "x = bal l (AddressHash k m) d"
proof -
  note c = module_account_changes [OF assms(1-3)]
  have "sorted_coins (acc_Coins acc)" using c(3) changesD(1) [OF c(1)] coins_okD(3) by (auto simp: ledger_ok_def)
  then show ?thesis using assms(4) module_account_bal [OF assms(1-3), of d] by (simp add: AmountOf_eq_Inr)
qed

text \<open>The run-time check of the pools is exact: it reports a broken invariant just when one of the
  two pools differs from the records.\<close>

theorem staking_ModuleAccountInvariants_exact:
  assumes "keeper_ok k" "ledger_ok (led s)" "staking_ModuleAccountInvariantsCustom k s = Inr broken"
  shows "broken \<longleftrightarrow> bonded_gap k s \<noteq> 0 \<or> unbonding_gap k s \<noteq> 0"
proof -
  from assms(3) obtain bp l1 np l2 b b' n x y where bp: "module_account k BondedPoolName (led s) = Inr (bp, l1)"
    and np: "module_account k NotBondedPoolName l1 = Inr (np, l2)"
    and b: "rfold (\<lambda>v tot. Dec_Add tot (MinSelfDelegation v)) (GetAllValidators (stk s)) 0 = Inr b"
    and b': "rfold (\<lambda>(_, d) tot. Dec_Add tot (Tokens d)) (kv_entries (delegators (stk s))) b = Inr b'"
    and n: "rfold (\<lambda>(_, ud) tot. Dec_Add tot (Quantity ud)) (kv_entries (undelegationInfos (stk s))) 0 = Inr n"
    and x: "AmountOf (acc_Coins bp) DefaultBondDenom = Inr x" and y: "AmountOf (acc_Coins np) DefaultBondDenom = Inr y"
    and broken: "broken \<longleftrightarrow> x \<noteq> b' \<or> y \<noteq> n"
    by (fastforce simp: staking_ModuleAccountInvariantsCustom_def)
  have "b' = bonded_owed (stk s)"
    using Dec_sum [OF b] Dec_sum [OF b' [unfolded case_prod_beta]]
    by (simp add: bonded_owed_def kv_total_def GetAllValidators_def case_prod_unfold comp_def)
  moreover have "n = unbonding_owed (stk s)"
    using Dec_sum [OF n [unfolded case_prod_beta]] by (simp add: unbonding_owed_def kv_total_def case_prod_unfold)
  moreover note c = module_account_changes(1) [OF assms(2,1) bp]
  have "x = bal (led s) (AddressHash k BondedPoolName) DefaultBondDenom" by (rule module_account_AmountOf [OF assms(2,1) bp x])
  moreover have "y = bal (led s) (AddressHash k NotBondedPoolName) DefaultBondDenom"
    using module_account_AmountOf [OF changesD(1) [OF c] assms(1) np y] changesD(2) [OF c] by simp
  ultimately show ?thesis using broken by (auto simp: bonded_gap_def unbonding_gap_def)
qed

theorem staking_ModuleAccountInvariants_exact_witness:
  "staking_ModuleAccountInvariantsCustom demo_keeper demo_pending = Inr False \<and> bonded_gap demo_keeper demo_pending = 0"
proof -
  have b: "staking_ModuleAccountInvariantsCustom demo_keeper demo_pending = Inr False" by code_simp
  show ?thesis using staking_ModuleAccountInvariants_exact [OF demo_keeper_ok chain_okD(1) [OF demo_pending_ok] b] b by simp
qed

end
