(* ===== verification/Unbonding.thy ===== *)
theory Unbonding
  imports StakingPools
begin

text \<open>
  The payment of matured undelegations at the end of a block (\<open>x/staking/handler.go\<close>, \<open>x/staking/keeper/delegation.go\<close>).  \<open>StakingPools\<close>
  shows that the end of a block keeps the pools equal to the records; here a pool that covers its records is shown to pay: no
  payment fails, so the loop over the queue returns and every due undelegation reaches its account.
\<close>

section \<open>Paying out of a funded pool\<close>

lemma bal_le_total:
  assumes "ledger_ok s"
  shows "bal s a d \<le> total_bal s d" "a \<noteq> b \<Longrightarrow> bal s a d + bal s b d \<le> total_bal s d"
proof -
  let ?A = "insert a (insert b (fst ` set (kv_entries (accounts s))))"
  have t: "total_bal s d = (\<Sum>x\<in>?A. bal s x d)" by (rule total_bal_sum) auto
  have nn: "0 \<le> bal s x d" for x by (rule bal_nonneg [OF assms])
  show "bal s a d \<le> total_bal s d" unfolding t by (rule member_le_sum) (auto simp: nn)
  show "bal s a d + bal s b d \<le> total_bal s d" if "a \<noteq> b"
    using sum_mono2 [of ?A "{a, b}" "\<lambda>x. bal s x d"] nn that unfolding t by auto
qed

lemma SafeSub_total:
  assumes "sorted_coins as" "sorted_coins bs" "\<And>d. amt bs d \<le> amt as d" "\<And>d. dec_ok (amt as d - amt bs d)"
  shows "\<exists>cs. SafeSub as bs = Inr (cs, False)"
proof -
  have "\<exists>cs. DecCoins_Sub as bs = Inr cs" by (rule DecCoins_Sub_total [OF assms])
  then show ?thesis by (auto simp: DecCoins_Sub_def split: if_splits)
qed

lemma UndelegateCoins_total:
  assumes "ledger_ok s" "x \<noteq> y" "GetAccount s x = Some macc" "GetAccount s y = Some dacc" "IsValid cs"
    and "\<And>d. amt cs d \<le> bal s x d" "\<And>d. dec_ok (total_bal s d)"
  shows "\<exists>s'. UndelegateCoins x y cs s = Inr s'"
proof -
  have ok: "coins_ok (acc_Coins dacc)" "coins_ok (acc_Coins macc)" "coins_ok cs" using assms(1,3-5) by (auto simp: ledger_ok_def IsValid_coins_ok)
  have bal: "bal s y d = amt (acc_Coins dacc) d" "bal s x d = amt (acc_Coins macc) d" for d using assms(3,4) by (simp_all add: bal_def GetCoins_def)
  have nn: "0 \<le> amt cs d" "0 \<le> bal s y d" "bal s x d + bal s y d \<le> total_bal s d" for d
    using coins_okD(2) [OF ok(3)] bal_nonneg [OF assms(1)] bal_le_total(2) [OF assms(1,2)] by auto
  have "dec_ok (amt (acc_Coins macc) d - amt cs d)" "dec_ok (amt (acc_Coins dacc) d + amt cs d)" for d
    using assms(6,7) [of d] nn(1) [of d] nn(2) [of d] nn(3) [of d] bal(1) [of d] bal(2) [of d] by (auto simp: dec_ok_def)
  moreover from calculation(1) obtain nc where "SafeSub (acc_Coins macc) cs = Inr (nc, False)"
    using SafeSub_total [OF coins_okD(3) [OF ok(2)] coins_okD(3) [OF ok(3)]] assms(6) bal(2) by auto
  moreover from calculation(2) obtain nc' where "DecCoins_Add (acc_Coins dacc) cs = Inr nc'"
    using safeAdd_total [OF coins_okD(3) [OF ok(1)] coins_okD(3) [OF ok(3)]] by (auto simp: DecCoins_Add_def)
  ultimately show ?thesis using assms(3-5) by (simp add: UndelegateCoins_def trackUndelegation_def SetCoins_def case_prod_beta Let_def)
qed

text \<open>The pool can pay: its account is registered, exists and may undelegate, it covers what is owed from it, every pending
  undelegation is of a positive quantity and of an existing account, and no sum of balances overflows.\<close>

definition pool_ready :: "supply_keeper \<Rightarrow> chain \<Rightarrow> bool" where
  "pool_ready k s \<longleftrightarrow> permAddrs k NotBondedPoolName \<noteq> None \<and>
     (\<exists>acc. GetAccount (led s) (AddressHash k NotBondedPoolName) = Some acc \<and> HasPermission acc Staking) \<and>
     0 \<le> unbonding_gap k s \<and> (\<forall>d. dec_ok (total_bal (led s) d)) \<and>
     (\<forall>a u. GetUndelegating (stk s) a = Some u \<longrightarrow> 0 < Quantity u \<and> GetAccount (led s) a \<noteq> None)"

lemma CompleteUndelegation_total:
  assumes "modules_ok k" "chain_ok k s" "pool_ready k s" "GetUndelegating (stk s) a = Some u"
  shows "\<exists>l. CompleteUndelegation k a s = Inr (upd_stk (DeleteUndelegating a) (s\<lparr>led := l\<rparr>)) \<and>
    changes (led s) l (transfer (AddressHash k NotBondedPoolName) a [\<lparr>Denom = DefaultBondDenom, Amount = Quantity u\<rparr>])"
proof -
  let ?p = "AddressHash k NotBondedPoolName" and ?cs = "[\<lparr>Denom = DefaultBondDenom, Amount = Quantity u\<rparr>]"
  obtain pa acc where pa: "permAddrs k NotBondedPoolName = Some pa" "pa_address pa = ?p"
    and acc: "GetAccount (led s) ?p = Some acc" "HasPermission acc Staking" "acc_Address acc = ?p"
    using assms(3) modules_okD [OF assms(1)] chain_okD(1) [OF assms(2)] by (auto simp: pool_ready_def keeper_ok_def ledger_ok_def)
  have u: "ud_DelegatorAddress u = a" "\<not> blacklistedAddrs k a" "0 < Quantity u" using chain_okD(3) [OF assms(2)] assms(3,4) by (auto simp: stk_ok_def GetUndelegating_def pool_ready_def)
  obtain dacc where dacc: "GetAccount (led s) a = Some dacc" using assms(3,4) unfolding pool_ready_def by blast
  have "Quantity u \<le> unbonding_owed (stk s)" unfolding unbonding_owed_def
    by (rule kv_total_ge [where f = "\<lambda>_. Quantity"]) (use assms(3,4) in \<open>auto simp: pool_ready_def GetUndelegating_def order_less_imp_le\<close>)
  then have le: "amt ?cs d \<le> bal (led s) ?p d" for d
    using assms(3) bal_nonneg [OF chain_okD(1) [OF assms(2)], of ?p d] by (auto simp: pool_ready_def unbonding_gap_def)
  have v: "IsValid ?cs" using u(3) by (simp add: DecCoin_IsPositive_def DefaultBondDenom_def ValidateDenom_def)
  have ne: "?p \<noteq> a" using modules_distinct(5) [OF assms(1) u(2)] by blast
  obtain l where l: "UndelegateCoins ?p a ?cs (led s) = Inr l"
    using UndelegateCoins_total [OF chain_okD(1) [OF assms(2)] ne acc(1) dacc v le] assms(3) by (auto simp: pool_ready_def)
  have "module_account k NotBondedPoolName (led s) = Inr (acc, led s)" using pa acc(1,2) by (auto simp: module_account_def GetModuleAccount_def HasPermission_def split: acc_kind.splits)
  then have "UndelegateCoinsFromModuleToAccount k NotBondedPoolName a ?cs (led s) = Inr l" using acc(2,3) l by (simp add: UndelegateCoinsFromModuleToAccount_def)
  moreover have "NewDecCoinFromDec DefaultBondDenom (Quantity u) = Inr \<lparr>Denom = DefaultBondDenom, Amount = Quantity u\<rparr>"
    using u(3) by (simp add: NewDecCoinFromDec_eq_Inr ValidateDenom_def)
  ultimately show ?thesis using UndelegateCoins_changes(1) [OF chain_okD(1) [OF assms(2)] ne l] assms(4) u(1)
    by (intro exI [where x = l]) (simp add: CompleteUndelegation_def with_led_def)
qed

lemma DeleteUndelegating_none: "GetUndelegating st a = None \<Longrightarrow> DeleteUndelegating a st = st"
proof -
  assume "GetUndelegating st a = None"
  then have "kv_del a (undelegationInfos st) = undelegationInfos st" by (intro kv_ext) (simp add: GetUndelegating_def)
  then show ?thesis by (simp add: DeleteUndelegating_def)
qed

lemma pool_ready_step:
  assumes "pool_ready k s" "shift k 0 0 s s'" "changes (led s) (led s') f"
    and "\<And>a u. GetUndelegating (stk s') a = Some u \<Longrightarrow> GetUndelegating (stk s) a = Some u"
  shows "pool_ready k s'"
proof -
  have kept: "\<exists>acc'. GetAccount (led s') a = Some acc' \<and> acc_type acc' = acc_type acc" if "GetAccount (led s) a = Some acc" for a acc
    using assms(3) that by (simp add: changes_def)
  have "\<exists>acc. GetAccount (led s') (AddressHash k NotBondedPoolName) = Some acc \<and> HasPermission acc Staking"
    using assms(1) kept unfolding pool_ready_def HasPermission_def by metis
  moreover have "0 < Quantity u \<and> GetAccount (led s') a \<noteq> None" if "GetUndelegating (stk s') a = Some u" for a u
    using assms(1) assms(4) [OF that] kept unfolding pool_ready_def by blast
  ultimately show ?thesis using assms(1) shift_zero [OF assms(2)] by (simp add: pool_ready_def)
qed

lemma complete_or_log_pays:
  assumes "modules_ok k" "chain_ok k s" "pool_ready k s"
  shows "\<exists>s'. complete_or_log k a s = Inr s' \<and> chain_ok k s' \<and> pool_ready k s' \<and> stk s' = DeleteUndelegating a (stk s) \<and>
    (\<forall>b d. \<not> blacklistedAddrs k b \<longrightarrow> bal (led s') b d = bal (led s) b d + (if b = a \<and> d = DefaultBondDenom then quantity_of (stk s) a else 0))"
proof (cases "GetUndelegating (stk s) a")
  case None
  then have "complete_or_log k a s = Inr s" by (simp add: complete_or_log_def CompleteUndelegation_def)
  moreover have "quantity_of (stk s) a = 0" using None by (simp add: quantity_of_def GetUndelegating_def)
  ultimately show ?thesis using assms(2,3) DeleteUndelegating_none [OF None] by simp
next
  case (Some u)
  obtain l where l: "CompleteUndelegation k a s = Inr (upd_stk (DeleteUndelegating a) (s\<lparr>led := l\<rparr>))"
    and c: "changes (led s) l (transfer (AddressHash k NotBondedPoolName) a [\<lparr>Denom = DefaultBondDenom, Amount = Quantity u\<rparr>])"
    using CompleteUndelegation_total [OF assms Some] by blast
  let ?s' = "upd_stk (DeleteUndelegating a) (s\<lparr>led := l\<rparr>)"
  have st: "stk ?s' = DeleteUndelegating a (stk s)" "led ?s' = l" by (simp_all add: upd_stk_def)
  note t = CompleteUndelegation_shift [OF assms(1,2) l]
  have "pool_ready k ?s'"
    by (rule pool_ready_step [OF assms(3) t]) (use c in \<open>auto simp: st GetUndelegating_def DeleteUndelegating_def split: if_splits\<close>)
  moreover have "bal l b d = bal (led s) b d + (if b = a \<and> d = DefaultBondDenom then quantity_of (stk s) a else 0)" if "\<not> blacklistedAddrs k b" for b d
    using changesD(2) [OF c, of b d] modules_distinct(5) [OF assms(1) that] Some by (auto simp: transfer_def credit_def quantity_of_def GetUndelegating_def)
  ultimately show ?thesis using l shift_ok [OF t] st by (simp add: complete_or_log_def)
qed

lemma complete_all_pay:
  assumes "modules_ok k" "chain_ok k s" "pool_ready k s"
  shows "\<exists>s'. rfold (\<lambda>((oldTime, delAddr), _) s. complete_or_log k delAddr (upd_stk (DeleteAddrByTimeKey oldTime delAddr) s)) xs s = Inr s' \<and>
    chain_ok k s' \<and> pool_ready k s' \<and>
    (\<forall>a. GetUndelegating (stk s') a = (if a \<in> (snd \<circ> fst) ` set xs then None else GetUndelegating (stk s) a)) \<and>
    (\<forall>x. kv_get (undelegateQueue (stk s')) x = (if x \<in> fst ` set xs then None else kv_get (undelegateQueue (stk s)) x)) \<and>
    (\<forall>a d. \<not> blacklistedAddrs k a \<longrightarrow>
       bal (led s') a d = bal (led s) a d + (if a \<in> (snd \<circ> fst) ` set xs \<and> d = DefaultBondDenom then quantity_of (stk s) a else 0))"
  using assms(2,3)
proof (induction xs arbitrary: s)
  case (Cons x xs)
  obtain t a y where x: "x = ((t, a), y)" by (metis surj_pair)
  let ?s0 = "upd_stk (DeleteAddrByTimeKey t a) s"
  have s0: "led ?s0 = led s" "undelegationInfos (stk ?s0) = undelegationInfos (stk s)" "undelegateQueue (stk ?s0) = kv_del (t, a) (undelegateQueue (stk s))"
    by (simp_all add: upd_stk_def DeleteAddrByTimeKey_def)
  note t0 = upd_stk_shift [where f = "DeleteAddrByTimeKey t a", OF Cons.prems(1) shares_step(11) [OF chain_okD(4) [OF Cons.prems(1)]]]
  have r0: "pool_ready k ?s0"
    by (rule pool_ready_step [OF Cons.prems(2) t0, where f = "\<lambda>_ _. 0"]) (use chain_okD(1) [OF Cons.prems(1)] in \<open>auto simp: s0 changes_refl GetUndelegating_def\<close>)
  obtain s1 where s1: "complete_or_log k a ?s0 = Inr s1" "chain_ok k s1" "pool_ready k s1" "stk s1 = DeleteUndelegating a (stk ?s0)"
    "\<And>b d. \<not> blacklistedAddrs k b \<Longrightarrow> bal (led s1) b d = bal (led s) b d + (if b = a \<and> d = DefaultBondDenom then quantity_of (stk s) a else 0)"
    using complete_or_log_pays [OF assms(1) shift_ok [OF t0] r0, of a] s0 by (auto simp: quantity_of_def)
  have q: "undelegationInfos (stk s1) = kv_del a (undelegationInfos (stk s))" "undelegateQueue (stk s1) = kv_del (t, a) (undelegateQueue (stk s))"
    using s1(4) s0 by (simp_all add: DeleteUndelegating_def)
  then have qu: "quantity_of (stk s1) b = (if b = a then 0 else quantity_of (stk s) b)" for b by (simp add: quantity_of_def)
  have gu: "GetUndelegating (stk s1) b = (if b = a then None else GetUndelegating (stk s) b)" for b by (simp add: q GetUndelegating_def)
  from Cons.IH [OF s1(2,3)] obtain s' where s': "rfold (\<lambda>((oldTime, delAddr), _) s. complete_or_log k delAddr (upd_stk (DeleteAddrByTimeKey oldTime delAddr) s)) xs s1 = Inr s'"
    "chain_ok k s'" "pool_ready k s'"
    "\<And>a. GetUndelegating (stk s') a = (if a \<in> (snd \<circ> fst) ` set xs then None else GetUndelegating (stk s1) a)"
    "\<And>x. kv_get (undelegateQueue (stk s')) x = (if x \<in> fst ` set xs then None else kv_get (undelegateQueue (stk s1)) x)"
    "\<And>a d. \<not> blacklistedAddrs k a \<Longrightarrow> bal (led s') a d = bal (led s1) a d + (if a \<in> (snd \<circ> fst) ` set xs \<and> d = DefaultBondDenom then quantity_of (stk s1) a else 0)"
    by blast
  show ?case
    by (intro exI [where x = s'] conjI allI impI) (use s' s1(1,5) in \<open>auto simp: x q qu gu\<close>)
qed (simp add: image_def)

text \<open>C12: the end of a block pays every matured undelegation: when the not-bonded pool covers what is owed from it, the
  loop over the queue returns, every account with a queue entry that is due receives exactly the quantity of its record and the
  record is deleted, no other record and no other account changes, and exactly the entries that are due leave the queue.\<close>

theorem matured_undelegations_paid:
  assumes "modules_ok k" "chain_ok k s" "pool_ready k s"
  shows "\<exists>s'. complete_mature k ctx s = Inr s' \<and> pool_ready k s' \<and>
    (\<forall>a. let due = (\<exists>t. t \<le> BlockTime ctx \<and> kv_has (undelegateQueue (stk s)) (t, a))
         in GetUndelegating (stk s') a = (if due then None else GetUndelegating (stk s) a) \<and>
            (\<forall>t. kv_has (undelegateQueue (stk s')) (t, a) \<longleftrightarrow> BlockTime ctx < t \<and> kv_has (undelegateQueue (stk s)) (t, a)) \<and>
            (\<not> blacklistedAddrs k a \<longrightarrow>
               (\<forall>d. bal (led s') a d = bal (led s) a d + (if due \<and> d = DefaultBondDenom then quantity_of (stk s) a else 0))))"
proof -
  let ?xs = "filter (\<lambda>((t, _), _). t \<le> BlockTime ctx) (kv_entries (undelegateQueue (stk s)))"
  have mem: "(t, a) \<in> fst ` set ?xs \<longleftrightarrow> t \<le> BlockTime ctx \<and> kv_has (undelegateQueue (stk s)) (t, a)" for t a
    by (force simp: image_iff kv_in_entries kv_has_def)
  then have addr: "a \<in> (snd \<circ> fst) ` set ?xs \<longleftrightarrow> (\<exists>t. t \<le> BlockTime ctx \<and> kv_has (undelegateQueue (stk s)) (t, a))" for a
    unfolding image_comp [symmetric] by (force simp: image_iff)
  from complete_all_pay [OF assms, of ?xs] obtain s' where s': "complete_mature k ctx s = Inr s'" "pool_ready k s'"
    "\<And>a. GetUndelegating (stk s') a = (if a \<in> (snd \<circ> fst) ` set ?xs then None else GetUndelegating (stk s) a)"
    "\<And>x. kv_get (undelegateQueue (stk s')) x = (if x \<in> fst ` set ?xs then None else kv_get (undelegateQueue (stk s)) x)"
    "\<And>a d. \<not> blacklistedAddrs k a \<Longrightarrow>
       bal (led s') a d = bal (led s) a d + (if a \<in> (snd \<circ> fst) ` set ?xs \<and> d = DefaultBondDenom then quantity_of (stk s) a else 0)"
    unfolding complete_mature_def by blast
  have "kv_has (undelegateQueue (stk s')) (t, a) \<longleftrightarrow> BlockTime ctx < t \<and> kv_has (undelegateQueue (stk s)) (t, a)" for t a
    using mem [of t a] s'(4) [of "(t, a)"] by (auto simp: kv_has_def)
  with s' show ?thesis unfolding addr Let_def by (intro exI [where x = s']) simp
qed

definition demo_owed :: chain where
  "demo_owed = demo_pending\<lparr>stk := demo_staking\<lparr>
     undelegationInfos := kv_set ''alice'' \<lparr>ud_DelegatorAddress = ''alice'', Quantity = 7 * 10 ^ 18, CompletionTime = 2000\<rparr> kv_empty,
     undelegateQueue := kv_set (2000, ''alice'') () kv_empty\<rparr>\<rparr>"

lemma demo_owed_ok: "chain_ok demo_keeper demo_owed" "pool_ready demo_keeper demo_owed"
proof -
  have "\<not> blacklistedAddrs demo_keeper ''alice''" by code_simp
  then have "stk_ok demo_keeper (stk demo_owed)"
    by (auto simp: stk_ok_def vals_ok_def demo_owed_def demo_defs NewValidator_def NewCommission_def split: if_splits)
  then show "chain_ok demo_keeper demo_owed" using demo_pending_ok by (auto simp: chain_ok_def demo_owed_def demo_pending_def demo_chain_def demo_staking_def)
  have "permAddrs demo_keeper NotBondedPoolName \<noteq> None" "unbonding_gap demo_keeper demo_owed = 0"
    "case GetAccount (led demo_owed) (AddressHash demo_keeper NotBondedPoolName) of None \<Rightarrow> False | Some acc \<Rightarrow> HasPermission acc Staking"
    "GetAccount (led demo_owed) ''alice'' \<noteq> None" by code_simp+
  moreover have "dec_ok (total_bal (led demo_owed) d)" for d
    by (auto simp: total_bal_def demo_owed_def demo_pending_def demo_defs dec_ok_def)
  moreover have "a = ''alice'' \<and> 0 < Quantity u" if "GetUndelegating (stk demo_owed) a = Some u" for a u
    using that by (auto simp: demo_owed_def GetUndelegating_def split: if_splits)
  ultimately show "pool_ready demo_keeper demo_owed" by (auto simp: pool_ready_def split: option.splits)
qed

theorem matured_undelegations_paid_witness:
  "\<exists>s'. complete_mature demo_keeper (demo_ctx\<lparr>BlockTime := 2000\<rparr>) demo_owed = Inr s' \<and>
     GetUndelegating (stk s') ''alice'' = None \<and> bal (led s') ''alice'' ''okb'' = bal (led demo_owed) ''alice'' ''okb'' + 7 * 10 ^ 18"
proof -
  have "kv_has (undelegateQueue (stk demo_owed)) (2000, ''alice'')" "quantity_of (stk demo_owed) ''alice'' = 7 * 10 ^ 18"
    "\<not> blacklistedAddrs demo_keeper ''alice''" by code_simp+
  then show ?thesis
    using matured_undelegations_paid [OF demo_modules_ok demo_owed_ok, of "demo_ctx\<lparr>BlockTime := 2000\<rparr>"] by (fastforce simp: Let_def DefaultBondDenom_def)
qed

end
