(* ===== verification/IAVL.thy ===== *)
theory IAVL
  imports KVStore
begin

text \<open>
  The IAVL tree (\<open>libs/iavl\<close>), the versioned balanced search tree that stores the state of every
  module: nodes and reads (\<open>node.go\<close>), setting, removing and rebalancing (\<open>mutable_tree.go\<close>) and the
  two traversals (\<open>traverseInRange\<close> of \<open>node.go\<close>, the stack of \<open>node_ibc_adapter.go\<close>).

  Values are at the leaves; an inner node holds the least key of its right child.  A child that is
  not in memory is the node the database returns for its hash, so children are subtrees here.  Heights
  are signed 8-bit and sizes signed 64-bit integers; \<open>node_ok\<close> is the invariant under which neither wraps
  below \<open>2 ^ 63\<close> leaves.
\<close>

section \<open>Nodes\<close>

datatype Node =
    Leaf bytes bytes int
  | Inner bytes int int int Node Node

primrec node_key :: "Node \<Rightarrow> bytes" where
  "node_key (Leaf k _ _) = k"
| "node_key (Inner k _ _ _ _ _) = k"

primrec node_height :: "Node \<Rightarrow> int" where
  "node_height (Leaf _ _ _) = 0"
| "node_height (Inner _ h _ _ _ _) = h"

primrec node_size :: "Node \<Rightarrow> int" where
  "node_size (Leaf _ _ _) = 1"
| "node_size (Inner _ _ s _ _ _) = s"

primrec node_version :: "Node \<Rightarrow> int" where
  "node_version (Leaf _ _ ver) = ver"
| "node_version (Inner _ _ _ ver _ _) = ver"

definition NewNode :: "bytes \<Rightarrow> bytes \<Rightarrow> int \<Rightarrow> Node" where
  "NewNode key val ver = Leaf key val ver"

primrec node_has :: "Node \<Rightarrow> bytes \<Rightarrow> bool" where
  "node_has (Leaf k _ _) key \<longleftrightarrow> k = key"
| "node_has (Inner k _ _ _ l r) key \<longleftrightarrow> k = key \<or> (if key < k then node_has l key else node_has r key)"

text \<open>The index of the key, or of the next one, and the value.\<close>

primrec node_get :: "Node \<Rightarrow> bytes \<Rightarrow> int \<times> bytes option" where
  "node_get (Leaf k v _) key = (if k < key then (1, None) else if k > key then (0, None) else (0, Some v))"
| "node_get (Inner k _ s _ l r) key =
     (if key < k then node_get l key
      else let (index, val) = node_get r key in (wrap64 (index + wrap64 (s - node_size r)), val))"

primrec getByIndex :: "Node \<Rightarrow> int \<Rightarrow> (bytes \<times> bytes) option" where
  "getByIndex (Leaf k v _) index = (if index = 0 then Some (k, v) else None)"
| "getByIndex (Inner _ _ _ _ l r) index =
     (if index < node_size l then getByIndex l index else getByIndex r (wrap64 (index - node_size l)))"

section \<open>Rebalancing\<close>

text \<open>An inner node over two children, with its height and size recomputed.\<close>

definition calcHeightAndSize :: "bytes \<Rightarrow> int \<Rightarrow> Node \<Rightarrow> Node \<Rightarrow> Node" where
  "calcHeightAndSize k ver l r =
     Inner k (wrap8 (max (node_height l) (node_height r) + 1)) (wrap64 (node_size l + node_size r)) ver l r"

primrec calcBalance :: "Node \<Rightarrow> int res" where
  "calcBalance (Leaf _ _ _) = Inl (Panic ''nodeDB.GetNode() requires hash'')"
| "calcBalance (Inner _ _ _ _ l r) = Inr (node_height l - node_height r)"

fun rotateRight :: "int \<Rightarrow> Node \<Rightarrow> (Node \<times> Node) res" where
  "rotateRight ver (Inner k h s v (Inner lk lh ls lv ll lr) r) =
     Inr (calcHeightAndSize lk ver ll (calcHeightAndSize k ver lr r), Inner lk lh ls lv ll lr)"
| "rotateRight ver _ = Inl (Panic ''Attempt to copy a leaf node'')"

fun rotateLeft :: "int \<Rightarrow> Node \<Rightarrow> (Node \<times> Node) res" where
  "rotateLeft ver (Inner k h s v l (Inner rk rh rs rv rl rr)) =
     Inr (calcHeightAndSize rk ver (calcHeightAndSize k ver l rl) rr, Inner rk rh rs rv rl rr)"
| "rotateLeft ver _ = Inl (Panic ''Attempt to copy a leaf node'')"

fun balance :: "int \<Rightarrow> Node \<Rightarrow> Node list \<Rightarrow> (Node \<times> Node list) res" where
  "balance ver (Leaf k v lv) orphans = rmap (\<lambda>_. (Leaf k v lv, orphans)) (calcBalance (Leaf k v lv))"
| "balance ver (Inner k h s v l r) orphans =
     rbind (calcBalance (Inner k h s v l r)) (\<lambda>b.
       if b > 1 then
         rbind (calcBalance l) (\<lambda>lb.
           if lb \<ge> 0 then rbind (rotateRight ver (Inner k h s v l r)) (\<lambda>(n, orphaned). Inr (n, orphans @ [orphaned]))
           else rbind (rotateLeft ver l) (\<lambda>(l', leftOrphaned).
                rbind (rotateRight ver (Inner k h s v l' r)) (\<lambda>(n, rightOrphaned).
                  Inr (n, orphans @ [l, leftOrphaned, rightOrphaned]))))
       else if b < - 1 then
         rbind (calcBalance r) (\<lambda>rb.
           if rb \<le> 0 then rbind (rotateLeft ver (Inner k h s v l r)) (\<lambda>(n, orphaned). Inr (n, orphans @ [orphaned]))
           else rbind (rotateRight ver r) (\<lambda>(r', rightOrphaned).
                rbind (rotateLeft ver (Inner k h s v l r')) (\<lambda>(n, leftOrphaned).
                  Inr (n, orphans @ [r, leftOrphaned, rightOrphaned]))))
       else Inr (Inner k h s v l r, orphans))"

section \<open>Setting and removing\<close>

text \<open>\<open>ver\<close> is the version of the nodes written, one above that of the tree.\<close>

primrec recursiveSet :: "int \<Rightarrow> Node \<Rightarrow> bytes \<Rightarrow> bytes \<Rightarrow> Node list \<Rightarrow> (Node \<times> bool \<times> Node list) res" where
  "recursiveSet ver (Leaf k v lv) key val orphans =
     (if key < k then Inr (Inner k 1 2 ver (NewNode key val ver) (Leaf k v lv), False, orphans)
      else if key > k then Inr (Inner key 1 2 ver (Leaf k v lv) (NewNode key val ver), False, orphans)
      else Inr (NewNode key val ver, True, orphans @ [Leaf k v lv]))"
| "recursiveSet ver (Inner k h s v l r) key val orphans =
     (if key < k then
        rbind (recursiveSet ver l key val (orphans @ [Inner k h s v l r])) (\<lambda>(l', updated, os).
          if updated then Inr (Inner k h s ver l' r, updated, os)
          else rbind (balance ver (calcHeightAndSize k ver l' r) os) (\<lambda>(n, os'). Inr (n, updated, os')))
      else
        rbind (recursiveSet ver r key val (orphans @ [Inner k h s v l r])) (\<lambda>(r', updated, os).
          if updated then Inr (Inner k h s ver l r', updated, os)
          else rbind (balance ver (calcHeightAndSize k ver l r') os) (\<lambda>(n, os'). Inr (n, updated, os'))))"

text \<open>The result is the node in place of the old one (\<open>None\<close> if it was the leaf removed), the new
  leftmost key if it changed, the removed value and the orphans.  No orphans means not found.\<close>

primrec recursiveRemove :: "int \<Rightarrow> Node \<Rightarrow> bytes \<Rightarrow> Node list \<Rightarrow> (Node option \<times> bytes option \<times> bytes option \<times> Node list) res" where
  "recursiveRemove ver (Leaf k v lv) key orphans =
     (if key = k then Inr (None, None, Some v, orphans @ [Leaf k v lv]) else Inr (Some (Leaf k v lv), None, None, orphans))"
| "recursiveRemove ver (Inner k h s v l r) key orphans =
     (if key < k then
        rbind (recursiveRemove ver l key orphans) (\<lambda>(newLeft, newKey, val, os).
          if os = [] then Inr (Some (Inner k h s v l r), None, val, os)
          else let os' = os @ [Inner k h s v l r]
               in case newLeft of
                    None \<Rightarrow> Inr (Some r, Some k, val, os')
                  | Some l' \<Rightarrow> rbind (balance ver (calcHeightAndSize k ver l' r) os') (\<lambda>(n, os''). Inr (Some n, newKey, val, os'')))
      else
        rbind (recursiveRemove ver r key orphans) (\<lambda>(newRight, newKey, val, os).
          if os = [] then Inr (Some (Inner k h s v l r), None, val, os)
          else let os' = os @ [Inner k h s v l r]
               in case newRight of
                    None \<Rightarrow> Inr (Some l, None, val, os')
                  | Some r' \<Rightarrow>
                      let k' = (case newKey of None \<Rightarrow> k | Some nk \<Rightarrow> nk)
                      in rbind (balance ver (calcHeightAndSize k' ver l r') os') (\<lambda>(n, os''). Inr (Some n, None, val, os''))))"

section \<open>The search tree invariant\<close>

primrec leaves :: "Node \<Rightarrow> (bytes \<times> bytes) list" where
  "leaves (Leaf k v _) = [(k, v)]"
| "leaves (Inner _ _ _ _ l r) = leaves l @ leaves r"

text \<open>Inner nodes carry the least key of their right child, the height and the size; siblings differ in
  height by at most one.\<close>

primrec node_ok :: "Node \<Rightarrow> bool" where
  "node_ok (Leaf _ _ _) \<longleftrightarrow> True"
| "node_ok (Inner k h s _ l r) \<longleftrightarrow> node_ok l \<and> node_ok r \<and> h = max (node_height l) (node_height r) + 1 \<and>
     s = node_size l + node_size r \<and> \<bar>node_height l - node_height r\<bar> \<le> 1 \<and>
     (\<forall>x \<in> fst ` set (leaves l). x < k) \<and> fst (hd (leaves r)) = k \<and> (\<forall>x \<in> fst ` set (leaves r). k \<le> x)"

lemma leaves_nonempty [simp]: "leaves n \<noteq> []"
  by (induction n) auto

lemma hd_leaves_in: "fst (hd (leaves n)) \<in> fst ` set (leaves n)"
  by simp

lemma asc_append: "asc (xs @ ys) \<longleftrightarrow> asc xs \<and> asc ys \<and> (\<forall>x \<in> fst ` set xs. \<forall>y \<in> fst ` set ys. x < y)"
  by (auto simp: asc_def sorted_wrt_append)

lemma node_ok_asc: "node_ok n \<Longrightarrow> asc (leaves n)"
  by (induction n) (force simp: asc_append)+

lemma node_ok_size: "node_ok n \<Longrightarrow> node_size n = int (length (leaves n))"
  by (induction n) auto

lemma node_size_pos: "node_ok n \<Longrightarrow> 1 \<le> node_size n"
  using leaves_nonempty [of n] by (simp add: node_ok_size Suc_leI del: leaves_nonempty)

lemma node_height_nonneg: "node_ok n \<Longrightarrow> 0 \<le> node_height n"
  by (induction n) auto

text \<open>The tree is balanced: its height is at most twice the logarithm of its size.\<close>

lemma node_height_size: "node_ok n \<Longrightarrow> 2 ^ nat (node_height n) \<le> (node_size n)\<^sup>2"
proof (induction n)
  case (Leaf k v ver)
  show ?case by simp
next
  case (Inner k h s ver l r)
  define a where "a = nat (min (node_height l) (node_height r))"
  have ok: "node_ok l" "node_ok r" using Inner.prems by auto
  have pos: "1 \<le> node_size l" "1 \<le> node_size r" using ok by (auto intro: node_size_pos)
  have hs: "0 \<le> node_height l" "0 \<le> node_height r" using ok by (auto intro: node_height_nonneg)
  have d: "\<bar>node_height l - node_height r\<bar> \<le> 1" using Inner.prems by auto
  have ih: "2 ^ nat (node_height l) \<le> (node_size l)\<^sup>2" "2 ^ nat (node_height r) \<le> (node_size r)\<^sup>2"
    using Inner.IH ok by auto
  have "2 ^ a \<le> node_size l * node_size r"
  proof (rule power2_le_imp_le)
    have "(2 ^ a)\<^sup>2 = (2 ^ a * 2 ^ a :: int)" by (simp add: power2_eq_square)
    also have "\<dots> \<le> 2 ^ nat (node_height l) * 2 ^ nat (node_height r)"
      by (rule mult_mono) (auto simp: a_def intro: power_increasing)
    also have "\<dots> \<le> (node_size l)\<^sup>2 * (node_size r)\<^sup>2" by (rule mult_mono) (use ih in auto)
    finally show "(2 ^ a)\<^sup>2 \<le> (node_size l * node_size r)\<^sup>2" by (simp add: power_mult_distrib)
  qed (use pos in auto)
  moreover have "2 ^ nat (max (node_height l) (node_height r) + 1) \<le> (2 ^ nat (node_height l) + 2 ^ nat (node_height r) + 2 * 2 ^ a :: int)"
  proof (cases "node_height l" "node_height r" rule: linorder_cases)
    case less
    then have "node_height r = node_height l + 1" using d by simp
    then show ?thesis using hs by (simp add: a_def max_def min_def nat_add_distrib power_add)
  next
    case equal
    then show ?thesis using hs by (simp add: a_def nat_add_distrib)
  next
    case greater
    then have "node_height l = node_height r + 1" using d by simp
    then show ?thesis using hs by (simp add: a_def max_def min_def nat_add_distrib power_add)
  qed
  moreover have "(node_size l + node_size r)\<^sup>2 = (node_size l)\<^sup>2 + (node_size r)\<^sup>2 + 2 * (node_size l * node_size r)"
    by (simp add: power2_sum)
  ultimately show ?case using Inner.prems ih by simp
qed

lemma node_height_small:
  assumes "node_ok n" "node_size n < 2 ^ 63"
  shows "node_height n < 126"
proof (rule ccontr)
  assume "\<not> ?thesis"
  then have "(2::int) ^ 126 \<le> 2 ^ nat (node_height n)" by (intro power_increasing) auto
  also have "\<dots> \<le> (node_size n)\<^sup>2" by (rule node_height_size [OF assms(1)])
  also have "\<dots> < (2 ^ 63)\<^sup>2" using assms node_size_pos [OF assms(1)] by (intro power_strict_mono) auto
  finally show False by simp
qed

text \<open>Heights and sizes do not wrap below \<open>2 ^ 63\<close> leaves.\<close>

lemma calcHeightAndSize_eq:
  assumes "node_ok l" "node_ok r" "node_size l + node_size r < 2 ^ 63"
  shows "calcHeightAndSize k ver l r = Inner k (max (node_height l) (node_height r) + 1) (node_size l + node_size r) ver l r"
proof -
  have "1 \<le> node_size l" "1 \<le> node_size r" "0 \<le> node_height l" "0 \<le> node_height r"
    using assms by (auto intro: node_size_pos node_height_nonneg)
  moreover from this have "node_height l < 126" "node_height r < 126" using assms by (auto intro: node_height_small)
  ultimately show ?thesis using assms(3) by (simp add: calcHeightAndSize_def wrap8_id wrap64_id)
qed

text \<open>Two children under the key that separates them.\<close>

definition siblings :: "bytes \<Rightarrow> Node \<Rightarrow> Node \<Rightarrow> bool" where
  "siblings k l r \<longleftrightarrow> node_ok l \<and> node_ok r \<and> (\<forall>x \<in> fst ` set (leaves l). x < k) \<and> fst (hd (leaves r)) = k \<and>
     (\<forall>x \<in> fst ` set (leaves r). k \<le> x) \<and> node_size l + node_size r < 2 ^ 63"

lemma node_ok_Inner:
  "node_ok (Inner k h s v l r) \<Longrightarrow> s < 2 ^ 63 \<Longrightarrow> siblings k l r"
  by (simp add: siblings_def)

lemma join_ok:
  assumes "siblings k l r" "\<bar>node_height l - node_height r\<bar> \<le> 1"
  shows "node_ok (calcHeightAndSize k ver l r)" "leaves (calcHeightAndSize k ver l r) = leaves l @ leaves r"
    "node_height (calcHeightAndSize k ver l r) = max (node_height l) (node_height r) + 1"
    "node_size (calcHeightAndSize k ver l r) = node_size l + node_size r"
  using assms calcHeightAndSize_eq [of l r k ver] by (auto simp: siblings_def)

lemma siblings_split:
  assumes "siblings k (Inner lk lh ls lv ll lr) r"
  shows "siblings k lr r" "siblings lk ll lr" "\<bar>node_height lr - node_height r\<bar> \<le> 1 \<Longrightarrow> siblings lk ll (calcHeightAndSize k ver lr r)"
proof -
  have p: "1 \<le> node_size ll" "1 \<le> node_size lr" "1 \<le> node_size r" using assms by (auto simp: siblings_def intro: node_size_pos)
  show sr: "siblings k lr r" "siblings lk ll lr" using assms p by (auto simp: siblings_def)
  have lt: "\<forall>x \<in> fst ` set (leaves r). lk \<le> x" 
  proof -
    have "lk < k" using assms hd_leaves_in [of lr] by (auto simp: siblings_def)
    then show ?thesis using assms by (force simp: siblings_def)
  qed
  assume "\<bar>node_height lr - node_height r\<bar> \<le> 1"
  note j = join_ok [OF sr(1) this, of ver]
  have "fst (hd (leaves lr @ leaves r)) = lk" using sr(2) by (simp add: siblings_def)
  then show "siblings lk ll (calcHeightAndSize k ver lr r)"
    using sr assms lt unfolding siblings_def j by (auto simp: j)
qed

lemma siblings_split':
  assumes "siblings k l (Inner rk rh rs rv rl rr)"
  shows "siblings k l rl" "siblings rk rl rr" "\<bar>node_height l - node_height rl\<bar> \<le> 1 \<Longrightarrow> siblings rk (calcHeightAndSize k ver l rl) rr"
proof -
  have p: "1 \<le> node_size l" "1 \<le> node_size rl" "1 \<le> node_size rr" using assms by (auto simp: siblings_def intro: node_size_pos)
  show sr: "siblings k l rl" "siblings rk rl rr" using assms p by (auto simp: siblings_def)
  have lt: "\<forall>x \<in> fst ` set (leaves l). x < rk"
  proof -
    have "k < rk" using assms hd_leaves_in [of rl] by (force simp: siblings_def)
    then show ?thesis using assms by (force simp: siblings_def)
  qed
  assume "\<bar>node_height l - node_height rl\<bar> \<le> 1"
  note j = join_ok [OF sr(1) this, of ver]
  show "siblings rk (calcHeightAndSize k ver l rl) rr"
    using sr assms lt unfolding siblings_def j by (auto simp: j)
qed

lemma balance_left:
  assumes "siblings k l r" "node_height l = node_height r + 2"
  shows "\<exists>n os. balance ver (Inner k h s v l r) orphans = Inr (n, orphans @ os) \<and> node_ok n \<and>
    leaves n = leaves l @ leaves r \<and> node_height l \<le> node_height n \<and> node_height n \<le> node_height l + 1"
proof (cases l)
  case (Leaf lk lv ver')
  then show ?thesis using assms node_height_nonneg [of r] by (auto simp: siblings_def)
next
  case (Inner lk lh ls lv ll lr)
  note sp = siblings_split [OF assms(1) [unfolded Inner]]
  have h: "lh = max (node_height ll) (node_height lr) + 1" "\<bar>node_height ll - node_height lr\<bar> \<le> 1" "lh = node_height r + 2"
    using assms Inner by (auto simp: siblings_def)
  show ?thesis
  proof (cases "node_height ll - node_height lr \<ge> 0")
    case True
    have d: "\<bar>node_height lr - node_height r\<bar> \<le> 1" using h True by auto
    note j = join_ok [OF sp(1) d, of ver]
    have d': "\<bar>node_height ll - node_height (calcHeightAndSize k ver lr r)\<bar> \<le> 1" using h True by (auto simp: j)
    note j' = join_ok [OF sp(3) [OF d, of ver] d', of ver]
    show ?thesis using True h Inner j j' by (auto simp: assms(2))
  next
    case False
    then obtain mk mh ms mv ml mr where m: "lr = Inner mk mh ms mv ml mr"
      using h node_height_nonneg [of ll] sp(2) by (cases lr) (auto simp: siblings_def)
    note sp2 = siblings_split' [OF sp(2) [unfolded m]]
    have hm: "mh = max (node_height ml) (node_height mr) + 1" "\<bar>node_height ml - node_height mr\<bar> \<le> 1"
      using sp(1) m by (auto simp: siblings_def)
    have d: "\<bar>node_height ll - node_height ml\<bar> \<le> 1" "\<bar>node_height mr - node_height r\<bar> \<le> 1" using h hm m False by auto
    note jl = join_ok [OF sp2(1) d(1), of ver]
    have sl: "siblings mk (calcHeightAndSize lk ver ll ml) mr" by (rule sp2(3) [OF d(1)])
    have "siblings k mr r" using siblings_split(1) [OF sp(1) [unfolded m]] .
    note jr = join_ok [OF this d(2), of ver]
    have kk: "\<forall>x \<in> fst ` set (leaves r). mk \<le> x"
    proof -
      have "mk < k" using sp(1) m hd_leaves_in [of mr] by (auto simp: siblings_def)
      then show ?thesis using assms by (force simp: siblings_def)
    qed
    have "siblings mk (calcHeightAndSize lk ver ll ml) (calcHeightAndSize k ver mr r)"
      using sl \<open>siblings k mr r\<close> kk assms(1) m Inner jl jr by (auto simp: siblings_def)
    moreover have "\<bar>node_height (calcHeightAndSize lk ver ll ml) - node_height (calcHeightAndSize k ver mr r)\<bar> \<le> 1"
      using h hm m False by (auto simp: jl jr)
    ultimately have jj: "node_ok (calcHeightAndSize mk ver (calcHeightAndSize lk ver ll ml) (calcHeightAndSize k ver mr r))"
      "leaves (calcHeightAndSize mk ver (calcHeightAndSize lk ver ll ml) (calcHeightAndSize k ver mr r)) = leaves l @ leaves r"
      "node_height (calcHeightAndSize mk ver (calcHeightAndSize lk ver ll ml) (calcHeightAndSize k ver mr r)) = node_height l"
      using join_ok [of mk _ _ ver] jl jr h hm m False Inner by auto
    moreover have "calcHeightAndSize mk ver (calcHeightAndSize lk ver ll ml) mr =
      Inner mk (wrap8 (max (node_height (calcHeightAndSize lk ver ll ml)) (node_height mr) + 1))
        (wrap64 (node_size (calcHeightAndSize lk ver ll ml) + node_size mr)) ver (calcHeightAndSize lk ver ll ml) mr"
      by (simp add: calcHeightAndSize_def)
    ultimately show ?thesis using False h Inner m by (auto simp: assms(2))
  qed
qed

lemma balance_right:
  assumes "siblings k l r" "node_height r = node_height l + 2"
  shows "\<exists>n os. balance ver (Inner k h s v l r) orphans = Inr (n, orphans @ os) \<and> node_ok n \<and>
    leaves n = leaves l @ leaves r \<and> node_height r \<le> node_height n \<and> node_height n \<le> node_height r + 1"
proof (cases r)
  case (Leaf rk rv ver')
  then show ?thesis using assms node_height_nonneg [of l] by (auto simp: siblings_def)
next
  case (Inner rk rh rs rv rl rr)
  note sp = siblings_split' [OF assms(1) [unfolded Inner]]
  have h: "rh = max (node_height rl) (node_height rr) + 1" "\<bar>node_height rl - node_height rr\<bar> \<le> 1" "rh = node_height l + 2"
    using assms Inner by (auto simp: siblings_def)
  show ?thesis
  proof (cases "node_height rl - node_height rr \<le> 0")
    case True
    have d: "\<bar>node_height l - node_height rl\<bar> \<le> 1" using h True by auto
    note j = join_ok [OF sp(1) d, of ver]
    have d': "\<bar>node_height (calcHeightAndSize k ver l rl) - node_height rr\<bar> \<le> 1" using h True by (auto simp: j)
    note j' = join_ok [OF sp(3) [OF d, of ver] d', of ver]
    show ?thesis using True h Inner j j' by (auto simp: assms(2))
  next
    case False
    then obtain mk mh ms mv ml mr where m: "rl = Inner mk mh ms mv ml mr"
      using h node_height_nonneg [of rr] sp(2) by (cases rl) (auto simp: siblings_def)
    note sp2 = siblings_split [OF sp(2) [unfolded m]]
    have hm: "mh = max (node_height ml) (node_height mr) + 1" "\<bar>node_height ml - node_height mr\<bar> \<le> 1"
      using sp(1) m by (auto simp: siblings_def)
    have d: "\<bar>node_height l - node_height ml\<bar> \<le> 1" "\<bar>node_height mr - node_height rr\<bar> \<le> 1" using h hm m False by auto
    note jr = join_ok [OF sp2(1) d(2), of ver]
    have sl: "siblings k l ml" using siblings_split'(1) [OF sp(1) [unfolded m]] .
    note jl = join_ok [OF sl d(1), of ver]
    have "siblings mk (calcHeightAndSize k ver l ml) mr" by (rule siblings_split'(3) [OF sp(1) [unfolded m] d(1)])
    then have "siblings mk (calcHeightAndSize k ver l ml) (calcHeightAndSize rk ver mr rr)"
      using sp2(3) [OF d(2), of ver] assms(1) m Inner jl jr by (auto simp: siblings_def)
    moreover have "\<bar>node_height (calcHeightAndSize k ver l ml) - node_height (calcHeightAndSize rk ver mr rr)\<bar> \<le> 1"
      using h hm m False by (auto simp: jl jr)
    ultimately have jj: "node_ok (calcHeightAndSize mk ver (calcHeightAndSize k ver l ml) (calcHeightAndSize rk ver mr rr))"
      "leaves (calcHeightAndSize mk ver (calcHeightAndSize k ver l ml) (calcHeightAndSize rk ver mr rr)) = leaves l @ leaves r"
      "node_height (calcHeightAndSize mk ver (calcHeightAndSize k ver l ml) (calcHeightAndSize rk ver mr rr)) = node_height r"
      using join_ok [of mk _ _ ver] jl jr h hm m False Inner by auto
    moreover have "calcHeightAndSize mk ver ml (calcHeightAndSize rk ver mr rr) =
      Inner mk (wrap8 (max (node_height ml) (node_height (calcHeightAndSize rk ver mr rr)) + 1))
        (wrap64 (node_size ml + node_size (calcHeightAndSize rk ver mr rr))) ver ml (calcHeightAndSize rk ver mr rr)"
      by (simp add: calcHeightAndSize_def)
    ultimately show ?thesis using False h Inner m by (auto simp: assms(2))
  qed
qed

lemma balance_spec:
  assumes "siblings k l r" "\<bar>node_height l - node_height r\<bar> \<le> 2"
  shows "\<exists>n os. balance ver (calcHeightAndSize k ver l r) orphans = Inr (n, orphans @ os) \<and> node_ok n \<and>
    leaves n = leaves l @ leaves r \<and> max (node_height l) (node_height r) \<le> node_height n \<and>
    node_height n \<le> max (node_height l) (node_height r) + 1 \<and>
    (\<bar>node_height l - node_height r\<bar> \<le> 1 \<longrightarrow> node_height n = max (node_height l) (node_height r) + 1)"
proof -
  have eq: "calcHeightAndSize k ver l r = Inner k (max (node_height l) (node_height r) + 1) (node_size l + node_size r) ver l r"
    using assms(1) by (intro calcHeightAndSize_eq) (auto simp: siblings_def)
  consider "\<bar>node_height l - node_height r\<bar> \<le> 1" | "node_height l = node_height r + 2" | "node_height r = node_height l + 2"
    using assms(2) by linarith
  then show ?thesis
  proof cases
    case 1
    then show ?thesis using join_ok [OF assms(1) 1, of ver] by (auto simp: eq)
  next
    case 2
    show ?thesis using balance_left [OF assms(1) 2, of ver _ _ _ orphans] 2 unfolding eq by fastforce
  next
    case 3
    show ?thesis using balance_right [OF assms(1) 3, of ver _ _ _ orphans] 3 unfolding eq by fastforce
  qed
qed

section \<open>What the operations compute\<close>

lemma upd_list_left: "ys \<noteq> [] \<Longrightarrow> k < fst (hd ys) \<Longrightarrow> upd_list k v (xs @ ys) = upd_list k v xs @ ys"
  by (induction k v xs rule: upd_list.induct) (auto simp: neq_Nil_conv)

lemma upd_list_right: "\<forall>x \<in> fst ` set xs. x < k \<Longrightarrow> upd_list k v (xs @ ys) = xs @ upd_list k v ys"
  by (induction k v xs rule: upd_list.induct) auto

lemma length_upd_list: "asc ps \<Longrightarrow> length (upd_list k v ps) = length ps + (if k \<in> fst ` set ps then 0 else 1)"
  by (induction k v ps rule: upd_list.induct) force+

lemma hd_upd_list: "ps \<noteq> [] \<Longrightarrow> fst (hd (upd_list k v ps)) = min k (fst (hd ps))"
  by (cases ps) (auto simp: min_def)

text \<open>What setting a key in a subtree may do to it.\<close>

definition set_done :: "Node \<Rightarrow> bytes \<Rightarrow> bytes \<Rightarrow> Node list \<Rightarrow> (Node \<times> bool \<times> Node list) res \<Rightarrow> bool" where
  "set_done n key val orphans res \<longleftrightarrow> (\<exists>n' os. res = Inr (n', key \<in> fst ` set (leaves n), orphans @ os) \<and> node_ok n' \<and>
     leaves n' = upd_list key val (leaves n) \<and> node_height n \<le> node_height n' \<and> node_height n' \<le> node_height n + 1 \<and>
     (key \<in> fst ` set (leaves n) \<longrightarrow> node_height n' = node_height n))"

lemma set_done_size:
  assumes "node_ok n" "node_ok n'" "leaves n' = upd_list key val (leaves n)"
  shows "node_size n' = node_size n + (if key \<in> fst ` set (leaves n) then 0 else 1)"
  using assms by (simp add: node_ok_size length_upd_list node_ok_asc)

lemma balanceE:
  assumes "siblings k l r" "\<bar>node_height l - node_height r\<bar> \<le> 2"
  obtains n os where "balance ver (calcHeightAndSize k ver l r) orphans = Inr (n, orphans @ os)" "node_ok n"
    "leaves n = leaves l @ leaves r" "max (node_height l) (node_height r) \<le> node_height n"
    "node_height n \<le> max (node_height l) (node_height r) + 1"
    "\<bar>node_height l - node_height r\<bar> \<le> 1 \<longrightarrow> node_height n = max (node_height l) (node_height r) + 1"
  using balance_spec [OF assms, of ver orphans] by blast

lemma recursiveSet_left:
  assumes n: "n = Inner k h s v l r" "node_ok n" "s + 1 < 2 ^ 63" and "key < k"
    and IH: "set_done l key val (orphans @ [n]) (recursiveSet ver l key val (orphans @ [n]))"
  shows "set_done n key val orphans (recursiveSet ver n key val orphans)"
proof -
  have sb: "siblings k l r" using n by (intro node_ok_Inner) auto
  have hs: "h = max (node_height l) (node_height r) + 1" "s = node_size l + node_size r" "\<bar>node_height l - node_height r\<bar> \<le> 1"
    using n by auto
  obtain l' os where l': "recursiveSet ver l key val (orphans @ [n]) = Inr (l', key \<in> fst ` set (leaves l), orphans @ n # os)"
    "node_ok l'" "leaves l' = upd_list key val (leaves l)" "node_height l \<le> node_height l'" "node_height l' \<le> node_height l + 1"
    "key \<in> fst ` set (leaves l) \<longrightarrow> node_height l' = node_height l"
    using IH by (auto simp: set_done_def)
  have mem: "key \<in> fst ` set (leaves n) \<longleftrightarrow> key \<in> fst ` set (leaves l)" using n sb \<open>key < k\<close> by (force simp: siblings_def)
  have up: "leaves l' @ leaves r = upd_list key val (leaves n)"
    using upd_list_left [of "leaves r" key val "leaves l"] \<open>key < k\<close> sb l'(3) n by (simp add: siblings_def)
  have sz: "node_size l' = node_size l + (if key \<in> fst ` set (leaves l) then 0 else 1)"
    using set_done_size l'(2,3) sb by (simp add: siblings_def)
  have sb': "siblings k l' r" using sb l'(2,3) \<open>key < k\<close> sz n(3) hs by (auto simp: siblings_def upd_list_keys)
  show ?thesis
  proof (cases "key \<in> fst ` set (leaves l)")
    case True
    with l' \<open>key < k\<close> mem sz sb' hs up n show ?thesis by (auto simp: siblings_def set_done_def)
  next
    case False
    have d: "\<bar>node_height l' - node_height r\<bar> \<le> 2" using l'(4,5) hs by auto
    obtain m os2 where m: "balance ver (calcHeightAndSize k ver l' r) (orphans @ n # os) = Inr (m, (orphans @ n # os) @ os2)"
      "node_ok m" "leaves m = leaves l' @ leaves r" "max (node_height l') (node_height r) \<le> node_height m"
      "node_height m \<le> max (node_height l') (node_height r) + 1"
      "\<bar>node_height l' - node_height r\<bar> \<le> 1 \<longrightarrow> node_height m = max (node_height l') (node_height r) + 1"
      by (rule balanceE [OF sb' d])
    have "h \<le> node_height m \<and> node_height m \<le> h + 1" using m(4-6) l'(4,5) hs by auto
    then show ?thesis using m(1-3) up False mem l'(1) n(1) \<open>key < k\<close>
      by (auto simp: set_done_def intro!: exI [of _ "n # os @ os2"])
  qed
qed

lemma recursiveSet_right:
  assumes n: "n = Inner k h s v l r" "node_ok n" "s + 1 < 2 ^ 63" and "\<not> key < k"
    and IH: "set_done r key val (orphans @ [n]) (recursiveSet ver r key val (orphans @ [n]))"
  shows "set_done n key val orphans (recursiveSet ver n key val orphans)"
proof -
  have sb: "siblings k l r" using n by (intro node_ok_Inner) auto
  have hs: "h = max (node_height l) (node_height r) + 1" "s = node_size l + node_size r" "\<bar>node_height l - node_height r\<bar> \<le> 1"
    using n by auto
  obtain r' os where r': "recursiveSet ver r key val (orphans @ [n]) = Inr (r', key \<in> fst ` set (leaves r), orphans @ n # os)"
    "node_ok r'" "leaves r' = upd_list key val (leaves r)" "node_height r \<le> node_height r'" "node_height r' \<le> node_height r + 1"
    "key \<in> fst ` set (leaves r) \<longrightarrow> node_height r' = node_height r"
    using IH by (auto simp: set_done_def)
  have less: "\<forall>x \<in> fst ` set (leaves l). x < key" using \<open>\<not> key < k\<close> sb by (force simp: siblings_def)
  then have mem: "key \<in> fst ` set (leaves n) \<longleftrightarrow> key \<in> fst ` set (leaves r)" using n by auto
  have up: "leaves l @ leaves r' = upd_list key val (leaves n)" using upd_list_right [OF less] r'(3) n by simp
  have sz: "node_size r' = node_size r + (if key \<in> fst ` set (leaves r) then 0 else 1)"
    using set_done_size r'(2,3) sb by (simp add: siblings_def)
  have "fst (hd (leaves r')) = k" using r'(3) \<open>\<not> key < k\<close> sb hd_upd_list [of "leaves r" key val] by (simp add: min_def siblings_def)
  then have sb': "siblings k l r'" using sb r'(2,3) \<open>\<not> key < k\<close> sz n(3) hs by (auto simp: siblings_def upd_list_keys)
  show ?thesis
  proof (cases "key \<in> fst ` set (leaves r)")
    case True
    with r' \<open>\<not> key < k\<close> mem sz sb' hs up n show ?thesis by (auto simp: siblings_def set_done_def)
  next
    case False
    have d: "\<bar>node_height l - node_height r'\<bar> \<le> 2" using r'(4,5) hs by auto
    obtain m os2 where m: "balance ver (calcHeightAndSize k ver l r') (orphans @ n # os) = Inr (m, (orphans @ n # os) @ os2)"
      "node_ok m" "leaves m = leaves l @ leaves r'" "max (node_height l) (node_height r') \<le> node_height m"
      "node_height m \<le> max (node_height l) (node_height r') + 1"
      "\<bar>node_height l - node_height r'\<bar> \<le> 1 \<longrightarrow> node_height m = max (node_height l) (node_height r') + 1"
      by (rule balanceE [OF sb' d])
    have "h \<le> node_height m \<and> node_height m \<le> h + 1" using m(4-6) r'(4,5) hs by auto
    then show ?thesis using m(1-3) up False mem r'(1) n(1) \<open>\<not> key < k\<close>
      by (auto simp: set_done_def intro!: exI [of _ "n # os @ os2"])
  qed
qed

lemma recursiveSet_done:
  "node_ok n \<Longrightarrow> node_size n + 1 < 2 ^ 63 \<Longrightarrow> set_done n key val orphans (recursiveSet ver n key val orphans)"
proof (induction n arbitrary: orphans)
  case (Leaf k v lv)
  show ?case by (auto simp: NewNode_def set_done_def)
next
  case (Inner k h s v l r)
  have "1 \<le> node_size l" "1 \<le> node_size r" using Inner.prems by (auto intro: node_size_pos)
  then show ?case using Inner recursiveSet_left [OF refl] recursiveSet_right [OF refl] by (cases "key < k") auto
qed

lemma del_list_notin: "k \<notin> fst ` set ps \<Longrightarrow> del_list k ps = ps"
  by (auto simp: del_list_def filter_id_conv)

lemma del_list_append: "del_list k (xs @ ys) = del_list k xs @ del_list k ys"
  by (simp add: del_list_def)

lemma set_del_list: "fst ` set (del_list k ps) = fst ` set ps - {k}"
  by (auto simp: del_list_def)

lemma length_del_list: "length (del_list k ps) \<le> length ps"
  by (simp add: del_list_def)

lemma map_of_left: "key \<notin> fst ` set ys \<Longrightarrow> map_of (xs @ ys) key = map_of xs key"
  and map_of_right: "key \<notin> fst ` set xs \<Longrightarrow> map_of (xs @ ys) key = map_of ys key"
  by (simp_all add: map_add_def map_of_eq_None_iff [symmetric] split: option.splits)

lemma asc_hd_le: "asc ps \<Longrightarrow> x \<in> fst ` set ps \<Longrightarrow> fst (hd ps) \<le> x"
  by (cases ps) force+

lemma hd_del_list: "ps \<noteq> [] \<Longrightarrow> fst (hd ps) \<noteq> k \<Longrightarrow> fst (hd (del_list k ps)) = fst (hd ps)"
  by (cases ps) (auto simp: del_list_def)

text \<open>What removing a key from a subtree may do to it: nothing if the key is not there; otherwise the
  node that takes its place, none if the subtree was the leaf, and the new least key if the key was it.\<close>

definition remove_done :: "Node \<Rightarrow> bytes \<Rightarrow> (Node option \<times> bytes option \<times> bytes option \<times> Node list) res \<Rightarrow> bool" where
  "remove_done n key res \<longleftrightarrow>
     (if key \<in> fst ` set (leaves n) then
        \<exists>n' os. os \<noteq> [] \<and> res = Inr (n', if fst (hd (leaves n)) = key then map_option (\<lambda>m. fst (hd (leaves m))) n' else None, map_of (leaves n) key, os) \<and>
          (case n' of None \<Rightarrow> node_height n = 0 \<and> (\<exists>w. leaves n = [(key, w)])
           | Some m \<Rightarrow> node_ok m \<and> leaves m = del_list key (leaves n) \<and> node_height m \<le> node_height n \<and> node_height n \<le> node_height m + 1)
      else res = Inr (Some n, None, None, []))"

lemma remove_done_size:
  "node_ok n \<Longrightarrow> node_ok m \<Longrightarrow> leaves m = del_list key (leaves n) \<Longrightarrow> node_size m \<le> node_size n"
  by (simp add: node_ok_size length_del_list)

lemma recursiveRemove_left:
  assumes n: "n = Inner k h s v l r" "node_ok n" "s < 2 ^ 63" and "key < k"
    and IH: "remove_done l key (recursiveRemove ver l key [])"
  shows "remove_done n key (recursiveRemove ver n key [])"
proof (cases "key \<in> fst ` set (leaves l)")
  case False
  then have "key \<notin> fst ` set (leaves n)" using n \<open>key < k\<close> by force
  then show ?thesis using IH False n \<open>key < k\<close> by (simp add: remove_done_def)
next
  case True
  have sb: "siblings k l r" using n by (intro node_ok_Inner) auto
  have hs: "h = max (node_height l) (node_height r) + 1" "s = node_size l + node_size r" "\<bar>node_height l - node_height r\<bar> \<le> 1"
    using n by auto
  have nin: "key \<notin> fst ` set (leaves r)" using n \<open>key < k\<close> by force
  have lv: "leaves n = leaves l @ leaves r" "map_of (leaves n) key = map_of (leaves l) key" "fst (hd (leaves n)) = fst (hd (leaves l))"
    using n map_of_left [OF nin] by auto
  obtain l' os where l': "os \<noteq> []"
    "recursiveRemove ver l key [] = Inr (l', if fst (hd (leaves l)) = key then map_option (\<lambda>m. fst (hd (leaves m))) l' else None, map_of (leaves l) key, os)"
    and c: "case l' of None \<Rightarrow> node_height l = 0 \<and> (\<exists>w. leaves l = [(key, w)])
           | Some m \<Rightarrow> node_ok m \<and> leaves m = del_list key (leaves l) \<and> node_height m \<le> node_height l \<and> node_height l \<le> node_height m + 1"
    using IH True by (auto simp: remove_done_def)
  show ?thesis
  proof (cases l')
    case None
    then obtain w where w: "leaves l = [(key, w)]" "node_height l = 0" using c by auto
    then have e: "del_list key (leaves l) = []" "fst (hd (leaves l)) = key" by (simp_all add: del_list_def)
    have "node_height r \<le> node_height n" "node_height n \<le> node_height r + 1" using w hs n node_height_nonneg [of r] by auto
    moreover have "fst (hd (leaves r)) = k" using sb by (simp add: siblings_def)
    ultimately show ?thesis using l' None n lv \<open>key < k\<close> del_list_notin [OF nin] True sb e by (auto simp: remove_done_def del_list_append siblings_def)
  next
    case (Some m)
    have m: "node_ok m" "leaves m = del_list key (leaves l)" "node_height m \<le> node_height l" "node_height l \<le> node_height m + 1"
      using c Some by auto
    have sb': "siblings k m r" using sb m(1,2) remove_done_size [of l m key] by (auto simp: siblings_def set_del_list)
    have d: "\<bar>node_height m - node_height r\<bar> \<le> 2" using m(3,4) hs by auto
    obtain b os2 where b: "balance ver (calcHeightAndSize k ver m r) (os @ [n]) = Inr (b, (os @ [n]) @ os2)"
      "node_ok b" "leaves b = leaves m @ leaves r" "max (node_height m) (node_height r) \<le> node_height b"
      "node_height b \<le> max (node_height m) (node_height r) + 1"
      "\<bar>node_height m - node_height r\<bar> \<le> 1 \<longrightarrow> node_height b = max (node_height m) (node_height r) + 1"
      by (rule balanceE [OF sb' d])
    have "node_height b \<le> h \<and> h \<le> node_height b + 1" using b(4-6) m(3,4) hs by auto
    moreover have "del_list key (leaves l) \<noteq> []" using leaves_nonempty [of m] unfolding m(2) .
    ultimately show ?thesis using l' b(1-3) m(2) n lv \<open>key < k\<close> Some del_list_notin [OF nin] True
      by (auto simp: remove_done_def del_list_append)
  qed
qed

lemma recursiveRemove_right:
  assumes n: "n = Inner k h s v l r" "node_ok n" "s < 2 ^ 63" and "\<not> key < k"
    and IH: "remove_done r key (recursiveRemove ver r key [])"
  shows "remove_done n key (recursiveRemove ver n key [])"
proof (cases "key \<in> fst ` set (leaves r)")
  case False
  then have "key \<notin> fst ` set (leaves n)" using n \<open>\<not> key < k\<close> by force
  then show ?thesis using IH False n \<open>\<not> key < k\<close> by (simp add: remove_done_def)
next
  case True
  have sb: "siblings k l r" using n by (intro node_ok_Inner) auto
  have hs: "h = max (node_height l) (node_height r) + 1" "s = node_size l + node_size r" "\<bar>node_height l - node_height r\<bar> \<le> 1"
    using n by auto
  have nin: "key \<notin> fst ` set (leaves l)" using n \<open>\<not> key < k\<close> by force
  have lv: "leaves n = leaves l @ leaves r" "map_of (leaves n) key = map_of (leaves r) key" "fst (hd (leaves n)) = fst (hd (leaves l))"
    "fst (hd (leaves l)) \<noteq> key"
    using n map_of_right [OF nin] nin hd_leaves_in [of l] by auto
  obtain r' os where r': "os \<noteq> []"
    "recursiveRemove ver r key [] = Inr (r', if fst (hd (leaves r)) = key then map_option (\<lambda>m. fst (hd (leaves m))) r' else None, map_of (leaves r) key, os)"
    and c: "case r' of None \<Rightarrow> node_height r = 0 \<and> (\<exists>w. leaves r = [(key, w)])
           | Some m \<Rightarrow> node_ok m \<and> leaves m = del_list key (leaves r) \<and> node_height m \<le> node_height r \<and> node_height r \<le> node_height m + 1"
    using IH True by (auto simp: remove_done_def)
  show ?thesis
  proof (cases r')
    case None
    then obtain w where w: "leaves r = [(key, w)]" "node_height r = 0" using c by auto
    then have e: "del_list key (leaves r) = []" by (simp add: del_list_def)
    have "node_height l \<le> node_height n" "node_height n \<le> node_height l + 1" using w hs n node_height_nonneg [of l] by auto
    then show ?thesis using r' None n lv \<open>\<not> key < k\<close> del_list_notin [OF nin] True sb e by (auto simp: remove_done_def del_list_append siblings_def)
  next
    case (Some m)
    have m: "node_ok m" "leaves m = del_list key (leaves r)" "node_height m \<le> node_height r" "node_height r \<le> node_height m + 1"
      using c Some by auto
    let ?k = "if fst (hd (leaves r)) = key then fst (hd (leaves m)) else k"
    have "k \<le> fst (hd (leaves m))" "fst (hd (leaves m)) = k" if "fst (hd (leaves r)) \<noteq> key"
      using hd_leaves_in [of m] hd_del_list [OF leaves_nonempty that] sb m(2) by (auto simp: siblings_def)
    moreover have "k \<le> fst (hd (leaves m))" using hd_leaves_in [of m] sb m(2) by (auto simp: siblings_def set_del_list)
    moreover have "\<forall>x \<in> fst ` set (leaves m). fst (hd (leaves m)) \<le> x" using asc_hd_le [OF node_ok_asc [OF m(1)]] by blast
    ultimately have sb': "siblings ?k l m" using sb m(1,2) remove_done_size [of r m key] by (force simp: siblings_def)
    have d: "\<bar>node_height l - node_height m\<bar> \<le> 2" using m(3,4) hs by auto
    obtain b os2 where b: "balance ver (calcHeightAndSize ?k ver l m) (os @ [n]) = Inr (b, (os @ [n]) @ os2)"
      "node_ok b" "leaves b = leaves l @ leaves m" "max (node_height l) (node_height m) \<le> node_height b"
      "node_height b \<le> max (node_height l) (node_height m) + 1"
      "\<bar>node_height l - node_height m\<bar> \<le> 1 \<longrightarrow> node_height b = max (node_height l) (node_height m) + 1"
      by (rule balanceE [OF sb' d])
    have "node_height b \<le> h \<and> h \<le> node_height b + 1" using b(4-6) m(3,4) hs by auto
    then show ?thesis using r' b(1-3) m(2) n lv \<open>\<not> key < k\<close> Some del_list_notin [OF nin] True
      by (auto simp: remove_done_def del_list_append)
  qed
qed

lemma recursiveRemove_done:
  "node_ok n \<Longrightarrow> node_size n < 2 ^ 63 \<Longrightarrow> remove_done n key (recursiveRemove ver n key [])"
proof (induction n)
  case (Leaf k v lv)
  show ?case by (simp add: remove_done_def)
next
  case (Inner k h s v l r)
  have "1 \<le> node_size l" "1 \<le> node_size r" using Inner.prems by (auto intro: node_size_pos)
  then show ?case using Inner recursiveRemove_left [OF refl] recursiveRemove_right [OF refl] by (cases "key < k") auto
qed

section \<open>Reads\<close>

lemma node_has_iff: "node_ok n \<Longrightarrow> node_has n key \<longleftrightarrow> key \<in> fst ` set (leaves n)"
proof (induction n)
  case (Inner k h s v l r)
  have k: "k \<in> fst ` set (leaves r)" "\<forall>x \<in> fst ` set (leaves l). x < k" "\<forall>x \<in> fst ` set (leaves r). k \<le> x"
    using Inner.prems hd_leaves_in [of r] by auto
  have lv: "fst ` set (leaves (Inner k h s v l r)) = fst ` set (leaves l) \<union> fst ` set (leaves r)" by auto
  have IH: "node_has l key \<longleftrightarrow> key \<in> fst ` set (leaves l)" "node_has r key \<longleftrightarrow> key \<in> fst ` set (leaves r)"
    using Inner by auto
  show ?case unfolding lv node_has.simps IH using k by (cases key k rule: linorder_cases) auto
qed auto

lemma node_get_eq:
  "node_ok n \<Longrightarrow> node_size n < 2 ^ 63 \<Longrightarrow>
    node_get n key = (int (length (filter (\<lambda>p. fst p < key) (leaves n))), map_of (leaves n) key)"
proof (induction n)
  case (Inner k h s v l r)
  have p: "1 \<le> node_size l" "1 \<le> node_size r" using Inner.prems by (auto intro: node_size_pos)
  show ?case
  proof (cases "key < k")
    case True
    then have "filter (\<lambda>p. fst p < key) (leaves r) = []" "key \<notin> fst ` set (leaves r)"
      using Inner.prems by (force simp: filter_empty_conv)+
    then show ?thesis using Inner p True map_of_left [of key "leaves r" "leaves l"] by simp
  next
    case False
    have less: "\<forall>x \<in> fst ` set (leaves l). x < key" using Inner.prems False by force
    then have "filter (\<lambda>p. fst p < key) (leaves l) = leaves l" "key \<notin> fst ` set (leaves l)" by (auto simp: filter_id_conv)
    moreover have "wrap64 (int (length (filter (\<lambda>p. fst p < key) (leaves r))) + int (length (leaves l))) =
        int (length (leaves l)) + int (length (filter (\<lambda>p. fst p < key) (leaves r)))"
    proof -
      have "int (length (leaves l)) + int (length (leaves r)) < 2 ^ 63" using Inner.prems by (auto simp: node_ok_size)
      then have "int (length (filter (\<lambda>p. fst p < key) (leaves r))) + int (length (leaves l)) < 2 ^ 63"
        using length_filter_le [of "\<lambda>p. fst p < key" "leaves r"] by linarith
      then show ?thesis by (simp add: wrap64_id)
    qed
    ultimately show ?thesis
      using Inner p False map_of_right [of key "leaves l" "leaves r"] by (simp add: wrap64_id node_ok_size)
  qed
qed auto

lemma getByIndex_eq:
  "node_ok n \<Longrightarrow> node_size n < 2 ^ 63 \<Longrightarrow> 0 \<le> i \<Longrightarrow> i < 2 ^ 63 \<Longrightarrow>
    getByIndex n i = (if i < node_size n then Some (leaves n ! nat i) else None)"
proof (induction n arbitrary: i)
  case (Leaf k v ver)
  then show ?case by (cases "i = 0") simp_all
next
  case (Inner k h s v l r)
  have p: "1 \<le> node_size l" "1 \<le> node_size r" using Inner.prems by (auto intro: node_size_pos)
  have l: "node_size l = int (length (leaves l))" using Inner.prems by (simp add: node_ok_size)
  show ?case
  proof (cases "i < node_size l")
    case True
    then show ?thesis using Inner p l by (simp add: nth_append nat_less_iff)
  next
    case False
    then have "wrap64 (i - node_size l) = i - node_size l" using Inner.prems p by (intro wrap64_id) auto
    then show ?thesis using Inner p l False by (simp add: nth_append nat_less_iff nat_diff_distrib)
  qed
qed

section \<open>Iteration\<close>

text \<open>A callback has a state and may stop the iteration.  \<open>depth\<close> only reaches the callback.\<close>

primrec traverseInRange :: "Node \<Rightarrow> bytes option \<Rightarrow> bytes option \<Rightarrow> bool \<Rightarrow> bool \<Rightarrow> nat \<Rightarrow> bool
    \<Rightarrow> (Node \<Rightarrow> nat \<Rightarrow> 's \<Rightarrow> bool \<times> 's) \<Rightarrow> 's \<Rightarrow> bool \<times> 's" where
  "traverseInRange (Leaf k v ver) start end ascending inclusive depth post cb st =
     (let startOrAfter = (case start of None \<Rightarrow> True | Some a \<Rightarrow> a \<le> k);
          beforeEnd = (case end of None \<Rightarrow> True | Some b \<Rightarrow> if inclusive then k \<le> b else k < b)
      in if startOrAfter \<and> beforeEnd then cb (Leaf k v ver) depth st else (False, st))"
| "traverseInRange (Inner k h s ver l r) start end ascending inclusive depth post cb st =
     (let afterStart = (case start of None \<Rightarrow> True | Some a \<Rightarrow> a < k);
          beforeEnd = (case end of None \<Rightarrow> True | Some b \<Rightarrow> if inclusive then k \<le> b else k < b);
          visit = (\<lambda>st. cb (Inner k h s ver l r) depth st);
          left = (\<lambda>st. if afterStart then traverseInRange l start end ascending inclusive (Suc depth mod 256) post cb st else (False, st));
          right = (\<lambda>st. if beforeEnd then traverseInRange r start end ascending inclusive (Suc depth mod 256) post cb st else (False, st));
          (stop0, st0) = (if post then (False, st) else visit st)
      in if stop0 then (True, st0)
         else let (stop1, st1) = (if ascending then left st0 else right st0)
              in if stop1 then (True, st1)
                 else let (stop2, st2) = (if ascending then right st1 else left st1)
                      in if stop2 then (True, st2) else if post then visit st2 else (False, st2))"

text \<open>The callbacks of \<open>IterateRange\<close> and \<open>IterateRangeInclusive\<close> only see leaves.\<close>

definition leaf_cb :: "(bytes \<Rightarrow> bytes \<Rightarrow> 's \<Rightarrow> bool \<times> 's) \<Rightarrow> Node \<Rightarrow> nat \<Rightarrow> 's \<Rightarrow> bool \<times> 's" where
  "leaf_cb fn n depth st = (case n of Leaf k v _ \<Rightarrow> fn k v st | Inner _ _ _ _ _ _ \<Rightarrow> (False, st))"

definition IterateRange :: "Node option \<Rightarrow> bytes option \<Rightarrow> bytes option \<Rightarrow> bool \<Rightarrow> (bytes \<Rightarrow> bytes \<Rightarrow> 's \<Rightarrow> bool \<times> 's) \<Rightarrow> 's \<Rightarrow> bool \<times> 's" where
  "IterateRange t start end ascending fn st =
     (case t of None \<Rightarrow> (False, st) | Some n \<Rightarrow> traverseInRange n start end ascending False 0 False (leaf_cb fn) st)"

definition IterateRangeInclusive :: "Node option \<Rightarrow> bytes option \<Rightarrow> bytes option \<Rightarrow> bool \<Rightarrow> (bytes \<Rightarrow> bytes \<Rightarrow> 's \<Rightarrow> bool \<times> 's) \<Rightarrow> 's \<Rightarrow> bool \<times> 's" where
  "IterateRangeInclusive t start end ascending fn st =
     (case t of None \<Rightarrow> (False, st) | Some n \<Rightarrow> traverseInRange n start end ascending True 0 False (leaf_cb fn) st)"

text \<open>The reference: the callback runs over a list until it stops.\<close>

primrec run_cb :: "(bytes \<Rightarrow> bytes \<Rightarrow> 's \<Rightarrow> bool \<times> 's) \<Rightarrow> (bytes \<times> bytes) list \<Rightarrow> 's \<Rightarrow> bool \<times> 's" where
  "run_cb fn [] st = (False, st)"
| "run_cb fn (p # ps) st = (let (stop, st') = fn (fst p) (snd p) st in if stop then (True, st') else run_cb fn ps st')"

lemma run_cb_append:
  "run_cb fn (ps @ qs) st = (let (stop, st') = run_cb fn ps st in if stop then (True, st') else run_cb fn qs st')"
  by (induction ps arbitrary: st) (auto simp: Let_def split: prod.splits)

text \<open>A subtree that is skipped has no key in the range.\<close>

lemma skip_left: "\<forall>x \<in> fst ` set ps. x < k \<Longrightarrow> \<not> a < k \<Longrightarrow> range_list (Some a) end up inclusive ps = []"
  by (force simp: range_list_def in_range_def filter_empty_conv Let_def)

lemma skip_right:
  "\<forall>x \<in> fst ` set ps. k \<le> x \<Longrightarrow> \<not> (if inclusive then k \<le> b else k < b) \<Longrightarrow> range_list start (Some b) up inclusive ps = []"
  by (force simp: range_list_def in_range_def filter_empty_conv Let_def split: if_splits)

lemma traverseInRange_eq:
  "node_ok n \<Longrightarrow> traverseInRange n start end ascending inclusive depth post (leaf_cb fn) st =
    run_cb fn (range_list start end ascending inclusive (leaves n)) st"
proof (induction n arbitrary: depth st)
  case (Leaf k v ver)
  show ?case by (auto simp: range_list_def in_range_def leaf_cb_def Let_def split: option.splits if_splits prod.splits)
next
  case (Inner k h s ver l r)
  have l: "\<forall>x \<in> fst ` set (leaves l). x < k" and r: "\<forall>x \<in> fst ` set (leaves r). k \<le> x" using Inner.prems by auto
  have L: "(if case start of None \<Rightarrow> True | Some a \<Rightarrow> a < k then traverseInRange l start end ascending inclusive d post (leaf_cb fn) st' else (False, st'))
    = run_cb fn (range_list start end ascending inclusive (leaves l)) st'" for d st'
    using Inner.IH(1) Inner.prems skip_left [OF l] by (auto split: option.splits)
  have R: "(if case end of None \<Rightarrow> True | Some b \<Rightarrow> if inclusive then k \<le> b else k < b then traverseInRange r start end ascending inclusive d post (leaf_cb fn) st' else (False, st'))
    = run_cb fn (range_list start end ascending inclusive (leaves r)) st'" for d st'
    using Inner.IH(2) Inner.prems skip_right [OF r] by (auto split: option.splits)
  have V: "leaf_cb fn (Inner k h s ver l r) d st' = (False, st')" for d st' by (simp add: leaf_cb_def)
  show ?case
    unfolding traverseInRange.simps Let_def L R V leaves.simps
    by (cases ascending) (simp_all add: range_list_append run_cb_append Let_def case_prod_beta, simp_all add: prod_eq_iff)
qed

section \<open>The stack traversal and the iterator\<close>

text \<open>The traversal behind the iterators keeps a stack of nodes, its top first.  A delayed node is still
  to be expanded; \<open>None\<close> is the missing root of an empty tree.\<close>

type_synonym delayedNodes = "(Node option \<times> bool) list"

primrec node_count :: "Node \<Rightarrow> nat" where
  "node_count (Leaf _ _ _) = 1"
| "node_count (Inner _ _ _ _ l r) = node_count l + node_count r + 1"

fun delayed_weight :: "Node option \<times> bool \<Rightarrow> nat" where
  "delayed_weight (Some n, True) = 2 * node_count n"
| "delayed_weight _ = 1"

definition push_children :: "bool \<Rightarrow> bool \<Rightarrow> bool \<Rightarrow> Node \<Rightarrow> Node \<Rightarrow> delayedNodes \<Rightarrow> delayedNodes" where
  "push_children ascending afterStart beforeEnd l r st =
     (let pl = (\<lambda>st. if afterStart then (Some l, True) # st else st); pr = (\<lambda>st. if beforeEnd then (Some r, True) # st else st)
      in if ascending then pl (pr st) else pr (pl st))"

text \<open>Whether the node itself is visited, and the stack with its children.\<close>

definition expand :: "bytes option \<Rightarrow> bytes option \<Rightarrow> bool \<Rightarrow> bool \<Rightarrow> bool \<Rightarrow> Node \<Rightarrow> delayedNodes \<Rightarrow> bool \<times> delayedNodes" where
  "expand start end ascending inclusive post n st =
     (let afterStart = (case start of None \<Rightarrow> True | Some a \<Rightarrow> a < node_key n);
          startOrAfter = (afterStart \<or> start = Some (node_key n));
          beforeEnd = (case end of None \<Rightarrow> True | Some b \<Rightarrow> node_key n < b \<or> inclusive \<and> node_key n = b);
          visit = (case n of Leaf _ _ _ \<Rightarrow> startOrAfter \<and> beforeEnd | Inner _ _ _ _ _ _ \<Rightarrow> True);
          st1 = (if post \<and> visit then (Some n, False) # st else st)
      in (visit, case n of Leaf _ _ _ \<Rightarrow> st1 | Inner _ _ _ _ l r \<Rightarrow> push_children ascending afterStart beforeEnd l r st1))"

lemma node_count_pos: "0 < node_count n"
  by (induction n) auto

lemma expand_weight:
  assumes "expand start end ascending inclusive post n st = (visit, st')"
  shows "sum_list (map delayed_weight st') < 2 * node_count n + sum_list (map delayed_weight st)"
  using assms node_count_pos by (cases n) (auto simp: expand_def push_children_def Let_def split: if_splits)

function traversal_next :: "bytes option \<Rightarrow> bytes option \<Rightarrow> bool \<Rightarrow> bool \<Rightarrow> bool \<Rightarrow> delayedNodes \<Rightarrow> Node option \<times> delayedNodes" where
  "traversal_next start end ascending inclusive post [] = (None, [])"
| "traversal_next start end ascending inclusive post ((None, d) # st) = (None, st)"
| "traversal_next start end ascending inclusive post ((Some n, False) # st) = (Some n, st)"
| "traversal_next start end ascending inclusive post ((Some n, True) # st) =
     (let (visit, st') = expand start end ascending inclusive post n st
      in if \<not> post \<and> visit then (Some n, st') else traversal_next start end ascending inclusive post st')"
  by pat_completeness auto

termination
  by (relation "measure (\<lambda>(_, _, _, _, _, st). sum_list (map delayed_weight st))") (auto dest!: sym [of "(_, _)"] expand_weight)

definition newTraversal :: "Node option \<Rightarrow> delayedNodes" where
  "newTraversal n = [(n, True)]"

lemma traversal_next_weight:
  "traversal_next start end ascending inclusive post st = (Some n, st') \<Longrightarrow>
     sum_list (map delayed_weight st') < sum_list (map delayed_weight st)"
proof (induction start "end" ascending inclusive post st rule: traversal_next.induct)
  case (4 start "end" ascending inclusive post m st)
  obtain visit st2 where e: "expand start end ascending inclusive post m st = (visit, st2)" by fastforce
  show ?case using 4(1) [OF e [symmetric] refl] 4(2) expand_weight [OF e] by (auto simp: e split: if_splits)
qed auto

text \<open>The entries a stack still stands for.\<close>

definition pending :: "bytes option \<Rightarrow> bytes option \<Rightarrow> bool \<Rightarrow> bool \<Rightarrow> delayedNodes \<Rightarrow> (bytes \<times> bytes) list" where
  "pending start end ascending inclusive st =
     concat (map (\<lambda>(n, d). case n of None \<Rightarrow> []
       | Some n \<Rightarrow> if d then range_list start end ascending inclusive (leaves n)
                   else (case n of Leaf k v _ \<Rightarrow> [(k, v)] | Inner _ _ _ _ _ _ \<Rightarrow> [])) st)"

lemma pending_Cons:
  "pending start end ascending inclusive ((Some n, True) # st) =
     range_list start end ascending inclusive (leaves n) @ pending start end ascending inclusive st"
  "pending start end ascending inclusive ((Some n, False) # st) =
     (case n of Leaf k v _ \<Rightarrow> [(k, v)] | Inner _ _ _ _ _ _ \<Rightarrow> []) @ pending start end ascending inclusive st"
  by (simp_all add: pending_def)

lemma pending_children:
  assumes "node_ok (Inner k h s v l r)"
  shows "pending start end ascending inclusive
      (push_children ascending (case start of None \<Rightarrow> True | Some a \<Rightarrow> a < k)
        (case end of None \<Rightarrow> True | Some b \<Rightarrow> k < b \<or> inclusive \<and> k = b) l r st) =
    range_list start end ascending inclusive (leaves (Inner k h s v l r)) @ pending start end ascending inclusive st"
proof -
  have l: "\<forall>x \<in> fst ` set (leaves l). x < k" and r: "\<forall>x \<in> fst ` set (leaves r). k \<le> x" using assms by auto
  have L: "range_list start end ascending inclusive (leaves l) = []" if "\<not> (case start of None \<Rightarrow> True | Some a \<Rightarrow> a < k)"
    using skip_left [OF l] that by (auto split: option.splits)
  have R: "range_list start end ascending inclusive (leaves r) = []" if "\<not> (case end of None \<Rightarrow> True | Some b \<Rightarrow> k < b \<or> inclusive \<and> k = b)"
    using skip_right [OF r] that by (auto split: option.splits if_splits)
  show ?thesis using L R by (cases ascending) (auto simp: push_children_def Let_def pending_Cons range_list_append)
qed

lemma stack_ok_children:
  "node_ok (Inner k h s v l r) \<Longrightarrow> \<forall>(n, d) \<in> set st. n \<noteq> None \<and> node_ok (the n) \<Longrightarrow>
     \<forall>(n, d) \<in> set (push_children up a b l r st). n \<noteq> None \<and> node_ok (the n)"
  by (auto simp: push_children_def Let_def)

text \<open>Expanding a node changes neither what is pending nor that the nodes are fine, the visited node aside.\<close>

lemma expand_spec:
  assumes "node_ok n" "\<forall>(n, d) \<in> set st. n \<noteq> None \<and> node_ok (the n)" "expand start end ascending inclusive post n st = (visit, st')"
  shows "\<forall>(n, d) \<in> set st'. n \<noteq> None \<and> node_ok (the n)"
    "range_list start end ascending inclusive (leaves n) @ pending start end ascending inclusive st =
       (case n of Leaf k v _ \<Rightarrow> if \<not> post \<and> visit then [(k, v)] else [] | Inner _ _ _ _ _ _ \<Rightarrow> []) @ pending start end ascending inclusive st'"
proof -
  have "(\<forall>(n, d) \<in> set st'. n \<noteq> None \<and> node_ok (the n)) \<and>
    range_list start end ascending inclusive (leaves n) @ pending start end ascending inclusive st =
       (case n of Leaf k v _ \<Rightarrow> if \<not> post \<and> visit then [(k, v)] else [] | Inner _ _ _ _ _ _ \<Rightarrow> []) @ pending start end ascending inclusive st'"
  proof (cases n)
    case (Leaf k v ver)
    have "((case start of None \<Rightarrow> True | Some a \<Rightarrow> a < k) \<or> start = Some k) \<and>
        (case end of None \<Rightarrow> True | Some b \<Rightarrow> k < b \<or> inclusive \<and> k = b) \<longleftrightarrow> in_range start end inclusive k"
      by (auto simp: in_range_def split: option.splits)
    with assms(3) have "visit \<longleftrightarrow> in_range start end inclusive k" "st' = (if post \<and> visit then (Some n, False) # st else st)"
      unfolding Leaf expand_def Let_def Node.case node_key.simps by auto
    then show ?thesis using assms(1,2) Leaf by (auto simp: pending_Cons range_list_def)
  next
    case (Inner k h s v l r)
    have "st' = push_children ascending (case start of None \<Rightarrow> True | Some a \<Rightarrow> a < k)
        (case end of None \<Rightarrow> True | Some b \<Rightarrow> k < b \<or> inclusive \<and> k = b) l r (if post then (Some n, False) # st else st)"
      using assms(3) unfolding Inner expand_def Let_def Node.case node_key.simps by auto
    moreover have "\<forall>(n, d) \<in> set (if post then (Some n, False) # st else st). n \<noteq> None \<and> node_ok (the n)" using assms(1,2) by auto
    moreover have "pending start end ascending inclusive (if post then (Some n, False) # st else st) = pending start end ascending inclusive st"
      using Inner by (simp add: pending_Cons)
    ultimately show ?thesis
      using pending_children [OF assms(1) [unfolded Inner]] stack_ok_children [OF assms(1) [unfolded Inner]] Inner
      by (simp del: node_ok.simps)
  qed
  then show "\<forall>(n, d) \<in> set st'. n \<noteq> None \<and> node_ok (the n)"
    "range_list start end ascending inclusive (leaves n) @ pending start end ascending inclusive st =
       (case n of Leaf k v _ \<Rightarrow> if \<not> post \<and> visit then [(k, v)] else [] | Inner _ _ _ _ _ _ \<Rightarrow> []) @ pending start end ascending inclusive st'"
    by blast+
qed

text \<open>One step hands out a leaf of the range, or an inner node, and leaves the rest for later.\<close>

lemma traversal_next_step:
  assumes "\<forall>(n, d) \<in> set st. n \<noteq> None \<and> node_ok (the n)"
    and "traversal_next start end ascending inclusive post st = (res, st')"
  shows "(\<forall>(n, d) \<in> set st'. n \<noteq> None \<and> node_ok (the n)) \<and>
    pending start end ascending inclusive st =
      (case res of Some (Leaf k v _) \<Rightarrow> [(k, v)] | _ \<Rightarrow> []) @ pending start end ascending inclusive st' \<and> (res = None \<longrightarrow> st' = [])"
  using assms
proof (induction start "end" ascending inclusive post st rule: traversal_next.induct)
  case (4 start "end" ascending inclusive post n st)
  obtain visit st2 where e: "expand start end ascending inclusive post n st = (visit, st2)" by fastforce
  have ok: "node_ok n" "\<forall>(n, d) \<in> set st. n \<noteq> None \<and> node_ok (the n)" using 4(2) by auto
  show ?case
    using 4(1) [OF e [symmetric] refl] 4(3) expand_spec [OF ok e] by (auto simp: e pending_Cons split: if_splits Node.splits)
qed (auto simp: pending_def split: Node.splits)

text \<open>\<open>Iterator\<close>: \<open>Next\<close> skips the inner nodes; \<open>None\<close> is the end of the iteration.\<close>

function Iterator_Next :: "bytes option \<Rightarrow> bytes option \<Rightarrow> bool \<Rightarrow> delayedNodes \<Rightarrow> ((bytes \<times> bytes) \<times> delayedNodes) option" where
  "Iterator_Next start end ascending st =
     (case traversal_next start end ascending False False st of
        (None, _) \<Rightarrow> None
      | (Some (Leaf k v _), st') \<Rightarrow> Some ((k, v), st')
      | (Some (Inner _ _ _ _ _ _), st') \<Rightarrow> Iterator_Next start end ascending st')"
  by pat_completeness auto

termination
  by (relation "measure (\<lambda>(_, _, _, st). sum_list (map delayed_weight st))") (auto dest!: sym [of "(_, _)"] traversal_next_weight)

declare Iterator_Next.simps [simp del]

text \<open>All entries the iterator hands out, in order: the loop \<open>for ; itr.Valid(); itr.Next()\<close>.\<close>

lemma Iterator_Next_weight:
  "Iterator_Next start end ascending st = Some (p, st') \<Longrightarrow> sum_list (map delayed_weight st') < sum_list (map delayed_weight st)"
proof (induction start "end" ascending st rule: Iterator_Next.induct)
  case (1 start "end" ascending st)
  obtain res st2 where r: "traversal_next start end ascending False False st = (res, st2)" by fastforce
  show ?case
    using 1(1) [OF r [symmetric]] 1(2) traversal_next_weight [of start "end" ascending False False st _ st2] r
    by (subst (asm) (2) Iterator_Next.simps) (auto split: option.splits Node.splits)
qed

function drain :: "bytes option \<Rightarrow> bytes option \<Rightarrow> bool \<Rightarrow> delayedNodes \<Rightarrow> (bytes \<times> bytes) list" where
  "drain start end ascending st =
     (case Iterator_Next start end ascending st of None \<Rightarrow> [] | Some (p, st') \<Rightarrow> p # drain start end ascending st')"
  by pat_completeness auto

termination
  by (relation "measure (\<lambda>(_, _, _, st). sum_list (map delayed_weight st))") (auto dest!: sym [of "Some _"] Iterator_Next_weight)

declare drain.simps [simp del]

definition Iterator_entries :: "Node option \<Rightarrow> bytes option \<Rightarrow> bytes option \<Rightarrow> bool \<Rightarrow> (bytes \<times> bytes) list" where
  "Iterator_entries t start end ascending = drain start end ascending (newTraversal t)"

lemma Iterator_Next_spec:
  assumes "\<forall>(n, d) \<in> set st. n \<noteq> None \<and> node_ok (the n)"
  shows "case Iterator_Next start end ascending st of
      None \<Rightarrow> pending start end ascending False st = []
    | Some (p, st') \<Rightarrow> (\<forall>(n, d) \<in> set st'. n \<noteq> None \<and> node_ok (the n)) \<and> pending start end ascending False st = p # pending start end ascending False st'"
  using assms
proof (induction start "end" ascending st rule: Iterator_Next.induct)
  case (1 start "end" ascending st)
  obtain res st2 where r: "traversal_next start end ascending False False st = (res, st2)" by fastforce
  note sp = traversal_next_step [OF 1(2) r]
  show ?case
    using 1(1) [OF r [symmetric]] sp by (subst Iterator_Next.simps) (auto simp: r pending_def split: option.splits Node.splits)
qed

lemma drain_eq: "\<forall>(n, d) \<in> set st. n \<noteq> None \<and> node_ok (the n) \<Longrightarrow> drain start end ascending st = pending start end ascending False st"
proof (induction start "end" ascending st rule: drain.induct)
  case (1 start "end" ascending st)
  show ?case using 1(1) Iterator_Next_spec [OF 1(2), of start "end" ascending]
    by (subst drain.simps) (auto split: option.splits)
qed

section \<open>The iterator ends\<close>

text \<open>What the iterator is at after \<open>k\<close> calls of \<open>Next\<close>; \<open>None\<close> once it is not valid any more.\<close>

primrec Iterator_at :: "bytes option \<Rightarrow> bytes option \<Rightarrow> bool \<Rightarrow> nat \<Rightarrow> delayedNodes \<Rightarrow> (bytes \<times> bytes) option" where
  "Iterator_at start end ascending 0 st = map_option fst (Iterator_Next start end ascending st)"
| "Iterator_at start end ascending (Suc k) st =
     (case Iterator_Next start end ascending st of None \<Rightarrow> None | Some (_, st') \<Rightarrow> Iterator_at start end ascending k st')"

lemma Iterator_at_pending:
  "\<forall>(n, d) \<in> set st. n \<noteq> None \<and> node_ok (the n) \<Longrightarrow>
    Iterator_at start end ascending k st =
      (let es = pending start end ascending False st in if k < length es then Some (es ! k) else None)"
proof (induction k arbitrary: st)
  case 0
  then show ?case using Iterator_Next_spec [OF 0, of start "end" ascending] by (auto split: option.splits)
next
  case (Suc k)
  then show ?case using Iterator_Next_spec [OF Suc.prems, of start "end" ascending] by (auto split: option.splits)
qed

text \<open>C22: The iterator of a balanced tree ends: each call of \<open>Next\<close>, which pops and pushes nodes until it finds a leaf of the range, returns, and
  after exactly as many calls as the range has entries the iterator is not valid.  Call k hands out entry k of the range, in
  ascending or descending key order, the end of the range excluded.\<close>

theorem Iterator_ends:
  assumes "node_ok n"
  shows "Iterator_at start end ascending k (newTraversal (Some n)) =
    (let es = range_list start end ascending False (leaves n) in if k < length es then Some (es ! k) else None)"
  using assms by (subst Iterator_at_pending) (auto simp: newTraversal_def pending_def)

theorem Iterator_ends_witness:
  "Iterator_at (Some ''b'') None True 0 (newTraversal (Some (Inner ''b'' 1 2 1 (Leaf ''a'' ''1'' 1) (Leaf ''b'' ''2'' 1)))) = Some (''b'', ''2'') \<and>
   Iterator_at (Some ''b'') None True 1 (newTraversal (Some (Inner ''b'' 1 2 1 (Leaf ''a'' ''1'' 1) (Leaf ''b'' ''2'' 1)))) = None"
  using Iterator_ends [of "Inner ''b'' 1 2 1 (Leaf ''a'' ''1'' 1) (Leaf ''b'' ''2'' 1)" "Some ''b''" None True 0]
    Iterator_ends [of "Inner ''b'' 1 2 1 (Leaf ''a'' ''1'' 1) (Leaf ''b'' ''2'' 1)" "Some ''b''" None True 1]
  by (simp add: range_list_def in_range_def del: Iterator_at.simps)

end
