(* ===== verification/IAVLTree.thy ===== *)
theory IAVLTree
  imports IAVL
begin

text \<open>
  The mutable tree of \<open>libs/iavl/mutable_tree.go\<close> with its saved versions (\<open>immutable_tree.go\<close>,
  \<open>nodedb.go\<close>) and the fast storage beside it: an index of fast nodes (\<open>fast_node.go\<close>) for the latest
  version on disk, and the unsaved changes to it (\<open>nodedb_fnc.go\<close>).

  The database returns for a root hash the tree that was saved under it, so the model keeps trees
  instead of hashes, and fast nodes instead of their encodings.  Commits are synchronous (\<open>EnableAsyncCommit\<close>
  off, its default) and apply no state deltas; orphans and pruning are not modelled.  The main result relates every
  run of sets, removals, saves and rollbacks to an abstract versioned map, whichever way a read goes.
\<close>

section \<open>State\<close>

text \<open>The process-wide switches of \<open>mutable_tree_oec.go\<close> and \<open>mutable_tree.go\<close>.\<close>

record IavlConfig =
  enableFastStorage :: bool
  forceReadIavl :: bool
  ignoreVersionCheck :: bool

record FastNode =
  fn_key :: bytes
  versionLastUpdatedAt :: int
  fn_value :: bytes

definition NewFastNode :: "bytes \<Rightarrow> bytes \<Rightarrow> int \<Rightarrow> FastNode" where
  "NewFastNode key val ver = \<lparr>fn_key = key, versionLastUpdatedAt = ver, fn_value = val\<rparr>"

record fastNodeChanges =
  additions :: "(bytes, FastNode) kv"
  removals :: "(bytes, unit) kv"

definition newFastNodeChanges :: fastNodeChanges where
  "newFastNodeChanges = \<lparr>additions = kv_empty, removals = kv_empty\<rparr>"

text \<open>Whether the key was changed, and the node it has now.\<close>

definition fnc_get :: "fastNodeChanges \<Rightarrow> bytes \<Rightarrow> FastNode option option" where
  "fnc_get fnc key =
     (case kv_get (additions fnc) key of Some node \<Rightarrow> Some (Some node)
      | None \<Rightarrow> if kv_has (removals fnc) key then Some None else None)"

definition fnc_add :: "bytes \<Rightarrow> FastNode \<Rightarrow> fastNodeChanges \<Rightarrow> fastNodeChanges" where
  "fnc_add key fastNode fnc = \<lparr>additions = kv_set key fastNode (additions fnc), removals = kv_del key (removals fnc)\<rparr>"

definition fnc_remove :: "bytes \<Rightarrow> fastNodeChanges \<Rightarrow> fastNodeChanges" where
  "fnc_remove key fnc = \<lparr>additions = kv_del key (additions fnc), removals = kv_set key () (removals fnc)\<rparr>"

text \<open>The node database: the root of every saved version, none for an empty tree, and the fast nodes.\<close>

record nodeDB =
  db_roots :: "(int, Node option) kv"
  db_fast :: "(bytes, FastNode) kv"
  fastUpgraded :: bool
  latestPersistedVersion :: int
  latestMemoryVersion :: int
  InitialVersion :: int

record ImmutableTree =
  it_root :: "Node option"
  it_version :: int

record MutableTree =
  root :: "Node option"
  version :: int
  lastSaved :: ImmutableTree
  versions :: "(int, unit) kv"
  ndb :: nodeDB
  upgradeVersion :: int
  unsavedFastNodes :: fastNodeChanges

definition newNodeDB :: "int \<Rightarrow> nodeDB" where
  "newNodeDB initialVersion =
     \<lparr>db_roots = kv_empty, db_fast = kv_empty, fastUpgraded = False, latestPersistedVersion = 0, latestMemoryVersion = 0,
      InitialVersion = initialVersion\<rparr>"

definition NewMutableTree :: "int \<Rightarrow> MutableTree" where
  "NewMutableTree initialVersion =
     \<lparr>root = None, version = 0, lastSaved = \<lparr>it_root = None, it_version = 0\<rparr>, versions = kv_empty, ndb = newNodeDB initialVersion,
      upgradeVersion = -1, unsavedFastNodes = newFastNodeChanges\<rparr>"

section \<open>The node database\<close>

definition getPreviousVersion :: "nodeDB \<Rightarrow> int \<Rightarrow> int" where
  "getPreviousVersion db ver = last (0 # filter (\<lambda>v. 1 \<le> v \<and> v < ver) (map fst (kv_entries (db_roots db))))"

definition getLatestVersion :: "nodeDB \<Rightarrow> int" where
  "getLatestVersion db = (if latestPersistedVersion db = 0 then getPreviousVersion db (2 ^ 63 - 1) else latestPersistedVersion db)"

definition updateLatestVersion :: "int \<Rightarrow> nodeDB \<Rightarrow> nodeDB" where
  "updateLatestVersion ver db = (if latestPersistedVersion db < ver then db\<lparr>latestPersistedVersion := ver\<rparr> else db)"

definition getLatestMemoryVersion :: "nodeDB \<Rightarrow> int" where
  "getLatestMemoryVersion db = (if latestMemoryVersion db = 0 then getPreviousVersion db (2 ^ 63 - 1) else latestMemoryVersion db)"

definition updateLatestMemoryVersion :: "IavlConfig \<Rightarrow> int \<Rightarrow> nodeDB \<Rightarrow> nodeDB" where
  "updateLatestMemoryVersion cfg ver db =
     (if \<not> enableFastStorage cfg then db
      else if latestMemoryVersion db < ver then db\<lparr>latestMemoryVersion := ver\<rparr> else db)"

definition saveRoot :: "IavlConfig \<Rightarrow> Node option \<Rightarrow> int \<Rightarrow> nodeDB \<Rightarrow> nodeDB res" where
  "saveRoot cfg r ver db =
     (let latest = getLatestVersion db
      in if \<not> ignoreVersionCheck cfg \<and> 0 < latest \<and> ver \<noteq> wrap64 (latest + 1) then Inl (Err ''must save consecutive versions'')
         else Inr (updateLatestVersion ver (db\<lparr>db_roots := kv_set ver r (db_roots db)\<rparr>)))"

definition GetFastNode :: "nodeDB \<Rightarrow> bytes \<Rightarrow> FastNode option res" where
  "GetFastNode db key =
     (if \<not> fastUpgraded db then Inl (Err ''storage version is not fast'')
      else if key = [] then Inl (Err ''nodeDB.GetFastNode() requires key'')
      else Inr (kv_get (db_fast db) key))"

definition saveFastNodeAdditions :: "(bytes, FastNode) kv \<Rightarrow> nodeDB \<Rightarrow> nodeDB" where
  "saveFastNodeAdditions adds db = db\<lparr>db_fast := fold (\<lambda>(_, node). kv_set (fn_key node) node) (kv_entries adds) (db_fast db)\<rparr>"

definition saveFastNodeRemovals :: "(bytes, unit) kv \<Rightarrow> nodeDB \<Rightarrow> nodeDB" where
  "saveFastNodeRemovals rems db = db\<lparr>db_fast := fold (\<lambda>(key, _). kv_del key) (kv_entries rems) (db_fast db)\<rparr>"

definition saveFastNodeVersion :: "IavlConfig \<Rightarrow> fastNodeChanges \<Rightarrow> nodeDB \<Rightarrow> nodeDB" where
  "saveFastNodeVersion cfg fnc db =
     (if \<not> enableFastStorage cfg then db
      else saveFastNodeRemovals (removals fnc) (saveFastNodeAdditions (additions fnc) (db\<lparr>fastUpgraded := True\<rparr>)))"

section \<open>Immutable trees\<close>

definition it_Size :: "ImmutableTree \<Rightarrow> int" where
  "it_Size t = (case it_root t of None \<Rightarrow> 0 | Some n \<Rightarrow> node_size n)"

definition it_Height :: "ImmutableTree \<Rightarrow> int" where
  "it_Height t = (case it_root t of None \<Rightarrow> 0 | Some n \<Rightarrow> node_height n)"

definition it_Has :: "ImmutableTree \<Rightarrow> bytes \<Rightarrow> bool" where
  "it_Has t key = (case it_root t of None \<Rightarrow> False | Some n \<Rightarrow> node_has n key)"

definition GetWithIndex :: "ImmutableTree \<Rightarrow> bytes \<Rightarrow> int \<times> bytes option" where
  "GetWithIndex t key = (case it_root t of None \<Rightarrow> (0, None) | Some n \<Rightarrow> node_get n key)"

definition it_Get :: "IavlConfig \<Rightarrow> nodeDB \<Rightarrow> ImmutableTree \<Rightarrow> bytes \<Rightarrow> bytes option" where
  "it_Get cfg db t key =
     (case it_root t of None \<Rightarrow> None
      | Some n \<Rightarrow>
          if enableFastStorage cfg then
            (case GetFastNode db key of
               Inl _ \<Rightarrow> snd (node_get n key)
             | Inr None \<Rightarrow> if it_version t = getLatestMemoryVersion db then None else snd (node_get n key)
             | Inr (Some fastNode) \<Rightarrow>
                 if versionLastUpdatedAt fastNode \<le> it_version t then Some (fn_value fastNode) else snd (node_get n key))
          else snd (node_get n key))"

definition it_GetByIndex :: "ImmutableTree \<Rightarrow> int \<Rightarrow> (bytes \<times> bytes) option" where
  "it_GetByIndex t index = (case it_root t of None \<Rightarrow> None | Some n \<Rightarrow> getByIndex n index)"

definition IsFastCacheEnabled :: "IavlConfig \<Rightarrow> nodeDB \<Rightarrow> ImmutableTree \<Rightarrow> bool" where
  "IsFastCacheEnabled cfg db t \<longleftrightarrow> enableFastStorage cfg \<and> it_version t = getLatestMemoryVersion db \<and> fastUpgraded db"

section \<open>The mutable tree\<close>

text \<open>The working tree, the embedded \<open>ImmutableTree\<close>.\<close>

definition working :: "MutableTree \<Rightarrow> ImmutableTree" where
  "working t = \<lparr>it_root = root t, it_version = version t\<rparr>"

definition fastGetFromChanges :: "IavlConfig \<Rightarrow> MutableTree \<Rightarrow> bytes \<Rightarrow> bytes option option" where
  "fastGetFromChanges cfg t key =
     (if \<not> enableFastStorage cfg then None else map_option (map_option fn_value) (fnc_get (unsavedFastNodes t) key))"

definition mt_Get :: "IavlConfig \<Rightarrow> MutableTree \<Rightarrow> bytes \<Rightarrow> bytes option" where
  "mt_Get cfg t key =
     (if root t = None then None
      else if forceReadIavl cfg then snd (GetWithIndex (working t) key)
      else case fastGetFromChanges cfg t key of Some val \<Rightarrow> val | None \<Rightarrow> it_Get cfg (ndb t) (working t) key)"

definition addUnsavedAddition :: "IavlConfig \<Rightarrow> bytes \<Rightarrow> bytes \<Rightarrow> int \<Rightarrow> MutableTree \<Rightarrow> MutableTree" where
  "addUnsavedAddition cfg key val ver t =
     (if \<not> enableFastStorage cfg then t
      else t\<lparr>unsavedFastNodes := fnc_add key (NewFastNode key val ver) (unsavedFastNodes t)\<rparr>)"

definition addUnsavedRemoval :: "IavlConfig \<Rightarrow> bytes \<Rightarrow> MutableTree \<Rightarrow> MutableTree" where
  "addUnsavedRemoval cfg key t =
     (if \<not> enableFastStorage cfg then t else t\<lparr>unsavedFastNodes := fnc_remove key (unsavedFastNodes t)\<rparr>)"

text \<open>A nil value is \<open>None\<close>.  The result says whether the key was there.\<close>

definition mt_Set :: "IavlConfig \<Rightarrow> bytes \<Rightarrow> bytes option \<Rightarrow> MutableTree \<Rightarrow> (bool \<times> MutableTree) res" where
  "mt_Set cfg key val t =
     (case val of None \<Rightarrow> Inl (Panic ''Attempt to store nil value'')
      | Some val \<Rightarrow>
          let ver = wrap64 (version t + 1); t1 = addUnsavedAddition cfg key val ver t in
          case root t of
            None \<Rightarrow> Inr (False, t1\<lparr>root := Some (NewNode key val ver)\<rparr>)
          | Some n \<Rightarrow> rbind (recursiveSet ver n key val []) (\<lambda>(n', updated, orphans). Inr (updated, t1\<lparr>root := Some n'\<rparr>)))"

definition mt_Remove :: "IavlConfig \<Rightarrow> bytes \<Rightarrow> MutableTree \<Rightarrow> (bytes option \<times> bool \<times> MutableTree) res" where
  "mt_Remove cfg key t =
     (case root t of None \<Rightarrow> Inr (None, False, t)
      | Some n \<Rightarrow> rbind (recursiveRemove (wrap64 (version t + 1)) n key []) (\<lambda>(newRoot, newKey, val, orphaned).
          if orphaned = [] then Inr (None, False, t)
          else Inr (val, True, (addUnsavedRemoval cfg key t)\<lparr>root := newRoot\<rparr>)))"

definition Rollback :: "MutableTree \<Rightarrow> MutableTree" where
  "Rollback t =
     (if 0 < version t then t\<lparr>root := it_root (lastSaved t), version := it_version (lastSaved t), unsavedFastNodes := newFastNodeChanges\<rparr>
      else t\<lparr>root := None, version := 0, unsavedFastNodes := newFastNodeChanges\<rparr>)"

definition SaveVersionSync :: "IavlConfig \<Rightarrow> int \<Rightarrow> MutableTree \<Rightarrow> (int \<times> MutableTree) res" where
  "SaveVersionSync cfg ver t =
     rbind (saveRoot cfg (root t) ver (ndb t)) (\<lambda>db.
       Inr (ver, t\<lparr>ndb := saveFastNodeVersion cfg (unsavedFastNodes t) (updateLatestMemoryVersion cfg ver db), version := ver,
         versions := kv_set ver () (versions t), lastSaved := \<lparr>it_root = root t, it_version = ver\<rparr>,
         unsavedFastNodes := newFastNodeChanges\<rparr>))"

text \<open>\<open>hash\<close> is the root hash of a tree, empty for the empty tree.\<close>

definition SaveVersion :: "(Node option \<Rightarrow> bytes) \<Rightarrow> IavlConfig \<Rightarrow> MutableTree \<Rightarrow> (int \<times> MutableTree) res" where
  "SaveVersion hash cfg t =
     (let upg = upgradeVersion t \<noteq> -1;
          t1 = (if upg then t\<lparr>version := wrap64 (upgradeVersion t - 1), upgradeVersion := -1\<rparr> else t);
          ver0 = (if upg then upgradeVersion t else wrap64 (version t + 1));
          ver = (if ver0 = 1 \<and> 0 < InitialVersion (ndb t) then wrap64 (InitialVersion (ndb t) + 1) else ver0)
      in if \<not> ignoreVersionCheck cfg \<and> kv_has (versions t) ver then
           (case kv_get (db_roots (ndb t)) ver of
              Some r \<Rightarrow>
                if hash r = hash (root t1) then Inr (ver, t1\<lparr>version := ver, lastSaved := \<lparr>it_root = root t1, it_version = ver\<rparr>\<rparr>)
                else Inl (Err ''version was already saved to different hash'')
            | None \<Rightarrow>
                if hash (root t1) = [] then Inr (ver, t1\<lparr>version := ver, lastSaved := \<lparr>it_root = root t1, it_version = ver\<rparr>\<rparr>)
                else Inl (Err ''version was already saved to different hash''))
         else SaveVersionSync cfg ver t1)"

definition GetImmutable :: "MutableTree \<Rightarrow> int \<Rightarrow> ImmutableTree res" where
  "GetImmutable t ver =
     (case kv_get (db_roots (ndb t)) ver of None \<Rightarrow> Inl (Err ''version does not exist'')
      | Some r \<Rightarrow> Inr \<lparr>it_root = r, it_version = ver\<rparr>)"

definition VersionExists :: "MutableTree \<Rightarrow> int \<Rightarrow> bool" where
  "VersionExists t ver \<longleftrightarrow> kv_has (versions t) ver"

definition GetVersioned :: "IavlConfig \<Rightarrow> MutableTree \<Rightarrow> bytes \<Rightarrow> int \<Rightarrow> int \<times> bytes option" where
  "GetVersioned cfg t key ver =
     (let slow = (case GetImmutable t ver of Inl _ \<Rightarrow> (-1, None) | Inr it \<Rightarrow> GetWithIndex it key)
      in if \<not> VersionExists t ver then (-1, None)
         else if IsFastCacheEnabled cfg (ndb t) (working t) \<and> \<not> forceReadIavl cfg then
           (case (case GetFastNode (ndb t) key of Inl _ \<Rightarrow> None | Inr node \<Rightarrow> node) of
              None \<Rightarrow> if ver = getLatestMemoryVersion (ndb t) then (-1, None) else slow
            | Some fastNode \<Rightarrow>
                if versionLastUpdatedAt fastNode \<le> ver then (versionLastUpdatedAt fastNode, Some (fn_value fastNode)) else slow)
         else slow)"

section \<open>The abstract versioned store\<close>

text \<open>The entries of a tree, and the abstract store: a working map and a map for every saved version.\<close>

definition content :: "Node option \<Rightarrow> (bytes, bytes) kv" where
  "content r = Kv (case r of None \<Rightarrow> [] | Some n \<Rightarrow> leaves n)"

datatype tree_op = OSet bytes bytes | ORemove bytes | OSave | ORollback

record VStore =
  vs_work :: "(bytes, bytes) kv"
  vs_hist :: "int \<Rightarrow> (bytes, bytes) kv option"
  vs_version :: int

definition vs_empty :: VStore where
  "vs_empty = \<lparr>vs_work = kv_empty, vs_hist = (\<lambda>_. None), vs_version = 0\<rparr>"

fun vs_step :: "int \<Rightarrow> tree_op \<Rightarrow> VStore \<Rightarrow> VStore" where
  "vs_step first (OSet k v) s = s\<lparr>vs_work := kv_set k v (vs_work s)\<rparr>"
| "vs_step first (ORemove k) s = s\<lparr>vs_work := kv_del k (vs_work s)\<rparr>"
| "vs_step first OSave s =
     (let v = (if vs_version s = 0 then first else vs_version s + 1)
      in s\<lparr>vs_hist := (vs_hist s)(v \<mapsto> vs_work s), vs_version := v\<rparr>)"
| "vs_step first ORollback s = s\<lparr>vs_work := (case vs_hist s (vs_version s) of None \<Rightarrow> kv_empty | Some m \<Rightarrow> m)\<rparr>"

fun tree_step :: "(Node option \<Rightarrow> bytes) \<Rightarrow> IavlConfig \<Rightarrow> tree_op \<Rightarrow> MutableTree \<Rightarrow> MutableTree res" where
  "tree_step hash cfg (OSet k v) t = rmap snd (mt_Set cfg k (Some v) t)"
| "tree_step hash cfg (ORemove k) t = rmap (\<lambda>(_, _, t). t) (mt_Remove cfg k t)"
| "tree_step hash cfg OSave t = rmap snd (SaveVersion hash cfg t)"
| "tree_step hash cfg ORollback t = Inr (Rollback t)"

lemma content_entries: "case r of None \<Rightarrow> True | Some n \<Rightarrow> node_ok n \<Longrightarrow> kv_entries (content r) = (case r of None \<Rightarrow> [] | Some n \<Rightarrow> leaves n)"
  by (auto simp: content_def Kv_inverse node_ok_asc split: option.splits)

lemma content_get: "node_ok n \<Longrightarrow> kv_get (content (Some n)) key = map_of (leaves n) key"
  using content_entries [of "Some n"] kvs.look_entries [OF TrueI, of "content (Some n)" key] by simp

lemma content_None [simp]: "content None = kv_empty"
  by (simp add: content_def kv_empty_def)

lemma content_eqI: "node_ok n \<Longrightarrow> map_of (leaves n) = kv_get s \<Longrightarrow> content (Some n) = s"
  by (rule kv_ext) (simp add: content_get)

definition root_ok :: "int \<Rightarrow> Node option \<Rightarrow> bool" where
  "root_ok N r \<longleftrightarrow> 0 \<le> N \<and> (case r of None \<Rightarrow> True | Some n \<Rightarrow> node_ok n \<and> node_size n \<le> N)"

lemma root_ok_mono: "root_ok N r \<Longrightarrow> N \<le> M \<Longrightarrow> root_ok M r"
  by (auto simp: root_ok_def split: option.splits)

lemma recursiveSet_content:
  assumes "node_ok n" "node_size n \<le> N" "N + 1 < 2 ^ 63"
  obtains n' os where "recursiveSet ver n key val [] = Inr (n', kv_has (content (Some n)) key, os)"
    "node_ok n'" "node_size n' \<le> N + 1" "content (Some n') = kv_set key val (content (Some n))"
proof -
  have "set_done n key val [] (recursiveSet ver n key val [])" using assms by (intro recursiveSet_done) auto
  then obtain n' os where n': "recursiveSet ver n key val [] = Inr (n', key \<in> fst ` set (leaves n), os)" "node_ok n'"
    "leaves n' = upd_list key val (leaves n)" by (auto simp: set_done_def)
  have "kv_has (content (Some n)) key \<longleftrightarrow> key \<in> fst ` set (leaves n)" using assms(1) by (simp add: kv_has_def content_get map_of_eq_None_iff)
  moreover have "node_size n' \<le> N + 1" using set_done_size [OF assms(1) n'(2,3)] assms(2) by auto
  moreover have "content (Some n') = kv_set key val (content (Some n))"
    using n' assms(1) by (intro content_eqI) (auto simp: map_of_upd_list node_ok_asc content_get)
  ultimately show ?thesis using n' that by auto
qed

lemma recursiveRemove_content:
  assumes "node_ok n" "node_size n \<le> N" "N < 2 ^ 63"
  obtains r nk val os where "recursiveRemove ver n key [] = Inr (r, nk, val, os)"
    "os = [] \<longleftrightarrow> \<not> kv_has (content (Some n)) key"
    "kv_has (content (Some n)) key \<longrightarrow> root_ok N r \<and> content r = kv_del key (content (Some n)) \<and> val = kv_get (content (Some n)) key"
proof -
  have d: "remove_done n key (recursiveRemove ver n key [])" using assms by (intro recursiveRemove_done) auto
  have h: "kv_has (content (Some n)) key \<longleftrightarrow> key \<in> fst ` set (leaves n)" using assms(1) by (simp add: kv_has_def content_get map_of_eq_None_iff)
  show ?thesis
  proof (cases "key \<in> fst ` set (leaves n)")
    case True
    with d obtain r os where r: "os \<noteq> []" "recursiveRemove ver n key [] =
        Inr (r, if fst (hd (leaves n)) = key then map_option (\<lambda>m. fst (hd (leaves m))) r else None, map_of (leaves n) key, os)"
      "case r of None \<Rightarrow> node_height n = 0 \<and> (\<exists>w. leaves n = [(key, w)])
        | Some m \<Rightarrow> node_ok m \<and> leaves m = del_list key (leaves n) \<and> node_height m \<le> node_height n \<and> node_height n \<le> node_height m + 1"
      by (auto simp: remove_done_def)
    have "root_ok N r" using r(3) assms node_size_pos [OF assms(1)] remove_done_size [OF assms(1)]
      by (force simp: root_ok_def split: option.splits)
    moreover have "content r = kv_del key (content (Some n))"
      using r(3) assms(1) by (intro kv_ext) (auto simp: content_get map_of_del_list split: option.splits)
    ultimately show ?thesis using that [OF r(2)] r(1) h True assms(1) by (simp add: content_get)
  next
    case False
    with d show ?thesis using that h by (auto simp: remove_done_def)
  qed
qed

text \<open>Saving the changed fast nodes.\<close>

lemma fold_kv_set:
  "distinct (map fst xs) \<Longrightarrow> \<forall>(k, node) \<in> set xs. fn_key node = k \<Longrightarrow>
    kv_get (fold (\<lambda>(_, node). kv_set (fn_key node) node) xs m) key = (case map_of xs key of Some node \<Rightarrow> Some node | None \<Rightarrow> kv_get m key)"
proof (induction xs arbitrary: m)
  case (Cons a xs)
  then have "map_of xs (fst a) = None" by (simp add: map_of_eq_None_iff)
  with Cons show ?case by (auto split: option.splits)
qed simp

lemma saveFastNodeVersion_get:
  assumes "\<And>key node. kv_get (additions fnc) key = Some node \<Longrightarrow> fn_key node = key"
    "\<And>key. kv_has (removals fnc) key \<Longrightarrow> kv_get (additions fnc) key = None" "enableFastStorage cfg"
  shows "kv_get (db_fast (saveFastNodeVersion cfg fnc db)) key = (case fnc_get fnc key of Some node \<Rightarrow> node | None \<Rightarrow> kv_get (db_fast db) key)"
proof -
  have "\<forall>(k, node) \<in> set (kv_entries (additions fnc)). fn_key node = k" using assms(1) by (auto simp: kv_in_entries)
  moreover have "distinct (map fst (kv_entries (additions fnc)))" by (rule asc_distinct [OF kvs.entries_asc [OF TrueI]])
  ultimately have "kv_get (fold (\<lambda>(_, node). kv_set (fn_key node) node) (kv_entries (additions fnc)) m) key =
      (case kv_get (additions fnc) key of Some node \<Rightarrow> Some node | None \<Rightarrow> kv_get m key)" for m
    by (simp add: fold_kv_set kvs.look_entries [OF TrueI, of "additions fnc"])
  moreover have "key \<in> fst ` set (kv_entries (removals fnc)) \<longleftrightarrow> kv_has (removals fnc) key"
    using kvs.look_Some_iff [OF TrueI, of "removals fnc" key] by (simp add: kv_has_def)
  ultimately show ?thesis using assms(2) [of key] assms(3)
    by (auto simp: saveFastNodeVersion_def saveFastNodeAdditions_def saveFastNodeRemovals_def kv_get_dels fnc_get_def split: option.splits)
qed

section \<open>The invariant\<close>

text \<open>Every fast node on disk agrees with every saved version it covers; a key with no fast node is not in the latest.\<close>

definition fast_ok :: "MutableTree \<Rightarrow> bool" where
  "fast_ok t \<longleftrightarrow>
     (\<forall>key node. kv_get (db_fast (ndb t)) key = Some node \<longrightarrow>
        1 \<le> versionLastUpdatedAt node \<and> versionLastUpdatedAt node \<le> version t \<and>
        (\<forall>v r. kv_get (db_roots (ndb t)) v = Some r \<and> versionLastUpdatedAt node \<le> v \<longrightarrow> kv_get (content r) key = Some (fn_value node))) \<and>
     (\<forall>key. kv_get (db_fast (ndb t)) key = None \<longrightarrow> kv_get (content (it_root (lastSaved t))) key = None)"

text \<open>The unsaved changes lead from the last saved tree to the working tree.\<close>

definition changes_ok :: "MutableTree \<Rightarrow> bool" where
  "changes_ok t \<longleftrightarrow>
     (\<forall>key. kv_get (content (root t)) key =
        (case fnc_get (unsavedFastNodes t) key of Some node \<Rightarrow> map_option fn_value node | None \<Rightarrow> kv_get (content (it_root (lastSaved t))) key)) \<and>
     (\<forall>key node. kv_get (additions (unsavedFastNodes t)) key = Some node \<longrightarrow> fn_key node = key \<and> versionLastUpdatedAt node = version t + 1) \<and>
     (\<forall>key. kv_has (removals (unsavedFastNodes t)) key \<longrightarrow> kv_get (additions (unsavedFastNodes t)) key = None)"

text \<open>The versions: none is saved while the version is 0, and the last saved tree is the one of the latest version.\<close>

definition versions_ok :: "IavlConfig \<Rightarrow> MutableTree \<Rightarrow> bool" where
  "versions_ok cfg t \<longleftrightarrow>
     (\<forall>v. kv_has (versions t) v \<longleftrightarrow> kv_has (db_roots (ndb t)) v) \<and>
     (\<forall>v r. kv_get (db_roots (ndb t)) v = Some r \<longrightarrow> 1 \<le> v \<and> v \<le> version t) \<and>
     lastSaved t = \<lparr>it_root = (case kv_get (db_roots (ndb t)) (version t) of None \<Rightarrow> None | Some r \<Rightarrow> r), it_version = version t\<rparr> \<and>
     (0 < version t \<longrightarrow> kv_has (db_roots (ndb t)) (version t)) \<and>
     latestPersistedVersion (ndb t) = version t \<and>
     latestMemoryVersion (ndb t) = (if enableFastStorage cfg then version t else 0) \<and>
     (fastUpgraded (ndb t) \<longleftrightarrow> enableFastStorage cfg \<and> 0 < version t)"

text \<open>\<open>i\<close> and \<open>u\<close> are the initial and the upgrade version the tree was opened with, \<open>N\<close> bounds sizes and saves.\<close>

definition tree_inv :: "IavlConfig \<Rightarrow> int \<Rightarrow> int \<Rightarrow> int \<Rightarrow> MutableTree \<Rightarrow> bool" where
  "tree_inv cfg i u N t \<longleftrightarrow>
     0 \<le> version t \<and> version t \<le> (if version t = 0 then 0 else max 0 (max i u) + N) \<and>
     InitialVersion (ndb t) = i \<and> upgradeVersion t = (if version t = 0 then u else -1) \<and>
     root_ok N (root t) \<and> (\<forall>v r. kv_get (db_roots (ndb t)) v = Some r \<longrightarrow> root_ok N r) \<and>
     versions_ok cfg t \<and> (enableFastStorage cfg \<longrightarrow> fast_ok t \<and> changes_ok t)"

definition abs_tree :: "MutableTree \<Rightarrow> VStore" where
  "abs_tree t = \<lparr>vs_work = content (root t), vs_hist = (\<lambda>v. map_option content (kv_get (db_roots (ndb t)) v)), vs_version = version t\<rparr>"

definition first_version :: "int \<Rightarrow> int \<Rightarrow> int" where
  "first_version i u = (let v = if u = -1 then 1 else u in if v = 1 \<and> 0 < i then i + 1 else v)"

lemma fnc_get_add: "fnc_get (fnc_add key node fnc) key' = (if key' = key then Some (Some node) else fnc_get fnc key')"
  by (auto simp: fnc_get_def fnc_add_def kv_has_def split: option.splits)

lemma fnc_get_remove: "fnc_get (fnc_remove key fnc) key' = (if key' = key then Some None else fnc_get fnc key')"
  by (auto simp: fnc_get_def fnc_remove_def kv_has_def split: option.splits)

lemma fnc_get_new [simp]: "fnc_get newFastNodeChanges key = None"
  by (simp add: fnc_get_def newFastNodeChanges_def kv_has_def)

lemma fnc_fields [simp]:
  "additions (fnc_add key node fnc) = kv_set key node (additions fnc)" "removals (fnc_add key node fnc) = kv_del key (removals fnc)"
  "additions (fnc_remove key fnc) = kv_del key (additions fnc)" "removals (fnc_remove key fnc) = kv_set key () (removals fnc)"
  by (simp_all add: fnc_add_def fnc_remove_def)

lemma Set_inv:
  assumes t: "tree_inv cfg i u N t" and N: "max 0 (max i u) + N + 1 < 2 ^ 63"
  obtains t' where "mt_Set cfg key (Some val) t = Inr (kv_has (content (root t)) key, t')" "tree_inv cfg i u (N + 1) t'"
    "abs_tree t' = (abs_tree t)\<lparr>vs_work := kv_set key val (vs_work (abs_tree t))\<rparr>"
proof -
  let ?ver = "version t + 1"
  have b: "0 \<le> version t" "version t + 1 < 2 ^ 63" "0 \<le> N" using t N by (auto simp: tree_inv_def root_ok_def split: if_splits)
  then have ver: "wrap64 ?ver = ?ver" by (simp add: wrap64_id)
  have "\<exists>n'. mt_Set cfg key (Some val) t = Inr (kv_has (content (root t)) key, (addUnsavedAddition cfg key val ?ver t)\<lparr>root := Some n'\<rparr>) \<and>
      root_ok (N + 1) (Some n') \<and> content (Some n') = kv_set key val (content (root t))"
  proof (cases "root t")
    case None
    have "content (Some (Leaf key val ?ver)) = kv_set key val kv_empty" by (rule content_eqI) auto
    then show ?thesis using None b by (auto simp: mt_Set_def Let_def ver NewNode_def root_ok_def kv_has_def)
  next
    case (Some n)
    then have n: "node_ok n" "node_size n \<le> N" "N + 1 < 2 ^ 63" using t N by (auto simp: tree_inv_def root_ok_def)
    obtain n' os where "recursiveSet ?ver n key val [] = Inr (n', kv_has (content (Some n)) key, os)" "node_ok n'" "node_size n' \<le> N + 1"
      "content (Some n') = kv_set key val (content (Some n))" by (rule recursiveSet_content [OF n])
    then show ?thesis using Some b by (auto simp: mt_Set_def Let_def ver root_ok_def)
  qed
  then obtain n' where n': "mt_Set cfg key (Some val) t = Inr (kv_has (content (root t)) key, (addUnsavedAddition cfg key val ?ver t)\<lparr>root := Some n'\<rparr>)"
    "root_ok (N + 1) (Some n')" "content (Some n') = kv_set key val (content (root t))" by blast
  let ?t = "(addUnsavedAddition cfg key val ?ver t)\<lparr>root := Some n'\<rparr>"
  have same: "version ?t = version t" "ndb ?t = ndb t" "lastSaved ?t = lastSaved t" "versions ?t = versions t" "upgradeVersion ?t = upgradeVersion t"
    by (auto simp: addUnsavedAddition_def)
  have "changes_ok ?t" if "enableFastStorage cfg" "changes_ok t"
    using that n'(3) unfolding changes_ok_def same
    by (auto simp: addUnsavedAddition_def fnc_get_add NewFastNode_def kv_has_def)
  moreover have "fast_ok ?t" if "fast_ok t" using that by (simp add: fast_ok_def same)
  ultimately have "tree_inv cfg i u (N + 1) ?t"
    using t n'(2) root_ok_mono [of N _ "N + 1"] unfolding tree_inv_def same versions_ok_def by auto
  moreover have "abs_tree ?t = (abs_tree t)\<lparr>vs_work := kv_set key val (vs_work (abs_tree t))\<rparr>" using n'(3) same by (simp add: abs_tree_def)
  ultimately show ?thesis using that n'(1) by blast
qed

lemma Remove_inv:
  assumes t: "tree_inv cfg i u N t" and N: "max 0 (max i u) + N + 1 < 2 ^ 63"
  obtains t' where "mt_Remove cfg key t = Inr (kv_get (content (root t)) key, kv_has (content (root t)) key, t')" "tree_inv cfg i u N t'"
    "abs_tree t' = (abs_tree t)\<lparr>vs_work := kv_del key (vs_work (abs_tree t))\<rparr>"
proof (cases "kv_has (content (root t)) key")
  case False
  then have "kv_del key (content (root t)) = content (root t)" by (intro kv_ext) (auto simp: kv_has_def)
  then have "abs_tree t = (abs_tree t)\<lparr>vs_work := kv_del key (vs_work (abs_tree t))\<rparr>" by (simp add: abs_tree_def)
  moreover have "mt_Remove cfg key t = Inr (None, False, t)"
  proof (cases "root t")
    case (Some n)
    then have n: "node_ok n" "node_size n \<le> N" "N < 2 ^ 63" using t N by (auto simp: tree_inv_def root_ok_def)
    show ?thesis by (rule recursiveRemove_content [OF n, of "wrap64 (version t + 1)" key]) (use Some False in \<open>auto simp: mt_Remove_def\<close>)
  qed (simp add: mt_Remove_def)
  moreover have "kv_get (content (root t)) key = None" using False by (simp add: kv_has_def)
  ultimately show ?thesis using t that False by auto
next
  case True
  then obtain n where Some: "root t = Some n" by (cases "root t") (auto simp: kv_has_def)
  then have n: "node_ok n" "node_size n \<le> N" "N < 2 ^ 63" using t N by (auto simp: tree_inv_def root_ok_def)
  obtain r nk v os where r: "recursiveRemove (wrap64 (version t + 1)) n key [] = Inr (r, nk, v, os)" "os = [] \<longleftrightarrow> \<not> kv_has (content (Some n)) key"
    "kv_has (content (Some n)) key \<longrightarrow> root_ok N r \<and> content r = kv_del key (content (Some n)) \<and> v = kv_get (content (Some n)) key"
    by (rule recursiveRemove_content [OF n, of "wrap64 (version t + 1)" key])
  let ?t = "(addUnsavedRemoval cfg key t)\<lparr>root := r\<rparr>"
  have same: "version ?t = version t" "ndb ?t = ndb t" "lastSaved ?t = lastSaved t" "versions ?t = versions t" "upgradeVersion ?t = upgradeVersion t"
    by (auto simp: addUnsavedRemoval_def)
  have "changes_ok ?t" if "enableFastStorage cfg" "changes_ok t"
    using that r(3) True Some unfolding changes_ok_def same
    by (auto simp: addUnsavedRemoval_def fnc_get_remove kv_has_def)
  moreover have "fast_ok ?t" if "fast_ok t" using that by (simp add: fast_ok_def same)
  ultimately have "tree_inv cfg i u N ?t"
    using t r(3) True Some unfolding tree_inv_def same versions_ok_def by auto
  moreover have "abs_tree ?t = (abs_tree t)\<lparr>vs_work := kv_del key (vs_work (abs_tree t))\<rparr>" using r(3) same True Some by (simp add: abs_tree_def)
  moreover have "mt_Remove cfg key t = Inr (kv_get (content (root t)) key, kv_has (content (root t)) key, ?t)"
    using r True Some by (simp add: mt_Remove_def)
  ultimately show ?thesis using that by blast
qed

lemma Rollback_inv:
  assumes t: "tree_inv cfg i u N t"
  shows "tree_inv cfg i u N (Rollback t)" "abs_tree (Rollback t) = vs_step first ORollback (abs_tree t)"
proof -
  let ?r = "case kv_get (db_roots (ndb t)) (version t) of None \<Rightarrow> None | Some r \<Rightarrow> r"
  have v: "versions_ok cfg t" "0 \<le> version t" using t by (auto simp: tree_inv_def)
  have none: "kv_get (db_roots (ndb t)) 0 = None" using v(1) by (force simp: versions_ok_def)
  have R: "Rollback t = t\<lparr>root := ?r, unsavedFastNodes := newFastNodeChanges\<rparr>"
    using v none by (cases "version t = 0") (auto simp: Rollback_def versions_ok_def)
  have r: "root_ok N ?r" using t by (auto simp: tree_inv_def root_ok_def split: option.splits)
  have "lastSaved t = \<lparr>it_root = ?r, it_version = version t\<rparr>" using v(1) by (simp add: versions_ok_def)
  then have "changes_ok (Rollback t)" by (auto simp: R changes_ok_def newFastNodeChanges_def fnc_get_def kv_has_def)
  then show "tree_inv cfg i u N (Rollback t)" using t r by (auto simp: R tree_inv_def versions_ok_def fast_ok_def)
  show "abs_tree (Rollback t) = vs_step first ORollback (abs_tree t)"
    by (auto simp: R abs_tree_def split: option.splits)
qed

lemma last_filter_Nil: "(\<And>x. x \<in> set xs \<Longrightarrow> \<not> P x) \<Longrightarrow> last (0 # filter P xs) = (0::int)"
  by (simp add: filter_empty_conv)

lemma getLatestVersion_eq:
  assumes "versions_ok cfg t" "0 \<le> version t"
  shows "getLatestVersion (ndb t) = version t"
    "enableFastStorage cfg \<Longrightarrow> getLatestMemoryVersion (ndb t) = version t"
proof -
  have "getPreviousVersion (ndb t) (2 ^ 63 - 1) = 0" if "version t = 0"
  proof -
    have "\<not> (1 \<le> v \<and> v < 2 ^ 63 - 1)" if "v \<in> set (map fst (kv_entries (db_roots (ndb t))))" for v
      using that assms(1) \<open>version t = 0\<close> by (force simp: versions_ok_def kv_in_entries)
    then show ?thesis unfolding getPreviousVersion_def by (rule last_filter_Nil)
  qed
  then show "getLatestVersion (ndb t) = version t" "enableFastStorage cfg \<Longrightarrow> getLatestMemoryVersion (ndb t) = version t"
    using assms by (auto simp: getLatestVersion_def getLatestMemoryVersion_def versions_ok_def)
qed

text \<open>The state after a successful save, for a version above the current one.\<close>

definition saved_db :: "IavlConfig \<Rightarrow> int \<Rightarrow> MutableTree \<Rightarrow> nodeDB" where
  "saved_db cfg ver t =
     (let db = (ndb t)\<lparr>db_roots := kv_set ver (root t) (db_roots (ndb t)), latestPersistedVersion := ver\<rparr>
      in saveFastNodeVersion cfg (unsavedFastNodes t) (if enableFastStorage cfg then db\<lparr>latestMemoryVersion := ver\<rparr> else db))"

definition saved_tree :: "IavlConfig \<Rightarrow> int \<Rightarrow> MutableTree \<Rightarrow> MutableTree" where
  "saved_tree cfg ver t =
     t\<lparr>ndb := saved_db cfg ver t, version := ver, versions := kv_set ver () (versions t), lastSaved := \<lparr>it_root = root t, it_version = ver\<rparr>,
       upgradeVersion := -1, unsavedFastNodes := newFastNodeChanges\<rparr>"

lemma SaveVersionSync_eq:
  assumes "versions_ok cfg t" "0 \<le> version t" "version t < ver" "ver < 2 ^ 63" "0 < version t \<longrightarrow> ver = version t + 1"
  shows "SaveVersionSync cfg ver (t\<lparr>version := w, upgradeVersion := -1\<rparr>) = Inr (ver, saved_tree cfg ver t)"
proof -
  have "\<not> (0 < version t \<and> ver \<noteq> wrap64 (version t + 1))" using assms by (auto simp: wrap64_id)
  moreover have "latestPersistedVersion (ndb t) < ver" "enableFastStorage cfg \<Longrightarrow> latestMemoryVersion (ndb t) < ver"
    using assms by (auto simp: versions_ok_def)
  ultimately show ?thesis using getLatestVersion_eq [OF assms(1,2)]
    by (auto simp: SaveVersionSync_def saveRoot_def Let_def updateLatestVersion_def updateLatestMemoryVersion_def saved_tree_def saved_db_def)
qed

lemma saved_db_fields [simp]:
  "db_roots (saved_db cfg ver t) = kv_set ver (root t) (db_roots (ndb t))"
  "latestPersistedVersion (saved_db cfg ver t) = ver"
  "latestMemoryVersion (saved_db cfg ver t) = (if enableFastStorage cfg then ver else latestMemoryVersion (ndb t))"
  "fastUpgraded (saved_db cfg ver t) \<longleftrightarrow> enableFastStorage cfg \<or> fastUpgraded (ndb t)"
  "InitialVersion (saved_db cfg ver t) = InitialVersion (ndb t)"
  by (simp_all add: saved_db_def saveFastNodeVersion_def saveFastNodeAdditions_def saveFastNodeRemovals_def Let_def)

lemma saved_db_fast:
  "changes_ok t \<Longrightarrow> enableFastStorage cfg \<Longrightarrow>
    kv_get (db_fast (saved_db cfg ver t)) key = (case fnc_get (unsavedFastNodes t) key of Some node \<Rightarrow> node | None \<Rightarrow> kv_get (db_fast (ndb t)) key)"
  unfolding saved_db_def Let_def by (subst saveFastNodeVersion_get) (auto simp: changes_ok_def split: option.splits)

text \<open>A fast node of the saved tree is a new one, or an old one whose value the new version still has.\<close>

lemma saved_fast_ok:
  assumes "versions_ok cfg t" "0 \<le> version t" "version t < ver" "fast_ok t" "changes_ok t" "enableFastStorage cfg"
  shows "fast_ok (saved_tree cfg ver t)"
proof -
  let ?t = "saved_tree cfg ver t"
  note fast = saved_db_fast [OF assms(5,6)]
  have work: "kv_get (content (root t)) key =
      (case fnc_get (unsavedFastNodes t) key of Some node \<Rightarrow> map_option fn_value node | None \<Rightarrow> kv_get (content (it_root (lastSaved t))) key)" for key
    using assms(5) by (simp add: changes_ok_def)
  have "1 \<le> versionLastUpdatedAt node \<and> versionLastUpdatedAt node \<le> ver \<and>
      (\<forall>v r. kv_get (kv_set ver (root t) (db_roots (ndb t))) v = Some r \<and> versionLastUpdatedAt node \<le> v \<longrightarrow> kv_get (content r) key = Some (fn_value node))"
    if "kv_get (db_fast (saved_db cfg ver t)) key = Some node" for key node
  proof (cases "fnc_get (unsavedFastNodes t) key")
    case None
    with that have old: "kv_get (db_fast (ndb t)) key = Some node" by (simp add: fast)
    then have o: "1 \<le> versionLastUpdatedAt node" "versionLastUpdatedAt node \<le> version t"
      "\<And>v r. kv_get (db_roots (ndb t)) v = Some r \<Longrightarrow> versionLastUpdatedAt node \<le> v \<Longrightarrow> kv_get (content r) key = Some (fn_value node)"
      using assms(4) unfolding fast_ok_def by blast+
    have "kv_get (content (it_root (lastSaved t))) key = Some (fn_value node)"
      using assms(1) o by (auto simp: versions_ok_def kv_has_def)
    then show ?thesis using None o work [of key] assms(3) by auto
  next
    case (Some n)
    with that have n: "n = Some node" by (simp add: fast)
    then have "kv_get (additions (unsavedFastNodes t)) key = Some node" using Some by (auto simp: fnc_get_def split: option.splits if_splits)
    then have "versionLastUpdatedAt node = version t + 1" using assms(5) by (auto simp: changes_ok_def)
    then show ?thesis using Some n work [of key] assms(1-3) by (force simp: versions_ok_def)
  qed
  moreover have "kv_get (content (root t)) key = None" if "kv_get (db_fast (saved_db cfg ver t)) key = None" for key
    using that work [of key] assms(4) by (auto simp: fast fast_ok_def split: option.splits)
  ultimately show ?thesis unfolding fast_ok_def by (simp add: saved_tree_def)
qed

lemma Save_inv:
  assumes t: "tree_inv cfg i u N t" and N: "max 0 (max i u) + N + 1 < 2 ^ 63" and u: "0 \<le> i" "u = -1 \<or> 1 \<le> u"
  obtains t' where "SaveVersion hash cfg t = Inr (version t', t')" "tree_inv cfg i u (N + 1) t'"
    "abs_tree t' = vs_step (first_version i u) OSave (abs_tree t)"
proof -
  let ?ver = "if version t = 0 then first_version i u else version t + 1"
  let ?t = "saved_tree cfg ?ver t"
  have v: "versions_ok cfg t" "0 \<le> version t" "0 \<le> N" using t by (auto simp: tree_inv_def root_ok_def)
  have b: "version t < ?ver" "?ver \<le> max 0 (max i u) + (N + 1)" "?ver < 2 ^ 63" "1 \<le> ?ver"
    using t N u by (auto simp: tree_inv_def first_version_def root_ok_def split: if_splits)
  have wi: "wrap64 (i + 1) = i + 1" using N u v(3) by (intro wrap64_id) auto
  have "\<not> kv_has (versions t) w" if "version t < w" for w using v(1) that by (force simp: versions_ok_def kv_has_def)
  from this [OF b(1)] have "\<not> kv_has (versions t) ?ver" .
  moreover have "SaveVersionSync cfg ?ver (t\<lparr>version := w, upgradeVersion := -1\<rparr>) = Inr (?ver, ?t)" for w
    using b by (intro SaveVersionSync_eq [OF v(1,2)]) auto
  moreover have "SaveVersion hash cfg t =
      (if \<not> ignoreVersionCheck cfg \<and> kv_has (versions t) ?ver then SaveVersion hash cfg t
       else SaveVersionSync cfg ?ver (t\<lparr>version := (if version t = 0 \<and> u \<noteq> -1 then wrap64 (u - 1) else version t), upgradeVersion := -1\<rparr>))"
  proof (cases "version t = 0 \<and> u \<noteq> -1")
    case True
    then have "upgradeVersion t = u" "InitialVersion (ndb t) = i" using t by (auto simp: tree_inv_def)
    then show ?thesis using True wi by (auto simp: SaveVersion_def Let_def first_version_def)
  next
    case False
    then have up: "upgradeVersion t = -1" "InitialVersion (ndb t) = i" using t by (auto simp: tree_inv_def)
    then have e: "t\<lparr>version := (if version t = 0 \<and> u \<noteq> -1 then wrap64 (u - 1) else version t), upgradeVersion := -1\<rparr> = t"
      using False by (cases t) auto
    have "wrap64 (version t + 1) = version t + 1" using v(2) b(3) by (cases "version t = 0") (auto simp: wrap64_id)
    then show ?thesis unfolding e using False up wi v(2) by (auto simp: SaveVersion_def Let_def first_version_def)
  qed
  ultimately have s: "SaveVersion hash cfg t = Inr (?ver, ?t)" by simp
  have "versions_ok cfg (saved_tree cfg w t)" if "version t < w" "1 \<le> w" for w
    using v(1) that by (auto simp: versions_ok_def saved_tree_def kv_has_def split: if_splits)
  from this [OF b(1,4)] have "versions_ok cfg ?t" .
  moreover have "changes_ok ?t"
    by (auto simp: changes_ok_def saved_tree_def newFastNodeChanges_def fnc_get_def kv_has_def)
  moreover have "enableFastStorage cfg \<longrightarrow> fast_ok ?t" using t saved_fast_ok [OF v(1,2) b(1)] by (simp add: tree_inv_def)
  moreover have "root_ok (N + 1) r" if "kv_get (kv_set ?ver (root t) (db_roots (ndb t))) v = Some r" for v r
    using that t root_ok_mono [of N r "N + 1"] by (auto simp: tree_inv_def split: if_splits)
  moreover have "root_ok (N + 1) (root t)" using t root_ok_mono [of N _ "N + 1"] by (simp add: tree_inv_def)
  moreover have "version ?t = ?ver" "root ?t = root t" "ndb ?t = saved_db cfg ?ver t" "upgradeVersion ?t = -1" by (simp_all add: saved_tree_def)
  moreover have "InitialVersion (ndb t) = i" using t by (simp add: tree_inv_def)
  moreover have "?ver \<noteq> 0" "0 \<le> ?ver" using b(4) by linarith+
  ultimately have "tree_inv cfg i u (N + 1) ?t" unfolding tree_inv_def using b(2) by simp
  moreover have "abs_tree ?t = vs_step (first_version i u) OSave (abs_tree t)"
    by (auto simp: abs_tree_def saved_tree_def Let_def fun_eq_iff)
  moreover have ve: "version ?t = ?ver" by (simp add: saved_tree_def)
  have "SaveVersion hash cfg t = Inr (version ?t, ?t)" unfolding ve by (rule s)
  ultimately show ?thesis by (rule that [rotated])
qed

section \<open>Runs of operations\<close>

lemma tree_step_inv:
  assumes t: "tree_inv cfg i u N t" and N: "max 0 (max i u) + N + 1 < 2 ^ 63" and u: "0 \<le> i" "u = -1 \<or> 1 \<le> u"
  shows "\<exists>t'. tree_step hash cfg op t = Inr t' \<and> tree_inv cfg i u (N + 1) t' \<and> abs_tree t' = vs_step (first_version i u) op (abs_tree t)"
proof -
  have mono: "tree_inv cfg i u (N + 1) t'" if "tree_inv cfg i u N t'" for t'
    using that root_ok_mono [of N _ "N + 1"] by (auto simp: tree_inv_def)
  show ?thesis
  proof (cases op)
    case (OSet k v)
    then show ?thesis using Set_inv [OF t N, of k v] by (metis vs_step.simps(1) tree_step.simps(1) rmap_simps(2) snd_conv)
  next
    case (ORemove k)
    obtain t' where t': "mt_Remove cfg k t = Inr (kv_get (content (root t)) k, kv_has (content (root t)) k, t')" "tree_inv cfg i u N t'"
      "abs_tree t' = (abs_tree t)\<lparr>vs_work := kv_del k (vs_work (abs_tree t))\<rparr>" by (rule Remove_inv [OF t N])
    then show ?thesis using ORemove mono by auto
  next
    case OSave
    then show ?thesis using Save_inv [OF t N u, of hash] by (metis tree_step.simps(3) rmap_simps(2) snd_conv)
  next
    case ORollback
    then show ?thesis using Rollback_inv [OF t] mono by simp
  qed
qed

definition tree_run :: "(Node option \<Rightarrow> bytes) \<Rightarrow> IavlConfig \<Rightarrow> tree_op list \<Rightarrow> MutableTree \<Rightarrow> MutableTree res" where
  "tree_run hash cfg ops t = rfold (tree_step hash cfg) ops t"

definition open_tree :: "int \<Rightarrow> int \<Rightarrow> MutableTree" where
  "open_tree i u = (NewMutableTree i)\<lparr>upgradeVersion := u\<rparr>"

lemma open_tree_inv: "tree_inv cfg i u 0 (open_tree i u)" "abs_tree (open_tree i u) = vs_empty"
  by (simp_all add: tree_inv_def open_tree_def NewMutableTree_def newNodeDB_def root_ok_def versions_ok_def kv_has_def fast_ok_def changes_ok_def
      newFastNodeChanges_def fnc_get_def abs_tree_def vs_empty_def)

lemma tree_run_inv:
  assumes "tree_inv cfg i u N t" "max 0 (max i u) + N + int (length ops) < 2 ^ 63" "0 \<le> i" "u = -1 \<or> 1 \<le> u"
  shows "\<exists>t'. tree_run hash cfg ops t = Inr t' \<and> tree_inv cfg i u (N + int (length ops)) t' \<and>
    abs_tree t' = fold (vs_step (first_version i u)) ops (abs_tree t)"
  using assms
proof (induction ops arbitrary: N t)
  case (Cons op ops)
  have "max 0 (max i u) + N + 1 < 2 ^ 63" using Cons.prems(2) by simp
  then obtain t1 where t1: "tree_step hash cfg op t = Inr t1" "tree_inv cfg i u (N + 1) t1" "abs_tree t1 = vs_step (first_version i u) op (abs_tree t)"
    using tree_step_inv [OF Cons.prems(1) _ Cons.prems(3,4), of hash op] by auto
  have "max 0 (max i u) + (N + 1) + int (length ops) < 2 ^ 63" using Cons.prems(2) by simp
  from Cons.IH [OF t1(2) this Cons.prems(3,4)] t1 show ?case by (auto simp: tree_run_def algebra_simps)
qed (simp add: tree_run_def)

section \<open>Reads\<close>

lemma node_get_content: "node_ok n \<Longrightarrow> node_size n < 2 ^ 63 \<Longrightarrow> snd (node_get n key) = kv_get (content (Some n)) key"
  by (simp add: node_get_eq content_get)

lemma it_Get_saved:
  assumes t: "tree_inv cfg i u N t" and N: "N < 2 ^ 63" and r: "kv_get (db_roots (ndb t)) v = Some r"
  shows "it_Get cfg (ndb t) \<lparr>it_root = r, it_version = v\<rparr> key = kv_get (content r) key"
proof (cases r)
  case (Some n)
  have v: "versions_ok cfg t" "0 \<le> version t" "v \<le> version t" using t r by (auto simp: tree_inv_def versions_ok_def)
  have "node_ok n" "node_size n < 2 ^ 63" using t r N Some by (force simp: tree_inv_def root_ok_def)+
  note slow = node_get_content [OF this, of key]
  show ?thesis
  proof (cases "enableFastStorage cfg \<and> fastUpgraded (ndb t) \<and> key \<noteq> []")
    case False
    then show ?thesis using slow Some by (auto simp: it_Get_def GetFastNode_def)
  next
    case True
    then have f: "fast_ok t" "getLatestMemoryVersion (ndb t) = version t" using t getLatestVersion_eq(2) [OF v(1,2)] by (auto simp: tree_inv_def)
    have "kv_get (content r) key = None" if "kv_get (db_fast (ndb t)) key = None" "v = version t"
      using that f(1) r v(1) by (auto simp: fast_ok_def versions_ok_def)
    moreover have "kv_get (content r) key = Some (fn_value node)" if "kv_get (db_fast (ndb t)) key = Some node" "versionLastUpdatedAt node \<le> v" for node
      using that f(1) r unfolding fast_ok_def by blast
    ultimately show ?thesis using True f(2) slow Some by (auto simp: it_Get_def GetFastNode_def split: option.splits)
  qed
qed (simp add: it_Get_def)

lemma mt_Get_content:
  assumes t: "tree_inv cfg i u N t" and N: "N < 2 ^ 63"
  shows "mt_Get cfg t key = kv_get (content (root t)) key"
proof (cases "root t")
  case (Some n)
  have "node_ok n" "node_size n < 2 ^ 63" using t N Some by (force simp: tree_inv_def root_ok_def)+
  note slow = node_get_content [OF this, of key]
  have v: "versions_ok cfg t" "0 \<le> version t" using t by (auto simp: tree_inv_def)
  show ?thesis
  proof (cases "enableFastStorage cfg \<and> \<not> forceReadIavl cfg")
    case False
    then show ?thesis using slow Some by (auto simp: mt_Get_def GetWithIndex_def fastGetFromChanges_def it_Get_def working_def)
  next
    case True
    then have f: "fast_ok t" "changes_ok t" "getLatestMemoryVersion (ndb t) = version t"
      using t getLatestVersion_eq(2) [OF v] by (auto simp: tree_inv_def)
    have work: "kv_get (content (root t)) key =
        (case fnc_get (unsavedFastNodes t) key of Some node \<Rightarrow> map_option fn_value node | None \<Rightarrow> kv_get (content (it_root (lastSaved t))) key)"
      using f(2) by (simp add: changes_ok_def)
    show ?thesis
    proof (cases "fnc_get (unsavedFastNodes t) key")
      case (Some x)
      then show ?thesis using True work \<open>root t = Some n\<close> by (simp add: mt_Get_def fastGetFromChanges_def)
    next
      case None
      have "it_Get cfg (ndb t) (working t) key = kv_get (content (root t)) key"
      proof (cases "fastUpgraded (ndb t) \<and> key \<noteq> []")
        case False
        then show ?thesis using slow True \<open>root t = Some n\<close> by (auto simp: it_Get_def GetFastNode_def working_def)
      next
        case up: True
        then have "0 < version t" using v(1) by (simp add: versions_ok_def)
        then have last: "kv_get (db_roots (ndb t)) (version t) = Some (it_root (lastSaved t))" using v(1) by (auto simp: versions_ok_def kv_has_def)
        have "kv_get (content (it_root (lastSaved t))) key = map_option fn_value (kv_get (db_fast (ndb t)) key)"
        proof (cases "kv_get (db_fast (ndb t)) key")
          case (Some node)
          then show ?thesis using f(1) last unfolding fast_ok_def by auto
        qed (use f(1) in \<open>auto simp: fast_ok_def\<close>)
        moreover have "\<And>node. kv_get (db_fast (ndb t)) key = Some node \<Longrightarrow> versionLastUpdatedAt node \<le> version t" using f(1) by (auto simp: fast_ok_def)
        ultimately show ?thesis using True None work f(3) up \<open>root t = Some n\<close>
          by (auto simp: it_Get_def GetFastNode_def working_def split: option.splits)
      qed
      then show ?thesis using True None \<open>root t = Some n\<close> by (simp add: mt_Get_def fastGetFromChanges_def)
    qed
  qed
qed (simp add: mt_Get_def)

section \<open>Iterating over fast nodes\<close>

text \<open>The fast nodes on disk in a range, and the sorted unsaved additions in it.\<close>

definition newFastIterator :: "bytes option \<Rightarrow> bytes option \<Rightarrow> bool \<Rightarrow> nodeDB \<Rightarrow> (bytes \<times> bytes) list" where
  "newFastIterator start end ascending db =
     dir_list ascending (filter (\<lambda>p. in_range start end False (fst p)) (map (\<lambda>(key, node). (key, fn_value node)) (kv_entries (db_fast db))))"

definition unsavedFastNodesToSort :: "bytes option \<Rightarrow> bytes option \<Rightarrow> bool \<Rightarrow> (bytes, FastNode) kv \<Rightarrow> (bytes \<times> bytes) list" where
  "unsavedFastNodesToSort start end ascending adds =
     dir_list ascending (sort_key fst (map (\<lambda>(_, node). (fn_key node, fn_value node))
       (filter (\<lambda>(_, node). in_range start end False (fn_key node)) (kv_entries adds))))"

text \<open>\<open>UnsavedFastIterator\<close>: the current entry and what is left of both lists.\<close>

record UnsavedFastIterator =
  ui_next :: "(bytes \<times> bytes) option"
  ui_disk :: "(bytes \<times> bytes) list"
  ui_unsaved :: "(bytes \<times> bytes) list"

fun ui_Next :: "bool \<Rightarrow> (bytes, unit) kv \<Rightarrow> (bytes \<times> bytes) list \<Rightarrow> (bytes \<times> bytes) list \<Rightarrow> UnsavedFastIterator" where
  "ui_Next ascending rems (d # ds) (u # us) =
     (if kv_has rems (fst d) then ui_Next ascending rems ds (u # us)
      else if (if ascending then fst d \<ge> fst u else fst d \<le> fst u) then
        \<lparr>ui_next = Some u, ui_disk = (if fst d = fst u then ds else d # ds), ui_unsaved = us\<rparr>
      else \<lparr>ui_next = Some d, ui_disk = ds, ui_unsaved = u # us\<rparr>)"
| "ui_Next ascending rems (d # ds) [] =
     (if kv_has rems (fst d) then ui_Next ascending rems ds [] else \<lparr>ui_next = Some d, ui_disk = ds, ui_unsaved = []\<rparr>)"
| "ui_Next ascending rems [] (u # us) = \<lparr>ui_next = Some u, ui_disk = [], ui_unsaved = us\<rparr>"
| "ui_Next ascending rems [] [] = \<lparr>ui_next = None, ui_disk = [], ui_unsaved = []\<rparr>"

definition ui_Valid :: "bytes option \<Rightarrow> bytes option \<Rightarrow> UnsavedFastIterator \<Rightarrow> bool" where
  "ui_Valid start end iter \<longleftrightarrow>
     (case (start, end) of (Some a, Some b) \<Rightarrow> a < b | _ \<Rightarrow> True) \<and>
     (ui_disk iter \<noteq> [] \<or> ui_unsaved iter \<noteq> [] \<or> ui_next iter \<noteq> None)"

definition newUnsavedFastIterator :: "bytes option \<Rightarrow> bytes option \<Rightarrow> bool \<Rightarrow> nodeDB \<Rightarrow> fastNodeChanges \<Rightarrow> UnsavedFastIterator" where
  "newUnsavedFastIterator start end ascending db fnc =
     ui_Next ascending (removals fnc) (newFastIterator start end ascending db) (unsavedFastNodesToSort start end ascending (additions fnc))"

definition ui_weight :: "UnsavedFastIterator \<Rightarrow> nat" where
  "ui_weight iter = 2 * (length (ui_disk iter) + length (ui_unsaved iter)) + (if ui_next iter = None then 0 else 1)"

lemma ui_Next_weight:
  "ui_weight (ui_Next ascending rems ds us) \<le> 2 * (length ds + length us)"
  by (induction ascending rems ds us rule: ui_Next.induct) (auto simp: ui_weight_def)

lemma ui_Next_shrinks:
  "ds \<noteq> [] \<or> us \<noteq> [] \<Longrightarrow> ui_weight (ui_Next ascending rems ds us) < 2 * (length ds + length us)"
proof (induction ascending rems ds us rule: ui_Next.induct)
  case (2 ascending rems d ds)
  then show ?case using ui_Next_weight [of ascending rems ds "[]"] by (auto simp: ui_weight_def)
qed (auto simp: ui_weight_def)

text \<open>The loop \<open>for ; itr.Valid(); itr.Next()\<close>; a nil key and value would be empty.\<close>

function ui_entries :: "bytes option \<Rightarrow> bytes option \<Rightarrow> bool \<Rightarrow> (bytes, unit) kv \<Rightarrow> UnsavedFastIterator \<Rightarrow> (bytes \<times> bytes) list" where
  "ui_entries start end ascending rems iter =
     (if ui_Valid start end iter then
        (case ui_next iter of None \<Rightarrow> ([], []) | Some p \<Rightarrow> p)
          # ui_entries start end ascending rems (ui_Next ascending rems (ui_disk iter) (ui_unsaved iter))
      else [])"
  by pat_completeness auto

termination
proof (relation "measure (\<lambda>(_, _, _, _, iter). ui_weight iter)", goal_cases)
  case (2 start "end" ascending rems iter)
  then show ?case
    using ui_Next_shrinks [of "ui_disk iter" "ui_unsaved iter" ascending rems]
    by (cases "ui_disk iter = [] \<and> ui_unsaved iter = []") (auto simp: ui_Valid_def ui_weight_def)
qed simp

declare ui_entries.simps [simp del]

text \<open>The entries still to come: the current one, the unsaved ones, and those on disk that are neither changed nor removed.\<close>

definition ui_rest :: "(bytes, unit) kv \<Rightarrow> (bytes \<times> bytes) list \<Rightarrow> (bytes \<times> bytes) list \<Rightarrow> bytes \<Rightarrow> bytes option" where
  "ui_rest rems ds us x = (case map_of us x of Some v \<Rightarrow> Some v | None \<Rightarrow> if kv_has rems x then None else map_of ds x)"

definition ui_view :: "(bytes, unit) kv \<Rightarrow> UnsavedFastIterator \<Rightarrow> bytes \<Rightarrow> bytes option" where
  "ui_view rems iter = (case ui_next iter of None \<Rightarrow> ui_rest rems (ui_disk iter) (ui_unsaved iter)
     | Some p \<Rightarrow> (ui_rest rems (ui_disk iter) (ui_unsaved iter))(fst p \<mapsto> snd p))"

definition ui_lists_ok :: "bool \<Rightarrow> (bytes, unit) kv \<Rightarrow> (bytes \<times> bytes) list \<Rightarrow> (bytes \<times> bytes) list \<Rightarrow> bool" where
  "ui_lists_ok up rems ds us \<longleftrightarrow> sorted_wrt (dir_lt up) (map fst ds) \<and> sorted_wrt (dir_lt up) (map fst us) \<and> (\<forall>x \<in> fst ` set us. \<not> kv_has rems x)"

definition ui_ok :: "bool \<Rightarrow> (bytes, unit) kv \<Rightarrow> UnsavedFastIterator \<Rightarrow> bool" where
  "ui_ok up rems iter \<longleftrightarrow> ui_lists_ok up rems (ui_disk iter) (ui_unsaved iter) \<and>
     (case ui_next iter of None \<Rightarrow> ui_disk iter = [] \<and> ui_unsaved iter = []
      | Some p \<Rightarrow> \<forall>x. ui_rest rems (ui_disk iter) (ui_unsaved iter) x \<noteq> None \<longrightarrow> dir_lt up (fst p) x)"

lemma ui_rest_dom: "ui_rest rems ds us x \<noteq> None \<Longrightarrow> x \<in> fst ` set ds \<union> fst ` set us"
  by (auto simp: ui_rest_def map_of_eq_None_iff image_iff split: option.splits if_splits dest!: map_of_SomeD) force+

lemma ui_rest_skip: "kv_has rems (fst d) \<Longrightarrow> ui_rest rems (d # ds) us = ui_rest rems ds us"
  by (cases d) (auto simp: ui_rest_def fun_eq_iff split: option.splits)

lemma ui_ok_Some:
  assumes "ui_lists_ok up rems ds us" "\<And>x. x \<in> fst ` set ds \<union> fst ` set us \<Longrightarrow> dir_lt up (fst p) x"
  shows "ui_ok up rems \<lparr>ui_next = Some p, ui_disk = ds, ui_unsaved = us\<rparr>"
  using assms ui_rest_dom by (auto simp: ui_ok_def)

lemma ui_Next_ok:
  "ui_lists_ok up rems ds us \<Longrightarrow>
    ui_ok up rems (ui_Next up rems ds us) \<and> ui_view rems (ui_Next up rems ds us) = ui_rest rems ds us"
proof (induction up rems ds us rule: ui_Next.induct)
  case (1 up rems d ds u us)
  consider "kv_has rems (fst d)" | "\<not> kv_has rems (fst d)" "dir_lt up (fst d) (fst u)"
    | "\<not> kv_has rems (fst d)" "fst d = fst u" | "\<not> kv_has rems (fst d)" "dir_lt up (fst u) (fst d)"
    using dir_lt_linear by blast
  then show ?case
  proof cases
    case 1
    then show ?thesis using "1.IH" "1.prems" by (auto simp: ui_lists_ok_def ui_rest_skip)
  next
    case 2
    then have n: "ui_Next up rems (d # ds) (u # us) = \<lparr>ui_next = Some d, ui_disk = ds, ui_unsaved = u # us\<rparr>"
      by (auto simp: dir_lt_def split: if_splits)
    have "map_of (u # us) (fst d) = None" using 2 "1.prems" by (auto simp: ui_lists_ok_def map_of_eq_None_iff dest: dir_lt_trans)
    then show ?thesis unfolding n using 2 "1.prems"
      by (intro conjI ui_ok_Some) (auto simp: ui_lists_ok_def ui_view_def ui_rest_def fun_eq_iff dest: dir_lt_trans split: option.splits)
  next
    case 3
    then have n: "ui_Next up rems (d # ds) (u # us) = \<lparr>ui_next = Some u, ui_disk = ds, ui_unsaved = us\<rparr>" by simp
    show ?thesis unfolding n using 3 "1.prems"
      by (intro conjI ui_ok_Some) (auto simp: ui_lists_ok_def ui_view_def ui_rest_def fun_eq_iff split: option.splits)
  next
    case 4
    then have n: "ui_Next up rems (d # ds) (u # us) = \<lparr>ui_next = Some u, ui_disk = d # ds, ui_unsaved = us\<rparr>"
      by (auto simp: dir_lt_def split: if_splits)
    show ?thesis unfolding n using 4 "1.prems"
      by (intro conjI ui_ok_Some) (auto simp: ui_lists_ok_def ui_view_def ui_rest_def fun_eq_iff dest: dir_lt_trans split: option.splits)
  qed
next
  case (2 up rems d ds)
  then show ?case
    by (auto simp: ui_lists_ok_def ui_rest_skip ui_view_def ui_rest_def fun_eq_iff intro!: ui_ok_Some)
next
  case (3 up rems u us)
  then show ?case by (auto simp: ui_lists_ok_def ui_view_def ui_rest_def fun_eq_iff intro!: ui_ok_Some split: option.splits)
next
  case (4 up rems)
  then show ?case by (auto simp: ui_ok_def ui_view_def)
qed

definition ui_step :: "bytes option \<Rightarrow> bytes option \<Rightarrow> bool \<Rightarrow> (bytes, unit) kv \<Rightarrow> UnsavedFastIterator \<Rightarrow> ((bytes \<times> bytes) \<times> UnsavedFastIterator) option" where
  "ui_step start end up rems iter =
     (case ui_next iter of None \<Rightarrow> None | Some p \<Rightarrow> Some (p, ui_Next up rems (ui_disk iter) (ui_unsaved iter)))"

definition range_nonempty :: "bytes option \<Rightarrow> bytes option \<Rightarrow> bool" where
  "range_nonempty start end \<longleftrightarrow> (case (start, end) of (Some a, Some b) \<Rightarrow> a < b | _ \<Rightarrow> True)"

interpretation ui: ordered_iterator up "\<lambda>iter. ui_ok up rems iter \<and> range_nonempty start end" "ui_step start end up rems" ui_weight "ui_view rems"
  "ui_entries start end up rems" for up rems start "end"
proof (unfold_locales, goal_cases)
  case (1 iter k)
  then show ?case by (auto simp: ui_ok_def ui_step_def ui_view_def ui_rest_def split: option.splits)
next
  case (2 iter p iter')
  then show ?case using ui_Next_ok [of up rems "ui_disk iter" "ui_unsaved iter"] by (auto simp: ui_ok_def ui_step_def split: option.splits)
next
  case (3 iter p iter')
  then show ?case using ui_Next_weight [of up rems "ui_disk iter" "ui_unsaved iter"]
    by (auto simp: ui_step_def ui_weight_def split: option.splits)
next
  case (4 iter p iter')
  then show ?case using ui_Next_ok [of up rems "ui_disk iter" "ui_unsaved iter"]
    by (auto simp: ui_ok_def ui_step_def ui_view_def [of _ iter] split: option.splits)
next
  case (5 iter p iter' x)
  then show ?case using ui_Next_ok [of up rems "ui_disk iter" "ui_unsaved iter"] by (auto simp: ui_ok_def ui_step_def split: option.splits)
next
  case (6 iter)
  then show ?case by (subst ui_entries.simps) (auto simp: ui_step_def ui_ok_def ui_Valid_def range_nonempty_def split: option.splits)
qed

lemma newFastIterator_spec:
  "sorted_wrt (dir_lt up) (map fst (newFastIterator start end up db))"
  "map_of (newFastIterator start end up db) x = (if in_range start end False x then map_option fn_value (kv_get (db_fast db) x) else None)"
proof -
  let ?ps = "map (\<lambda>(key, node). (key, fn_value node)) (kv_entries (db_fast db))"
  have "map fst ?ps = map fst (kv_entries (db_fast db))" by auto
  then have a: "asc ?ps" using kvs.entries_asc [OF TrueI, of "db_fast db"] by (simp only: asc_def)
  then show "sorted_wrt (dir_lt up) (map fst (newFastIterator start end up db))" unfolding newFastIterator_def dir_sorted by simp
  have "map_of ?ps x = map_option fn_value (kv_get (db_fast db) x)" by (simp add: map_of_map kvs.look_entries [OF TrueI, of "db_fast db"])
  moreover have "distinct (map fst (filter (\<lambda>p. in_range start end False (fst p)) ?ps))" using a by (intro asc_distinct) simp
  ultimately show "map_of (newFastIterator start end up db) x = (if in_range start end False x then map_option fn_value (kv_get (db_fast db) x) else None)"
    unfolding newFastIterator_def by (simp only: map_of_dir_list map_of_filter_key)
qed

lemma unsavedFastNodesToSort_spec:
  assumes "\<And>key node. kv_get adds key = Some node \<Longrightarrow> fn_key node = key"
  shows "sorted_wrt (dir_lt up) (map fst (unsavedFastNodesToSort start end up adds))"
    "map_of (unsavedFastNodesToSort start end up adds) x = (if in_range start end False x then map_option fn_value (kv_get adds x) else None)"
proof -
  let ?es = "filter (\<lambda>p. in_range start end False (fst p)) (kv_entries adds)"
  let ?ps = "map (\<lambda>(key, node). (key, fn_value node)) ?es"
  have k: "\<forall>(key, node) \<in> set (kv_entries adds). fn_key node = key" using assms by (auto simp: kv_in_entries)
  have "filter (\<lambda>(_, node). in_range start end False (fn_key node)) (kv_entries adds) = ?es" using k by (intro filter_cong) auto
  moreover have "map (\<lambda>(_, node). (fn_key node, fn_value node)) ?es = ?ps" using k by auto
  moreover have "map fst ?ps = map fst ?es" by auto
  then have a: "asc ?ps" using asc_filter [OF kvs.entries_asc [OF TrueI, of adds]] by (simp only: asc_def)
  moreover have "sort_key fst ?ps = ?ps" using a by (simp add: asc_def strict_sorted_iff sorted_sort_id sort_key_id_if_sorted)
  ultimately have u: "unsavedFastNodesToSort start end up adds = dir_list up ?ps" by (simp only: unsavedFastNodesToSort_def)
  show "sorted_wrt (dir_lt up) (map fst (unsavedFastNodesToSort start end up adds))" unfolding u dir_sorted by (rule a)
  show "map_of (unsavedFastNodesToSort start end up adds) x = (if in_range start end False x then map_option fn_value (kv_get adds x) else None)"
    unfolding u map_of_dir_list [OF asc_distinct [OF a]] by (simp add: map_of_map map_of_filter_key kvs.look_entries [OF TrueI, of adds])
qed

text \<open>Iterating over fast nodes and unsaved changes is iterating over the map they stand for.\<close>

lemma ui_entries_exact:
  assumes "\<And>key node. kv_get (additions fnc) key = Some node \<Longrightarrow> fn_key node = key"
    "\<And>key. kv_has (removals fnc) key \<Longrightarrow> kv_get (additions fnc) key = None"
    "\<And>key. kv_get m key = (case fnc_get fnc key of Some node \<Rightarrow> map_option fn_value node | None \<Rightarrow> map_option fn_value (kv_get (db_fast db) key))"
  shows "ui_entries start end up (removals fnc) (newUnsavedFastIterator start end up db fnc) = range_list start end up False (kv_entries m)"
proof (cases "range_nonempty start end")
  case False
  then have "\<not> in_range start end False x" for x by (auto simp: range_nonempty_def in_range_def split: option.splits)
  then show ?thesis using False by (subst ui_entries.simps) (auto simp: ui_Valid_def range_nonempty_def range_list_def)
next
  case True
  note U = unsavedFastNodesToSort_spec [OF assms(1)] and D = newFastIterator_spec
  let ?us = "unsavedFastNodesToSort start end up (additions fnc)" and ?ds = "newFastIterator start end up db"
  let ?ps = "filter (\<lambda>p. in_range start end False (fst p)) (kv_entries m)"
  have us: "map_of ?us x = (if in_range start end False x then map_option fn_value (kv_get (additions fnc) x) else None)" for x by (rule U(2))
  have "x \<in> fst ` set ?us \<Longrightarrow> \<not> kv_has (removals fnc) x" for x
    using assms(2) [of x] us [of x] map_of_eq_None_iff [of ?us x] by (auto split: if_splits)
  then have "ui_lists_ok up (removals fnc) ?ds ?us" using U(1) D(1) by (simp add: ui_lists_ok_def)
  then have ok: "ui_ok up (removals fnc) (newUnsavedFastIterator start end up db fnc)"
    "ui_view (removals fnc) (newUnsavedFastIterator start end up db fnc) = ui_rest (removals fnc) ?ds ?us"
    unfolding newUnsavedFastIterator_def using ui_Next_ok by blast+
  have "ui_rest (removals fnc) ?ds ?us = map_of ?ps"
    by (auto simp: ui_rest_def us D(2) fun_eq_iff map_of_filter_key kvs.look_entries [OF TrueI, of m, symmetric] assms(3) fnc_get_def split: option.splits)
  moreover have "asc ?ps" by (simp add: kvs.entries_asc)
  ultimately show ?thesis unfolding range_list_dir using ui.collect_exact ok True by simp
qed

section \<open>The iterators of a tree\<close>

definition it_Iterator :: "IavlConfig \<Rightarrow> nodeDB \<Rightarrow> ImmutableTree \<Rightarrow> bytes option \<Rightarrow> bytes option \<Rightarrow> bool \<Rightarrow> (bytes \<times> bytes) list" where
  "it_Iterator cfg db t start end ascending =
     (if IsFastCacheEnabled cfg db t then
        ui_entries start end ascending kv_empty (newUnsavedFastIterator start end ascending db newFastNodeChanges)
      else Iterator_entries (it_root t) start end ascending)"

definition mt_Iterator :: "IavlConfig \<Rightarrow> MutableTree \<Rightarrow> bytes option \<Rightarrow> bytes option \<Rightarrow> bool \<Rightarrow> (bytes \<times> bytes) list" where
  "mt_Iterator cfg t start end ascending =
     (if IsFastCacheEnabled cfg (ndb t) (working t) then
        ui_entries start end ascending (removals (unsavedFastNodes t)) (newUnsavedFastIterator start end ascending (ndb t) (unsavedFastNodes t))
      else it_Iterator cfg (ndb t) (working t) start end ascending)"

lemma Iterator_entries_eq:
  "case r of None \<Rightarrow> True | Some n \<Rightarrow> node_ok n \<Longrightarrow> Iterator_entries r start end up = range_list start end up False (kv_entries (content r))"
proof (cases r)
  case None
  have "drain start end up [(None, True)] = []" by (subst drain.simps, subst Iterator_Next.simps) simp
  with None show ?thesis by (simp add: Iterator_entries_def newTraversal_def range_list_def)
next
  case (Some n)
  assume "case r of None \<Rightarrow> True | Some n \<Rightarrow> node_ok n"
  then show ?thesis using Some content_entries [of r]
    by (simp add: Iterator_entries_def newTraversal_def drain_eq pending_def)
qed

lemma latest_fast:
  assumes t: "tree_inv cfg i u N t" and "enableFastStorage cfg" "fastUpgraded (ndb t)"
  shows "kv_get (content (it_root (lastSaved t))) key = map_option fn_value (kv_get (db_fast (ndb t)) key)"
proof -
  have f: "fast_ok t" "versions_ok cfg t" using t assms(2) by (auto simp: tree_inv_def)
  then have "0 < version t" using assms(3) by (simp add: versions_ok_def)
  then have "kv_get (db_roots (ndb t)) (version t) = Some (it_root (lastSaved t))" using f(2) by (auto simp: versions_ok_def kv_has_def)
  then show ?thesis using f(1) unfolding fast_ok_def by (cases "kv_get (db_fast (ndb t)) key") auto
qed

lemma mt_Iterator_content:
  assumes t: "tree_inv cfg i u N t"
  shows "mt_Iterator cfg t start end up = range_list start end up False (kv_entries (content (root t)))"
proof (cases "IsFastCacheEnabled cfg (ndb t) (working t)")
  case True
  then have c: "changes_ok t" using t by (auto simp: IsFastCacheEnabled_def tree_inv_def)
  have last: "kv_get (content (it_root (lastSaved t))) key = map_option fn_value (kv_get (db_fast (ndb t)) key)" for key
    using latest_fast [OF t] True by (simp add: IsFastCacheEnabled_def)
  have "ui_entries start end up (removals (unsavedFastNodes t)) (newUnsavedFastIterator start end up (ndb t) (unsavedFastNodes t)) =
      range_list start end up False (kv_entries (content (root t)))"
    using c unfolding changes_ok_def last by (intro ui_entries_exact) blast+
  then show ?thesis using True by (simp add: mt_Iterator_def)
next
  case False
  then show ?thesis using Iterator_entries_eq [of "root t"] t
    by (auto simp: mt_Iterator_def it_Iterator_def working_def tree_inv_def root_ok_def split: option.splits)
qed

lemma it_Iterator_saved:
  assumes t: "tree_inv cfg i u N t" and r: "kv_get (db_roots (ndb t)) v = Some r"
  shows "it_Iterator cfg (ndb t) \<lparr>it_root = r, it_version = v\<rparr> start end up = range_list start end up False (kv_entries (content r))"
proof (cases "IsFastCacheEnabled cfg (ndb t) \<lparr>it_root = r, it_version = v\<rparr>")
  case True
  have v: "versions_ok cfg t" "0 \<le> version t" using t by (auto simp: tree_inv_def)
  then have "v = version t" using True getLatestVersion_eq(2) [OF v] by (simp add: IsFastCacheEnabled_def)
  then have "it_root (lastSaved t) = r" using v(1) r by (simp add: versions_ok_def)
  then have "kv_get (content r) key = map_option fn_value (kv_get (db_fast (ndb t)) key)" for key
    using latest_fast [OF t] True by (auto simp: IsFastCacheEnabled_def)
  then show ?thesis using True ui_entries_exact [of newFastNodeChanges "content r" "ndb t"]
    by (simp add: it_Iterator_def newFastNodeChanges_def kv_has_def fnc_get_def)
next
  case False
  have "root_ok N r" using t r by (auto simp: tree_inv_def)
  then show ?thesis using False Iterator_entries_eq [of r]
    by (auto simp: it_Iterator_def root_ok_def split: option.splits)
qed

section \<open>Properties\<close>

text \<open>C9: Any run of sets, removals, saves and rollbacks on a newly opened IAVL tree, with any initial or upgrade version and
  with or without fast storage, succeeds as long as the versions and the number of operations stay below 2 ^ 63, and
  refines an abstract versioned map: the tree has the size of the working map, its reads return what the map holds and its iterators
  hand out exactly the entries of a range in order; every saved version can be loaded and reads and iterates as
  the map had been when it was saved, and no other version exists.\<close>

theorem tree_run_refines:
  assumes "0 \<le> i" "u = -1 \<or> 1 \<le> u" "max 0 (max i u) + int (length ops) < 2 ^ 63"
  shows "\<exists>t. tree_run hash cfg ops (open_tree i u) = Inr t \<and>
    (let s = fold (vs_step (first_version i u)) ops vs_empty in
      version t = vs_version s \<and>
      it_Size (working t) = int (length (kv_entries (vs_work s))) \<and>
      (\<forall>key. mt_Get cfg t key = kv_get (vs_work s) key \<and> it_Has (working t) key = kv_has (vs_work s) key) \<and>
      (\<forall>start end up. mt_Iterator cfg t start end up = range_list start end up False (kv_entries (vs_work s))) \<and>
      (\<forall>v. case vs_hist s v of
             None \<Rightarrow> GetImmutable t v = Inl (Err ''version does not exist'')
           | Some m \<Rightarrow> (\<exists>it. GetImmutable t v = Inr it \<and> it_version it = v \<and>
               (\<forall>key. it_Get cfg (ndb t) it key = kv_get m key \<and> snd (GetWithIndex it key) = kv_get m key) \<and>
               (\<forall>start end up. it_Iterator cfg (ndb t) it start end up = range_list start end up False (kv_entries m)))))"
proof -
  obtain t where t: "tree_run hash cfg ops (open_tree i u) = Inr t" "tree_inv cfg i u (int (length ops)) t"
    "abs_tree t = fold (vs_step (first_version i u)) ops vs_empty"
    using tree_run_inv [OF open_tree_inv(1) _ assms(1,2), where ops = ops and hash = hash and cfg = cfg] assms(3) by (auto simp: open_tree_inv(2))
  define s where "s = abs_tree t"
  have s: "vs_work s = content (root t)" "vs_version s = version t" "\<And>v. vs_hist s v = map_option content (kv_get (db_roots (ndb t)) v)"
    by (simp_all add: s_def abs_tree_def)
  have N: "int (length ops) < 2 ^ 63" using assms(3) by linarith
  have ok: "case root t of None \<Rightarrow> True | Some n \<Rightarrow> node_ok n" using t(2) by (auto simp: tree_inv_def root_ok_def split: option.splits)
  have "it_Size (working t) = int (length (kv_entries (vs_work s)))"
    using ok by (auto simp: s it_Size_def working_def content_entries node_ok_size split: option.splits)
  moreover have "it_Has (working t) key = kv_has (vs_work s) key" for key
    using ok by (cases "root t") (simp_all add: s it_Has_def working_def kv_has_def content_get node_has_iff map_of_eq_None_iff del: not_None_eq)
  moreover have "snd (GetWithIndex \<lparr>it_root = r, it_version = v\<rparr> key) = kv_get (content r) key" if "kv_get (db_roots (ndb t)) v = Some r" for v r key
  proof -
    have "root_ok (int (length ops)) r" using t(2) that by (auto simp: tree_inv_def)
    then show ?thesis using N by (auto simp: GetWithIndex_def root_ok_def node_get_content split: option.splits)
  qed
  ultimately show ?thesis using t(1) mt_Get_content [OF t(2) N] mt_Iterator_content [OF t(2)] it_Get_saved [OF t(2) N] it_Iterator_saved [OF t(2)]
    unfolding t(3) [symmetric] s_def [symmetric] Let_def by (auto simp: s GetImmutable_def split: option.splits)
qed

theorem tree_run_refines_witness:
  "\<exists>t. tree_run (\<lambda>_. []) \<lparr>enableFastStorage = True, forceReadIavl = False, ignoreVersionCheck = False\<rparr>
      [OSet ''a'' ''1'', OSave, OSet ''b'' ''2'', ORemove ''a''] (open_tree 0 (-1)) = Inr t \<and>
    mt_Get \<lparr>enableFastStorage = True, forceReadIavl = False, ignoreVersionCheck = False\<rparr> t ''b'' = Some ''2'' \<and> version t = 1"
  using tree_run_refines [of 0 "-1" "[OSet ''a'' ''1'', OSave, OSet ''b'' ''2'', ORemove ''a'']" "\<lambda>_. []"
      "\<lparr>enableFastStorage = True, forceReadIavl = False, ignoreVersionCheck = False\<rparr>"]
  by (auto simp: Let_def vs_empty_def first_version_def)

text \<open>C13: The tree is balanced after every run: at every node the children differ by at most one in height, the recorded height and size are those
  of the subtree, an inner key is the least of its right subtree and keys ascend from left to right.  A tree with size
  s has height at most 2 log s, so the height, an 8-bit signed integer, stays below 126 and no arithmetic on heights and sizes wraps.\<close>

theorem tree_run_balanced:
  assumes "0 \<le> i" "u = -1 \<or> 1 \<le> u" "max 0 (max i u) + int (length ops) < 2 ^ 63"
    "tree_run hash cfg ops (open_tree i u) = Inr t" "root t = Some n"
  shows "node_ok n \<and> 2 ^ nat (node_height n) \<le> (node_size n)\<^sup>2 \<and> node_height n < 126 \<and> node_size n \<le> int (length ops)"
proof -
  have t: "tree_inv cfg i u (int (length ops)) t"
    using tree_run_inv [OF open_tree_inv(1) _ assms(1,2), where ops = ops and hash = hash and cfg = cfg] assms(3,4) by (auto simp: open_tree_inv(2))
  then have n: "node_ok n" "node_size n \<le> int (length ops)" using assms(5) by (auto simp: tree_inv_def root_ok_def)
  moreover have "node_size n < 2 ^ 63" using n(2) assms(3) by linarith
  ultimately show ?thesis using node_height_size [OF n(1)] node_height_small [OF n(1)] by blast
qed

theorem tree_run_balanced_witness:
  "\<exists>t n. tree_run (\<lambda>_. []) \<lparr>enableFastStorage = False, forceReadIavl = False, ignoreVersionCheck = False\<rparr>
      [OSet ''a'' ''1'', OSet ''b'' ''2''] (open_tree 0 (-1)) = Inr t \<and> root t = Some n \<and> node_ok n \<and> node_height n < 126"
proof -
  let ?cfg = "\<lparr>enableFastStorage = False, forceReadIavl = False, ignoreVersionCheck = False\<rparr>"
  let ?t = "(open_tree 0 (-1))\<lparr>root := Some (Inner ''b'' 1 2 1 (Leaf ''a'' ''1'' 1) (Leaf ''b'' ''2'' 1))\<rparr>"
  have run: "tree_run (\<lambda>_. []) ?cfg [OSet ''a'' ''1'', OSet ''b'' ''2''] (open_tree 0 (-1)) = Inr ?t"
    by (simp add: tree_run_def mt_Set_def open_tree_def NewMutableTree_def addUnsavedAddition_def NewNode_def wrap64_def Let_def)
  have "root ?t = Some (Inner ''b'' 1 2 1 (Leaf ''a'' ''1'' 1) (Leaf ''b'' ''2'' 1))" by simp
  from tree_run_balanced [OF _ _ _ run this] run show ?thesis by auto
qed

text \<open>C37: \<open>GetVersioned\<close> returns the value a saved version has for a nonempty key on both of its paths, but not the same index: for a key found
  in the fast storage it is the version of the last update instead of the position of the key.  For the empty key, which a tree can
  hold, it returns nothing at the latest version once the fast storage is in use.\<close>

theorem GetVersioned_paths:
  fixes cfg :: IavlConfig
  assumes "0 \<le> i" "u = -1 \<or> 1 \<le> u" "max 0 (max i u) + int (length ops) < 2 ^ 63"
    "tree_run hash cfg ops (open_tree i u) = Inr t" "GetImmutable t v = Inr it" "\<not> forceReadIavl cfg"
  shows "(key \<noteq> [] \<longrightarrow> snd (GetVersioned cfg t key v) = snd (GetWithIndex it key)) \<and>
    (\<not> enableFastStorage cfg \<longrightarrow> GetVersioned cfg t key v = GetWithIndex it key) \<and>
    (enableFastStorage cfg \<and> key \<noteq> [] \<and> v = version t \<and> snd (GetWithIndex it key) \<noteq> None \<longrightarrow>
       (\<exists>node. kv_get (db_fast (ndb t)) key = Some node \<and> fst (GetVersioned cfg t key v) = versionLastUpdatedAt node)) \<and>
    (enableFastStorage cfg \<and> v = version t \<longrightarrow> GetVersioned cfg t [] v = (-1, None))"
proof -
  have t: "tree_inv cfg i u (int (length ops)) t"
    using tree_run_inv [OF open_tree_inv(1) _ assms(1,2), where ops = ops and hash = hash and cfg = cfg] assms(3,4) by (auto simp: open_tree_inv(2))
  obtain r where r: "kv_get (db_roots (ndb t)) v = Some r" "it = \<lparr>it_root = r, it_version = v\<rparr>" using assms(5) by (auto simp: GetImmutable_def split: option.splits)
  have v: "versions_ok cfg t" "0 \<le> version t" using t by (auto simp: tree_inv_def)
  have ex: "VersionExists t v" "1 \<le> version t" using v(1) r(1) by (force simp: VersionExists_def versions_ok_def kv_has_def)+
  have slow: "snd (GetWithIndex it key) = kv_get (content r) key" for key
  proof -
    have "root_ok (int (length ops)) r" using t r(1) by (auto simp: tree_inv_def)
    then show ?thesis using assms(3) by (auto simp: r(2) GetWithIndex_def root_ok_def node_get_content split: option.splits)
  qed
  show ?thesis
  proof (cases "enableFastStorage cfg")
    case False
    then show ?thesis using ex assms(5) by (auto simp: GetVersioned_def Let_def IsFastCacheEnabled_def)
  next
    case True
    have f: "fast_ok t" "getLatestMemoryVersion (ndb t) = version t" "IsFastCacheEnabled cfg (ndb t) (working t)" "fastUpgraded (ndb t)"
      using True t v getLatestVersion_eq(2) [OF v] ex(2) by (auto simp: tree_inv_def IsFastCacheEnabled_def working_def versions_ok_def)
    have "kv_get (content r) key = None" if "kv_get (db_fast (ndb t)) key = None" "v = version t" for key
      using that f(1) r(1) v(1) by (auto simp: fast_ok_def versions_ok_def)
    moreover have "kv_get (content r) key = Some (fn_value node)" if "kv_get (db_fast (ndb t)) key = Some node" "versionLastUpdatedAt node \<le> v" for node key
      using that f(1) r(1) unfolding fast_ok_def by blast
    moreover have "versionLastUpdatedAt node \<le> version t" if "kv_get (db_fast (ndb t)) key = Some node" for node key
      using that f(1) unfolding fast_ok_def by blast
    ultimately show ?thesis using True f(2-4) ex assms(5,6) slow
      by (auto simp: GetVersioned_def Let_def GetFastNode_def split: option.splits)
  qed
qed

theorem GetVersioned_paths_witness:
  "\<exists>t it. tree_run (\<lambda>_. []) \<lparr>enableFastStorage = True, forceReadIavl = False, ignoreVersionCheck = False\<rparr>
      [OSet ''a'' ''1'', OSave] (open_tree 0 (-1)) = Inr t \<and> GetImmutable t 1 = Inr it \<and>
    GetWithIndex it ''a'' = (0, Some ''1'') \<and>
    GetVersioned \<lparr>enableFastStorage = True, forceReadIavl = False, ignoreVersionCheck = False\<rparr> t ''a'' 1 = (1, Some ''1'')"
proof -
  let ?cfg = "\<lparr>enableFastStorage = True, forceReadIavl = False, ignoreVersionCheck = False\<rparr>"
  obtain t where t: "tree_run (\<lambda>_. []) ?cfg [OSet ''a'' ''1'', OSave] (open_tree 0 (-1)) = Inr t"
    "GetImmutable t 1 = Inr \<lparr>it_root = Some (Leaf ''a'' ''1'' 1), it_version = 1\<rparr>" "version t = 1"
    "kv_get (db_fast (ndb t)) ''a'' = Some \<lparr>fn_key = ''a'', versionLastUpdatedAt = 1, fn_value = ''1''\<rparr>"
    by (simp add: tree_run_def mt_Set_def open_tree_def NewMutableTree_def addUnsavedAddition_def NewNode_def wrap64_def Let_def newNodeDB_def
        SaveVersion_def SaveVersionSync_def saveRoot_def getLatestVersion_def getPreviousVersion_def updateLatestVersion_def kv_has_def
        updateLatestMemoryVersion_def saveFastNodeVersion_def saveFastNodeAdditions_def saveFastNodeRemovals_def newFastNodeChanges_def
        NewFastNode_def GetImmutable_def kv_set.rep_eq kv_del.rep_eq del_list_def)
  have i: "GetWithIndex \<lparr>it_root = Some (Leaf ''a'' ''1'' 1), it_version = 1\<rparr> ''a'' = (0, Some ''1'')" by (simp add: GetWithIndex_def)
  have "snd (GetVersioned ?cfg t ''a'' 1) = Some ''1''" "fst (GetVersioned ?cfg t ''a'' 1) = 1"
    using GetVersioned_paths [OF _ _ _ t(1,2), where key = "''a''"] t(3,4) i by auto
  then show ?thesis using t(1,2) i by (auto simp: prod_eq_iff)
qed

end
