(* ===== verification/IAVLProof.thy ===== *)
theory IAVLProof
  imports IAVL
begin

text \<open>
  Merkle proofs of an IAVL tree (\<open>libs/iavl\<close>): the hash of a node (\<open>node.go\<close>), proof nodes and paths (\<open>proof.go\<close>,
  \<open>proof_path.go\<close>), range proofs, how they are made and verified (\<open>proof_range.go\<close>) and the two proof operators
  (\<open>proof_iavl_value.go\<close>, \<open>proof_iavl_absence.go\<close>).

  The hash function and the amino encoders are parameters.  \<open>hasher_ok\<close> is what the proofs rely on: encodings delimit themselves
  and the hash has no collision.  It is shown to hold of a concrete hasher in the witnesses.
\<close>

section \<open>Hashes\<close>

text \<open>\<open>tmhash.Sum\<close> and the \<open>amino\<close> encoders, code outside the repository.\<close>

record Hasher =
  tmhash :: "bytes \<Rightarrow> bytes"
  EncodeInt8 :: "int \<Rightarrow> bytes"
  EncodeVarint :: "int \<Rightarrow> bytes"
  EncodeByteSlice :: "bytes \<Rightarrow> bytes"

text \<open>The encoders write self-delimiting encodings, and no collision of the hash function is known.  A hash is not empty.\<close>

definition hasher_ok :: "Hasher \<Rightarrow> bool" where
  "hasher_ok H \<longleftrightarrow>
     (\<forall>a b. tmhash H a = tmhash H b \<longrightarrow> a = b) \<and> (\<forall>a. tmhash H a \<noteq> []) \<and>
     (\<forall>a b x y. EncodeInt8 H a @ x = EncodeInt8 H b @ y \<longrightarrow> a = b \<and> x = y) \<and>
     (\<forall>a b x y. EncodeVarint H a @ x = EncodeVarint H b @ y \<longrightarrow> a = b \<and> x = y) \<and>
     (\<forall>a b x y. EncodeByteSlice H a @ x = EncodeByteSlice H b @ y \<longrightarrow> a = b \<and> x = y)"

definition header_bytes :: "Hasher \<Rightarrow> int \<Rightarrow> int \<Rightarrow> int \<Rightarrow> bytes" where
  "header_bytes H height sz ver = EncodeInt8 H height @ EncodeVarint H sz @ EncodeVarint H ver"

primrec node_hash :: "Hasher \<Rightarrow> Node \<Rightarrow> bytes" where
  "node_hash H (Leaf k v ver) = tmhash H (header_bytes H 0 1 ver @ EncodeByteSlice H k @ EncodeByteSlice H (tmhash H v))"
| "node_hash H (Inner k h s ver l r) =
     tmhash H (header_bytes H h s ver @ EncodeByteSlice H (node_hash H l) @ EncodeByteSlice H (node_hash H r))"

section \<open>Proof nodes and paths\<close>

text \<open>A missing hash is the empty one.\<close>

record ProofInnerNode =
  pin_Height :: int
  pin_Size :: int
  pin_Version :: int
  pin_Left :: bytes
  pin_Right :: bytes

record ProofLeafNode =
  pln_Key :: bytes
  pln_ValueHash :: bytes
  pln_Version :: int

type_synonym PathToLeaf = "ProofInnerNode list"

definition pin_Hash :: "Hasher \<Rightarrow> ProofInnerNode \<Rightarrow> bytes \<Rightarrow> bytes res" where
  "pin_Hash H pin childHash =
     (let hdr = header_bytes H (pin_Height pin) (pin_Size pin) (pin_Version pin)
      in if pin_Left pin \<noteq> [] \<and> pin_Right pin \<noteq> [] then Inl (Panic ''both left and right child hashes are set'')
         else if pin_Left pin = [] then Inr (tmhash H (hdr @ EncodeByteSlice H childHash @ EncodeByteSlice H (pin_Right pin)))
         else Inr (tmhash H (hdr @ EncodeByteSlice H (pin_Left pin) @ EncodeByteSlice H childHash)))"

definition pln_Hash :: "Hasher \<Rightarrow> ProofLeafNode \<Rightarrow> bytes" where
  "pln_Hash H pln = tmhash H (header_bytes H 0 1 (pln_Version pln) @ EncodeByteSlice H (pln_Key pln) @ EncodeByteSlice H (pln_ValueHash pln))"

definition leaf_node :: "Hasher \<Rightarrow> bytes \<Rightarrow> bytes \<Rightarrow> int \<Rightarrow> ProofLeafNode" where
  "leaf_node H k v ver = \<lparr>pln_Key = k, pln_ValueHash = tmhash H v, pln_Version = ver\<rparr>"

text \<open>The path from the root, and the leaf it ends at: the one with the key or the last one before it, if any.\<close>

primrec PathToLeaf :: "Hasher \<Rightarrow> Node \<Rightarrow> bytes \<Rightarrow> PathToLeaf \<times> (bytes \<times> bytes \<times> int) \<times> bool" where
  "PathToLeaf H (Leaf k v ver) key = ([], (k, v, ver), k = key)"
| "PathToLeaf H (Inner k h s ver l r) key =
     (let goLeft = key < k;
          pin = \<lparr>pin_Height = h, pin_Size = s, pin_Version = ver,
                 pin_Left = (if goLeft then [] else node_hash H l), pin_Right = (if goLeft then node_hash H r else [])\<rparr>;
          (path, leaf, found) = (if goLeft then PathToLeaf H l key else PathToLeaf H r key)
      in (pin # path, leaf, found))"

text \<open>From the leaf up to the root, which is first in the path.\<close>

primrec path_computeRootHash :: "Hasher \<Rightarrow> PathToLeaf \<Rightarrow> bytes \<Rightarrow> bytes res" where
  "path_computeRootHash H [] leafHash = Inr leafHash"
| "path_computeRootHash H (pin # path) leafHash = rbind (path_computeRootHash H path leafHash) (pin_Hash H pin)"

definition isLeftmost :: "PathToLeaf \<Rightarrow> bool" where
  "isLeftmost path \<longleftrightarrow> (\<forall>pin \<in> set path. pin_Left pin = [])"

definition isRightmost :: "PathToLeaf \<Rightarrow> bool" where
  "isRightmost path \<longleftrightarrow> (\<forall>pin \<in> set path. pin_Right pin = [])"

section \<open>Range proofs\<close>

text \<open>A proof with its memoized root hash.\<close>

record RangeProof =
  LeftPath :: PathToLeaf
  InnerNodes :: "PathToLeaf list"
  proof_Leaves :: "ProofLeafNode list"
  rootHash :: "bytes option"
  rootVerified :: bool
  treeEnd :: bool

text \<open>The loop of \<open>COMPUTEHASH\<close> along a path, leaf-most node first: \<open>rec\<close> is the recursive call.  The results
  are the hash, whether the last leaf ends the tree, whether all leaves are proved, and what is left of both queues.\<close>

primrec prove_path :: "(PathToLeaf \<Rightarrow> bool \<Rightarrow> ProofLeafNode list \<Rightarrow> PathToLeaf list \<Rightarrow>
      (bytes \<times> bool \<times> bool \<times> ProofLeafNode list \<times> PathToLeaf list) res) \<Rightarrow> bytes \<Rightarrow> bool \<Rightarrow> PathToLeaf \<Rightarrow>
    ProofLeafNode list \<Rightarrow> PathToLeaf list \<Rightarrow> (bytes \<times> bool \<times> bool \<times> ProofLeafNode list \<times> PathToLeaf list) res" where
  "prove_path rec hash rightmost [] ls innersq = Inr (hash, False, False, ls, innersq)"
| "prove_path rec hash rightmost (lpath # rpath) ls innersq =
     (if pin_Right lpath = [] then prove_path rec hash rightmost rpath ls innersq
      else case innersq of
        [] \<Rightarrow> Inl (Panic ''index out of range'')
      | inners # rinnersq \<Rightarrow>
          rbind (rec inners (rightmost \<and> isRightmost rpath) ls rinnersq) (\<lambda>(derivedRoot, treeEnd, done, ls', innersq').
            if derivedRoot \<noteq> pin_Right lpath then Inl (Err ''intermediate root hash doesn't match'')
            else if done then Inr (hash, treeEnd, True, ls', innersq')
            else prove_path rec hash rightmost rpath ls' innersq'))"

text \<open>Every call takes one leaf, so the number of leaves bounds the depth of the recursion.\<close>

primrec COMPUTEHASH :: "Hasher \<Rightarrow> nat \<Rightarrow> PathToLeaf \<Rightarrow> bool \<Rightarrow> ProofLeafNode list \<Rightarrow> PathToLeaf list \<Rightarrow>
    (bytes \<times> bool \<times> bool \<times> ProofLeafNode list \<times> PathToLeaf list) res" where
  "COMPUTEHASH H 0 path rightmost ls innersq = Inl (Panic ''index out of range'')"
| "COMPUTEHASH H (Suc fuel) path rightmost ls innersq =
     (case ls of
        [] \<Rightarrow> Inl (Panic ''index out of range'')
      | nleaf # rleaves \<Rightarrow>
          rbind (path_computeRootHash H path (pln_Hash H nleaf)) (\<lambda>hash.
            if rleaves = [] then Inr (hash, rightmost \<and> isRightmost path, True, rleaves, innersq)
            else prove_path (COMPUTEHASH H fuel) hash rightmost (rev path) rleaves innersq))"

definition computeRootHash :: "Hasher \<Rightarrow> RangeProof \<Rightarrow> (bytes \<times> bool) res" where
  "computeRootHash H pr =
     (if proof_Leaves pr = [] then Inl (Err ''no leaves'')
      else if length (InnerNodes pr) + 1 \<noteq> length (proof_Leaves pr) then Inl (Err ''InnerNodes vs Leaves length mismatch, leaves should be 1 more.'')
      else rbind (COMPUTEHASH H (length (proof_Leaves pr)) (LeftPath pr) True (proof_Leaves pr) (InnerNodes pr)) (\<lambda>(root, treeEnd, done, _, _).
        if done then Inr (root, treeEnd) else Inl (Err ''left over leaves -- malformed proof'')))"

definition proof_Verify :: "Hasher \<Rightarrow> RangeProof \<Rightarrow> bytes \<Rightarrow> RangeProof res" where
  "proof_Verify H pr root =
     rbind (case rootHash pr of Some h \<Rightarrow> Inr (h, pr)
            | None \<Rightarrow> rbind (computeRootHash H pr) (\<lambda>(h, te). Inr (h, pr\<lparr>rootHash := Some h, treeEnd := te\<rparr>))) (\<lambda>(h, pr').
       if h \<noteq> root then Inl (Err ''root hash doesn't match'') else Inr (pr'\<lparr>rootVerified := True\<rparr>))"

text \<open>\<open>sort.Search\<close>: the least index from \<open>i\<close> below \<open>j\<close> at which \<open>f\<close> holds, if \<open>f\<close> is monotone.\<close>

function sort_Search :: "(nat \<Rightarrow> bool) \<Rightarrow> nat \<Rightarrow> nat \<Rightarrow> nat" where
  "sort_Search f i j = (if i < j then (let h = (i + j) div 2 in if \<not> f h then sort_Search f (h + 1) j else sort_Search f i h) else i)"
  by pat_completeness auto

termination by (relation "measure (\<lambda>(_, i, j). j - i)") auto

declare sort_Search.simps [simp del]

definition VerifyItem :: "Hasher \<Rightarrow> RangeProof \<Rightarrow> bytes \<Rightarrow> bytes \<Rightarrow> unit res" where
  "VerifyItem H pr key val =
     (if \<not> rootVerified pr then Inl (Err ''must call Verify(root) first'')
      else let ls = proof_Leaves pr; i = sort_Search (\<lambda>i. key \<le> pln_Key (ls ! i)) 0 (length ls)
           in if i \<ge> length ls \<or> pln_Key (ls ! i) \<noteq> key then Inl (Err ''leaf key not found in proof'')
              else if pln_ValueHash (ls ! i) \<noteq> tmhash H val then Inl (Err ''leaf value hash not same'')
              else Inr ())"

text \<open>The leaves after the first: one greater than the key proves its absence.\<close>

primrec absence_leaves :: "bytes \<Rightarrow> bool \<Rightarrow> ProofLeafNode list \<Rightarrow> unit res" where
  "absence_leaves key te [] = (if te then Inr () else Inl (Err ''absence not proved by right leaf''))"
| "absence_leaves key te (leaf # ls) =
     (if key < pln_Key leaf then Inr () else if key = pln_Key leaf then Inl (Err ''absence disproved'') else absence_leaves key te ls)"

definition VerifyAbsence :: "RangeProof \<Rightarrow> bytes \<Rightarrow> unit res" where
  "VerifyAbsence pr key =
     (if \<not> rootVerified pr then Inl (Err ''must call Verify(root) first'')
      else case proof_Leaves pr of
        [] \<Rightarrow> Inl (Panic ''index out of range'')
      | leaf # ls \<Rightarrow>
          if key < pln_Key leaf then (if isLeftmost (LeftPath pr) then Inr () else Inl (Err ''absence not proved by left path''))
          else if key = pln_Key leaf then Inl (Err ''absence disproved via first item #0'')
          else if LeftPath pr = [] \<or> isRightmost (LeftPath pr) then Inr ()
          else absence_leaves key (treeEnd pr) ls)"

text \<open>\<open>ValueOp.Run\<close> and \<open>AbsenceOp.Run\<close>: the root hash a proof leads to; the caller compares it.\<close>

definition op_root :: "Hasher \<Rightarrow> RangeProof \<Rightarrow> bytes" where
  "op_root H pr = (case computeRootHash H pr of Inr (h, _) \<Rightarrow> h | Inl _ \<Rightarrow> [])"

definition ValueOp_Run :: "Hasher \<Rightarrow> bytes \<Rightarrow> RangeProof \<Rightarrow> bytes list \<Rightarrow> bytes list res" where
  "ValueOp_Run H key pr args =
     (case args of
        [val] \<Rightarrow> rbind (proof_Verify H pr (op_root H pr)) (\<lambda>pr. rbind (VerifyItem H pr key val) (\<lambda>_. Inr [op_root H pr]))
      | _ \<Rightarrow> Inl (Err ''value size is not 1''))"

definition AbsenceOp_Run :: "Hasher \<Rightarrow> bytes \<Rightarrow> RangeProof option \<Rightarrow> bytes list \<Rightarrow> bytes list res" where
  "AbsenceOp_Run H key pr args =
     (if args \<noteq> [] then Inl (Err ''expected 0 args'')
      else case pr of
        None \<Rightarrow> Inr [[]]
      | Some pr \<Rightarrow> rbind (proof_Verify H pr (op_root H pr)) (\<lambda>pr. rbind (VerifyAbsence pr key) (\<lambda>_. Inr [op_root H pr])))"

section \<open>Making proofs\<close>

text \<open>\<open>cpIncr\<close>: the next byte string of the same length, or one longer after the last of them.\<close>

fun incr_bytes :: "bytes \<Rightarrow> bytes option" where
  "incr_bytes [] = None"
| "incr_bytes (b # bs) =
     (case incr_bytes bs of
        Some bs' \<Rightarrow> Some (b # bs')
      | None \<Rightarrow> if of_char b < (255 :: nat) then Some (char_of (of_char b + 1 :: nat) # replicate (length bs) (char_of (0 :: nat))) else None)"

definition cpIncr :: "bytes \<Rightarrow> bytes" where
  "cpIncr bz = (case incr_bytes bz of Some bz' \<Rightarrow> bz' | None \<Rightarrow> bz @ [char_of (0 :: nat)])"

record RangeState =
  allPathToLeafs :: "PathToLeaf list"
  currentPathToLeaf :: PathToLeaf
  rs_leaves :: "ProofLeafNode list"
  rs_entries :: "(bytes \<times> bytes) list"
  leafCount :: int
  pathCount :: int

definition track_path :: "Hasher \<Rightarrow> PathToLeaf \<Rightarrow> Node \<Rightarrow> int \<Rightarrow> int" where
  "track_path H path node count =
     (if count = -1 then -1
      else if int (length path) \<le> count then -1
      else let pn = path ! nat count;
               lh = (case node of Leaf _ _ _ \<Rightarrow> [] | Inner _ _ _ _ l r \<Rightarrow> node_hash H l);
               rh = (case node of Leaf _ _ _ \<Rightarrow> [] | Inner _ _ _ _ l r \<Rightarrow> node_hash H r)
           in if pin_Height pn \<noteq> node_height node \<or> pin_Left pn \<noteq> [] \<and> pin_Left pn \<noteq> lh \<or> pin_Right pn \<noteq> [] \<and> pin_Right pn \<noteq> rh
              then -1 else count + 1)"

definition range_cb :: "Hasher \<Rightarrow> PathToLeaf \<Rightarrow> bytes option \<Rightarrow> int \<Rightarrow> Node \<Rightarrow> nat \<Rightarrow> RangeState \<Rightarrow> bool \<times> RangeState" where
  "range_cb H path keyEnd limit node depth st0 =
     (let st = st0\<lparr>pathCount := track_path H path node (pathCount st0)\<rparr> in
      case node of
        Leaf k v ver \<Rightarrow>
          let st1 = st\<lparr>allPathToLeafs := allPathToLeafs st @ [currentPathToLeaf st], currentPathToLeaf := [],
                rs_leaves := rs_leaves st @ [leaf_node H k v ver], leafCount := leafCount st + 1\<rparr>;
              st2 = st1\<lparr>rs_entries := rs_entries st1 @ [(k, v)]\<rparr>
          in if 0 < limit \<and> limit \<le> leafCount st1 then (True, st1)
             else if (case keyEnd of None \<Rightarrow> False | Some e \<Rightarrow> k \<ge> e) then (True, st1)
             else ((case keyEnd of None \<Rightarrow> False | Some e \<Rightarrow> cpIncr k \<ge> e), st2)
      | Inner k h s ver l r \<Rightarrow>
          (False, if pathCount st < 0 then
             st\<lparr>currentPathToLeaf := currentPathToLeaf st @
                [\<lparr>pin_Height = h, pin_Size = s, pin_Version = ver, pin_Left = [], pin_Right = node_hash H r\<rparr>]\<rparr>
           else st))"

definition new_proof :: "PathToLeaf \<Rightarrow> PathToLeaf list \<Rightarrow> ProofLeafNode list \<Rightarrow> RangeProof" where
  "new_proof path inners ls =
     \<lparr>LeftPath = path, InnerNodes = inners, proof_Leaves = ls, rootHash = None, rootVerified = False, treeEnd = False\<rparr>"

text \<open>The proof, none for an empty tree, and the entries in the range.\<close>

definition getRangeProof :: "Hasher \<Rightarrow> Node option \<Rightarrow> bytes option \<Rightarrow> bytes option \<Rightarrow> int \<Rightarrow> (RangeProof option \<times> (bytes \<times> bytes) list) res" where
  "getRangeProof H t keyStart keyEnd limit =
     (if (case (keyStart, keyEnd) of (Some a, Some b) \<Rightarrow> a \<ge> b | _ \<Rightarrow> False) then Inl (Panic ''need keyStart < keyEnd'')
      else if limit < 0 then Inl (Panic ''limit must be greater or equal to 0'')
      else case t of
        None \<Rightarrow> Inr (None, [])
      | Some n \<Rightarrow>
          let (path, (lk, lv, lver), found) = PathToLeaf H n (case keyStart of None \<Rightarrow> [] | Some a \<Rightarrow> a);
              startOK = (case keyStart of None \<Rightarrow> True | Some a \<Rightarrow> a \<le> lk);
              endOK = (case keyEnd of None \<Rightarrow> True | Some b \<Rightarrow> lk < b);
              es = (if startOK \<and> endOK then [(lk, lv)] else []);
              ls = [leaf_node H lk lv lver];
              stop = (limit = 1 \<or> (case keyEnd of None \<Rightarrow> False | Some b \<Rightarrow> cpIncr lk \<ge> b))
          in if stop then Inr (Some (new_proof path [] ls), es)
             else let (_, st) = traverseInRange n (Some (cpIncr lk)) None True False 0 False (range_cb H path keyEnd limit)
                        \<lparr>allPathToLeafs = [], currentPathToLeaf = [], rs_leaves = ls, rs_entries = es, leafCount = 1, pathCount = 0\<rparr>
                  in Inr (Some (new_proof path (allPathToLeafs st) (rs_leaves st)), rs_entries st))"

definition GetWithProof :: "Hasher \<Rightarrow> Node option \<Rightarrow> bytes \<Rightarrow> (bytes option \<times> RangeProof option) res" where
  "GetWithProof H t key =
     rbind (getRangeProof H t (Some key) (Some (cpIncr key)) 2) (\<lambda>(pr, es).
       case (es, pr) of
         ((k, v) # _, Some p) \<Rightarrow> Inr (if pln_Key (hd (proof_Leaves p)) = key then Some v else None, pr)
       | _ \<Rightarrow> Inr (None, pr))"

section \<open>Soundness\<close>

lemma hasherD:
  assumes "hasher_ok H"
  shows "tmhash H a = tmhash H b \<Longrightarrow> a = b"
    "EncodeInt8 H i @ x = EncodeInt8 H j @ y \<Longrightarrow> i = j \<and> x = y"
    "EncodeVarint H i @ x = EncodeVarint H j @ y \<Longrightarrow> i = j \<and> x = y"
    "EncodeByteSlice H a @ x = EncodeByteSlice H b @ y \<Longrightarrow> a = b \<and> x = y"
  using assms unfolding hasher_ok_def by iprover+

lemma hasher_hash: "hasher_ok H \<Longrightarrow> tmhash H a = tmhash H b \<longleftrightarrow> a = b"
  by (auto dest: hasherD(1))

lemma hasher_ints:
  "hasher_ok H \<Longrightarrow> EncodeInt8 H i @ x = EncodeInt8 H j @ y \<longleftrightarrow> i = j \<and> x = y"
  "hasher_ok H \<Longrightarrow> EncodeVarint H i @ x = EncodeVarint H j @ y \<longleftrightarrow> i = j \<and> x = y"
  using hasherD(2,3) [of H] by iprover+

lemma hasher_header: "hasher_ok H \<Longrightarrow> header_bytes H a b c @ x = header_bytes H a' b' c' @ y \<longleftrightarrow> a = a' \<and> b = b' \<and> c = c' \<and> x = y"
  unfolding header_bytes_def append_assoc by (simp add: hasher_ints)

lemma hasher_slice: "hasher_ok H \<Longrightarrow> EncodeByteSlice H a @ x = EncodeByteSlice H b @ y \<longleftrightarrow> a = b \<and> x = y"
  using hasherD(4) [of H] by iprover

lemma hasher_slice1: "hasher_ok H \<Longrightarrow> EncodeByteSlice H a = EncodeByteSlice H b \<longleftrightarrow> a = b"
  using hasher_slice [of H a "[]" b "[]"] by simp

lemma hasher_nonempty: "hasher_ok H \<Longrightarrow> node_hash H n \<noteq> []"
  by (cases n) (simp_all add: hasher_ok_def)

lemmas hasher_simps = hasher_hash hasher_header hasher_slice hasher_slice1

text \<open>A leaf of a proof is in a tree if the tree has its key, with a value of that hash.\<close>

definition proves :: "Hasher \<Rightarrow> ProofLeafNode \<Rightarrow> Node \<Rightarrow> bool" where
  "proves H leaf n \<longleftrightarrow> (\<exists>v. (pln_Key leaf, v) \<in> set (leaves n) \<and> tmhash H v = pln_ValueHash leaf)"

definition inner_heights :: "PathToLeaf \<Rightarrow> bool" where
  "inner_heights path \<longleftrightarrow> (\<forall>pin \<in> set path. pin_Height pin \<noteq> 0)"

lemma node_ok_height: "node_ok (Inner k h s ver l r) \<Longrightarrow> 1 \<le> h"
  using node_height_nonneg [of l] by auto

lemma pin_Hash_node:
  assumes "hasher_ok H" "node_ok n" "pin_Height pin \<noteq> 0" "pin_Hash H pin child = Inr (node_hash H n)"
  obtains k h s ver l r where "n = Inner k h s ver l r"
    "pin_Left pin = [] \<and> child = node_hash H l \<and> pin_Right pin = node_hash H r \<or>
     pin_Right pin = [] \<and> child = node_hash H r \<and> pin_Left pin = node_hash H l"
proof (cases n)
  case (Leaf k v ver)
  then show ?thesis using assms(1,3,4) by (simp add: pin_Hash_def Let_def hasher_simps split: if_splits)
next
  case (Inner k h s ver l r)
  then show ?thesis using assms(1,4) that [OF Inner] by (simp add: pin_Hash_def Let_def hasher_simps split: if_splits)
qed

lemma pln_Hash_node:
  assumes "hasher_ok H" "node_ok n" "pln_Hash H leaf = node_hash H n"
  shows "proves H leaf n"
proof (cases n)
  case (Leaf k v ver)
  then show ?thesis using assms(1,3) by (simp add: pln_Hash_def hasher_simps proves_def)
next
  case (Inner k h s ver l r)
  then have "h = 0" using assms(1,3) by (simp add: pln_Hash_def hasher_simps)
  then show ?thesis using assms(2) node_ok_height unfolding Inner by fastforce
qed

text \<open>Along a path that leads to the hash of a tree: its end is the hash of a subtree, and so are the hashes to the right.\<close>

lemma path_sound:
  assumes "hasher_ok H"
  shows "node_ok n \<Longrightarrow> inner_heights path \<Longrightarrow> path_computeRootHash H path h = Inr (node_hash H n) \<Longrightarrow>
    (\<exists>m. node_ok m \<and> set (leaves m) \<subseteq> set (leaves n) \<and> h = node_hash H m) \<and>
    (\<forall>pin \<in> set path. pin_Right pin \<noteq> [] \<longrightarrow> (\<exists>m. node_ok m \<and> set (leaves m) \<subseteq> set (leaves n) \<and> pin_Right pin = node_hash H m))"
proof (induction path arbitrary: n)
  case (Cons pin path)
  obtain c where c: "path_computeRootHash H path h = Inr c" "pin_Hash H pin c = Inr (node_hash H n)" using Cons.prems(3) by auto
  have ht: "pin_Height pin \<noteq> 0" "inner_heights path" using Cons.prems(2) by (auto simp: inner_heights_def)
  obtain k hh s ver l r where n: "n = Inner k hh s ver l r"
    "pin_Left pin = [] \<and> c = node_hash H l \<and> pin_Right pin = node_hash H r \<or>
     pin_Right pin = [] \<and> c = node_hash H r \<and> pin_Left pin = node_hash H l"
    by (rule pin_Hash_node [OF assms Cons.prems(1) ht(1) c(2)])
  have ok: "node_ok l" "node_ok r" using Cons.prems(1) n(1) by auto
  from n(2) show ?case
  proof
    assume "pin_Left pin = [] \<and> c = node_hash H l \<and> pin_Right pin = node_hash H r"
    then show ?thesis using Cons.IH [OF ok(1) ht(2)] c(1) ok n(1) by fastforce
  next
    assume "pin_Right pin = [] \<and> c = node_hash H r \<and> pin_Left pin = node_hash H l"
    then show ?thesis using Cons.IH [OF ok(2) ht(2)] c(1) ok n(1) by fastforce
  qed
qed auto

text \<open>What a part of the computation has used from both queues, if it led to the hash of a tree.\<close>

definition consumed :: "Hasher \<Rightarrow> Node \<Rightarrow> bool \<Rightarrow> ProofLeafNode list \<Rightarrow> PathToLeaf list \<Rightarrow> ProofLeafNode list \<Rightarrow> PathToLeaf list \<Rightarrow> bool" where
  "consumed H n done ls q ls' q' \<longleftrightarrow>
     (\<exists>used. ls = used @ ls' \<and> (\<forall>leaf \<in> set used. proves H leaf n)) \<and> set q' \<subseteq> set q \<and> (done \<longrightarrow> ls' = [])"

lemma proves_mono: "proves H leaf m \<Longrightarrow> set (leaves m) \<subseteq> set (leaves n) \<Longrightarrow> proves H leaf n"
  by (auto simp: proves_def)

lemma consumed_mono: "consumed H m done ls q ls' q' \<Longrightarrow> set (leaves m) \<subseteq> set (leaves n) \<Longrightarrow> set q \<subseteq> set q2 \<Longrightarrow> consumed H n done ls q2 ls' q'"
  unfolding consumed_def using proves_mono by (metis subset_trans)

lemma consumed_trans: "consumed H n d1 ls q ls1 q1 \<Longrightarrow> consumed H n d2 ls1 q1 ls2 q2 \<Longrightarrow> consumed H n d2 ls q ls2 q2"
  unfolding consumed_def by (metis append.assoc set_append Un_iff subset_trans)

lemma prove_path_hash: "prove_path rec hash rm path ls q = Inr (h, res) \<Longrightarrow> h = hash"
  by (induction path arbitrary: ls q) (auto split: if_splits list.splits)

lemma prove_path_sound:
  assumes rec: "\<And>inners rm ls q h te done ls' q' m. rec inners rm ls q = Inr (h, te, done, ls', q') \<Longrightarrow> inner_heights inners \<Longrightarrow>
      \<forall>p \<in> set q. inner_heights p \<Longrightarrow> node_ok m \<Longrightarrow> h = node_hash H m \<Longrightarrow> consumed H m done ls q ls' q'"
    and right: "\<forall>pin \<in> set path. pin_Right pin \<noteq> [] \<longrightarrow> (\<exists>m. node_ok m \<and> set (leaves m) \<subseteq> set (leaves n) \<and> pin_Right pin = node_hash H m)"
    and run: "prove_path rec hash rm path ls q = Inr (h, te, done, ls', q')" and q: "\<forall>p \<in> set q. inner_heights p"
  shows "consumed H n done ls q ls' q'"
  using right run q
proof (induction path arbitrary: ls q)
  case (Cons pin path)
  show ?case
  proof (cases "pin_Right pin = []")
    case True
    then show ?thesis using Cons by simp
  next
    case False
    then obtain inners rq root te1 done1 ls1 q1 where c: "q = inners # rq" "rec inners (rm \<and> isRightmost path) ls rq = Inr (root, te1, done1, ls1, q1)"
      "root = pin_Right pin" "if done1 then (h, te, done, ls', q') = (hash, te1, True, ls1, q1) else prove_path rec hash rm path ls1 q1 = Inr (h, te, done, ls', q')"
      using Cons.prems(2) by (cases q) (auto split: if_splits)
    obtain m where m: "node_ok m" "set (leaves m) \<subseteq> set (leaves n)" "pin_Right pin = node_hash H m" using Cons.prems(1) False by auto
    have "consumed H m done1 ls rq ls1 q1" using rec [OF c(2)] c(1,3) m Cons.prems(3) by auto
    then have u: "consumed H n done1 ls q ls1 q1" by (rule consumed_mono) (use m(2) c(1) in auto)
    show ?thesis
    proof (cases done1)
      case True
      then show ?thesis using c(4) u by simp
    next
      case False
      have "\<forall>p \<in> set q1. inner_heights p" using u Cons.prems(3) by (auto simp: consumed_def)
      then have "consumed H n done ls1 q1 ls' q'" using Cons.IH Cons.prems(1) c(4) False by auto
      then show ?thesis by (rule consumed_trans [OF u])
    qed
  qed
qed (auto simp: consumed_def)

lemma COMPUTEHASH_sound:
  assumes H: "hasher_ok H"
  shows "COMPUTEHASH H fuel path rm ls q = Inr (h, te, done, ls', q') \<Longrightarrow> inner_heights path \<Longrightarrow>
    \<forall>p \<in> set q. inner_heights p \<Longrightarrow> node_ok n \<Longrightarrow> h = node_hash H n \<Longrightarrow> consumed H n done ls q ls' q'"
proof (induction fuel arbitrary: path rm ls q h te "done" ls' q' n)
  case (Suc fuel)
  obtain leaf rls where ls: "ls = leaf # rls" using Suc.prems(1) by (cases ls) auto
  then obtain hash where c: "path_computeRootHash H path (pln_Hash H leaf) = Inr hash"
    "rls = [] \<Longrightarrow> h = hash \<and> done \<and> ls' = [] \<and> q' = q"
    "rls \<noteq> [] \<Longrightarrow> prove_path (COMPUTEHASH H fuel) hash rm (rev path) rls q = Inr (h, te, done, ls', q')"
    using Suc.prems(1) by (cases "rls = []") auto
  have "h = hash" using c(2) prove_path_hash [OF c(3)] by blast
  then have "path_computeRootHash H path (pln_Hash H leaf) = Inr (node_hash H n)" using c(1) Suc.prems(5) by simp
  note ps = path_sound [OF H Suc.prems(4,2) this]
  then obtain m where "node_ok m" "set (leaves m) \<subseteq> set (leaves n)" "pln_Hash H leaf = node_hash H m" by auto
  then have leaf: "proves H leaf n" using pln_Hash_node [OF H] proves_mono by blast
  show ?case
  proof (cases "rls = []")
    case True
    then show ?thesis using c(2) ls leaf by (auto simp: consumed_def)
  next
    case False
    have "\<forall>pin \<in> set (rev path). pin_Right pin \<noteq> [] \<longrightarrow> (\<exists>m. node_ok m \<and> set (leaves m) \<subseteq> set (leaves n) \<and> pin_Right pin = node_hash H m)"
      using ps by simp
    moreover have "prove_path (COMPUTEHASH H fuel) hash rm (rev path) rls q = Inr (h, te, done, ls', q')" using c(3) False by simp
    ultimately have "consumed H n done rls q ls' q'" using Suc.prems(3) by (rule prove_path_sound [rotated 1]) (rule Suc.IH)
    then show ?thesis using ls leaf unfolding consumed_def by (metis append_Cons set_ConsD)
  qed
qed simp

section \<open>Single-leaf proofs\<close>

lemma computeRootHash_single:
  assumes "path_computeRootHash H path (pln_Hash H leaf) = Inr h"
  shows "computeRootHash H (new_proof path [] [leaf]) = Inr (h, isRightmost path)"
  using assms by (simp add: computeRootHash_def new_proof_def)

lemma proof_Verify_new:
  "computeRootHash H (new_proof path q ls) = Inr (h, te) \<Longrightarrow>
    proof_Verify H (new_proof path q ls) h = Inr ((new_proof path q ls)\<lparr>rootHash := Some h, treeEnd := te, rootVerified := True\<rparr>)"
  by (simp add: proof_Verify_def new_proof_def computeRootHash_def)

lemma VerifyItem_single:
  "VerifyItem H ((new_proof path [] [leaf])\<lparr>rootHash := Some h, treeEnd := te, rootVerified := True\<rparr>) (pln_Key leaf) val =
     (if pln_ValueHash leaf = tmhash H val then Inr () else Inl (Err ''leaf value hash not same''))"
proof -
  have "sort_Search (\<lambda>i. pln_Key leaf \<le> pln_Key ([leaf] ! i)) 0 (Suc 0) = 0"
    by (subst sort_Search.simps, simp, subst sort_Search.simps, simp)
  then show ?thesis by (simp add: VerifyItem_def new_proof_def Let_def)
qed

lemma PathToLeaf_hash:
  assumes "\<And>a. tmhash H a \<noteq> []"
  shows "PathToLeaf H n key = (path, (k, v, ver), found) \<Longrightarrow> path_computeRootHash H path (pln_Hash H (leaf_node H k v ver)) = Inr (node_hash H n)"
proof (induction n arbitrary: path)
  case (Leaf k v ver)
  then show ?case by (auto simp: pln_Hash_def leaf_node_def)
next
  case (Inner k h s ver l r)
  have ne: "node_hash H m \<noteq> []" for m using assms by (cases m) auto
  show ?case using Inner ne by (cases "key < k") (auto simp: pin_Hash_def Let_def split: prod.splits)
qed

lemma PathToLeaf_leaf: "node_ok n \<Longrightarrow> PathToLeaf H n key = (path, (k, v, ver), found) \<Longrightarrow> (k, v) \<in> set (leaves n) \<and> (found \<longleftrightarrow> k = key)"
  by (induction n arbitrary: path) (auto simp: Let_def split: prod.splits if_splits)

lemma PathToLeaf_found:
  "node_ok n \<Longrightarrow> PathToLeaf H n key = (path, (k, v, ver), found) \<Longrightarrow> key \<in> fst ` set (leaves n) \<Longrightarrow> k = key"
proof (induction n arbitrary: path)
  case (Inner nk h s ver' l r)
  have m: "\<forall>x \<in> fst ` set (leaves l). x < nk" "\<forall>x \<in> fst ` set (leaves r). nk \<le> x" "node_ok l" "node_ok r" using Inner.prems(1) by auto
  show ?case
  proof (cases "key < nk")
    case True
    then have "key \<in> fst ` set (leaves l)" using Inner.prems(3) m(2) by auto
    then show ?thesis using Inner.IH(1) [OF m(3)] Inner.prems(2) True by (auto simp: Let_def split: prod.splits)
  next
    case False
    then have "key \<in> fst ` set (leaves r)" using Inner.prems(3) m(1) by auto
    then show ?thesis using Inner.IH(2) [OF m(4)] Inner.prems(2) False by (auto simp: Let_def split: prod.splits)
  qed
qed auto

lemma incr_bytes_less: "incr_bytes bz = Some bz' \<Longrightarrow> bz < bz'"
proof (induction bz arbitrary: bz')
  case (Cons b bs)
  show ?case
  proof (cases "incr_bytes bs")
    case None
    then have "b < char_of (of_char b + 1 :: nat)" "of_char b < (255 :: nat)" using Cons.prems
      by (auto simp: less_char_def split: if_splits)
    then show ?thesis using None Cons.prems by auto
  next
    case (Some bs')
    then show ?thesis using Cons by auto
  qed
qed simp

lemma less_cpIncr: "bz < cpIncr bz"
proof (cases "incr_bytes bz")
  case None
  have "bz < bz @ [c]" for c by (induction bz) auto
  with None show ?thesis by (simp add: cpIncr_def less_char_def)
qed (simp add: cpIncr_def incr_bytes_less)

section \<open>A concrete hasher\<close>

text \<open>Numbers in unary after a sign, byte strings after their length; the hash keeps its input.\<close>

definition unary :: "nat \<Rightarrow> bytes" where
  "unary k = replicate k CHR ''a'' @ ''b''"

definition unary_hasher :: Hasher where
  "unary_hasher = \<lparr>tmhash = (\<lambda>a. CHR ''h'' # a),
     EncodeInt8 = (\<lambda>i. (if i < 0 then CHR ''n'' else CHR ''p'') # unary (nat \<bar>i\<bar>)),
     EncodeVarint = (\<lambda>i. (if i < 0 then CHR ''n'' else CHR ''p'') # unary (nat \<bar>i\<bar>)),
     EncodeByteSlice = (\<lambda>a. unary (length a) @ a)\<rparr>"

lemma unary_prefix: "unary j @ x = unary k @ y \<Longrightarrow> j = k \<and> x = y"
proof (induction j arbitrary: k)
  case 0
  then show ?case by (cases k) (auto simp: unary_def)
next
  case (Suc j)
  then show ?case by (cases k) (auto simp: unary_def)
qed

lemma unary_hasher_ok: "hasher_ok unary_hasher"
proof -
  have 1: "(if i < 0 then CHR ''n'' else CHR ''p'') # unary (nat \<bar>i\<bar>) @ x = (if j < 0 then CHR ''n'' else CHR ''p'') # unary (nat \<bar>j\<bar>) @ y
      \<Longrightarrow> i = j \<and> x = y" for i j x y
    using unary_prefix [of "nat \<bar>i\<bar>" x "nat \<bar>j\<bar>" y] by (auto split: if_splits)
  have 2: "unary (length a) @ a @ x = unary (length b) @ b @ y \<Longrightarrow> a = b \<and> x = y" for a b x y
    using unary_prefix [of "length a" "a @ x" "length b" "b @ y"] by auto
  show ?thesis unfolding hasher_ok_def unary_hasher_def Hasher.simps append_Cons append_assoc
    by (intro conjI allI impI) (erule 1 [THEN conjunct1] 1 [THEN conjunct2] 2 [THEN conjunct1] 2 [THEN conjunct2] | simp only: list.inject list.distinct not_False_eq_True)+
qed

lemma unary_hasher_nonempty: "tmhash unary_hasher a \<noteq> []"
  by (simp add: unary_hasher_def)

section \<open>Properties\<close>

text \<open>C10: A range proof that verifies against the root hash of a balanced tree is sound for membership: if \<open>VerifyItem\<close> accepts a key and a
  value for it, the tree holds that value under the key.  This needs a collision-free hash, self-delimiting encodings and that no
  inner node of the proof claims to have height 0, which the code does not check.\<close>

theorem VerifyItem_sound:
  assumes "hasher_ok H" "node_ok n" "rootHash pr = None" "node_size n < 2 ^ 63"
    "\<forall>path \<in> set (LeftPath pr # InnerNodes pr). \<forall>pin \<in> set path. pin_Height pin \<noteq> 0"
    "proof_Verify H pr (node_hash H n) = Inr pr'" "VerifyItem H pr' key val = Inr ()"
  shows "snd (node_get n key) = Some val"
proof -
  obtain te where c: "computeRootHash H pr = Inr (node_hash H n, te)" "proof_Leaves pr' = proof_Leaves pr"
    using assms(3,6) by (auto simp: proof_Verify_def split: if_splits)
  then obtain ls' q' where "COMPUTEHASH H (length (proof_Leaves pr)) (LeftPath pr) True (proof_Leaves pr) (InnerNodes pr) = Inr (node_hash H n, te, True, ls', q')"
    by (auto simp: computeRootHash_def split: if_splits)
  from COMPUTEHASH_sound [OF assms(1) this _ _ assms(2) refl] assms(5)
  have all: "\<forall>leaf \<in> set (proof_Leaves pr). proves H leaf n" by (auto simp: inner_heights_def consumed_def)
  obtain i where "i < length (proof_Leaves pr)" "pln_Key (proof_Leaves pr ! i) = key" "pln_ValueHash (proof_Leaves pr ! i) = tmhash H val"
    using assms(7) c(2) by (auto simp: VerifyItem_def Let_def not_le split: if_splits)
  then obtain v where v: "(key, v) \<in> set (leaves n)" "tmhash H v = tmhash H val" using all nth_mem unfolding proves_def by metis
  have "v = val" by (rule hasherD(1) [OF assms(1) v(2)])
  with v(1) have "(key, val) \<in> set (leaves n)" by simp
  then have "map_of (leaves n) key = Some val" using asc_distinct [OF node_ok_asc [OF assms(2)]] by simp
  then show ?thesis using node_get_eq [OF assms(2,4)] by simp
qed

text \<open>C23: Proofs of presence round trip: for every key of a balanced tree \<open>GetWithProof\<close> returns its value and a proof that
  verifies against the root hash of the tree and by which \<open>VerifyItem\<close> accepts the key with that value and no other; \<open>ValueOp.Run\<close> maps the value to the root hash.\<close>

theorem GetWithProof_verifies:
  assumes "\<And>a. tmhash H a \<noteq> []" "node_ok n" "map_of (leaves n) key = Some val"
  shows "\<exists>pr pr'. GetWithProof H (Some n) key = Inr (Some val, Some pr) \<and> proof_Verify H pr (node_hash H n) = Inr pr' \<and>
    (\<forall>val'. VerifyItem H pr' key val' = Inr () \<longleftrightarrow> tmhash H val' = tmhash H val) \<and> ValueOp_Run H key pr [val] = Inr [node_hash H n]"
proof -
  obtain path k v ver found where p: "PathToLeaf H n key = (path, (k, v, ver), found)" by (metis prod_cases3)
  have k: "k = key" using PathToLeaf_found [OF assms(2) p] assms(3) by (force dest: map_of_SomeD)
  have "map_of (leaves n) k = Some v"
    using PathToLeaf_leaf [OF assms(2) p] asc_distinct [OF node_ok_asc [OF assms(2)]] by simp
  with k assms(3) have v: "v = val" by simp
  let ?pr = "new_proof path [] [leaf_node H key val ver]"
  have c: "computeRootHash H ?pr = Inr (node_hash H n, isRightmost path)"
    using computeRootHash_single [OF PathToLeaf_hash [OF assms(1) p]] k v by simp
  have g: "GetWithProof H (Some n) key = Inr (Some val, Some ?pr)"
    using less_cpIncr [of key] by (auto simp: GetWithProof_def getRangeProof_def p k v Let_def new_proof_def leaf_node_def)
  have i: "VerifyItem H (?pr\<lparr>rootHash := Some (node_hash H n), treeEnd := isRightmost path, rootVerified := True\<rparr>) key val' = Inr () \<longleftrightarrow> tmhash H val' = tmhash H val" for val'
    using VerifyItem_single [where H = H and path = path and leaf = "leaf_node H key val ver" and h = "node_hash H n" and te = "isRightmost path" and val = val'] by (auto simp: leaf_node_def)
  have "computeRootHash H (?pr\<lparr>rootHash := Some (node_hash H n), treeEnd := isRightmost path, rootVerified := True\<rparr>) = computeRootHash H ?pr"
    by (simp add: computeRootHash_def)
  then have "ValueOp_Run H key ?pr [val] = Inr [node_hash H n]"
    using proof_Verify_new [OF c] i [of val] c by (simp add: ValueOp_Run_def op_root_def)
  then show ?thesis using g proof_Verify_new [OF c] i by blast
qed

theorem GetWithProof_verifies_witness:
  "\<exists>pr pr'. GetWithProof unary_hasher (Some (Inner ''b'' 1 2 1 (Leaf ''a'' ''1'' 1) (Leaf ''b'' ''2'' 1))) ''b'' = Inr (Some ''2'', Some pr) \<and>
    proof_Verify unary_hasher pr (node_hash unary_hasher (Inner ''b'' 1 2 1 (Leaf ''a'' ''1'' 1) (Leaf ''b'' ''2'' 1))) = Inr pr' \<and>
    VerifyItem unary_hasher pr' ''b'' ''2'' = Inr ()"
proof -
  let ?n = "Inner ''b'' 1 2 1 (Leaf ''a'' ''1'' 1) (Leaf ''b'' ''2'' 1)"
  have "node_ok ?n" "map_of (leaves ?n) ''b'' = Some ''2''" by simp_all
  from GetWithProof_verifies [OF unary_hasher_nonempty this] show ?thesis by metis
qed

theorem VerifyItem_sound_witness:
  "\<exists>pr pr'. proof_Verify unary_hasher pr (node_hash unary_hasher (Leaf ''a'' ''1'' 1)) = Inr pr' \<and>
    VerifyItem unary_hasher pr' ''a'' ''1'' = Inr () \<and> snd (node_get (Leaf ''a'' ''1'' 1) ''a'') = Some ''1''"
proof -
  let ?H = unary_hasher and ?leaf = "leaf_node unary_hasher ''a'' ''1'' 1"
  have c: "computeRootHash ?H (new_proof [] [] [?leaf]) = Inr (node_hash ?H (Leaf ''a'' ''1'' 1), True)"
    by (simp add: computeRootHash_single pln_Hash_def leaf_node_def isRightmost_def)
  note v = proof_Verify_new [OF c]
  have i: "VerifyItem ?H ((new_proof [] [] [?leaf])\<lparr>rootHash := Some (node_hash ?H (Leaf ''a'' ''1'' 1)), treeEnd := True, rootVerified := True\<rparr>) ''a'' ''1'' = Inr ()"
    using VerifyItem_single [where H = ?H and path = "[]" and leaf = ?leaf] by (simp add: leaf_node_def)
  have "snd (node_get (Leaf ''a'' ''1'' 1) ''a'') = Some ''1''"
    by (rule VerifyItem_sound [OF unary_hasher_ok _ _ _ _ v i]) (simp_all add: new_proof_def)
  then show ?thesis using v i by blast
qed

text \<open>C38: The height condition is needed.  Whoever can store a value of their choice under some nonempty key, namely the bytes that are hashed
  for a leaf, can prove the presence of any other key with any value: an inner node of height 0 and size 1 whose left
  hash is the stored key hashes like the leaf that is there, and its child is the forged leaf.  The proof verifies
  against the root hash and \<open>VerifyItem\<close> accepts the forged key and value, which the tree does not have.\<close>

theorem VerifyItem_forged:
  assumes "\<And>a. tmhash H a \<noteq> []" "node_ok n" "key \<noteq> []"
    "map_of (leaves n) key = Some (header_bytes H 0 1 fver @ EncodeByteSlice H fkey @ EncodeByteSlice H (tmhash H fval))"
    "\<not> node_has n fkey"
  shows "\<exists>pr pr'. proof_Verify H pr (node_hash H n) = Inr pr' \<and> rootHash pr = None \<and> VerifyItem H pr' fkey fval = Inr ()"
proof -
  let ?val = "header_bytes H 0 1 fver @ EncodeByteSlice H fkey @ EncodeByteSlice H (tmhash H fval)"
  obtain path k v ver found where p: "PathToLeaf H n key = (path, (k, v, ver), found)" by (metis prod_cases3)
  have k: "k = key" using PathToLeaf_found [OF assms(2) p] assms(4) by (force dest: map_of_SomeD)
  have "map_of (leaves n) k = Some v"
    using PathToLeaf_leaf [OF assms(2) p] asc_distinct [OF node_ok_asc [OF assms(2)]] by simp
  with k assms(4) have v: "v = ?val" by simp
  let ?pin = "\<lparr>pin_Height = 0, pin_Size = 1, pin_Version = ver, pin_Left = key, pin_Right = []\<rparr>"
  let ?leaf = "leaf_node H fkey fval fver"
  have app: "path_computeRootHash H (path @ [?pin]) h = rbind (pin_Hash H ?pin h) (path_computeRootHash H path)" for h
    by (induction path) (auto simp: rbind_def split: sum.splits)
  have "pin_Hash H ?pin (pln_Hash H ?leaf) = Inr (pln_Hash H (leaf_node H key ?val ver))"
    using assms(3) by (simp add: pin_Hash_def pln_Hash_def leaf_node_def Let_def)
  then have "path_computeRootHash H (path @ [?pin]) (pln_Hash H ?leaf) = Inr (node_hash H n)"
    using PathToLeaf_hash [OF assms(1) p] unfolding app k v by simp
  note v = proof_Verify_new [OF computeRootHash_single [OF this]]
  have i: "VerifyItem H ((new_proof (path @ [?pin]) [] [?leaf])\<lparr>rootHash := Some h, treeEnd := te, rootVerified := True\<rparr>) fkey fval = Inr ()" for h te
    using VerifyItem_single [where H = H and path = "path @ [?pin]" and leaf = ?leaf and val = fval] by (simp add: leaf_node_def)
  have "rootHash (new_proof (path @ [?pin]) [] [?leaf]) = None" by (simp add: new_proof_def)
  then show ?thesis using v i by blast
qed

text \<open>C39: Proofs of absence can be forged.  In a path to a later leaf of a range proof an inner node may go right and name its left
  child by the hash; the leaves below it are then skipped, although the proof is to cover all leaves from the first to the last.
  For three keys in ascending order, whatever the hash function, such a proof verifies against the root hash and \<open>VerifyAbsence\<close>
  accepts it as a proof that the second key is absent.  All heights, sizes and hashes in it are the true ones.\<close>

theorem VerifyAbsence_forged:
  assumes "\<And>a. tmhash H a \<noteq> []" "a < b" "b < c"
  shows "\<exists>pr pr'. let n = Inner b 2 3 wa (Leaf a va ver) (Inner c 1 2 wb (Leaf b vb ver) (Leaf c vc ver)) in
    node_ok n \<and> node_has n b \<and> rootHash pr = None \<and> proof_Verify H pr (node_hash H n) = Inr pr' \<and> VerifyAbsence pr' b = Inr () \<and>
    AbsenceOp_Run H b (Some pr) [] = Inr [node_hash H n] \<and>
    (\<forall>path \<in> set (LeftPath pr # InnerNodes pr). \<forall>pin \<in> set path. 0 < pin_Height pin)"
proof -
  let ?r = "Inner c 1 2 wb (Leaf b vb ver) (Leaf c vc ver)"
  let ?n = "Inner b 2 3 wa (Leaf a va ver) ?r"
  have ne: "node_hash H m \<noteq> []" for m using assms(1) by (cases m) auto
  let ?path = "[\<lparr>pin_Height = 2, pin_Size = 3, pin_Version = wa, pin_Left = [], pin_Right = node_hash H ?r\<rparr>]"
  let ?inner = "[\<lparr>pin_Height = 1, pin_Size = 2, pin_Version = wb, pin_Left = node_hash H (Leaf b vb ver), pin_Right = []\<rparr>]"
  let ?ls = "[leaf_node H a va ver, leaf_node H c vc ver]"
  have leaf: "pln_Hash H (leaf_node H k v w) = node_hash H (Leaf k v w)" for k v w by (simp add: pln_Hash_def leaf_node_def)
  have 1: "path_computeRootHash H ?path (node_hash H (Leaf a va ver)) = Inr (node_hash H ?n)" by (simp add: pin_Hash_def Let_def)
  have 2: "path_computeRootHash H ?inner (node_hash H (Leaf c vc ver)) = Inr (node_hash H ?r)"
    using ne [of "Leaf b vb ver"] by (simp add: pin_Hash_def Let_def)
  have c: "computeRootHash H (new_proof ?path [?inner] ?ls) = Inr (node_hash H ?n, True)"
    using ne [of ?r] unfolding computeRootHash_def new_proof_def
    by (simp add: leaf 1 2 isRightmost_def numeral_2_eq_2 del: node_hash.simps path_computeRootHash.simps)
  let ?pr = "(new_proof ?path [?inner] ?ls)\<lparr>rootHash := Some (node_hash H ?n), treeEnd := True, rootVerified := True\<rparr>"
  have v: "proof_Verify H (new_proof ?path [?inner] ?ls) (node_hash H ?n) = Inr ?pr" by (rule proof_Verify_new [OF c])
  have ab: "VerifyAbsence ?pr b = Inr ()"
    using assms(2,3) ne [of ?r] by (auto simp: VerifyAbsence_def new_proof_def leaf_node_def isRightmost_def)
  have "computeRootHash H ?pr = computeRootHash H (new_proof ?path [?inner] ?ls)" by (simp add: computeRootHash_def)
  then have run: "AbsenceOp_Run H b (Some (new_proof ?path [?inner] ?ls)) [] = Inr [node_hash H ?n]"
    using v ab c by (simp add: AbsenceOp_Run_def op_root_def)
  have "node_ok ?n \<and> node_has ?n b" using assms(2,3) by auto
  then show ?thesis using v ab run unfolding Let_def
    by (intro exI [of _ "new_proof ?path [?inner] ?ls"] exI [of _ ?pr]) (simp add: new_proof_def)
qed

theorem VerifyItem_forged_witness:
  "\<exists>pr pr'. proof_Verify unary_hasher pr (node_hash unary_hasher (Leaf ''k''
      (header_bytes unary_hasher 0 1 7 @ EncodeByteSlice unary_hasher ''x'' @ EncodeByteSlice unary_hasher (tmhash unary_hasher ''y'')) 1)) = Inr pr' \<and>
    VerifyItem unary_hasher pr' ''x'' ''y'' = Inr ()"
proof -
  let ?n = "Leaf ''k'' (header_bytes unary_hasher 0 1 7 @ EncodeByteSlice unary_hasher ''x'' @ EncodeByteSlice unary_hasher (tmhash unary_hasher ''y'')) 1"
  have "node_ok ?n" "''k'' \<noteq> []" "map_of (leaves ?n) ''k'' =
      Some (header_bytes unary_hasher 0 1 7 @ EncodeByteSlice unary_hasher ''x'' @ EncodeByteSlice unary_hasher (tmhash unary_hasher ''y''))"
    "\<not> node_has ?n ''x''" by simp_all
  from VerifyItem_forged [OF unary_hasher_nonempty this] show ?thesis by metis
qed

theorem VerifyAbsence_forged_witness:
  "\<exists>pr pr'. let n = Inner ''b'' 2 3 1 (Leaf ''a'' ''1'' 1) (Inner ''c'' 1 2 1 (Leaf ''b'' ''2'' 1) (Leaf ''c'' ''3'' 1)) in
    node_has n ''b'' \<and> proof_Verify unary_hasher pr (node_hash unary_hasher n) = Inr pr' \<and> VerifyAbsence pr' ''b'' = Inr ()"
proof -
  have "''a'' < ''b''" "''b'' < ''c''" by simp_all
  from VerifyAbsence_forged [OF unary_hasher_nonempty this, where va = "''1''" and vb = "''2''" and vc = "''3''" and ver = 1 and wa = 1 and wb = 1]
  show ?thesis unfolding Let_def by metis
qed



end
