(* ===== verification/CacheKV.thy ===== *)
theory CacheKV
  imports KVStore "HOL-Library.Multiset"
begin

text \<open>
  The cache stores of \<open>libs/cosmos-sdk/store/cachekv\<close>: every transaction runs on a store that keeps its writes in memory over
  a parent store, which may be such a store again, and its iterators merge the parent's entries with the sorted writes.  A stack
  of stores is a \<open>Store\<close>; the store at the bottom is a plain map.  Locks, statistics and the callback that warms the tree's
  cache before a write are left out.

  The merge iterator is an instance of the \<open>ordered_iterator\<close> contract, and the store refines a stack of plain maps, call by
  call and over whole runs, under the invariant \<open>store_ok\<close>.
\<close>

section \<open>The merge iterator\<close>

text \<open>An item of the cache has a value, or is a delete.\<close>

type_synonym items = "(bytes \<times> bytes option) list"

fun skipCacheDeletes :: "bool \<Rightarrow> bytes option \<Rightarrow> items \<Rightarrow> items" where
  "skipCacheDeletes ascending until [] = []"
| "skipCacheDeletes ascending until ((k, v) # cs) =
     (if v = None \<and> (case until of None \<Rightarrow> True | Some u \<Rightarrow> dir_lt ascending k u) then skipCacheDeletes ascending until cs else (k, v) # cs)"

lemma length_skipCacheDeletes: "length (skipCacheDeletes ascending until cs) \<le> length cs"
  by (induction ascending until cs rule: skipCacheDeletes.induct) auto

text \<open>What is left of the parent and of the cache once the current item exists, or both are at their end.\<close>

function skipUntilExistsOrInvalid :: "bool \<Rightarrow> (bytes \<times> bytes) list \<Rightarrow> items \<Rightarrow> (bytes \<times> bytes) list \<times> items" where
  "skipUntilExistsOrInvalid ascending [] cs = ([], skipCacheDeletes ascending None cs)"
| "skipUntilExistsOrInvalid ascending (p # ps) [] = (p # ps, [])"
| "skipUntilExistsOrInvalid ascending (p # ps) (c # cs) =
     (if dir_lt ascending (fst p) (fst c) then (p # ps, c # cs)
      else if fst p = fst c then (if snd c = None then skipUntilExistsOrInvalid ascending ps cs else (p # ps, c # cs))
      else if snd c = None then skipUntilExistsOrInvalid ascending (p # ps) (skipCacheDeletes ascending (Some (fst p)) (c # cs))
      else (p # ps, c # cs))"
  by pat_completeness auto

termination
proof (relation "measure (\<lambda>(_, ps, cs). length ps + length cs)", goal_cases)
  case (3 ascending p ps c cs)
  then have "dir_lt ascending (fst c) (fst p)" using dir_lt_linear by blast
  then show ?case using 3 length_skipCacheDeletes [of ascending "Some (fst p)" cs] by (cases c) auto
qed auto

declare skipUntilExistsOrInvalid.simps [simp del]

text \<open>\<open>Valid\<close>, \<open>Key\<close> and \<open>Value\<close>, and \<open>Next\<close>, which panic if the iterator is at its end.\<close>

definition merge_Valid :: "bool \<Rightarrow> (bytes \<times> bytes) list \<Rightarrow> items \<Rightarrow> bool" where
  "merge_Valid ascending ps cs \<longleftrightarrow> (case skipUntilExistsOrInvalid ascending ps cs of (ps', cs') \<Rightarrow> ps' \<noteq> [] \<or> cs' \<noteq> [])"

definition merge_item :: "bool \<Rightarrow> (bytes \<times> bytes) list \<Rightarrow> items \<Rightarrow> (bytes \<times> bytes option) res" where
  "merge_item ascending ps cs =
     (case skipUntilExistsOrInvalid ascending ps cs of
        ([], []) \<Rightarrow> Inl (Panic ''invalid cacheMergeIterator'')
      | ([], c # _) \<Rightarrow> Inr c
      | (p # _, []) \<Rightarrow> Inr (fst p, Some (snd p))
      | (p # _, c # _) \<Rightarrow> Inr (if dir_lt ascending (fst p) (fst c) then (fst p, Some (snd p)) else c))"

definition merge_Next :: "bool \<Rightarrow> (bytes \<times> bytes) list \<Rightarrow> items \<Rightarrow> ((bytes \<times> bytes) list \<times> items) res" where
  "merge_Next ascending ps cs =
     (case skipUntilExistsOrInvalid ascending ps cs of
        ([], []) \<Rightarrow> Inl (Panic ''invalid cacheMergeIterator'')
      | ([], _ # cs') \<Rightarrow> Inr ([], cs')
      | (_ # ps', []) \<Rightarrow> Inr (ps', [])
      | (p # ps', c # cs') \<Rightarrow>
          Inr (if dir_lt ascending (fst p) (fst c) then (ps', c # cs') else if fst p = fst c then (ps', cs') else (p # ps', cs')))"

lemma skip_length:
  "case skipUntilExistsOrInvalid ascending ps cs of (ps', cs') \<Rightarrow> length ps' + length cs' \<le> length ps + length cs"
proof (induction ascending ps cs rule: skipUntilExistsOrInvalid.induct)
  case (3 ascending p ps c cs)
  then show ?case using length_skipCacheDeletes [of ascending "Some (fst p)" "c # cs"]
    by (subst skipUntilExistsOrInvalid.simps) (auto split: prod.splits)
qed (auto simp: skipUntilExistsOrInvalid.simps length_skipCacheDeletes)

lemma merge_Next_length: "merge_Next ascending ps cs = Inr (ps', cs') \<Longrightarrow> length ps' + length cs' < length ps + length cs"
  using skip_length [where ascending = ascending and ps = ps and cs = cs] by (auto simp: merge_Next_def split: prod.splits list.splits if_splits)

text \<open>The loop over all items; the value of an item that is handed out is not nil.\<close>

function merge_entries :: "bool \<Rightarrow> (bytes \<times> bytes) list \<times> items \<Rightarrow> (bytes \<times> bytes) list res" where
  "merge_entries ascending (ps, cs) =
     (if merge_Valid ascending ps cs then
        rbind (merge_item ascending ps cs) (\<lambda>(k, v). case merge_Next ascending ps cs of
          Inl e \<Rightarrow> Inl e
        | Inr st \<Rightarrow> rbind (merge_entries ascending st) (\<lambda>es. Inr ((k, case v of None \<Rightarrow> [] | Some v \<Rightarrow> v) # es)))
      else Inr [])"
  by pat_completeness auto

termination
  by (relation "measure (\<lambda>(_, ps, cs). length ps + length cs)") (auto dest: merge_Next_length)

declare merge_entries.simps [simp del]

text \<open>What the two lists stand for.\<close>

definition merge_view :: "(bytes \<times> bytes) list \<times> items \<Rightarrow> bytes \<Rightarrow> bytes option" where
  "merge_view st x = (case map_of (snd st) x of Some v \<Rightarrow> v | None \<Rightarrow> map_of (fst st) x)"

definition merge_ok :: "bool \<Rightarrow> (bytes \<times> bytes) list \<times> items \<Rightarrow> bool" where
  "merge_ok up st \<longleftrightarrow> sorted_wrt (dir_lt up) (map fst (fst st)) \<and> sorted_wrt (dir_lt up) (map fst (snd st))"

lemma merge_view_Nil: "merge_view ([], []) = Map.empty"
  by (simp add: merge_view_def fun_eq_iff)

lemma dir_notin: "\<forall>x \<in> fst ` set ps. dir_lt up k x \<Longrightarrow> map_of ps k = None"
  by (auto simp: map_of_eq_None_iff)

lemma drop_delete:
  assumes "\<forall>x \<in> fst ` set cs. dir_lt up k x" "\<forall>x \<in> fst ` set ps. dir_lt up k x"
  shows "merge_view (ps, (k, None) # cs) = merge_view (ps, cs)"
  using dir_notin [OF assms(1)] dir_notin [OF assms(2)] by (auto simp: merge_view_def fun_eq_iff split: option.splits)

lemma skipCacheDeletes_spec:
  assumes "sorted_wrt (dir_lt up) (map fst cs)" "sorted_wrt (dir_lt up) (map fst ps)"
    "case until of None \<Rightarrow> ps = [] | Some u \<Rightarrow> ps \<noteq> [] \<and> u = fst (hd ps)"
  shows "sorted_wrt (dir_lt up) (map fst (skipCacheDeletes up until cs)) \<and> merge_view (ps, skipCacheDeletes up until cs) = merge_view (ps, cs) \<and>
    (until = None \<longrightarrow> (case skipCacheDeletes up until cs of [] \<Rightarrow> True | c # _ \<Rightarrow> snd c \<noteq> None))"
  using assms
proof (induction up until cs rule: skipCacheDeletes.induct)
  case (2 up until k v cs)
  show ?case
  proof (cases "v = None \<and> (case until of None \<Rightarrow> True | Some u \<Rightarrow> dir_lt up k u)")
    case True
    have "\<forall>x \<in> fst ` set ps. dir_lt up k x"
    proof (cases until)
      case None
      then show ?thesis using "2.prems"(3) by simp
    next
      case (Some u)
      then show ?thesis using "2.prems"(2,3) True by (cases ps) (auto dest: dir_lt_trans)
    qed
    then have "merge_view (ps, (k, None) # cs) = merge_view (ps, cs)" using "2.prems"(1) by (intro drop_delete) auto
    then show ?thesis using 2 True by auto
  next
    case False
    then show ?thesis using "2.prems" by (auto split: option.splits)
  qed
qed simp

lemma skip_spec:
  "merge_ok up (ps, cs) \<Longrightarrow> skipUntilExistsOrInvalid up ps cs = (ps', cs') \<Longrightarrow>
    merge_ok up (ps', cs') \<and> merge_view (ps', cs') = merge_view (ps, cs) \<and>
    (cs' \<noteq> [] \<and> (ps' = [] \<or> \<not> dir_lt up (fst (hd ps')) (fst (hd cs'))) \<longrightarrow> snd (hd cs') \<noteq> None)"
proof (induction up ps cs rule: skipUntilExistsOrInvalid.induct)
  case (1 up cs)
  then show ?case using skipCacheDeletes_spec [of up cs "[]" None]
    by (auto simp: skipUntilExistsOrInvalid.simps merge_ok_def split: list.splits)
next
  case (2 up p ps)
  then show ?case by (auto simp: skipUntilExistsOrInvalid.simps)
next
  case (3 up p ps c cs)
  consider "dir_lt up (fst p) (fst c) \<or> snd c \<noteq> None" | "fst p = fst c" "snd c = None" | "dir_lt up (fst c) (fst p)" "snd c = None"
    using dir_lt_linear by blast
  then show ?case
  proof cases
    case 1
    then show ?thesis using "3.prems" by (auto simp: skipUntilExistsOrInvalid.simps split: if_splits)
  next
    case 2
    then have e: "skipUntilExistsOrInvalid up ps cs = (ps', cs')" using "3.prems"(2) by (simp add: skipUntilExistsOrInvalid.simps)
    have ok: "merge_ok up (ps, cs)" using "3.prems"(1) by (auto simp: merge_ok_def)
    have "merge_view (p # ps, c # cs) = merge_view (ps, cs)"
      using 2 "3.prems"(1) dir_notin [of ps up "fst c"] dir_notin [of cs up "fst c"]
      by (cases p; cases c) (auto simp: merge_view_def merge_ok_def fun_eq_iff split: option.splits)
    then show ?thesis using "3.IH"(1) [OF _ _ _ ok e] 2 by auto
  next
    case 3
    let ?cs = "skipCacheDeletes up (Some (fst p)) (c # cs)"
    have n: "\<not> dir_lt up (fst p) (fst c)" "fst p \<noteq> fst c" using 3 dir_lt_trans by fastforce+
    then have e: "skipUntilExistsOrInvalid up (p # ps) ?cs = (ps', cs')" using "3.prems"(2) 3
      by (subst (asm) skipUntilExistsOrInvalid.simps) simp
    have "sorted_wrt (dir_lt up) (map fst ?cs) \<and> merge_view (p # ps, ?cs) = merge_view (p # ps, c # cs)"
      using skipCacheDeletes_spec [of up "c # cs" "p # ps" "Some (fst p)"] "3.prems"(1) by (auto simp: merge_ok_def)
    then show ?thesis using "3.IH"(2) [OF n _ _ e] 3 "3.prems"(1) by (auto simp: merge_ok_def)
  qed
qed

definition merge_step :: "bool \<Rightarrow> (bytes \<times> bytes) list \<times> items \<Rightarrow> ((bytes \<times> bytes) \<times> (bytes \<times> bytes) list \<times> items) option" where
  "merge_step up st =
     (case (merge_item up (fst st) (snd st), merge_Next up (fst st) (snd st)) of
        (Inr (k, Some v), Inr st') \<Rightarrow> Some ((k, v), st') | _ \<Rightarrow> None)"

text \<open>A step of the iterator, by what is left once the deletes are skipped.\<close>

lemma merge_step_spec:
  assumes "merge_ok up (ps, cs)"
  shows "case merge_step up (ps, cs) of
      None \<Rightarrow> \<not> merge_Valid up ps cs \<and> merge_view (ps, cs) = Map.empty
    | Some (p, st') \<Rightarrow> merge_Valid up ps cs \<and> merge_ok up st' \<and> merge_view (ps, cs) = (merge_view st')(fst p \<mapsto> snd p) \<and>
        (\<forall>x. merge_view st' x \<noteq> None \<longrightarrow> dir_lt up (fst p) x) \<and>
        merge_item up ps cs = Inr (fst p, Some (snd p)) \<and> merge_Next up ps cs = Inr st'"
proof -
  obtain ps' cs' where s: "skipUntilExistsOrInvalid up ps cs = (ps', cs')" by fastforce
  note sp = skip_spec [OF assms s]
  have view: "x \<in> fst ` set (fst st) \<union> fst ` set (snd st)" if "merge_view st x \<noteq> None" for st x
    using that by (auto simp: merge_view_def split: option.splits dest!: map_of_SomeD) force+
  have "case merge_step up (ps, cs) of
      None \<Rightarrow> ps' = [] \<and> cs' = []
    | Some (p, st') \<Rightarrow> (ps' \<noteq> [] \<or> cs' \<noteq> []) \<and> merge_ok up st' \<and> merge_view (ps', cs') = (merge_view st')(fst p \<mapsto> snd p) \<and>
        (\<forall>x \<in> fst ` set (fst st') \<union> fst ` set (snd st'). dir_lt up (fst p) x) \<and>
        merge_item up ps cs = Inr (fst p, Some (snd p)) \<and> merge_Next up ps cs = Inr st'"
  proof (cases ps'; cases cs')
    assume "ps' = []" "cs' = []"
    then show ?thesis by (simp add: merge_step_def merge_item_def s)
  next
    fix c cs2 assume e: "ps' = []" "cs' = c # cs2"
    then obtain v where "c = (fst c, Some v)" using sp by (cases c) auto
    moreover have "merge_ok up (ps', cs')" using sp by blast
    ultimately show ?thesis using e by (cases c) (auto simp: merge_step_def merge_item_def merge_Next_def s merge_ok_def merge_view_def fun_eq_iff split: option.splits)
  next
    fix p ps2 assume e: "ps' = p # ps2" "cs' = []"
    moreover have "merge_ok up (ps', cs')" using sp by blast
    ultimately show ?thesis by (cases p) (auto simp: merge_step_def merge_item_def merge_Next_def s merge_ok_def merge_view_def fun_eq_iff)
  next
    fix p ps2 c cs2 assume e: "ps' = p # ps2" "cs' = c # cs2"
    have ok: "\<forall>x \<in> fst ` set ps2. dir_lt up (fst p) x" "\<forall>x \<in> fst ` set cs2. dir_lt up (fst c) x"
      "sorted_wrt (dir_lt up) (map fst ps2)" "sorted_wrt (dir_lt up) (map fst cs2)" using sp e by (auto simp: merge_ok_def)
    show ?thesis
    proof (cases "dir_lt up (fst p) (fst c)")
      case True
      then have "\<forall>x \<in> fst ` set (c # cs2). dir_lt up (fst p) x" using ok(2) by (auto dest: dir_lt_trans)
      from dir_notin [OF this] this show ?thesis using True ok e
        by (cases p; cases c) (auto simp: merge_step_def merge_item_def merge_Next_def s merge_ok_def merge_view_def fun_eq_iff split: option.splits)
    next
      case False
      then obtain v where c: "c = (fst c, Some v)" using sp e by (cases c) auto
      show ?thesis
      proof (cases "fst p = fst c")
        case True
        then show ?thesis using ok e c by (cases p; cases c) (auto simp: merge_step_def merge_item_def merge_Next_def s merge_ok_def merge_view_def fun_eq_iff split: option.splits)
      next
        case neq: False
        then have "\<forall>x \<in> fst ` set (p # ps2). dir_lt up (fst c) x" using False ok(1) dir_lt_linear [of up "fst p" "fst c"] by (auto dest: dir_lt_trans)
        then show ?thesis using False neq ok e c
          by (cases p; cases c) (auto simp: merge_step_def merge_item_def merge_Next_def s merge_ok_def merge_view_def fun_eq_iff split: option.splits)
      qed
    qed
  qed
  then show ?thesis using sp view by (auto simp: merge_Valid_def s merge_view_Nil split: option.splits)
qed

definition merge_list :: "bool \<Rightarrow> (bytes \<times> bytes) list \<times> items \<Rightarrow> (bytes \<times> bytes) list" where
  "merge_list up st = (case merge_entries up st of Inr es \<Rightarrow> es | Inl _ \<Rightarrow> [])"

lemma merge_entries_ex: "merge_ok up st \<Longrightarrow> \<exists>es. merge_entries up st = Inr es"
proof (induction "length (fst st) + length (snd st)" arbitrary: st rule: less_induct)
  case less
  obtain ps cs where st: "st = (ps, cs)" by (cases st)
  show ?case
  proof (cases "merge_step up (ps, cs)")
    case None
    then show ?thesis using merge_step_spec [of up ps cs] less.prems st by (simp add: merge_entries.simps)
  next
    case (Some q)
    then obtain p st' where q: "merge_step up (ps, cs) = Some (p, st')" by (cases q) auto
    note sp = merge_step_spec [OF less.prems [unfolded st], unfolded q, simplified]
    have "length (fst st') + length (snd st') < length (fst st) + length (snd st)" using merge_Next_length sp st by (cases st') fastforce
    then obtain es where "merge_entries up st' = Inr es" using less.hyps sp by blast
    then show ?thesis using sp st by (simp add: merge_entries.simps [of up ps])
  qed
qed

lemma merge_entries_total: "merge_ok up st \<Longrightarrow> merge_entries up st = Inr (merge_list up st)"
  using merge_entries_ex [of up st] by (auto simp: merge_list_def)

interpretation merge: ordered_iterator up "merge_ok up" "merge_step up" "\<lambda>st. length (fst st) + length (snd st)" merge_view "merge_list up" for up
proof (unfold_locales, goal_cases)
  case (1 st k)
  then show ?case using merge_step_spec [of up "fst st" "snd st"] by auto
next
  case (2 st p st')
  then show ?case using merge_step_spec [of up "fst st" "snd st"] by auto
next
  case (3 st p st')
  then show ?case using merge_step_spec [of up "fst st" "snd st"] merge_Next_length by (cases st') fastforce
next
  case (4 st p st')
  then show ?case using merge_step_spec [of up "fst st" "snd st"] by auto
next
  case (5 st p st' x)
  then show ?case using merge_step_spec [of up "fst st" "snd st"] by auto
next
  case (6 st)
  then show ?case
  proof (cases "merge_step up st")
    case None
    then show ?thesis using merge_step_spec [of up "fst st" "snd st"] 6 by (cases st) (simp add: merge_list_def merge_entries.simps)
  next
    case (Some q)
    then obtain p st' where q: "merge_step up (fst st, snd st) = Some (p, st')" by (cases q) auto
    note sp = merge_step_spec [of up "fst st" "snd st", simplified, OF 6, unfolded q [simplified], simplified]
    then obtain es where "merge_entries up st' = Inr es" using merge_entries_ex by blast
    then show ?thesis using sp Some q by (cases st) (simp add: merge_list_def merge_entries.simps)
  qed
qed

section \<open>The store\<close>

record cValue =
  cv_value :: "bytes option"
  cv_deleted :: bool

text \<open>A store below, or a cache over a store: its writes, its reads, the written keys that are not sorted yet, the sorted
  items and whether reads are kept.\<close>

datatype Store =
    Base "(bytes, bytes) kv"
  | Cache "(bytes, cValue) kv" "(bytes, bytes option) kv" "(bytes, unit) kv" items bool Store

definition NewStore :: "Store \<Rightarrow> Store" where
  "NewStore parent = Cache kv_empty kv_empty kv_empty [] False parent"

primrec store_Get :: "Store \<Rightarrow> bytes \<Rightarrow> bytes option \<times> Store" where
  "store_Get (Base m) key = (kv_get m key, Base m)"
| "store_Get (Cache dirty readList unsorted srt disable parent) key =
     (case kv_get dirty key of
        Some cacheValue \<Rightarrow> (cv_value cacheValue, Cache dirty readList unsorted srt disable parent)
      | None \<Rightarrow>
          (case kv_get readList key of
             Some c \<Rightarrow> (c, Cache dirty readList unsorted srt disable parent)
           | None \<Rightarrow>
               let (val, parent') = store_Get parent key
               in (val, Cache dirty (if disable then readList else kv_set key val readList) unsorted srt disable parent')))"

definition store_Has :: "Store \<Rightarrow> bytes \<Rightarrow> bool \<times> Store" where
  "store_Has s key = (let (val, s') = store_Get s key in (val \<noteq> None, s'))"

fun setCacheValue :: "bytes \<Rightarrow> bytes option \<Rightarrow> bool \<Rightarrow> Store \<Rightarrow> Store" where
  "setCacheValue key val deleted (Cache dirty readList unsorted srt disable parent) =
     Cache (kv_set key \<lparr>cv_value = val, cv_deleted = deleted\<rparr> dirty) readList (kv_set key () unsorted) srt disable parent"
| "setCacheValue key val deleted (Base m) = Base (case val of Some v \<Rightarrow> kv_set key v m | None \<Rightarrow> kv_del key m)"

definition store_Set :: "bytes \<Rightarrow> bytes option \<Rightarrow> Store \<Rightarrow> Store res" where
  "store_Set key val s = (case val of None \<Rightarrow> Inl (Panic ''value is nil'') | Some v \<Rightarrow> Inr (setCacheValue key (Some v) False s))"

definition store_Delete :: "bytes \<Rightarrow> Store \<Rightarrow> Store" where
  "store_Delete key s = setCacheValue key None True s"

text \<open>\<open>Write\<close> and \<open>writeToCacheKv\<close>: every change to the parent, then an empty cache.\<close>

definition write_value :: "bytes \<times> cValue \<Rightarrow> Store \<Rightarrow> Store" where
  "write_value kc parent =
     (case kc of (key, cacheValue) \<Rightarrow>
        if cv_deleted cacheValue then store_Delete key parent
        else case cv_value cacheValue of None \<Rightarrow> parent | Some v \<Rightarrow> setCacheValue key (Some v) False parent)"

fun store_Write :: "Store \<Rightarrow> Store" where
  "store_Write (Cache dirty readList unsorted srt disable parent) = NewStore (fold write_value (kv_entries dirty) parent)"
| "store_Write (Base m) = Base m"

text \<open>\<open>dirtyItems\<close>: the unsorted items of a range are sorted and merged into the sorted ones.\<close>

fun merge_sorted :: "items \<Rightarrow> items \<Rightarrow> items" where
  "merge_sorted (u # us) (e # es) =
     (if fst u < fst e then u # merge_sorted us (e # es)
      else if fst u > fst e then e # merge_sorted (u # us) es
      else u # merge_sorted us es)"
| "merge_sorted [] es = es"
| "merge_sorted us [] = us"

definition dirty_in_range :: "bytes option \<Rightarrow> bytes option \<Rightarrow> (bytes, cValue) kv \<Rightarrow> (bytes, unit) kv \<Rightarrow> items" where
  "dirty_in_range start end dirty unsorted =
     sort_key fst (map (\<lambda>(key, _). (key, case kv_get dirty key of None \<Rightarrow> None | Some cv \<Rightarrow> cv_value cv))
       (filter (\<lambda>(key, _). in_range start end False key) (kv_entries unsorted)))"

definition dirtyItems :: "bytes option \<Rightarrow> bytes option \<Rightarrow> (bytes, cValue) kv \<Rightarrow> (bytes, unit) kv \<Rightarrow> items \<Rightarrow> items \<times> (bytes, unit) kv" where
  "dirtyItems start end dirty unsorted srt =
     (let us = dirty_in_range start end dirty unsorted
      in (merge_sorted us srt, fold (\<lambda>(key, _). kv_del key) us unsorted))"

text \<open>The sorted items from the first to the last in the range.\<close>

definition newMemIterator :: "bytes option \<Rightarrow> bytes option \<Rightarrow> items \<Rightarrow> bool \<Rightarrow> items" where
  "newMemIterator start end srt ascending =
     dir_list ascending (takeWhile (\<lambda>p. in_range start end False (fst p)) (dropWhile (\<lambda>p. \<not> in_range start end False (fst p)) srt))"

primrec store_iterator :: "Store \<Rightarrow> bytes option \<Rightarrow> bytes option \<Rightarrow> bool \<Rightarrow> (bytes \<times> bytes) list res \<times> Store" where
  "store_iterator (Base m) start end ascending = (Inr (range_list start end ascending False (kv_entries m)), Base m)"
| "store_iterator (Cache dirty readList unsorted srt disable parent) start end ascending =
     (let (es, parent') = store_iterator parent start end ascending;
          (srt', unsorted') = dirtyItems start end dirty unsorted srt
      in (rbind es (\<lambda>ps. merge_entries ascending (ps, newMemIterator start end srt' ascending)),
          Cache dirty readList unsorted' srt' disable parent'))"

section \<open>The invariant\<close>

definition overlay :: "(bytes, cValue) kv \<Rightarrow> (bytes, bytes) kv \<Rightarrow> (bytes, bytes) kv" where
  "overlay dirty m = fold (\<lambda>(key, cv) m. case cv_value cv of None \<Rightarrow> kv_del key m | Some v \<Rightarrow> kv_set key v m) (kv_entries dirty) m"

text \<open>What every store of the stack shows, the topmost first.\<close>

primrec store_views :: "Store \<Rightarrow> (bytes, bytes) kv list" where
  "store_views (Base m) = [m]"
| "store_views (Cache dirty readList unsorted srt disable parent) =
     overlay dirty (hd (store_views parent)) # store_views parent"

definition sorted_ok :: "(bytes, cValue) kv \<Rightarrow> (bytes, unit) kv \<Rightarrow> items \<Rightarrow> bool" where
  "sorted_ok dirty unsorted srt \<longleftrightarrow>
     asc srt \<and> (\<forall>key. kv_has unsorted key \<or> key \<in> fst ` set srt \<longrightarrow> kv_has dirty key) \<and>
     (\<forall>key cv. kv_get dirty key = Some cv \<longrightarrow> kv_has unsorted key \<or> map_of srt key = Some (cv_value cv))"

primrec store_ok :: "Store \<Rightarrow> bool" where
  "store_ok (Base m) \<longleftrightarrow> True"
| "store_ok (Cache dirty readList unsorted srt disable parent) \<longleftrightarrow>
     store_ok parent \<and> sorted_ok dirty unsorted srt \<and>
     (\<forall>key cv. kv_get dirty key = Some cv \<longrightarrow> (cv_deleted cv \<longleftrightarrow> cv_value cv = None)) \<and>
     (\<forall>key c. kv_get readList key = Some c \<longrightarrow> c = kv_get (hd (store_views parent)) key)"

lemma fold_overlay:
  "distinct (map fst xs) \<Longrightarrow>
    kv_get (fold (\<lambda>(key, cv) m. case cv_value cv of None \<Rightarrow> kv_del key m | Some v \<Rightarrow> kv_set key v m) xs m) key =
      (case map_of xs key of Some cv \<Rightarrow> cv_value cv | None \<Rightarrow> kv_get m key)"
proof (induction xs arbitrary: m)
  case (Cons x xs)
  then have "map_of xs (fst x) = None" by (simp add: map_of_eq_None_iff)
  with Cons show ?case by (cases x) (auto split: option.splits)
qed simp

lemma overlay_get: "kv_get (overlay dirty m) key = (case kv_get dirty key of Some cv \<Rightarrow> cv_value cv | None \<Rightarrow> kv_get m key)"
  unfolding overlay_def by (subst fold_overlay) (simp_all add: asc_distinct [OF kvs.entries_asc [OF TrueI]] kvs.look_entries)

lemma views_nonempty [simp]: "store_views s \<noteq> []"
  by (cases s) auto

lemma store_Get_spec:
  "store_ok s \<Longrightarrow> store_Get s key = (val, s') \<Longrightarrow> val = kv_get (hd (store_views s)) key \<and> store_views s' = store_views s \<and> store_ok s'"
proof (induction s arbitrary: val s')
  case (Cache dirty readList unsorted srt disable parent)
  obtain v p' where p: "store_Get parent key = (v, p')" by fastforce
  show ?case using Cache.IH [OF _ p] Cache.prems p by (auto simp: overlay_get split: option.splits if_splits)
qed auto

lemma overlay_set: "overlay (kv_set key cv dirty) m = (case cv_value cv of None \<Rightarrow> kv_del key (overlay dirty m) | Some v \<Rightarrow> kv_set key v (overlay dirty m))"
  by (rule kv_ext) (auto simp: overlay_get split: option.splits)

lemma overlay_empty [simp]: "overlay kv_empty m = m"
  by (simp add: overlay_def)

lemma setCacheValue_spec:
  assumes "store_ok s" "del \<longleftrightarrow> val = None"
  shows "store_ok (setCacheValue key val del s)"
    "store_views (setCacheValue key val del s) = (case val of None \<Rightarrow> kv_del key (hd (store_views s)) | Some v \<Rightarrow> kv_set key v (hd (store_views s))) # tl (store_views s)"
proof -
  have "store_ok (setCacheValue key val del s) \<and>
    store_views (setCacheValue key val del s) = (case val of None \<Rightarrow> kv_del key (hd (store_views s)) | Some v \<Rightarrow> kv_set key v (hd (store_views s))) # tl (store_views s)"
  proof (cases s)
    case (Cache dirty readList unsorted srt disable parent)
    then show ?thesis using assms by (auto simp: overlay_set sorted_ok_def kv_has_def split: if_splits option.splits)
  qed (simp split: option.splits)
  then show "store_ok (setCacheValue key val del s)"
    "store_views (setCacheValue key val del s) = (case val of None \<Rightarrow> kv_del key (hd (store_views s)) | Some v \<Rightarrow> kv_set key v (hd (store_views s))) # tl (store_views s)"
    by blast+
qed

lemma write_value_spec:
  assumes "store_ok s" "cv_deleted cv \<longleftrightarrow> cv_value cv = None"
  shows "store_ok (write_value (key, cv) s)"
    "store_views (write_value (key, cv) s) = (case cv_value cv of None \<Rightarrow> kv_del key (hd (store_views s)) | Some v \<Rightarrow> kv_set key v (hd (store_views s))) # tl (store_views s)"
proof -
  have "write_value (key, cv) s = setCacheValue key (cv_value cv) (cv_deleted cv) s"
    using assms(2) by (auto simp: write_value_def store_Delete_def split: option.splits)
  then show "store_ok (write_value (key, cv) s)"
    "store_views (write_value (key, cv) s) = (case cv_value cv of None \<Rightarrow> kv_del key (hd (store_views s)) | Some v \<Rightarrow> kv_set key v (hd (store_views s))) # tl (store_views s)"
    using setCacheValue_spec [OF assms, of key] by simp_all
qed

lemma fold_write_value:
  assumes "\<forall>(key, cv) \<in> set xs. cv_deleted cv \<longleftrightarrow> cv_value cv = None"
  shows "store_ok s \<Longrightarrow> store_ok (fold write_value xs s) \<and>
    store_views (fold write_value xs s) = fold (\<lambda>(key, cv) m. case cv_value cv of None \<Rightarrow> kv_del key m | Some v \<Rightarrow> kv_set key v m) xs (hd (store_views s)) # tl (store_views s)"
  using assms
proof (induction xs arbitrary: s)
  case (Cons x xs)
  obtain key cv where x: "x = (key, cv)" by (cases x)
  have d: "cv_deleted cv \<longleftrightarrow> cv_value cv = None" using Cons.prems(2) x by auto
  show ?case using Cons.IH [of "write_value (key, cv) s"] Cons.prems write_value_spec [OF Cons.prems(1) d, of key] by (simp add: x)
qed (cases "store_views s"; simp)

lemma NewStore_spec: "store_ok s \<Longrightarrow> store_ok (NewStore s)" "store_views (NewStore s) = hd (store_views s) # store_views s"
  by (auto simp: NewStore_def sorted_ok_def kv_has_def)

lemma store_Write_spec:
  assumes "store_ok (Cache dirty readList unsorted srt disable parent)"
  shows "store_ok (store_Write (Cache dirty readList unsorted srt disable parent))"
    "store_views (store_Write (Cache dirty readList unsorted srt disable parent)) =
       (let v = overlay dirty (hd (store_views parent)) in v # v # tl (store_views parent))"
proof -
  have "\<forall>(key, cv) \<in> set (kv_entries dirty). cv_deleted cv \<longleftrightarrow> cv_value cv = None" using assms by (auto simp: kv_in_entries)
  from fold_write_value [OF this, of parent] assms
  have p: "store_ok (fold write_value (kv_entries dirty) parent)"
    "store_views (fold write_value (kv_entries dirty) parent) = overlay dirty (hd (store_views parent)) # tl (store_views parent)"
    by (auto simp: overlay_def)
  then show "store_ok (store_Write (Cache dirty readList unsorted srt disable parent))"
    "store_views (store_Write (Cache dirty readList unsorted srt disable parent)) =
       (let v = overlay dirty (hd (store_views parent)) in v # v # tl (store_views parent))"
    using NewStore_spec [of "fold write_value (kv_entries dirty) parent"] by (simp_all add: Let_def)
qed

text \<open>A cache over a cache ranges over the Go map of its changes; the order does not matter.\<close>

lemma setCacheValue_commute:
  assumes "key \<noteq> key'"
  shows "setCacheValue key val del (setCacheValue key' val' del' s) = setCacheValue key' val' del' (setCacheValue key val del s)"
  using assms by (cases s; cases val; cases val') (auto intro!: kv_ext)

lemma write_value_commute:
  assumes "fst x = fst y \<Longrightarrow> x = y"
  shows "write_value x \<circ> write_value y = write_value y \<circ> write_value x"
proof (cases "fst x = fst y")
  case False
  then show ?thesis
    by (cases x; cases y) (simp add: fun_eq_iff write_value_def store_Delete_def setCacheValue_commute split: option.splits)
qed (use assms in simp)

lemma fold_write_value_order:
  assumes "distinct (map fst xs)" "mset xs = mset ys"
  shows "fold write_value xs s = fold write_value ys s"
proof -
  have "fst x = fst y \<Longrightarrow> x = y" if "x \<in> set xs" "y \<in> set xs" for x y using that assms(1) by (metis eq_key_imp_eq_value prod.collapse)
  then show ?thesis using fold_multiset_equiv [OF _ assms(2), of write_value] write_value_commute by metis
qed

text \<open>Sorting the dirty items of a range.\<close>

lemma merge_sorted_keys: "fst ` set (merge_sorted us es) = fst ` set us \<union> fst ` set es"
  by (induction us es rule: merge_sorted.induct) auto

lemma merge_sorted_asc: "asc us \<Longrightarrow> asc es \<Longrightarrow> asc (merge_sorted us es)"
proof (induction us es rule: merge_sorted.induct)
  case (1 u us e es)
  then show ?case by (cases u; cases e) (auto simp: merge_sorted_keys)
qed auto

lemma merge_sorted_get: "asc us \<Longrightarrow> asc es \<Longrightarrow> map_of (merge_sorted us es) x = (case map_of us x of Some v \<Rightarrow> Some v | None \<Rightarrow> map_of es x)"
proof (induction us es rule: merge_sorted.induct)
  case (1 u us e es)
  have "map_of (u # us) (fst e) = None" if "fst e < fst u" using 1(4) that by (cases u) (auto simp: map_of_eq_None_iff)
  moreover have "map_of us (fst u) = None" using 1(4) by (cases u) (auto simp: map_of_eq_None_iff)
  ultimately show ?case using 1 by (cases u; cases e) (auto split: option.splits)
qed (auto split: option.splits)

lemma interval_filter:
  "asc ps \<Longrightarrow> takeWhile (\<lambda>p. in_range start end False (fst p)) (dropWhile (\<lambda>p. \<not> in_range start end False (fst p)) ps) =
    filter (\<lambda>p. in_range start end False (fst p)) ps"
proof (induction ps)
  case (Cons p ps)
  have "takeWhile (\<lambda>p. in_range start end False (fst p)) qs = filter (\<lambda>p. in_range start end False (fst p)) qs"
    if "asc qs" "\<forall>x \<in> fst ` set qs. fst p < x" "in_range start end False (fst p)" for qs
    using that
  proof (induction qs)
    case (Cons q qs)
    show ?case
    proof (cases "in_range start end False (fst q)")
      case False
      then have "\<forall>x \<in> set qs. \<not> in_range start end False (fst x)" using Cons.prems by (cases q) (force simp: in_range_def split: option.splits)
      with False show ?thesis by (simp add: filter_empty_conv)
    qed (use Cons in \<open>cases q; simp\<close>)
  qed simp
  then show ?case using Cons by (cases p) auto
qed simp

lemma dirty_in_range_spec:
  "asc (dirty_in_range start end dirty unsorted)"
  "map_of (dirty_in_range start end dirty unsorted) x =
     (if kv_has unsorted x \<and> in_range start end False x then Some (case kv_get dirty x of None \<Rightarrow> None | Some cv \<Rightarrow> cv_value cv) else None)"
proof -
  let ?es = "filter (\<lambda>p. in_range start end False (fst p)) (kv_entries unsorted)"
  let ?val = "\<lambda>key. case kv_get dirty key of None \<Rightarrow> None | Some cv \<Rightarrow> cv_value cv"
  let ?ps = "map (\<lambda>(key, _). (key, ?val key)) ?es"
  have "map fst ?ps = map fst ?es" by auto
  then have a: "asc ?ps" using asc_filter [OF kvs.entries_asc [OF TrueI, of unsorted]] by (simp only: asc_def)
  then have "sort_key fst ?ps = ?ps" by (simp add: asc_def strict_sorted_iff sort_key_id_if_sorted)
  moreover have "filter (\<lambda>(key, _). in_range start end False key) (kv_entries unsorted) = ?es" by (intro filter_cong) auto
  ultimately have d: "dirty_in_range start end dirty unsorted = ?ps" by (simp only: dirty_in_range_def)
  show "asc (dirty_in_range start end dirty unsorted)" unfolding d by (rule a)
  have "map_of (map (\<lambda>(key, _). (key, ?val key)) es) x = map_option (\<lambda>_. ?val x) (map_of es x)" for es :: "(bytes \<times> unit) list"
    by (induction es) auto
  then show "map_of (dirty_in_range start end dirty unsorted) x =
     (if kv_has unsorted x \<and> in_range start end False x then Some (case kv_get dirty x of None \<Rightarrow> None | Some cv \<Rightarrow> cv_value cv) else None)"
    unfolding d by (cases "kv_get unsorted x") (simp_all add: map_of_filter_key kv_has_def kvs.look_entries [OF TrueI, of unsorted])
qed

lemma dirtyItems_spec:
  assumes "sorted_ok dirty unsorted srt" "dirtyItems start end dirty unsorted srt = (srt', unsorted')"
  shows "sorted_ok dirty unsorted' srt'"
    "\<And>x. in_range start end False x \<Longrightarrow> map_of srt' x = map_option cv_value (kv_get dirty x)"
proof -
  let ?us = "dirty_in_range start end dirty unsorted"
  note us = dirty_in_range_spec [of start "end" dirty unsorted]
  have e: "srt' = merge_sorted ?us srt" "unsorted' = fold (\<lambda>(key, _). kv_del key) ?us unsorted" using assms(2) by (auto simp: dirtyItems_def Let_def)
  have srt: "map_of srt' x = (case map_of ?us x of Some v \<Rightarrow> Some v | None \<Rightarrow> map_of srt x)" for x
    using merge_sorted_get [OF us(1)] assms(1) by (simp add: e(1) sorted_ok_def)
  have mem: "x \<in> fst ` set ?us \<longleftrightarrow> kv_has unsorted x \<and> in_range start end False x" for x
    using us(2) [of x] map_of_eq_None_iff [of ?us x] by (auto split: if_splits)
  have un: "kv_has unsorted' x \<longleftrightarrow> kv_has unsorted x \<and> \<not> in_range start end False x" for x
    using mem [of x] by (auto simp: e(2) kv_has_def kv_get_dels)
  have "asc srt'" using merge_sorted_asc [OF us(1)] assms(1) by (simp add: e(1) sorted_ok_def)
  moreover have "kv_has dirty x" if "kv_has unsorted' x \<or> x \<in> fst ` set srt'" for x
    using that assms(1) un [of x] mem [of x] by (auto simp: e(1) merge_sorted_keys sorted_ok_def)
  moreover have "kv_has unsorted' x \<or> map_of srt' x = Some (cv_value cv)" if "kv_get dirty x = Some cv" for x cv
    using that assms(1) un [of x] srt [of x] us(2) [of x] by (auto simp: sorted_ok_def split: if_splits)
  ultimately show "sorted_ok dirty unsorted' srt'" by (simp add: sorted_ok_def)
  then show "map_of srt' x = map_option cv_value (kv_get dirty x)" if "in_range start end False x" for x
    using that un [of x] map_of_eq_None_iff [of srt' x] by (cases "kv_get dirty x") (auto simp: sorted_ok_def kv_has_def)
qed

lemma newMemIterator_eq: "asc srt \<Longrightarrow> newMemIterator start end srt up = dir_list up (filter (\<lambda>p. in_range start end False (fst p)) srt)"
  by (simp add: newMemIterator_def interval_filter)

lemma store_iterator_spec:
  "store_ok s \<Longrightarrow> store_iterator s start end up = (es, s') \<Longrightarrow>
    es = Inr (range_list start end up False (kv_entries (hd (store_views s)))) \<and> store_views s' = store_views s \<and> store_ok s'"
proof (induction s arbitrary: es s')
  case (Cache dirty readList unsorted srt disable parent)
  obtain ps p' where p: "store_iterator parent start end up = (ps, p')" by fastforce
  obtain srt' unsorted' where d: "dirtyItems start end dirty unsorted srt = (srt', unsorted')" by fastforce
  have ok: "store_ok parent" "sorted_ok dirty unsorted srt" using Cache.prems(1) by auto
  note IH = Cache.IH [OF ok(1) p] and D = dirtyItems_spec [OF ok(2) d]
  let ?m = "hd (store_views parent)" and ?ps = "range_list start end up False (kv_entries (hd (store_views parent)))"
  let ?cs = "newMemIterator start end srt' up" and ?es = "filter (\<lambda>p. in_range start end False (fst p)) (kv_entries (overlay dirty (hd (store_views parent))))"
  have srt: "asc srt'" using D(1) by (simp add: sorted_ok_def)
  have cs: "?cs = dir_list up (filter (\<lambda>p. in_range start end False (fst p)) srt')" by (rule newMemIterator_eq [OF srt])
  have mo: "merge_ok up (?ps, ?cs)"
    unfolding merge_ok_def cs range_list_dir fst_conv snd_conv dir_sorted using srt kvs.entries_asc [OF TrueI, of ?m] by simp
  have "map_of ?cs x = (if in_range start end False x then map_option cv_value (kv_get dirty x) else None)" for x
    unfolding cs using D(2) [of x] asc_distinct [OF asc_filter [OF srt]] by (simp add: map_of_dir_list map_of_filter_key)
  moreover have "map_of ?ps x = (if in_range start end False x then kv_get ?m x else None)" for x
    unfolding range_list_dir using asc_distinct [OF asc_filter [OF kvs.entries_asc [OF TrueI, of ?m]]]
    by (simp add: map_of_dir_list map_of_filter_key kvs.look_entries [OF TrueI, of ?m])
  ultimately have "merge_view (?ps, ?cs) = map_of ?es"
    by (auto simp: merge_view_def fun_eq_iff map_of_filter_key kvs.look_entries [OF TrueI, of "overlay dirty ?m", symmetric] overlay_get split: option.splits)
  then have "merge_list up (?ps, ?cs) = dir_list up ?es" by (intro merge.collect_exact [OF mo]) (simp_all add: kvs.entries_asc)
  then have "merge_entries up (?ps, ?cs) = Inr (range_list start end up False (kv_entries (overlay dirty ?m)))"
    using merge_entries_total [OF mo] by (simp add: range_list_dir)
  then show ?case using IH D(1) Cache.prems p d by auto
qed auto

section \<open>Snapshots\<close>

text \<open>\<open>WriteWithSnapshotWSet\<close> keeps the value that the parent had under every written key; \<open>RevertSnapshotWSet\<close> puts the values back.\<close>

definition snapshot_value :: "bytes \<times> cValue \<Rightarrow> (bytes, bytes option) kv \<times> Store \<Rightarrow> (bytes, bytes option) kv \<times> Store" where
  "snapshot_value kc st =
     (case st of (swset, parent) \<Rightarrow>
        let (prev, parent') = store_Get parent (fst kc)
        in (kv_set (fst kc) prev swset, write_value kc parent'))"

fun store_WriteWithSnapshotWSet :: "Store \<Rightarrow> (bytes, bytes option) kv \<times> Store" where
  "store_WriteWithSnapshotWSet (Cache dirty readList unsorted srt disable parent) =
     (let (swset, parent') = fold snapshot_value (kv_entries dirty) (kv_empty, parent) in (swset, NewStore parent'))"
| "store_WriteWithSnapshotWSet (Base m) = (kv_empty, Base m)"

definition RevertSnapshotWSet :: "Store \<Rightarrow> (bytes, bytes option) kv \<Rightarrow> Store" where
  "RevertSnapshotWSet s swset =
     fold (\<lambda>(key, prev) s. case prev of None \<Rightarrow> store_Delete key s | Some v \<Rightarrow> setCacheValue key (Some v) False s) (kv_entries swset) s"

lemma fold_snapshot:
  assumes "store_ok s" "\<forall>(key, cv) \<in> set xs. cv_deleted cv \<longleftrightarrow> cv_value cv = None" "distinct (map fst xs)"
    "fold snapshot_value xs (w, s) = (w', s')"
  shows "store_ok s' \<and>
    store_views s' = fold (\<lambda>(key, cv) m. case cv_value cv of None \<Rightarrow> kv_del key m | Some v \<Rightarrow> kv_set key v m) xs (hd (store_views s)) # tl (store_views s) \<and>
    (\<forall>x. kv_get w' x = (if x \<in> fst ` set xs then Some (kv_get (hd (store_views s)) x) else kv_get w x))"
  using assms
proof (induction xs arbitrary: w s)
  case Nil
  then show ?case by (cases "store_views s") auto
next
  case (Cons e xs)
  obtain key cv where e: "e = (key, cv)" by (cases e)
  obtain prev s1 where g: "store_Get s key = (prev, s1)" by fastforce
  have d: "cv_deleted cv \<longleftrightarrow> cv_value cv = None" and d2: "\<forall>(key, cv) \<in> set xs. cv_deleted cv \<longleftrightarrow> cv_value cv = None" using Cons.prems(2) e by auto
  have s1: "prev = kv_get (hd (store_views s)) key" "store_views s1 = store_views s" "store_ok s1" using store_Get_spec [OF Cons.prems(1) g] by auto
  note w = write_value_spec [OF s1(3) d, of key]
  have f: "fold snapshot_value xs (kv_set key prev w, write_value (key, cv) s1) = (w', s')" using Cons.prems(4) g by (simp add: e snapshot_value_def [of "(key, cv)"])
  have "distinct (map fst xs)" "key \<notin> fst ` set xs" using Cons.prems(3) e by auto
  with Cons.IH [OF w(1) d2 _ f] w(2) s1 show ?case by (auto simp: e split: option.splits)
qed

lemma fold_revert:
  assumes "store_ok s"
  shows "store_ok (fold (\<lambda>(key, prev) s. case prev of None \<Rightarrow> store_Delete key s | Some v \<Rightarrow> setCacheValue key (Some v) False s) xs s) \<and>
    store_views (fold (\<lambda>(key, prev) s. case prev of None \<Rightarrow> store_Delete key s | Some v \<Rightarrow> setCacheValue key (Some v) False s) xs s) =
      fold (\<lambda>(key, prev) m. case prev of None \<Rightarrow> kv_del key m | Some v \<Rightarrow> kv_set key v m) xs (hd (store_views s)) # tl (store_views s)"
  using assms
proof (induction xs arbitrary: s)
  case (Cons x xs)
  obtain key prev where x: "x = (key, prev)" by (cases x)
  note sp = setCacheValue_spec [OF Cons.prems, of "prev = None" prev key]
  show ?case using sp Cons.IH [of "setCacheValue key prev (prev = None) s"] by (cases prev) (simp_all add: x store_Delete_def)
qed (cases "store_views s"; simp)

lemma fold_puts:
  "distinct (map fst xs) \<Longrightarrow>
    kv_get (fold (\<lambda>(key, prev) m. case prev of None \<Rightarrow> kv_del key m | Some v \<Rightarrow> kv_set key v m) xs m) key =
      (case map_of xs key of Some prev \<Rightarrow> prev | None \<Rightarrow> kv_get m key)"
proof (induction xs arbitrary: m)
  case (Cons x xs)
  then have "map_of xs (fst x) = None" by (simp add: map_of_eq_None_iff)
  with Cons show ?case by (cases x) (auto split: option.splits)
qed simp

lemma RevertSnapshotWSet_spec:
  assumes "store_ok s"
  shows "store_ok (RevertSnapshotWSet s w)" "tl (store_views (RevertSnapshotWSet s w)) = tl (store_views s)"
    "kv_get (hd (store_views (RevertSnapshotWSet s w))) key = (case kv_get w key of Some prev \<Rightarrow> prev | None \<Rightarrow> kv_get (hd (store_views s)) key)"
  using fold_revert [OF assms, of "kv_entries w"] fold_puts [OF asc_distinct [OF kvs.entries_asc [OF TrueI, of w]]]
  by (simp_all add: RevertSnapshotWSet_def kvs.look_entries [OF TrueI, of w])

section \<open>Runs\<close>

text \<open>The calls of a client of the topmost store; \<open>Drop\<close> leaves it without writing.\<close>

datatype store_op =
    GetOp bytes
  | HasOp bytes
  | SetOp bytes "bytes option"
  | DeleteOp bytes
  | IteratorOp "bytes option" "bytes option" bool
  | CacheWrapOp
  | WriteOp
  | ClearOp
  | DisableCacheReadListOp
  | DropOp

datatype store_out = ValueOut "bytes option" | HasOut bool | ItemsOut "(bytes \<times> bytes) list" | DoneOut

fun store_Clear :: "Store \<Rightarrow> Store" where
  "store_Clear (Cache dirty readList unsorted srt disable parent) = NewStore parent"
| "store_Clear (Base m) = Base m"

fun DisableCacheReadList :: "Store \<Rightarrow> Store" where
  "DisableCacheReadList (Cache dirty readList unsorted srt disable parent) = Cache dirty readList unsorted srt True parent"
| "DisableCacheReadList (Base m) = Base m"

fun store_parent :: "Store \<Rightarrow> Store" where
  "store_parent (Cache dirty readList unsorted srt disable parent) = parent"
| "store_parent (Base m) = Base m"

fun store_step :: "store_op \<Rightarrow> Store \<Rightarrow> (store_out \<times> Store) res" where
  "store_step (GetOp key) s = Inr (apfst ValueOut (store_Get s key))"
| "store_step (HasOp key) s = Inr (apfst HasOut (store_Has s key))"
| "store_step (SetOp key val) s = rmap (Pair DoneOut) (store_Set key val s)"
| "store_step (DeleteOp key) s = Inr (DoneOut, store_Delete key s)"
| "store_step (IteratorOp start end ascending) s =
     (let (es, s') = store_iterator s start end ascending in rmap (\<lambda>es. (ItemsOut es, s')) es)"
| "store_step CacheWrapOp s = Inr (DoneOut, NewStore s)"
| "store_step WriteOp s = Inr (DoneOut, store_Write s)"
| "store_step ClearOp s = Inr (DoneOut, store_Clear s)"
| "store_step DisableCacheReadListOp s = Inr (DoneOut, DisableCacheReadList s)"
| "store_step DropOp s = Inr (DoneOut, store_parent s)"

text \<open>The abstract store: a stack of maps, the topmost first, without caches.\<close>

fun stack_step :: "store_op \<Rightarrow> (bytes, bytes) kv list \<Rightarrow> (store_out \<times> (bytes, bytes) kv list) res" where
  "stack_step (GetOp key) ms = Inr (ValueOut (kv_get (hd ms) key), ms)"
| "stack_step (HasOp key) ms = Inr (HasOut (kv_has (hd ms) key), ms)"
| "stack_step (SetOp key None) ms = Inl (Panic ''value is nil'')"
| "stack_step (SetOp key (Some v)) ms = Inr (DoneOut, kv_set key v (hd ms) # tl ms)"
| "stack_step (DeleteOp key) ms = Inr (DoneOut, kv_del key (hd ms) # tl ms)"
| "stack_step (IteratorOp start end ascending) ms = Inr (ItemsOut (range_list start end ascending False (kv_entries (hd ms))), ms)"
| "stack_step CacheWrapOp ms = Inr (DoneOut, hd ms # ms)"
| "stack_step WriteOp (m # m' # ms) = Inr (DoneOut, m # m # ms)"
| "stack_step ClearOp (m # m' # ms) = Inr (DoneOut, m' # m' # ms)"
| "stack_step DropOp (m # m' # ms) = Inr (DoneOut, m' # ms)"
| "stack_step _ ms = Inr (DoneOut, ms)"

definition run_ops :: "('op \<Rightarrow> 's \<Rightarrow> ('out \<times> 's) res) \<Rightarrow> 'op list \<Rightarrow> 's \<Rightarrow> ('out list \<times> 's) res" where
  "run_ops step ops s = rfold (\<lambda>op (outs, s). rmap (\<lambda>(out, s'). (outs @ [out], s')) (step op s)) ops ([], s)"

text \<open>A step that implements an abstract step, with the same outcome and errors, implements its runs.\<close>

locale step_refinement =
  fixes step :: "'op \<Rightarrow> 's \<Rightarrow> ('out \<times> 's) res"
    and spec :: "'op \<Rightarrow> 'a \<Rightarrow> ('out \<times> 'a) res"
    and ok :: "'s \<Rightarrow> bool"
    and abs_of :: "'s \<Rightarrow> 'a"
  assumes step_refines: "ok s \<Longrightarrow> rmap (apsnd abs_of) (step op s) = spec op (abs_of s)"
    and step_ok: "ok s \<Longrightarrow> step op s = Inr (out, s') \<Longrightarrow> ok s'"
begin

lemma run_refines_from:
  "ok s \<Longrightarrow> rmap (apsnd abs_of) (rfold (\<lambda>op (outs, s). rmap (\<lambda>(out, s'). (outs @ [out], s')) (step op s)) ops (outs, s)) =
    rfold (\<lambda>op (outs, s). rmap (\<lambda>(out, s'). (outs @ [out], s')) (spec op s)) ops (outs, abs_of s)"
proof (induction ops arbitrary: outs s)
  case (Cons op ops)
  show ?case
  proof (cases "step op s")
    case (Inl e)
    then have "spec op (abs_of s) = Inl e" using step_refines [OF Cons.prems, of op] by simp
    then show ?thesis using Inl by simp
  next
    case (Inr r)
    then obtain out s' where r: "step op s = Inr (out, s')" by (cases r) auto
    then have "spec op (abs_of s) = Inr (out, abs_of s')" using step_refines [OF Cons.prems, of op] by simp
    then show ?thesis using Cons.IH [OF step_ok [OF Cons.prems r]] r by simp
  qed
qed simp

lemma run_refines: "ok s \<Longrightarrow> rmap (apsnd abs_of) (run_ops step ops s) = run_ops spec ops (abs_of s)"
  unfolding run_ops_def by (rule run_refines_from)

lemma run_ok: "ok s \<Longrightarrow> run_ops step ops s = Inr (outs, s') \<Longrightarrow> ok s'"
  unfolding run_ops_def
  by (drule rfold_invariant [where P = "\<lambda>p. ok (snd p)"]) (auto dest: step_ok)

end

lemma store_step_refines:
  assumes "store_ok s"
  shows "rmap (apsnd store_views) (store_step op s) = stack_step op (store_views s) \<and>
    (\<forall>out s'. store_step op s = Inr (out, s') \<longrightarrow> store_ok s')"
proof (cases op)
  case (GetOp key)
  obtain v s' where g: "store_Get s key = (v, s')" by fastforce
  show ?thesis using store_Get_spec [OF assms g] by (simp add: GetOp g)
next
  case (HasOp key)
  obtain v s' where g: "store_Get s key = (v, s')" by fastforce
  show ?thesis using store_Get_spec [OF assms g] by (simp add: HasOp store_Has_def g kv_has_def)
next
  case (SetOp key val)
  then show ?thesis using setCacheValue_spec [OF assms, of False val key] by (cases val) (auto simp: store_Set_def)
next
  case (DeleteOp key)
  then show ?thesis using setCacheValue_spec [OF assms, of True None key] by (auto simp: store_Delete_def)
next
  case (IteratorOp start fin up)
  obtain es s' where i: "store_iterator s start fin up = (es, s')" by fastforce
  show ?thesis using store_iterator_spec [OF assms i] by (simp add: IteratorOp i)
next
  case CacheWrapOp
  then show ?thesis using NewStore_spec [of s] assms by simp
next
  case WriteOp
  then show ?thesis using assms store_Write_spec by (cases s; cases "store_views (store_parent s)") (auto simp: Let_def)
next
  case ClearOp
  then show ?thesis using assms NewStore_spec [of "store_parent s"] by (cases s; cases "store_views (store_parent s)") auto
next
  case DisableCacheReadListOp
  then show ?thesis using assms by (cases s) auto
next
  case DropOp
  then show ?thesis using assms by (cases s; cases "store_views (store_parent s)") auto
qed

interpretation cache: step_refinement store_step stack_step store_ok store_views
  by unfold_locales (use store_step_refines in blast)+


text \<open>Writing a store with a snapshot has the effect of \<open>Write\<close>, and putting the snapshot back gives the parent its
  earlier contents, whatever the store did before and however deep the stack is.\<close>

theorem snapshot_reverts:
  assumes "run_ops store_step ops (Base m) = Inr (outs, s)" "store_views s = v # p # vs"
    "store_WriteWithSnapshotWSet s = (w, s')"
  shows "store_views s' = store_views (store_Write s) \<and> store_views (store_Write (RevertSnapshotWSet s' w)) = p # p # vs"
proof -
  have ok: "store_ok s" by (rule cache.run_ok [OF _ assms(1)]) simp
  obtain dirty readList unsorted srt disable parent where s: "s = Cache dirty readList unsorted srt disable parent"
    using assms(2) by (cases s) auto
  have pv: "store_views parent = p # vs" using assms(2) s by simp
  obtain p' where f: "fold snapshot_value (kv_entries dirty) (kv_empty, parent) = (w, p')" "s' = NewStore p'"
    using assms(3) s by (auto split: prod.splits)
  have d: "\<forall>(key, cv) \<in> set (kv_entries dirty). cv_deleted cv \<longleftrightarrow> cv_value cv = None" using ok s by (auto simp: kv_in_entries)
  have fs: "store_ok p'" "store_views p' = overlay dirty p # vs"
    "\<And>x. kv_get w x = (if x \<in> fst ` set (kv_entries dirty) then Some (kv_get p x) else None)"
    using fold_snapshot [OF _ d asc_distinct [OF kvs.entries_asc [OF TrueI]] f(1)] ok s pv by (auto simp: overlay_def)
  have s': "store_views s' = overlay dirty p # overlay dirty p # vs" using NewStore_spec(2) [of p'] fs f(2) by simp
  have ok': "store_ok s'" using NewStore_spec(1) [OF fs(1)] f(2) by simp
  note R = RevertSnapshotWSet_spec [OF ok', of w]
  have "x \<in> fst ` set (kv_entries dirty) \<longleftrightarrow> kv_get dirty x \<noteq> None" for x
    using map_of_eq_None_iff [of "kv_entries dirty" x] by (simp add: kvs.look_entries [OF TrueI, of dirty])
  then have "kv_get (hd (store_views (RevertSnapshotWSet s' w))) x = kv_get p x" for x
    by (cases "kv_get dirty x") (simp_all add: R(3) fs(3) s' overlay_get)
  then have "hd (store_views (RevertSnapshotWSet s' w)) = p" by (intro kv_ext)
  with R(2) have "store_views (RevertSnapshotWSet s' w) = p # overlay dirty p # vs"
    by (cases "store_views (RevertSnapshotWSet s' w)") (simp_all add: s')
  then show ?thesis
    using store_step_refines [OF R(1), of WriteOp] store_Write_spec [of dirty readList unsorted srt disable parent] ok s pv s' by (simp add: Let_def)
qed

end
