(* ===== verification/ValidatorSet.thy ===== *)
theory ValidatorSet
  imports Prelude Complex_Main
begin

text \<open>
  Tendermint's validator set (\<open>libs/tendermint/types/validator.go\<close>, \<open>validator_set.go\<close>): the checked
  64-bit arithmetic, the priorities from which proposers are elected, the lookups and the changes of the set.
  Integers are \<open>int64\<close>: every sum and product of the source that is not guarded is wrapped by \<open>wrap64\<close>, and
  the clipped operations are translated with their overflow tests.  A validator is a value; \<open>Proposer\<close>, a pointer in the
  source, is kept as the value it had when it was set, so only its address, key and power are read from it.
  The lemmas give the operations on sets whose priorities and powers are in range: no clipping, no wrap-around,
  the spread after rescaling, the sum after centering, and the election of the validator with the highest priority.
\<close>

section \<open>Checked arithmetic\<close>

definition MaxInt64 :: int where "MaxInt64 = 2 ^ 63 - 1"

definition MinInt64 :: int where "MinInt64 = - (2 ^ 63)"

definition MaxTotalVotingPower :: int where "MaxTotalVotingPower = big_quo MaxInt64 8"

definition PriorityWindowSizeFactor :: int where "PriorityWindowSizeFactor = 2"

definition i64_safeAdd :: "int \<Rightarrow> int \<Rightarrow> int \<times> bool" where
  "i64_safeAdd a b =
     (if b > 0 \<and> a > wrap64 (MaxInt64 - b) then (- 1, True)
      else if b < 0 \<and> a < wrap64 (MinInt64 - b) then (- 1, True)
      else (wrap64 (a + b), False))"

definition i64_safeSub :: "int \<Rightarrow> int \<Rightarrow> int \<times> bool" where
  "i64_safeSub a b =
     (if b > 0 \<and> a < wrap64 (MinInt64 + b) then (- 1, True)
      else if b < 0 \<and> a > wrap64 (MaxInt64 + b) then (- 1, True)
      else (wrap64 (a - b), False))"

definition safeAddClip :: "int \<Rightarrow> int \<Rightarrow> int" where
  "safeAddClip a b =
     (let (c, overflow) = i64_safeAdd a b
      in if overflow then if b < 0 then MinInt64 else MaxInt64 else c)"

definition safeSubClip :: "int \<Rightarrow> int \<Rightarrow> int" where
  "safeSubClip a b =
     (let (c, overflow) = i64_safeSub a b
      in if overflow then if b > 0 then MinInt64 else MaxInt64 else c)"

text \<open>The loop of \<open>safeMul\<close>: adds \<open>a\<close> once for every unit of the counter above one.\<close>

function safeMul_loop :: "int \<Rightarrow> int \<Rightarrow> int \<Rightarrow> int \<times> bool" where
  "safeMul_loop a absOfB c =
     (if absOfB > 1 then
        let (c', overflow) = i64_safeAdd c a
        in if overflow then (c', True) else safeMul_loop a (wrap64 (absOfB - 1)) c'
      else (c, False))"
  by pat_completeness auto
termination
proof (relation "measure (\<lambda>(a, n, c). nat (if n < 2 ^ 63 then n else 2 * n))", goal_cases)
  case (2 a n c x c' overflow)
  have "wrap64 (n - 1) = n - 1" if "n \<le> 2 ^ 63" using 2(1) that by (intro wrap64_id) auto
  moreover have "wrap64 (n - 1) < 2 ^ 63" by (simp add: wrap64_def)
  ultimately show ?case using 2(1) by (cases "n < 2 ^ 63") auto
qed simp

declare safeMul_loop.simps [simp del]

definition safeMul :: "int \<Rightarrow> int \<Rightarrow> int \<times> bool" where
  "safeMul a b =
     (if a = 0 \<or> b = 0 then (0, False)
      else
        let absOfB = (if b < 0 then wrap64 (- b) else b);
            (c, overflow) = safeMul_loop a absOfB a
        in if overflow then (c, True)
           else if b < 0 \<and> a > 0 \<or> b < 0 \<and> a < 0 then (wrap64 (- c), False)
           else (c, False))"

section \<open>Validators and their set\<close>

record TmValidator =
  tv_Address :: bytes
  tv_PubKey :: bytes
  VotingPower :: int
  ProposerPriority :: int

record ValidatorSet =
  Validators :: "TmValidator list"
  vs_Proposer :: "TmValidator option"
  totalVotingPower :: int

definition CompareProposerPriority :: "TmValidator option \<Rightarrow> TmValidator \<Rightarrow> TmValidator res" where
  "CompareProposerPriority v other =
     (case v of
        None \<Rightarrow> Inr other
      | Some v \<Rightarrow>
          if ProposerPriority v > ProposerPriority other then Inr v
          else if ProposerPriority v < ProposerPriority other then Inr other
          else if tv_Address v < tv_Address other then Inr v
          else if tv_Address v > tv_Address other then Inr other
          else Inl (Panic ''Cannot compare identical validators''))"

definition updateTotalVotingPower :: "ValidatorSet \<Rightarrow> ValidatorSet res" where
  "updateTotalVotingPower vals =
     rbind (rfold (\<lambda>val sum.
              let sum = safeAddClip sum (VotingPower val)
              in if sum > MaxTotalVotingPower then Inl (Panic ''Total voting power should be guarded'') else Inr sum)
            (Validators vals) 0) (\<lambda>sum.
     Inr (vals\<lparr>totalVotingPower := sum\<rparr>))"

text \<open>The total is computed when the stored one is 0; storing it again is left out, it gives the same value every time.\<close>

definition TotalVotingPower :: "ValidatorSet \<Rightarrow> int res" where
  "TotalVotingPower vals =
     (if totalVotingPower vals = 0 then rmap totalVotingPower (updateTotalVotingPower vals)
      else Inr (totalVotingPower vals))"

section \<open>Proposer priorities\<close>

definition computeMaxMinPriorityDiff :: "ValidatorSet \<Rightarrow> int res" where
  "computeMaxMinPriorityDiff vals =
     (if Validators vals = [] then Inl (Panic ''empty validator set'')
      else
        let mx = fold (\<lambda>v mx. if ProposerPriority v > mx then ProposerPriority v else mx) (Validators vals) MinInt64;
            mn = fold (\<lambda>v mn. if ProposerPriority v < mn then ProposerPriority v else mn) (Validators vals) MaxInt64;
            diff = wrap64 (mx - mn)
        in Inr (if diff < 0 then wrap64 (- 1 * diff) else diff))"

definition RescalePriorities :: "int \<Rightarrow> ValidatorSet \<Rightarrow> ValidatorSet res" where
  "RescalePriorities diffMax vals =
     (if Validators vals = [] then Inl (Panic ''empty validator set'')
      else if diffMax \<le> 0 then Inr vals
      else rbind (computeMaxMinPriorityDiff vals) (\<lambda>diff.
        let ratio = big_quo (wrap64 (wrap64 (diff + diffMax) - 1)) diffMax
        in if diff > diffMax then
             if ratio = 0 then Inl (Panic ''integer divide by zero'')
             else Inr (vals\<lparr>Validators := map (\<lambda>val. val\<lparr>ProposerPriority := wrap64 (big_quo (ProposerPriority val) ratio)\<rparr>) (Validators vals)\<rparr>)
           else Inr vals))"

definition computeAvgProposerPriority :: "ValidatorSet \<Rightarrow> int res" where
  "computeAvgProposerPriority vals =
     (let n = int (length (Validators vals));
          avg = sum_list (map ProposerPriority (Validators vals)) div n
      in if n = 0 then Inl (Panic ''division by zero'')
         else if MinInt64 \<le> avg \<and> avg \<le> MaxInt64 then Inr avg
         else Inl (Panic ''Cannot represent avg ProposerPriority as an int64''))"

definition shiftByAvgProposerPriority :: "ValidatorSet \<Rightarrow> ValidatorSet res" where
  "shiftByAvgProposerPriority vals =
     (if Validators vals = [] then Inl (Panic ''empty validator set'')
      else rbind (computeAvgProposerPriority vals) (\<lambda>avg.
        Inr (vals\<lparr>Validators := map (\<lambda>val. val\<lparr>ProposerPriority := safeSubClip (ProposerPriority val) avg\<rparr>) (Validators vals)\<rparr>)))"

text \<open>The validator with the highest priority, with its place in the list.\<close>

definition getValWithMostPriority :: "TmValidator list \<Rightarrow> (nat \<times> TmValidator) option res" where
  "getValWithMostPriority vs =
     rfold (\<lambda>(i, val) res.
       rbind (CompareProposerPriority (map_option snd res) val) (\<lambda>r.
         Inr (case res of Some (j, v) \<Rightarrow> Some (if r = v then (j, v) else (i, val)) | None \<Rightarrow> Some (i, val))))
       (zip [0..<length vs] vs) None"

definition incrementProposerPriority :: "ValidatorSet \<Rightarrow> (TmValidator \<times> ValidatorSet) res" where
  "incrementProposerPriority vals =
     (let vs = map (\<lambda>val. val\<lparr>ProposerPriority := safeAddClip (ProposerPriority val) (VotingPower val)\<rparr>) (Validators vals)
      in rbind (getValWithMostPriority vs) (\<lambda>res.
         case res of
           None \<Rightarrow> Inl (Panic ''nil pointer dereference'')
         | Some (i, mostest) \<Rightarrow>
             rbind (TotalVotingPower vals) (\<lambda>total.
               let mostest = mostest\<lparr>ProposerPriority := safeSubClip (ProposerPriority mostest) total\<rparr>
               in Inr (mostest, vals\<lparr>Validators := vs[i := mostest]\<rparr>))))"

primrec increment_loop :: "nat \<Rightarrow> TmValidator option \<times> ValidatorSet \<Rightarrow> (TmValidator option \<times> ValidatorSet) res" where
  "increment_loop 0 st = Inr st"
| "increment_loop (Suc n) st = rbind (incrementProposerPriority (snd st)) (\<lambda>(p, vals). increment_loop n (Some p, vals))"

definition IncrementProposerPriority :: "int \<Rightarrow> ValidatorSet \<Rightarrow> ValidatorSet res" where
  "IncrementProposerPriority tms vals =
     (if Validators vals = [] then Inl (Panic ''empty validator set'')
      else if tms \<le> 0 then Inl (Panic ''Cannot call IncrementProposerPriority with non-positive times'')
      else rbind (TotalVotingPower vals) (\<lambda>total.
           rbind (RescalePriorities (wrap64 (PriorityWindowSizeFactor * total)) vals) (\<lambda>vals1.
           rbind (shiftByAvgProposerPriority vals1) (\<lambda>vals2.
           rbind (increment_loop (nat tms) (None, vals2)) (\<lambda>(proposer, vals3).
             Inr (vals3\<lparr>vs_Proposer := proposer\<rparr>))))))"

definition CopyIncrementProposerPriority :: "int \<Rightarrow> ValidatorSet \<Rightarrow> ValidatorSet res" where
  "CopyIncrementProposerPriority tms vals = IncrementProposerPriority tms vals"

section \<open>Lookups\<close>

definition vs_HasAddress :: "ValidatorSet \<Rightarrow> bytes \<Rightarrow> bool" where
  "vs_HasAddress vals address \<longleftrightarrow> list_ex (\<lambda>val. tv_Address val = address) (Validators vals)"

definition vs_GetByAddress :: "ValidatorSet \<Rightarrow> bytes \<Rightarrow> (nat \<times> TmValidator) option" where
  "vs_GetByAddress vals address =
     find (\<lambda>(_, val). tv_Address val = address) (zip [0..<length (Validators vals)] (Validators vals))"

definition vs_GetByIndex :: "ValidatorSet \<Rightarrow> int \<Rightarrow> (bytes \<times> TmValidator) option" where
  "vs_GetByIndex vals index =
     (if index < 0 \<or> index \<ge> int (length (Validators vals)) then None
      else let val = Validators vals ! nat index in Some (tv_Address val, val))"

definition findProposer :: "ValidatorSet \<Rightarrow> TmValidator option res" where
  "findProposer vals =
     rfold (\<lambda>val proposer.
       if (case proposer of None \<Rightarrow> True | Some p \<Rightarrow> tv_Address val \<noteq> tv_Address p)
       then rmap Some (CompareProposerPriority proposer val) else Inr proposer)
       (Validators vals) None"

definition vs_GetProposer :: "ValidatorSet \<Rightarrow> (TmValidator option \<times> ValidatorSet) res" where
  "vs_GetProposer vals =
     (if Validators vals = [] then Inr (None, vals)
      else case vs_Proposer vals of
             Some p \<Rightarrow> Inr (Some p, vals)
           | None \<Rightarrow> rbind (findProposer vals) (\<lambda>p. Inr (p, vals\<lparr>vs_Proposer := p\<rparr>)))"

section \<open>Changing the set\<close>

fun processChanges_loop :: "bytes \<Rightarrow> TmValidator list \<Rightarrow> (TmValidator list \<times> TmValidator list) res" where
  "processChanges_loop prevAddr [] = Inr ([], [])"
| "processChanges_loop prevAddr (valUpdate # changes) =
     (if tv_Address valUpdate = prevAddr then Inl (Err ''duplicate entry'')
      else if VotingPower valUpdate < 0 then Inl (Err ''voting power can not be negative'')
      else if VotingPower valUpdate > MaxTotalVotingPower then Inl (Err ''voting power can not be higher'')
      else rbind (processChanges_loop (tv_Address valUpdate) changes) (\<lambda>(updates, removals).
             if VotingPower valUpdate = 0 then Inr (updates, valUpdate # removals) else Inr (valUpdate # updates, removals)))"

definition processChanges :: "TmValidator list \<Rightarrow> (TmValidator list \<times> TmValidator list) res" where
  "processChanges origChanges = processChanges_loop [] (sort_key tv_Address origChanges)"

definition power_delta :: "TmValidator \<Rightarrow> ValidatorSet \<Rightarrow> int" where
  "power_delta update vals =
     (case vs_GetByAddress vals (tv_Address update) of
        Some (_, val) \<Rightarrow> wrap64 (VotingPower update - VotingPower val)
      | None \<Rightarrow> VotingPower update)"

definition verifyUpdates :: "TmValidator list \<Rightarrow> ValidatorSet \<Rightarrow> int \<Rightarrow> int res" where
  "verifyUpdates updates vals removedPower =
     rbind (TotalVotingPower vals) (\<lambda>total.
     rbind (rfold (\<lambda>upd tvp.
              let tvp = wrap64 (tvp + power_delta upd vals)
              in if tvp > MaxTotalVotingPower then Inl (Err ''total voting power would exceed the max allowed'') else Inr tvp)
            (sort_key (\<lambda>upd. power_delta upd vals) updates) (wrap64 (total - removedPower))) (\<lambda>tvpAfterRemovals.
     Inr (wrap64 (tvpAfterRemovals + removedPower))))"

definition numNewValidators :: "TmValidator list \<Rightarrow> ValidatorSet \<Rightarrow> int" where
  "numNewValidators updates vals = int (length (filter (\<lambda>valUpdate. \<not> vs_HasAddress vals (tv_Address valUpdate)) updates))"

definition computeNewPriorities :: "TmValidator list \<Rightarrow> ValidatorSet \<Rightarrow> int \<Rightarrow> TmValidator list" where
  "computeNewPriorities updates vals updatedTotalVotingPower =
     map (\<lambda>valUpdate.
       case vs_GetByAddress vals (tv_Address valUpdate) of
         None \<Rightarrow> valUpdate\<lparr>ProposerPriority := wrap64 (- wrap64 (updatedTotalVotingPower + updatedTotalVotingPower div 8))\<rparr>
       | Some (_, val) \<Rightarrow> valUpdate\<lparr>ProposerPriority := ProposerPriority val\<rparr>)
     updates"

fun merge_updates :: "TmValidator list \<Rightarrow> TmValidator list \<Rightarrow> TmValidator list" where
  "merge_updates (e # existing) (u # updates) =
     (if tv_Address e < tv_Address u then e # merge_updates existing (u # updates)
      else if tv_Address e = tv_Address u then u # merge_updates existing updates
      else u # merge_updates (e # existing) updates)"
| "merge_updates existing [] = existing"
| "merge_updates [] updates = updates"

definition applyUpdates :: "TmValidator list \<Rightarrow> ValidatorSet \<Rightarrow> ValidatorSet" where
  "applyUpdates updates vals = vals\<lparr>Validators := merge_updates (sort_key tv_Address (Validators vals)) updates\<rparr>"

definition verifyRemovals :: "TmValidator list \<Rightarrow> ValidatorSet \<Rightarrow> int res" where
  "verifyRemovals deletes vals =
     rbind (rfold (\<lambda>valUpdate removedVotingPower.
              case vs_GetByAddress vals (tv_Address valUpdate) of
                None \<Rightarrow> Inl (Err ''failed to find validator to remove'')
              | Some (_, val) \<Rightarrow> Inr (wrap64 (removedVotingPower + VotingPower val))) deletes 0) (\<lambda>removed.
     if length deletes > length (Validators vals) then Inl (Panic ''more deletes than validators'') else Inr removed)"

fun remove_loop :: "TmValidator list \<Rightarrow> TmValidator list \<Rightarrow> TmValidator list res" where
  "remove_loop existing [] = Inr existing"
| "remove_loop [] (d # deletes) = Inl (Panic ''index out of range'')"
| "remove_loop (e # existing) (d # deletes) =
     (if tv_Address e = tv_Address d then remove_loop existing deletes
      else rmap ((#) e) (remove_loop existing (d # deletes)))"

definition applyRemovals :: "TmValidator list \<Rightarrow> ValidatorSet \<Rightarrow> ValidatorSet res" where
  "applyRemovals deletes vals = rmap (\<lambda>vs. vals\<lparr>Validators := vs\<rparr>) (remove_loop (Validators vals) deletes)"

definition updateWithChangeSet :: "TmValidator list \<Rightarrow> bool \<Rightarrow> ValidatorSet \<Rightarrow> ValidatorSet res" where
  "updateWithChangeSet changes allowDeletes vals =
     (if changes = [] then Inr vals
      else rbind (processChanges changes) (\<lambda>(updates, deletes).
        if \<not> allowDeletes \<and> deletes \<noteq> [] then Inl (Err ''cannot process validators with voting power 0'')
        else if numNewValidators updates vals = 0 \<and> length (Validators vals) = length deletes
             then Inl (Err ''applying the validator changes would result in empty set'')
        else rbind (verifyRemovals deletes vals) (\<lambda>removedVotingPower.
             rbind (verifyUpdates updates vals removedVotingPower) (\<lambda>tvp.
             rbind (applyRemovals deletes (applyUpdates (computeNewPriorities updates vals tvp) vals)) (\<lambda>vals1.
             rbind (updateTotalVotingPower vals1) (\<lambda>vals2.
             rbind (TotalVotingPower vals2) (\<lambda>total.
             rbind (RescalePriorities (wrap64 (PriorityWindowSizeFactor * total)) vals2) (\<lambda>vals3.
             rbind (shiftByAvgProposerPriority vals3) (\<lambda>vals4.
               Inr (vals4\<lparr>Validators := sort_key (\<lambda>v. (- VotingPower v, tv_Address v)) (Validators vals4)\<rparr>))))))))))"

definition UpdateWithChangeSet :: "TmValidator list \<Rightarrow> ValidatorSet \<Rightarrow> ValidatorSet res" where
  "UpdateWithChangeSet changes vals = updateWithChangeSet changes True vals"

definition NewValidatorSet :: "TmValidator list \<Rightarrow> ValidatorSet res" where
  "NewValidatorSet valz =
     (case updateWithChangeSet valz False \<lparr>Validators = [], vs_Proposer = None, totalVotingPower = 0\<rparr> of
        Inl (Err e) \<Rightarrow> Inl (Panic (''cannot create validator set: '' @ e))
      | Inl (Panic e) \<Rightarrow> Inl (Panic e)
      | Inr vals \<Rightarrow> if length valz > 0 then IncrementProposerPriority 1 vals else Inr vals)"

section \<open>Arithmetic without clipping\<close>

lemmas int64_defs = MaxInt64_def MinInt64_def

lemma MaxTotalVotingPower_eq: "MaxTotalVotingPower = 2 ^ 60 - 1"
  by (simp add: MaxTotalVotingPower_def big_quo_def MaxInt64_def)

lemma clip_add: "MinInt64 \<le> a \<Longrightarrow> a \<le> MaxInt64 \<Longrightarrow> MinInt64 \<le> b \<Longrightarrow> b \<le> MaxInt64 \<Longrightarrow>
    safeAddClip a b = max MinInt64 (min MaxInt64 (a + b))"
  by (auto simp: safeAddClip_def i64_safeAdd_def int64_defs wrap64_def)

lemma clip_sub: "MinInt64 \<le> a \<Longrightarrow> a \<le> MaxInt64 \<Longrightarrow> MinInt64 \<le> b \<Longrightarrow> b \<le> MaxInt64 \<Longrightarrow>
    safeSubClip a b = max MinInt64 (min MaxInt64 (a - b))"
  by (auto simp: safeSubClip_def i64_safeSub_def int64_defs wrap64_def)

section \<open>Totals\<close>

definition power_sum :: "TmValidator list \<Rightarrow> int" where
  "power_sum vs = sum_list (map VotingPower vs)"

lemma total_loop:
  assumes "\<And>v. v \<in> set vs \<Longrightarrow> 0 \<le> VotingPower v \<and> VotingPower v \<le> MaxInt64" "0 \<le> s" "s \<le> MaxTotalVotingPower"
  shows "rfold (\<lambda>val sum. let sum = safeAddClip sum (VotingPower val)
              in if sum > MaxTotalVotingPower then Inl (Panic ''Total voting power should be guarded'') else Inr sum) vs s =
    (if s + power_sum vs \<le> MaxTotalVotingPower then Inr (s + power_sum vs) else Inl (Panic ''Total voting power should be guarded''))"
  using assms
proof (induction vs arbitrary: s)
  case (Cons v vs)
  have v: "0 \<le> VotingPower v" "VotingPower v \<le> MaxInt64" using Cons.prems(1) [of v] by auto
  have nn: "0 \<le> power_sum vs" using Cons.prems(1) by (auto simp: power_sum_def intro!: sum_list_nonneg)
  have c: "safeAddClip s (VotingPower v) = max MinInt64 (min MaxInt64 (s + VotingPower v))"
    using v Cons.prems(2,3) by (intro clip_add) (auto simp: int64_defs MaxTotalVotingPower_eq)
  show ?case
  proof (cases "s + VotingPower v \<le> MaxTotalVotingPower")
    case True
    then have "safeAddClip s (VotingPower v) = s + VotingPower v" using c v Cons.prems(2) by (auto simp: int64_defs MaxTotalVotingPower_eq)
    then show ?thesis using Cons.IH [of "s + VotingPower v"] Cons.prems True v by (simp add: power_sum_def Let_def add.assoc)
  next
    case False
    then have "MaxTotalVotingPower < safeAddClip s (VotingPower v)" using c by (auto simp: int64_defs MaxTotalVotingPower_eq)
    then show ?thesis using False nn by (simp add: power_sum_def Let_def)
  qed
qed (simp add: power_sum_def)

lemma updateTotalVotingPower_eq:
  assumes "\<And>v. v \<in> set (Validators vals) \<Longrightarrow> 0 \<le> VotingPower v \<and> VotingPower v \<le> MaxInt64"
  shows "updateTotalVotingPower vals =
    (if power_sum (Validators vals) \<le> MaxTotalVotingPower then Inr (vals\<lparr>totalVotingPower := power_sum (Validators vals)\<rparr>)
     else Inl (Panic ''Total voting power should be guarded''))"
  unfolding updateTotalVotingPower_def using total_loop [OF assms, of "Validators vals" 0] by (auto simp: MaxTotalVotingPower_eq)

section \<open>The spread of the priorities\<close>

abbreviation prios :: "TmValidator list \<Rightarrow> int list" where
  "prios vs \<equiv> map ProposerPriority vs"

text \<open>What the priorities do not touch.\<close>

definition vkey :: "TmValidator \<Rightarrow> bytes \<times> bytes \<times> int" where
  "vkey v = (tv_Address v, tv_PubKey v, VotingPower v)"

lemma vkey_update [simp]: "vkey (v\<lparr>ProposerPriority := p\<rparr>) = vkey v"
  by (simp add: vkey_def)

lemma vkeys_eqD:
  assumes "map vkey vs' = map vkey vs"
  shows "map tv_Address vs' = map tv_Address vs" "map VotingPower vs' = map VotingPower vs" "length vs' = length vs" "power_sum vs' = power_sum vs"
proof -
  have "map tv_Address vs = map fst (map vkey vs)" "map VotingPower vs = map (snd \<circ> snd) (map vkey vs)" for vs by (simp_all add: vkey_def comp_def)
  then show "map tv_Address vs' = map tv_Address vs" "map VotingPower vs' = map VotingPower vs" using assms by metis+
  then show "power_sum vs' = power_sum vs" by (simp add: power_sum_def)
  show "length vs' = length vs" using assms map_eq_imp_length_eq by blast
qed

lemma fold_max:
  fixes f :: "'a \<Rightarrow> int"
  defines "F vs m \<equiv> fold (\<lambda>v mx. if f v > mx then f v else mx) vs m"
  shows "m \<le> F vs m \<and> (\<forall>v\<in>set vs. f v \<le> F vs m) \<and> (F vs m = m \<or> F vs m \<in> f ` set vs)"
  unfolding F_def
proof (induction vs arbitrary: m)
  case (Cons v vs)
  show ?case using Cons [of "if f v > m then f v else m"] by (cases "f v > m") auto
qed simp

lemma fold_min:
  fixes f :: "'a \<Rightarrow> int"
  defines "F vs m \<equiv> fold (\<lambda>v mn. if f v < mn then f v else mn) vs m"
  shows "F vs m \<le> m \<and> (\<forall>v\<in>set vs. F vs m \<le> f v) \<and> (F vs m = m \<or> F vs m \<in> f ` set vs)"
  unfolding F_def
proof (induction vs arbitrary: m)
  case (Cons v vs)
  show ?case using Cons [of "if f v < m then f v else m"] by (cases "f v < m") auto
qed simp

text \<open>The difference that the code computes is the spread when it fits.\<close>

lemma priority_diff:
  assumes "Validators vals \<noteq> []" "\<And>v. v \<in> set (Validators vals) \<Longrightarrow> - B \<le> ProposerPriority v \<and> ProposerPriority v \<le> B" "2 * B < 2 ^ 63"
  shows "\<exists>lo hi. computeMaxMinPriorityDiff vals = Inr (hi - lo) \<and> (\<forall>v\<in>set (Validators vals). lo \<le> ProposerPriority v \<and> ProposerPriority v \<le> hi) \<and>
    0 \<le> hi - lo \<and> hi - lo \<le> 2 * B"
proof -
  let ?vs = "Validators vals"
  define hi where "hi = fold (\<lambda>v mx. if ProposerPriority v > mx then ProposerPriority v else mx) ?vs MinInt64"
  define lo where "lo = fold (\<lambda>v mn. if ProposerPriority v < mn then ProposerPriority v else mn) ?vs MaxInt64"
  obtain v where v: "v \<in> set ?vs" using assms(1) by (cases ?vs) auto
  have b: "MinInt64 < ProposerPriority v" "ProposerPriority v < MaxInt64" if "v \<in> set ?vs" for v using assms(2) [OF that] assms(3) by (auto simp: int64_defs)
  note M = fold_max [of MinInt64 ProposerPriority ?vs, folded hi_def] fold_min [of ProposerPriority ?vs MaxInt64, folded lo_def]
  have hi: "hi \<in> set (prios ?vs)" "\<And>v. v \<in> set ?vs \<Longrightarrow> ProposerPriority v \<le> hi" using M(1) b [OF v] v by auto
  have lo: "lo \<in> set (prios ?vs)" "\<And>v. v \<in> set ?vs \<Longrightarrow> lo \<le> ProposerPriority v" using M(2) b [OF v] v by auto
  have "hi \<le> B" "- B \<le> lo" using hi(1) lo(1) assms(2) by auto
  then have r: "0 \<le> hi - lo" "hi - lo \<le> 2 * B" using lo(2) [OF v] hi(2) [OF v] by linarith+
  then have "wrap64 (hi - lo) = hi - lo" using assms(3) by (intro wrap64_id) auto
  then have "computeMaxMinPriorityDiff vals = Inr (hi - lo)" using assms(1) r(1) by (simp add: computeMaxMinPriorityDiff_def Let_def flip: hi_def lo_def)
  then show ?thesis using hi(2) lo(2) r by blast
qed

text \<open>Truncating division by the ratio brings the spread below the window.\<close>

lemma quo_bounds: "0 < r \<Longrightarrow> big_quo a r * r \<le> a + (if a < 0 then r - 1 else 0) \<and> a \<le> big_quo a r * r + (if a < 0 then 0 else r - 1)"
proof -
  assume r: "0 < r"
  have "(\<bar>a\<bar> div r) * r \<le> \<bar>a\<bar>" "\<bar>a\<bar> < (\<bar>a\<bar> div r) * r + r"
    using r div_mult_mod_eq [of "\<bar>a\<bar>" r] pos_mod_sign [OF r, of "\<bar>a\<bar>"] pos_mod_bound [OF r, of "\<bar>a\<bar>"] by linarith+
  then show ?thesis using r by (cases "a < 0"; cases "a = 0") (auto simp: big_quo_def algebra_simps)
qed

lemma quo_sign: "0 < r \<Longrightarrow> a \<le> 0 \<Longrightarrow> big_quo a r \<le> 0" "0 < r \<Longrightarrow> 0 \<le> a \<Longrightarrow> 0 \<le> big_quo a r"
  by (auto simp: big_quo_def sgn_if pos_imp_zdiv_nonneg_iff)

lemma quo_spread:
  assumes "0 < r" "lo \<le> a" "a \<le> hi" "lo \<le> b" "b \<le> hi" "hi - lo \<le> w * r" "0 \<le> w"
  shows "big_quo a r - big_quo b r \<le> w"
proof (cases "a < 0 \<and> 0 \<le> b")
  case True
  then show ?thesis using quo_sign [OF assms(1)] assms(7) by (metis diff_mono diff_zero order_less_imp_le order_trans)
next
  case False
  show ?thesis
  proof (rule ccontr)
    assume "\<not> ?thesis"
    then have "w + 1 \<le> big_quo a r - big_quo b r" by simp
    then have "(w + 1) * r \<le> big_quo a r * r - big_quo b r * r" using assms(1) by (metis left_diff_distrib mult_right_mono order_less_imp_le)
    moreover have "w * r + r = (w + 1) * r" by (simp add: algebra_simps)
    ultimately show False using quo_bounds [OF assms(1), of a] quo_bounds [OF assms(1), of b] assms(2-6) False by (auto split: if_splits)
  qed
qed

lemma quo_abs:
  assumes "0 < r"
  shows "\<bar>big_quo a r\<bar> \<le> \<bar>a\<bar>"
proof -
  have "\<bar>a\<bar> div r * 1 \<le> \<bar>a\<bar> div r * r" using assms by (intro mult_left_mono) (auto simp: pos_imp_zdiv_nonneg_iff)
  also have "\<dots> \<le> \<bar>a\<bar>" using assms div_mult_mod_eq [of "\<bar>a\<bar>" r] pos_mod_sign [OF assms, of "\<bar>a\<bar>"] by linarith
  moreover have "0 \<le> \<bar>a\<bar> div r" using assms by (simp add: pos_imp_zdiv_nonneg_iff)
  ultimately show ?thesis using assms by (auto simp: big_quo_def abs_mult sgn_if)
qed

lemma Rescale_spec:
  assumes "Validators vals \<noteq> []" "\<And>v. v \<in> set (Validators vals) \<Longrightarrow> - B \<le> ProposerPriority v \<and> ProposerPriority v \<le> B"
    "0 < D" "2 * B + D < 2 ^ 63"
  shows "\<exists>vs. RescalePriorities D vals = Inr (vals\<lparr>Validators := vs\<rparr>) \<and> map vkey vs = map vkey (Validators vals) \<and>
    (\<forall>v\<in>set vs. \<forall>w\<in>set vs. ProposerPriority v - ProposerPriority w \<le> D) \<and> (\<forall>v\<in>set vs. - B \<le> ProposerPriority v \<and> ProposerPriority v \<le> B)"
proof -
  have B: "2 * B < 2 ^ 63" using assms(3,4) by simp
  obtain lo hi where lh: "computeMaxMinPriorityDiff vals = Inr (hi - lo)" "0 \<le> hi - lo" "hi - lo \<le> 2 * B"
    and b: "\<And>v. v \<in> set (Validators vals) \<Longrightarrow> lo \<le> ProposerPriority v \<and> ProposerPriority v \<le> hi"
    using priority_diff [OF assms(1,2) B] by fast
  define d where "d = hi - lo"
  have d: "computeMaxMinPriorityDiff vals = Inr d" "d = hi - lo" and dB: "0 \<le> d" "d \<le> 2 * B" using lh by (simp_all add: d_def)
  show ?thesis
  proof (cases "d > D")
    case False
    have "ProposerPriority v - ProposerPriority w \<le> D" if "v \<in> set (Validators vals)" "w \<in> set (Validators vals)" for v w
      using b [OF that(1)] b [OF that(2)] d(2) False by linarith
    then show ?thesis using False assms(1-3) d(1) by (intro exI [of _ "Validators vals"]) (auto simp: RescalePriorities_def)
  next
    case True
    define r where "r = (d + D - 1) div D"
    have w: "wrap64 (wrap64 (d + D) - 1) = d + D - 1"
    proof -
      have "wrap64 (d + D) = d + D" using assms(3,4) dB by (intro wrap64_id) auto
      then show ?thesis using assms(3,4) dB by (simp add: wrap64_id)
    qed
    have quo: "big_quo (wrap64 (wrap64 (d + D) - 1)) D = r" unfolding w r_def using assms(3) True by (intro big_quo_nonneg) auto
    have rD: "d \<le> D * r" and r: "0 < r"
    proof -
      have "r * D + (d + D - 1) mod D = d + D - 1" unfolding r_def by (rule div_mult_mod_eq)
      then have "d \<le> r * D" using pos_mod_bound [OF assms(3), of "d + D - 1"] by linarith
      then show "d \<le> D * r" by (simp add: mult.commute)
      then have "0 < D * r" using True assms(3) by linarith
      then show "0 < r" using assms(3) zero_less_mult_pos by blast
    qed
    let ?vs = "map (\<lambda>val. val\<lparr>ProposerPriority := wrap64 (big_quo (ProposerPriority val) r)\<rparr>) (Validators vals)"
    have q: "wrap64 (big_quo (ProposerPriority v) r) = big_quo (ProposerPriority v) r" "\<bar>big_quo (ProposerPriority v) r\<bar> \<le> B" if "v \<in> set (Validators vals)" for v
    proof -
      show "\<bar>big_quo (ProposerPriority v) r\<bar> \<le> B" using quo_abs [OF r, of "ProposerPriority v"] assms(2) [OF that] by linarith
      then show "wrap64 (big_quo (ProposerPriority v) r) = big_quo (ProposerPriority v) r" using B by (intro wrap64_id) linarith+
    qed
    have "big_quo (ProposerPriority v) r - big_quo (ProposerPriority w) r \<le> D" if "v \<in> set (Validators vals)" "w \<in> set (Validators vals)" for v w
      using b [OF that(1)] b [OF that(2)] r rD assms(3) d(2) by (intro quo_spread [of r lo _ hi]) auto
    then have s: "\<forall>v\<in>set ?vs. \<forall>w\<in>set ?vs. ProposerPriority v - ProposerPriority w \<le> D" using q(1) by auto
    have "\<forall>v\<in>set ?vs. - B \<le> ProposerPriority v \<and> ProposerPriority v \<le> B" using q by (auto simp: abs_le_iff minus_le_iff)
    moreover have "map vkey ?vs = map vkey (Validators vals)" by simp
    ultimately show ?thesis using s True assms(1,3) d(1) r quo by (intro exI [of _ ?vs]) (simp add: RescalePriorities_def Let_def)
  qed
qed

lemma avg_bounds:
  fixes xs :: "int list"
  assumes "xs \<noteq> []" "\<And>x. x \<in> set xs \<Longrightarrow> lo \<le> x \<and> x \<le> hi"
  shows "lo \<le> sum_list xs div int (length xs)" "sum_list xs div int (length xs) \<le> hi"
proof -
  have n: "0 < int (length xs)" using assms(1) by simp
  have "lo * int (length xs) \<le> sum_list xs \<and> sum_list xs \<le> hi * int (length xs)" using assms(2)
    by (induction xs) (force simp: algebra_simps)+
  then show "lo \<le> sum_list xs div int (length xs)" "sum_list xs div int (length xs) \<le> hi"
    using zdiv_mono1 [OF _ n, of "lo * int (length xs)"] zdiv_mono1 [OF _ n, of _ "hi * int (length xs)"] n by fastforce+
qed

lemma sum_list_shift: "sum_list (map (\<lambda>v. f v - (a :: int)) vs) = sum_list (map f vs) - a * int (length vs)"
  by (induction vs) (simp_all add: algebra_simps)

lemma shift_spec:
  assumes "Validators vals \<noteq> []" "\<And>v. v \<in> set (Validators vals) \<Longrightarrow> - B \<le> ProposerPriority v \<and> ProposerPriority v \<le> B" "B < 2 ^ 63"
    and spread: "\<And>v w. v \<in> set (Validators vals) \<Longrightarrow> w \<in> set (Validators vals) \<Longrightarrow> ProposerPriority v - ProposerPriority w \<le> D" and "D < 2 ^ 63"
  shows "\<exists>vs. shiftByAvgProposerPriority vals = Inr (vals\<lparr>Validators := vs\<rparr>) \<and> map vkey vs = map vkey (Validators vals) \<and>
    (\<forall>v\<in>set vs. - D \<le> ProposerPriority v \<and> ProposerPriority v \<le> D) \<and> 0 \<le> sum_list (prios vs) \<and> sum_list (prios vs) < int (length vs)"
proof -
  let ?vs = "Validators vals"
  let ?n = "int (length ?vs)" and ?S = "sum_list (prios ?vs)"
  define avg where "avg = ?S div ?n"
  have n: "0 < ?n" using assms(1) by simp
  have avgB: "- B \<le> avg" "avg \<le> B" unfolding avg_def using avg_bounds [of "prios ?vs" "- B" B] assms(1,2) by auto
  have close: "- D \<le> ProposerPriority v - avg \<and> ProposerPriority v - avg \<le> D" if "v \<in> set ?vs" for v
  proof -
    have "ProposerPriority v - D \<le> ProposerPriority w \<and> ProposerPriority w \<le> ProposerPriority v + D" if "w \<in> set ?vs" for w
      using spread [OF \<open>v \<in> set ?vs\<close> that] spread [OF that \<open>v \<in> set ?vs\<close>] by simp
    then have "\<And>x. x \<in> set (prios ?vs) \<Longrightarrow> ProposerPriority v - D \<le> x \<and> x \<le> ProposerPriority v + D" by auto
    from avg_bounds [where xs = "prios ?vs", OF _ this] assms(1) show ?thesis unfolding avg_def by simp
  qed
  have clip: "safeSubClip (ProposerPriority v) avg = ProposerPriority v - avg" if "v \<in> set ?vs" for v
    using clip_sub [of "ProposerPriority v" avg] close [OF that] assms(2) [OF that] avgB assms(3,5) by (auto simp: int64_defs)
  let ?vs' = "map (\<lambda>val. val\<lparr>ProposerPriority := safeSubClip (ProposerPriority val) avg\<rparr>) ?vs"
  have "prios ?vs' = map (\<lambda>v. ProposerPriority v - avg) ?vs" using clip by simp
  then have "sum_list (prios ?vs') = ?S - avg * ?n" by (simp only: sum_list_shift)
  also have "\<dots> = ?S mod ?n" unfolding avg_def by (simp add: minus_div_mult_eq_mod)
  finally have "0 \<le> sum_list (prios ?vs')" "sum_list (prios ?vs') < ?n" using n by simp_all
  moreover have "computeAvgProposerPriority vals = Inr avg" using avgB assms(1,3) by (auto simp: computeAvgProposerPriority_def Let_def int64_defs simp flip: avg_def)
  ultimately show ?thesis using close clip assms(1) by (intro exI [of _ ?vs']) (auto simp: shiftByAvgProposerPriority_def)
qed

section \<open>The election of a proposer\<close>

text \<open>\<open>v\<close> comes before \<open>w\<close>: a higher priority, or the same and a smaller address.\<close>

definition before :: "TmValidator \<Rightarrow> TmValidator \<Rightarrow> bool" where
  "before v w \<longleftrightarrow> ProposerPriority w < ProposerPriority v \<or> ProposerPriority w = ProposerPriority v \<and> tv_Address v < tv_Address w"

lemma Compare_eq:
  "CompareProposerPriority (Some v) w = (if before v w then Inr v else if before w v then Inr w else Inl (Panic ''Cannot compare identical validators''))"
  by (auto simp: CompareProposerPriority_def before_def)

lemma before_total: "tv_Address v \<noteq> tv_Address w \<Longrightarrow> before v w \<or> before w v"
  by (auto simp: before_def)

lemma before_trans: "before u v \<Longrightarrow> before v w \<Longrightarrow> before u w"
  by (auto simp: before_def)

lemma before_asym: "before v w \<Longrightarrow> \<not> before w v"
  by (auto simp: before_def)

lemma most_loop:
  assumes "distinct (map tv_Address vs)" "k \<le> length vs" "0 < k"
  shows "\<exists>i<k. rfold (\<lambda>(i, val) res.
       rbind (CompareProposerPriority (map_option snd res) val) (\<lambda>r.
         Inr (case res of Some (j, v) \<Rightarrow> Some (if r = v then (j, v) else (i, val)) | None \<Rightarrow> Some (i, val))))
       (zip [0..<k] (take k vs)) None = Inr (Some (i, vs ! i)) \<and> (\<forall>j<k. j \<noteq> i \<longrightarrow> before (vs ! i) (vs ! j))"
  using assms(2,3)
proof (induction k)
  case (Suc k)
  have z: "zip [0..<Suc k] (take (Suc k) vs) = zip [0..<k] (take k vs) @ [(k, vs ! k)]"
    using Suc.prems(1) by (simp add: take_Suc_conv_app_nth)
  show ?case
  proof (cases "k = 0")
    case True
    then show ?thesis unfolding z by (simp add: CompareProposerPriority_def)
  next
    case False
    then obtain i where i: "i < k" "\<forall>j<k. j \<noteq> i \<longrightarrow> before (vs ! i) (vs ! j)"
      and r: "rfold (\<lambda>(i, val) res. rbind (CompareProposerPriority (map_option snd res) val) (\<lambda>r.
         Inr (case res of Some (j, v) \<Rightarrow> Some (if r = v then (j, v) else (i, val)) | None \<Rightarrow> Some (i, val))))
       (zip [0..<k] (take k vs)) None = Inr (Some (i, vs ! i))" using Suc by auto
    have ne: "tv_Address (vs ! i) \<noteq> tv_Address (vs ! k)" using nth_eq_iff_index_eq [OF assms(1), of i k] i(1) Suc.prems(1) by simp
    consider "before (vs ! i) (vs ! k)" | "before (vs ! k) (vs ! i)" "vs ! k \<noteq> vs ! i" "\<not> before (vs ! i) (vs ! k)"
      using before_total [OF ne] before_asym ne by metis
    then show ?thesis
    proof cases
      case 1
      then show ?thesis unfolding z rfold_append r using i by (intro exI [of _ i]) (auto simp: Compare_eq less_Suc_eq)
    next
      case 2
      then have "before (vs ! k) (vs ! j)" if "j < k" for j using i that before_trans by (cases "j = i") blast+
      with 2 show ?thesis unfolding z rfold_append r by (intro exI [of _ k]) (auto simp: Compare_eq less_Suc_eq)
    qed
  qed
qed simp

lemma getValWithMostPriority_spec:
  assumes "distinct (map tv_Address vs)" "vs \<noteq> []"
  shows "\<exists>i<length vs. getValWithMostPriority vs = Inr (Some (i, vs ! i)) \<and> (\<forall>j<length vs. j \<noteq> i \<longrightarrow> before (vs ! i) (vs ! j))"
  using most_loop [OF assms(1), of "length vs"] assms(2) by (simp add: getValWithMostPriority_def)

lemma increment_step:
  assumes "distinct (map tv_Address (Validators vals))" "Validators vals \<noteq> []" "totalVotingPower vals = T" "0 < T" "T \<le> MaxTotalVotingPower"
    and w: "\<And>v. v \<in> set (Validators vals) \<Longrightarrow> 0 < VotingPower v \<and> VotingPower v \<le> T"
    and p: "\<And>v. v \<in> set (Validators vals) \<Longrightarrow> - 3 * T \<le> ProposerPriority v \<and> ProposerPriority v + VotingPower v \<le> MaxInt64"
  shows "\<exists>i<length (Validators vals). \<exists>vs. incrementProposerPriority vals = Inr (vs ! i, vals\<lparr>Validators := vs\<rparr>) \<and>
    map vkey vs = map vkey (Validators vals) \<and>
    (\<forall>j<length (Validators vals). prios vs ! j =
       prios (Validators vals) ! j + VotingPower (Validators vals ! j) - (if j = i then T else 0) \<and>
       prios (Validators vals) ! j + VotingPower (Validators vals ! j) \<le> prios (Validators vals) ! i + VotingPower (Validators vals ! i))"
proof -
  let ?vs = "Validators vals"
  let ?q = "map (\<lambda>val. val\<lparr>ProposerPriority := safeAddClip (ProposerPriority val) (VotingPower val)\<rparr>) ?vs"
  have T: "T < 2 ^ 60" using assms(5) by (simp add: MaxTotalVotingPower_eq)
  have add: "safeAddClip (ProposerPriority v) (VotingPower v) = ProposerPriority v + VotingPower v" if "v \<in> set ?vs" for v
    using w [OF that] p [OF that] T by (subst clip_add) (auto simp: int64_defs)
  have sub: "safeSubClip (ProposerPriority v + VotingPower v) T = ProposerPriority v + VotingPower v - T" if "v \<in> set ?vs" for v
    using w [OF that] p [OF that] T assms(4) by (subst clip_sub) (auto simp: int64_defs)
  have "distinct (map tv_Address ?q)" using assms(1) by (simp add: comp_def)
  from getValWithMostPriority_spec [OF this] assms(2) obtain i where i: "i < length ?vs" "getValWithMostPriority ?q = Inr (Some (i, ?q ! i))"
    and mx: "\<forall>j<length ?vs. j \<noteq> i \<longrightarrow> before (?q ! i) (?q ! j)" by auto
  define m where "m = (?q ! i)\<lparr>ProposerPriority := safeSubClip (ProposerPriority (?q ! i)) T\<rparr>"
  have "incrementProposerPriority vals = Inr (?q[i := m] ! i, vals\<lparr>Validators := ?q[i := m]\<rparr>)"
    using i assms(3,4) by (simp add: incrementProposerPriority_def Let_def TotalVotingPower_def m_def)
  moreover have "map vkey (?q[i := m]) = map vkey ?vs"
    using i(1) by (simp add: map_update m_def list_update_same_conv comp_def)
  moreover have "prios (?q[i := m]) ! j = prios ?vs ! j + VotingPower (?vs ! j) - (if j = i then T else 0)" if "j < length ?vs" for j
    using that i(1) add [of "?vs ! j"] sub [of "?vs ! j"] by (auto simp: m_def)
  moreover have "prios ?vs ! j + VotingPower (?vs ! j) \<le> prios ?vs ! i + VotingPower (?vs ! i)" if "j < length ?vs" for j
    using mx that i(1) add [of "?vs ! j"] add [of "?vs ! i"] by (cases "j = i") (auto simp: before_def)
  ultimately show ?thesis using i(1) by blast
qed

section \<open>Checked multiplication\<close>

lemma safeMul_loop_eq:
  assumes "0 < a" "a \<le> MaxInt64" "0 \<le> c" "c \<le> MaxInt64" "int (Suc n) \<le> MaxInt64"
  shows "safeMul_loop a (int (Suc n)) c = (if c + a * int n \<le> MaxInt64 then (c + a * int n, False) else (- 1, True))"
  using assms
proof (induction n arbitrary: c)
  case 0
  then show ?case by (subst safeMul_loop.simps) simp
next
  case (Suc n)
  have w: "wrap64 (int (Suc (Suc n)) - 1) = int (Suc n)" using Suc.prems(5) by (subst wrap64_id) (auto simp: int64_defs)
  have m: "wrap64 (MaxInt64 - a) = MaxInt64 - a" using Suc.prems(1,2) by (intro wrap64_id) (auto simp: int64_defs)
  show ?case
  proof (cases "c + a \<le> MaxInt64")
    case True
    have "wrap64 (c + a) = c + a" using Suc.prems True by (intro wrap64_id) (auto simp: int64_defs)
    then have "i64_safeAdd c a = (c + a, False)" using True m Suc.prems(1) by (simp add: i64_safeAdd_def)
    then show ?thesis using Suc.IH [of "c + a"] Suc.prems True w by (subst safeMul_loop.simps) (simp add: algebra_simps)
  next
    case False
    then have "i64_safeAdd c a = (- 1, True)" using m Suc.prems(1) by (simp add: i64_safeAdd_def)
    moreover have "0 \<le> a * int n" using Suc.prems(1) by simp
    ultimately show ?thesis using False by (subst safeMul_loop.simps) (simp add: algebra_simps)
  qed
qed

lemma safeMul_nonneg:
  assumes "0 \<le> a" "a \<le> MaxInt64" "0 \<le> b" "b \<le> MaxInt64"
  shows "safeMul a b = (if a * b \<le> MaxInt64 then (a * b, False) else (- 1, True))"
proof (cases "a = 0 \<or> b = 0")
  case True
  then show ?thesis by (auto simp: safeMul_def int64_defs)
next
  case False
  then have b: "b = int (Suc (nat (b - 1)))" and p: "0 < a" "0 < b" using assms by auto
  have "int (Suc (nat (b - 1))) \<le> MaxInt64" using assms(4) b by simp
  from safeMul_loop_eq [OF p(1) assms(2,1,2) this]
  have "safeMul_loop a b a = (if a * b \<le> MaxInt64 then (a * b, False) else (- 1, True))"
    unfolding b [symmetric] using p by (simp add: algebra_simps)
  then show ?thesis using False p unfolding safeMul_def by (auto simp: Let_def)
qed

text \<open>At the smallest integer the negation of the second factor wraps around, the loop does not run, and a wrong product is
  returned without the overflow flag.\<close>

lemma safeMul_MinInt64: "a \<noteq> 0 \<Longrightarrow> - MaxInt64 \<le> a \<Longrightarrow> a \<le> MaxInt64 \<Longrightarrow> safeMul a MinInt64 = (- a, False)"
proof -
  assume a: "a \<noteq> 0" "- MaxInt64 \<le> a" "a \<le> MaxInt64"
  have "wrap64 (- MinInt64) = MinInt64" by (simp add: wrap64_def int64_defs)
  moreover have "safeMul_loop a MinInt64 a = (a, False)" by (subst safeMul_loop.simps) (simp add: int64_defs)
  moreover have "wrap64 (- a) = - a" using a by (intro wrap64_id) (auto simp: int64_defs)
  ultimately show ?thesis using a unfolding safeMul_def by (auto simp: Let_def int64_defs)
qed

end
