(* ===== verification/ProposerPriority.thy ===== *)
theory ProposerPriority
  imports ValidatorSet
begin

text \<open>
  Rounds of the proposer election (\<open>IncrementProposerPriority\<close>).  Every increment adds each validator's power to
  its priority and takes the total from the validator with the highest one.  The priorities stay within
  \<open>- 2 T\<close> and \<open>(1 + H n) T\<close>, where \<open>T\<close> is the total power, \<open>n\<close> the number of validators and
  \<open>H n\<close> the harmonic number; so no increment is clipped, and the number of turns of a validator over any number of
  rounds differs from its share of the power by a constant.
\<close>

section \<open>Priorities stay bounded\<close>

text \<open>The priorities are filled cups: every increment pours the voting powers into the cups and takes the total out of the
  fullest one.  No set of \<open>k\<close> cups then holds more than \<open>k\<close> times a bound that grows with the harmonic numbers.\<close>

definition harmonic :: "nat \<Rightarrow> real" where
  "harmonic n = (\<Sum>i=1..n. 1 / real i)"

lemma harmonic_Suc: "harmonic (Suc n) = harmonic n + 1 / real (Suc n)"
  by (simp add: harmonic_def)

lemma harmonic_mono: "m \<le> n \<Longrightarrow> harmonic m \<le> harmonic n"
  unfolding harmonic_def by (rule sum_mono2) auto

definition cup_bound :: "nat \<Rightarrow> int \<Rightarrow> nat \<Rightarrow> real" where
  "cup_bound n T k = 2 * real_of_int T + real_of_int T * (harmonic n - harmonic k)"

definition cups_ok :: "nat \<Rightarrow> int \<Rightarrow> (nat \<Rightarrow> int) \<Rightarrow> bool" where
  "cups_ok n T p \<longleftrightarrow> (\<forall>A \<subseteq> {..<n}. A \<noteq> {} \<longrightarrow> real_of_int (sum p A) \<le> real (card A) * cup_bound n T (card A))"

lemma cups_init:
  assumes "\<And>i. i < n \<Longrightarrow> p i \<le> 2 * T" "0 \<le> T"
  shows "cups_ok n T p"
  unfolding cups_ok_def
proof (intro allI impI)
  fix A assume A: "A \<subseteq> {..<n}" "A \<noteq> {}"
  then have "card A \<le> n" using card_mono [of "{..<n}" A] by simp
  then have "2 * real_of_int T \<le> cup_bound n T (card A)" using assms(2) harmonic_mono by (simp add: cup_bound_def)
  moreover have "real_of_int (sum p A) \<le> real (card A) * (2 * real_of_int T)"
    using sum_mono [of A p "\<lambda>_. 2 * T"] A(1) assms(1) by (auto simp flip: of_int_le_iff [where 'a = real])
  ultimately show "real_of_int (sum p A) \<le> real (card A) * cup_bound n T (card A)" by (meson mult_left_mono of_nat_0_le_iff order_trans)
qed

lemma cups_step:
  assumes "c < n" "\<And>i. i < n \<Longrightarrow> p i + w i \<le> p c + w c" "\<And>i. i < n \<Longrightarrow> 0 \<le> w i" "(\<Sum>i<n. w i) = T" "cups_ok n T p"
    and p': "\<And>i. i < n \<Longrightarrow> p' i = p i + w i - (if i = c then T else 0)"
  shows "cups_ok n T p'"
  unfolding cups_ok_def
proof (intro allI impI)
  fix A assume A: "A \<subseteq> {..<n}" "A \<noteq> {}"
  let ?k = "card A"
  have fin: "finite A" using A(1) finite_subset by blast
  have wA: "sum w S \<le> T" if "S \<subseteq> {..<n}" for S unfolding assms(4) [symmetric] using that assms(3) by (intro sum_mono2) auto
  show "real_of_int (sum p' A) \<le> real ?k * cup_bound n T ?k"
  proof (cases "c \<in> A")
    case True
    have "sum p' A = (\<Sum>i\<in>A. p i + w i - (if i = c then T else 0))" using p' A(1) by (intro sum.cong) auto
    also have "\<dots> = sum p A + sum w A - T" using fin True by (simp add: sum.distrib sum_subtractf)
    finally have "sum p' A \<le> sum p A" using wA [OF A(1)] by simp
    then show ?thesis using assms(5) A unfolding cups_ok_def by (meson of_int_le_iff order_trans)
  next
    case False
    let ?q = "\<lambda>i. p i + w i" and ?A = "insert c A"
    have q: "sum p' A = sum ?q A" using p' A(1) False by (intro sum.cong) auto
    have c: "card ?A = Suc ?k" using fin False by simp
    have "sum ?q A \<le> (\<Sum>i\<in>A. ?q c)" using assms(2) A(1) by (intro sum_mono) auto
    then have le: "sum ?q A \<le> int ?k * ?q c" by simp
    have sub: "?A \<subseteq> {..<n}" using A(1) assms(1) by auto
    have "sum ?q ?A = sum p ?A + sum w ?A" by (rule sum.distrib)
    then have "sum ?q A + ?q c \<le> sum p ?A + T" using wA [OF sub] fin False by simp
    then have "real_of_int (sum ?q A + ?q c) \<le> real_of_int (sum p ?A + T)" by (rule of_int_le_iff [THEN iffD2])
    moreover have "real_of_int (sum p ?A) \<le> real (Suc ?k) * cup_bound n T (Suc ?k)" using assms(5) sub unfolding cups_ok_def by (metis c insert_not_empty)
    ultimately have tot: "real_of_int (sum ?q A) + real_of_int (?q c) \<le> real (Suc ?k) * cup_bound n T (Suc ?k) + real_of_int T"
      by (simp only: of_int_add)
    have "real (Suc ?k) * real_of_int (sum ?q A) \<le> real ?k * (real_of_int (sum ?q A) + real_of_int (?q c))"
    proof -
      have "real_of_int (sum ?q A) \<le> real ?k * real_of_int (?q c)" using le by (metis of_int_le_iff of_int_mult of_int_of_nat_eq)
      then show ?thesis by (simp add: algebra_simps)
    qed
    also have "\<dots> \<le> real ?k * (real (Suc ?k) * cup_bound n T (Suc ?k) + real_of_int T)" using tot by (intro mult_left_mono) auto
    also have "\<dots> = real (Suc ?k) * (real ?k * cup_bound n T ?k)"
    proof -
      have "cup_bound n T ?k = cup_bound n T (Suc ?k) + real_of_int T / real (Suc ?k)" by (simp add: cup_bound_def harmonic_Suc algebra_simps)
      then show ?thesis by (simp add: field_simps)
    qed
    finally show ?thesis unfolding q by (rule mult_left_le_imp_le) simp
  qed
qed

lemma cups_single: "cups_ok n T p \<Longrightarrow> i < n \<Longrightarrow> real_of_int (p i) \<le> (1 + harmonic n) * real_of_int T"
  unfolding cups_ok_def by (drule spec [of _ "{i}"]) (auto simp: cup_bound_def harmonic_def algebra_simps)

section \<open>Rounds of the election\<close>

lemma increment_loop_Suc: "increment_loop (Suc k) st = rbind (increment_loop k st) (\<lambda>st. rbind (incrementProposerPriority (snd st)) (\<lambda>(p, vals). Inr (Some p, vals)))"
proof (induction k arbitrary: st)
  case 0
  show ?case by simp
next
  case (Suc k)
  show ?case
  proof (cases "incrementProposerPriority (snd st)")
    case (Inr r)
    then show ?thesis using Suc.IH [of "(Some (fst r), snd r)"] by (simp add: case_prod_beta)
  qed simp
qed

definition elected :: "ValidatorSet \<Rightarrow> nat \<Rightarrow> bytes option" where
  "elected vals k = (case increment_loop k (None, vals) of Inr (p, _) \<Rightarrow> map_option tv_Address p | Inl _ \<Rightarrow> None)"

definition elections :: "ValidatorSet \<Rightarrow> bytes \<Rightarrow> nat \<Rightarrow> nat" where
  "elections vals a k = card {m \<in> {1..k}. elected vals m = Some a}"

lemma elections_simps [simp]:
  "elections vals a 0 = 0"
  "elections vals a (Suc k) = elections vals a k + (if elected vals (Suc k) = Some a then 1 else 0)"
proof -
  have *: "{m \<in> {1..Suc k}. elected vals m = Some a} = {m \<in> {1..k}. elected vals m = Some a} \<union> (if elected vals (Suc k) = Some a then {Suc k} else {})"
    by (auto simp: le_Suc_eq)
  then show "elections vals a (Suc k) = elections vals a k + (if elected vals (Suc k) = Some a then 1 else 0)"
    unfolding elections_def * by (subst card_Un_disjoint) auto
qed (simp add: elections_def)

text \<open>A set with centered priorities within the window, from which the elections start.\<close>

definition centered :: "ValidatorSet \<Rightarrow> bool" where
  "centered vals \<longleftrightarrow> Validators vals \<noteq> [] \<and> distinct (map tv_Address (Validators vals)) \<and>
     totalVotingPower vals = power_sum (Validators vals) \<and> totalVotingPower vals \<le> MaxTotalVotingPower \<and> 0 \<le> sum_list (prios (Validators vals)) \<and>
     sum_list (prios (Validators vals)) < int (length (Validators vals)) \<and> (\<forall>v\<in>set (Validators vals). 0 < VotingPower v \<and> - 2 * totalVotingPower vals \<le> ProposerPriority v \<and> ProposerPriority v \<le> 2 * totalVotingPower vals)"

definition run_inv :: "ValidatorSet \<Rightarrow> nat \<Rightarrow> TmValidator list \<Rightarrow> bool" where
  "run_inv vals k vs \<longleftrightarrow> (let n = length (Validators vals); T = totalVotingPower vals in
     map vkey vs = map vkey (Validators vals) \<and> cups_ok n T ((!) (prios vs)) \<and> (\<Sum>j<n. prios vs ! j) = sum_list (prios (Validators vals)) \<and>
     (\<forall>j<n. - 2 * T \<le> prios vs ! j \<and>
        prios vs ! j = prios (Validators vals) ! j + int k * VotingPower (Validators vals ! j) - T * int (elections vals (tv_Address (Validators vals ! j)) k)))"

lemma power_sum_nth: "power_sum vs = (\<Sum>j<length vs. VotingPower (vs ! j))"
  by (simp add: power_sum_def sum_list_sum_nth atLeast0LessThan)

lemma sum_list_map_ge: "(\<And>v. v \<in> set vs \<Longrightarrow> (0::int) \<le> f v) \<Longrightarrow> v \<in> set vs \<Longrightarrow> f v \<le> sum_list (map f vs)"
proof (induction vs)
  case (Cons x vs)
  then have "0 \<le> sum_list (map f vs)" "0 \<le> f x" by (auto intro!: sum_list_nonneg)
  with Cons show ?case by fastforce
qed simp

lemma power_le_sum: "(\<And>v. v \<in> set vs \<Longrightarrow> 0 \<le> VotingPower v) \<Longrightarrow> v \<in> set vs \<Longrightarrow> VotingPower v \<le> power_sum vs"
  unfolding power_sum_def by (rule sum_list_map_ge) auto

lemma nth_vkey:
  assumes "map vkey vs = map vkey vs0" "j < length vs0"
  shows "tv_Address (vs ! j) = tv_Address (vs0 ! j)" "VotingPower (vs ! j) = VotingPower (vs0 ! j)"
  using nth_map [of j vs tv_Address] nth_map [of j vs VotingPower] nth_map [of j vs0 tv_Address] nth_map [of j vs0 VotingPower] vkeys_eqD [OF assms(1)] assms(2) by simp_all

lemma run_step:
  assumes c: "centered vals" and B: "(2 + harmonic (length (Validators vals))) * real_of_int (totalVotingPower vals) \<le> real_of_int MaxInt64"
    and r: "increment_loop k (None, vals) = Inr (prop, vals\<lparr>Validators := vs\<rparr>)" and I: "run_inv vals k vs"
  shows "\<exists>i<length (Validators vals). \<exists>vs'. increment_loop (Suc k) (None, vals) = Inr (Some (vs' ! i), vals\<lparr>Validators := vs'\<rparr>) \<and> run_inv vals (Suc k) vs'"
proof -
  let ?vs0 = "Validators vals" and ?T = "totalVotingPower vals"
  let ?n = "length ?vs0" and ?w = "\<lambda>j. VotingPower (Validators vals ! j)"
  have vk: "map vkey vs = map vkey ?vs0" and cups: "cups_ok ?n ?T ((!) (prios vs))" and S0: "(\<Sum>j<?n. prios vs ! j) = sum_list (prios ?vs0)"
    and low: "\<And>j. j < ?n \<Longrightarrow> - 2 * ?T \<le> prios vs ! j"
    and eq: "\<And>j. j < ?n \<Longrightarrow> prios vs ! j = prios ?vs0 ! j + int k * ?w j - ?T * int (elections vals (tv_Address (?vs0 ! j)) k)"
    using I by (auto simp: run_inv_def Let_def)
  note vkD = vkeys_eqD [OF vk]
  have S: "0 \<le> (\<Sum>j<?n. prios vs ! j)" using S0 c by (simp add: centered_def)
  have w: "0 < ?w j" "?w j \<le> ?T" if "j < ?n" for j using c that power_le_sum [of ?vs0 "?vs0 ! j"] by (auto simp: centered_def order_less_imp_le)
  have n0: "0 < ?n" using c by (simp add: centered_def)
  have T: "0 < ?T" "?T = (\<Sum>j<?n. ?w j)" using w(1) [OF n0] w(2) [OF n0] c by (simp, simp add: centered_def power_sum_nth)
  have up: "prios vs ! j + ?w j \<le> MaxInt64" if "j < ?n" for j
  proof -
    have "real_of_int (prios vs ! j) \<le> (1 + harmonic ?n) * real_of_int ?T" using cups_single [OF cups that] .
    then have "real_of_int (prios vs ! j + ?w j) \<le> (2 + harmonic ?n) * real_of_int ?T" using w(2) [OF that] by (simp add: algebra_simps)
    then show ?thesis using B by (metis of_int_le_iff order_trans)
  qed
  let ?v = "vals\<lparr>Validators := vs\<rparr>"
  have "\<exists>i<length (Validators ?v). \<exists>vs'. incrementProposerPriority ?v = Inr (vs' ! i, ?v\<lparr>Validators := vs'\<rparr>) \<and> map vkey vs' = map vkey (Validators ?v) \<and>
    (\<forall>j<length (Validators ?v). prios vs' ! j = prios (Validators ?v) ! j + VotingPower (Validators ?v ! j) - (if j = i then ?T else 0) \<and>
       prios (Validators ?v) ! j + VotingPower (Validators ?v ! j) \<le> prios (Validators ?v) ! i + VotingPower (Validators ?v ! i))"
  proof (rule increment_step)
    fix v assume "v \<in> set (Validators ?v)"
    then obtain j where j: "j < ?n" "v = vs ! j" using vkD(3) by (auto simp: in_set_conv_nth)
    show "0 < VotingPower v \<and> VotingPower v \<le> ?T" using w [OF j(1)] nth_vkey [OF vk j(1)] j by simp
    show "- 3 * ?T \<le> ProposerPriority v \<and> ProposerPriority v + VotingPower v \<le> MaxInt64"
      using low [OF j(1)] up [OF j(1)] nth_vkey [OF vk j(1)] j vkD(3) T(1) by simp
  qed (use c T vkD in \<open>auto simp: centered_def\<close>)
  then obtain i vs' where i: "i < ?n" and st: "incrementProposerPriority ?v = Inr (vs' ! i, vals\<lparr>Validators := vs'\<rparr>)" and vk': "map vkey vs' = map vkey ?vs0"
    and p': "\<And>j. j < ?n \<Longrightarrow> prios vs' ! j = prios vs ! j + ?w j - (if j = i then ?T else 0)"
    and mx: "\<And>j. j < ?n \<Longrightarrow> prios vs ! j + ?w j \<le> prios vs ! i + ?w i"
    using vk vkD(3) nth_vkey [OF vk] by auto
  have loop: "increment_loop (Suc k) (None, vals) = Inr (Some (vs' ! i), vals\<lparr>Validators := vs'\<rparr>)" unfolding increment_loop_Suc r using st by simp
  have el: "elected vals (Suc k) = Some (tv_Address (?vs0 ! i))" using loop nth_vkey [OF vk' i] by (simp add: elected_def del: increment_loop.simps)
  have "cups_ok ?n ?T ((!) (prios vs'))" by (rule cups_step [OF i mx _ _ cups p']) (use w T in \<open>auto intro: less_imp_le\<close>)
  moreover have sum': "(\<Sum>j<?n. prios vs' ! j) = (\<Sum>j<?n. prios vs ! j)"
  proof -
    have "(\<Sum>j<?n. prios vs' ! j) = (\<Sum>j<?n. prios vs ! j + ?w j - (if j = i then ?T else 0))" using p' by (intro sum.cong) auto
    also have "\<dots> = (\<Sum>j<?n. prios vs ! j)" using i T(2) by (simp add: sum.distrib sum_subtractf)
    finally show ?thesis .
  qed
  moreover have "- 2 * ?T \<le> prios vs' ! j" if "j < ?n" for j
  proof (cases "j = i")
    case True
    have "0 < (\<Sum>j<?n. prios vs ! j + ?w j)" using S T by (simp add: sum.distrib)
    also have "\<dots> \<le> (\<Sum>j<?n. prios vs ! i + ?w i)" using mx by (intro sum_mono) auto
    finally have "0 < int ?n * (prios vs ! i + ?w i)" by simp
    then have "0 < prios vs ! i + ?w i" by (metis of_nat_0_le_iff zero_less_mult_pos less_le mult_zero_left)
    then show ?thesis using p' [OF that] True T(1) by simp
  qed (use p' [OF that] low [OF that] w [OF that] in simp)
  moreover have "prios vs' ! j = prios ?vs0 ! j + int (Suc k) * ?w j - ?T * int (elections vals (tv_Address (?vs0 ! j)) (Suc k))" if "j < ?n" for j
  proof -
    have "tv_Address (?vs0 ! j) = tv_Address (?vs0 ! i) \<longleftrightarrow> j = i" using c that i nth_eq_iff_index_eq [of "map tv_Address ?vs0" j i] by (simp add: centered_def)
    then show ?thesis using p' [OF that] eq [OF that] el by (auto simp: algebra_simps)
  qed
  ultimately have "run_inv vals (Suc k) vs'" using vk' S0 unfolding run_inv_def Let_def by simp
  with i loop show ?thesis by blast
qed

lemma sum_list_pos_all: "xs \<noteq> [] \<Longrightarrow> (\<And>x. x \<in> set xs \<Longrightarrow> (0::int) < x) \<Longrightarrow> 0 < sum_list xs"
proof (induction xs)
  case (Cons x xs)
  then show ?case by (cases "xs = []") (auto intro: add_pos_pos)
qed simp

lemma run_inv_init: "centered vals \<Longrightarrow> run_inv vals 0 (Validators vals)"
  unfolding run_inv_def Let_def
proof (intro conjI allI impI)
  assume c: "centered vals"
  have T: "0 < totalVotingPower vals" using c by (auto simp: centered_def power_sum_def intro!: sum_list_pos_all)
  show "cups_ok (length (Validators vals)) (totalVotingPower vals) ((!) (prios (Validators vals)))"
    by (rule cups_init) (use c T in \<open>auto simp: centered_def\<close>)
qed (auto simp: centered_def sum_list_sum_nth atLeast0LessThan)

lemma run_inv_loop:
  assumes c: "centered vals" and B: "(2 + harmonic (length (Validators vals))) * real_of_int (totalVotingPower vals) \<le> real_of_int MaxInt64"
  shows "\<exists>prop vs. increment_loop k (None, vals) = Inr (prop, vals\<lparr>Validators := vs\<rparr>) \<and> run_inv vals k vs \<and> (0 < k \<longrightarrow> (\<exists>v\<in>set vs. prop = Some v))"
proof (induction k)
  case 0
  show ?case using run_inv_init [OF c] by (intro exI [of _ None] exI [of _ "Validators vals"]) simp
next
  case (Suc k)
  then obtain pp vs where "increment_loop k (None, vals) = Inr (pp, vals\<lparr>Validators := vs\<rparr>)" "run_inv vals k vs" by fast
  then obtain i vs' where r: "i < length (Validators vals)" "increment_loop (Suc k) (None, vals) = Inr (Some (vs' ! i), vals\<lparr>Validators := vs'\<rparr>)" "run_inv vals (Suc k) vs'"
    using run_step [OF c B] by fast
  moreover have "map vkey vs' = map vkey (Validators vals)" using r(3) unfolding run_inv_def Let_def by blast
  then have "vs' ! i \<in> set vs'" using r(1) vkeys_eqD(3) nth_mem by metis
  ultimately show ?case by blast
qed

lemma run_inv_bounds:
  assumes "run_inv vals k vs" "v \<in> set vs"
  shows "- 2 * totalVotingPower vals \<le> ProposerPriority v" "real_of_int (ProposerPriority v) \<le> (1 + harmonic (length (Validators vals))) * real_of_int (totalVotingPower vals)"
proof -
  have vk: "length vs = length (Validators vals)" using assms(1) vkeys_eqD(3) unfolding run_inv_def Let_def by blast
  obtain j where j: "j < length (Validators vals)" "v = vs ! j" using assms(2) vk by (auto simp: in_set_conv_nth)
  have low: "- 2 * totalVotingPower vals \<le> prios vs ! j" and cups: "cups_ok (length (Validators vals)) (totalVotingPower vals) ((!) (prios vs))"
    using assms(1) j(1) unfolding run_inv_def Let_def by blast+
  show "- 2 * totalVotingPower vals \<le> ProposerPriority v" using low j vk by simp
  show "real_of_int (ProposerPriority v) \<le> (1 + harmonic (length (Validators vals))) * real_of_int (totalVotingPower vals)"
    using cups_single [OF cups j(1)] j vk by simp
qed

lemma run_inv_fair:
  assumes c: "centered vals" and I: "run_inv vals k vs" and v: "v \<in> set (Validators vals)"
  shows "\<bar>real_of_int (totalVotingPower vals * int (elections vals (tv_Address v) k) - VotingPower v * int k)\<bar> \<le> (3 + harmonic (length (Validators vals))) * real_of_int (totalVotingPower vals)"
proof -
  let ?n = "length (Validators vals)" and ?T = "totalVotingPower vals"
  have vk: "length vs = ?n" using I vkeys_eqD(3) unfolding run_inv_def Let_def by blast
  obtain j where j: "j < ?n" "v = Validators vals ! j" using v by (auto simp: in_set_conv_nth)
  have eq: "prios vs ! j = prios (Validators vals) ! j + int k * VotingPower v - ?T * int (elections vals (tv_Address v) k)"
    using I j unfolding run_inv_def Let_def by blast
  have w: "vs ! j \<in> set vs" using j vk by simp
  have b0: "- 2 * ?T \<le> ProposerPriority v \<and> ProposerPriority v \<le> 2 * ?T" using c v by (auto simp: centered_def)
  have "1 \<le> harmonic ?n" using harmonic_mono [of 1 ?n] j(1) by (simp add: harmonic_def)
  moreover have T: "0 \<le> ?T" using b0 by linarith
  ultimately have h: "real_of_int ?T \<le> harmonic ?n * real_of_int ?T" by (simp add: mult_le_cancel_right1)
  have "?T * int (elections vals (tv_Address v) k) - VotingPower v * int k = ProposerPriority v - ProposerPriority (vs ! j)"
    using eq j vk by (simp add: mult.commute)
  then have "real_of_int (?T * int (elections vals (tv_Address v) k) - VotingPower v * int k) = real_of_int (ProposerPriority v) - real_of_int (ProposerPriority (vs ! j))" by (simp only: of_int_diff)
  moreover have "- 2 * real_of_int ?T \<le> real_of_int (ProposerPriority v)" "real_of_int (ProposerPriority v) \<le> 2 * real_of_int ?T" "- 2 * real_of_int ?T \<le> real_of_int (ProposerPriority (vs ! j))"
    using b0 run_inv_bounds(1) [OF I w] by linarith+
  ultimately show ?thesis using run_inv_bounds(2) [OF I w] h by (simp only: abs_le_iff distrib_right) linarith
qed

section \<open>The well-formed sets\<close>

definition vset_wf :: "ValidatorSet \<Rightarrow> bool" where
  "vset_wf vals \<longleftrightarrow> distinct (map tv_Address (Validators vals)) \<and>
     totalVotingPower vals = power_sum (Validators vals) \<and> totalVotingPower vals \<le> MaxTotalVotingPower \<and>
     (\<forall>v\<in>set (Validators vals). 0 < VotingPower v \<and> \<bar>ProposerPriority v\<bar> < 3 * 2 ^ 60)"

lemma vset_wf_total:
  assumes "vset_wf vals" "Validators vals \<noteq> []"
  shows "0 < totalVotingPower vals" "totalVotingPower vals < 2 ^ 60" "TotalVotingPower vals = Inr (totalVotingPower vals)"
proof -
  show "0 < totalVotingPower vals" using assms by (auto simp: vset_wf_def power_sum_def intro!: sum_list_pos_all)
  then show "TotalVotingPower vals = Inr (totalVotingPower vals)" by (simp add: TotalVotingPower_def)
  show "totalVotingPower vals < 2 ^ 60" using assms by (auto simp: vset_wf_def MaxTotalVotingPower_eq)
qed

lemma scale_and_center:
  assumes "Validators vals \<noteq> []" "0 < T" "T < 2 ^ 60" and b: "\<And>v. v \<in> set (Validators vals) \<Longrightarrow> \<bar>ProposerPriority v\<bar> < 3 * 2 ^ 60"
  shows "\<exists>vs. rbind (RescalePriorities (wrap64 (PriorityWindowSizeFactor * T)) vals) shiftByAvgProposerPriority = Inr (vals\<lparr>Validators := vs\<rparr>) \<and>
    map vkey vs = map vkey (Validators vals) \<and> (\<forall>v\<in>set vs. - (2 * T) \<le> ProposerPriority v \<and> ProposerPriority v \<le> 2 * T) \<and>
    0 \<le> sum_list (prios vs) \<and> sum_list (prios vs) < int (length vs)"
proof -
  have D: "wrap64 (PriorityWindowSizeFactor * T) = 2 * T" using assms(2,3) by (subst wrap64_id) (auto simp: PriorityWindowSizeFactor_def)
  have b': "- (3 * 2 ^ 60 - 1) \<le> ProposerPriority v \<and> ProposerPriority v \<le> 3 * 2 ^ 60 - 1" if "v \<in> set (Validators vals)" for v using b [OF that] by linarith
  obtain vs where r: "RescalePriorities (2 * T) vals = Inr (vals\<lparr>Validators := vs\<rparr>)" "map vkey vs = map vkey (Validators vals)"
    and sp: "\<forall>v\<in>set vs. \<forall>w\<in>set vs. ProposerPriority v - ProposerPriority w \<le> 2 * T"
    and b2: "\<forall>v\<in>set vs. - (3 * 2 ^ 60 - 1) \<le> ProposerPriority v \<and> ProposerPriority v \<le> 3 * 2 ^ 60 - 1"
    using Rescale_spec [of vals "3 * 2 ^ 60 - 1" "2 * T"] b' assms(1-3) by (auto simp del: One_nat_def)
  have ne: "vs \<noteq> []" using r(2) assms(1) by auto
  have "\<exists>us. shiftByAvgProposerPriority (vals\<lparr>Validators := vs\<rparr>) = Inr ((vals\<lparr>Validators := vs\<rparr>)\<lparr>Validators := us\<rparr>) \<and> map vkey us = map vkey (Validators (vals\<lparr>Validators := vs\<rparr>)) \<and>
    (\<forall>v\<in>set us. - (2 * T) \<le> ProposerPriority v \<and> ProposerPriority v \<le> 2 * T) \<and> 0 \<le> sum_list (prios us) \<and> sum_list (prios us) < int (length us)"
    by (rule shift_spec [where B = "3 * 2 ^ 60 - 1"]) (use ne sp b2 assms(3) in auto)
  then show ?thesis using r D by auto
qed

lemma prepare_centered:
  assumes "vset_wf vals" "Validators vals \<noteq> []"
  shows "\<exists>vs. rbind (RescalePriorities (wrap64 (PriorityWindowSizeFactor * totalVotingPower vals)) vals) shiftByAvgProposerPriority = Inr (vals\<lparr>Validators := vs\<rparr>) \<and>
    map vkey vs = map vkey (Validators vals) \<and> centered (vals\<lparr>Validators := vs\<rparr>)"
proof -
  obtain vs where r: "rbind (RescalePriorities (wrap64 (PriorityWindowSizeFactor * totalVotingPower vals)) vals) shiftByAvgProposerPriority = Inr (vals\<lparr>Validators := vs\<rparr>)"
    and vk: "map vkey vs = map vkey (Validators vals)" and b: "\<forall>v\<in>set vs. - (2 * totalVotingPower vals) \<le> ProposerPriority v \<and> ProposerPriority v \<le> 2 * totalVotingPower vals"
    and s: "0 \<le> sum_list (prios vs)" "sum_list (prios vs) < int (length vs)"
    using scale_and_center [OF assms(2) vset_wf_total(1,2) [OF assms]] assms(1) unfolding vset_wf_def by fast
  have "VotingPower v \<in> VotingPower ` set (Validators vals)" if "v \<in> set vs" for v
    using vkeys_eqD(2) [OF vk] that by (metis image_eqI set_map)
  moreover have "\<forall>p\<in>VotingPower ` set (Validators vals). 0 < p" using assms(1) by (auto simp: vset_wf_def)
  ultimately have "\<forall>v\<in>set vs. 0 < VotingPower v" by blast
  then have "centered (vals\<lparr>Validators := vs\<rparr>)" using vkeys_eqD [OF vk] assms b s by (auto simp: centered_def vset_wf_def)
  with r vk show ?thesis by blast
qed

definition proposer_at :: "ValidatorSet \<Rightarrow> nat \<Rightarrow> bytes option" where
  "proposer_at vals k = (case IncrementProposerPriority (int k) vals of Inr vals' \<Rightarrow> map_option tv_Address (vs_Proposer vals') | Inl _ \<Rightarrow> None)"

definition turns :: "ValidatorSet \<Rightarrow> bytes \<Rightarrow> nat \<Rightarrow> nat" where
  "turns vals a t = card {k \<in> {1..t}. proposer_at vals k = Some a}"

lemma Increment_eq:
  assumes "Validators vals \<noteq> []" "0 < k" "TotalVotingPower vals = Inr T"
    and "rbind (RescalePriorities (wrap64 (PriorityWindowSizeFactor * T)) vals) shiftByAvgProposerPriority = Inr vals2"
  shows "IncrementProposerPriority (int k) vals = rbind (increment_loop k (None, vals2)) (\<lambda>(proposer, vals3). Inr (vals3\<lparr>vs_Proposer := proposer\<rparr>))"
proof -
  have k: "int k \<noteq> 0" "nat (int k) = k" using assms(2) by auto
  obtain vals1 where v1: "RescalePriorities (wrap64 (PriorityWindowSizeFactor * T)) vals = Inr vals1" "shiftByAvgProposerPriority vals1 = Inr vals2"
    using assms(4) by auto
  show ?thesis unfolding IncrementProposerPriority_def using assms(1-3) k v1 by simp
qed

lemma harmonic_room:
  assumes "(1 + harmonic n) * real_of_int T < 3 * 2 ^ 60" "T < 2 ^ 60"
  shows "(2 + harmonic n) * real_of_int T \<le> real_of_int MaxInt64"
proof -
  have "real_of_int T < 2 ^ 60" using assms(2) by simp
  moreover have "real_of_int MaxInt64 = 2 ^ 63 - 1" by (simp add: int64_defs)
  ultimately show ?thesis using assms(1) by (simp add: algebra_simps)
qed

lemma Increment_run:
  assumes "vset_wf vals" "Validators vals \<noteq> []" "(1 + harmonic (length (Validators vals))) * real_of_int (totalVotingPower vals) < 3 * 2 ^ 60" "0 < k"
  shows "\<exists>vals2. centered vals2 \<and> map vkey (Validators vals2) = map vkey (Validators vals) \<and> totalVotingPower vals2 = totalVotingPower vals \<and>
    (\<exists>p vs. IncrementProposerPriority (int k) vals = Inr (vals\<lparr>Validators := vs, vs_Proposer := Some p\<rparr>) \<and> p \<in> set vs \<and> run_inv vals2 k vs) \<and>
    (\<forall>j. proposer_at vals j = elected vals2 j)"
proof -
  note T = vset_wf_total [OF assms(1,2)]
  obtain us where r: "rbind (RescalePriorities (wrap64 (PriorityWindowSizeFactor * totalVotingPower vals)) vals) shiftByAvgProposerPriority = Inr (vals\<lparr>Validators := us\<rparr>)"
    and vk: "map vkey us = map vkey (Validators vals)" and c: "centered (vals\<lparr>Validators := us\<rparr>)" using prepare_centered [OF assms(1,2)] by fast
  let ?v = "vals\<lparr>Validators := us\<rparr>"
  have B: "(2 + harmonic (length (Validators ?v))) * real_of_int (totalVotingPower ?v) \<le> real_of_int MaxInt64"
    using harmonic_room [OF assms(3) T(2)] vkeys_eqD(3) [OF vk] by simp
  note inc = Increment_eq [OF assms(2) _ T(3) r]
  have el: "proposer_at vals j = elected ?v j" for j
  proof (cases "j = 0")
    case True
    then show ?thesis by (simp add: proposer_at_def elected_def IncrementProposerPriority_def)
  next
    case False
    then show ?thesis using run_inv_loop [OF c B, of j] inc [of j] by (auto simp: proposer_at_def elected_def)
  qed
  obtain pp vs where "increment_loop k (None, ?v) = Inr (pp, ?v\<lparr>Validators := vs\<rparr>)" "run_inv ?v k vs" "\<exists>p\<in>set vs. pp = Some p"
    using run_inv_loop [OF c B, of k] assms(4) by fast
  then have "\<exists>p vs. IncrementProposerPriority (int k) vals = Inr (vals\<lparr>Validators := vs, vs_Proposer := Some p\<rparr>) \<and> p \<in> set vs \<and> run_inv ?v k vs"
    using inc [OF assms(4)] by auto
  with c vk el show ?thesis by (intro exI [of _ ?v]) simp
qed

lemma abs_ivl: "- (2 * T) \<le> (p::int) \<Longrightarrow> real_of_int p \<le> (1 + h) * real_of_int T \<Longrightarrow> 0 < T \<Longrightarrow> T < 2 ^ 60 \<Longrightarrow> (1 + h) * real_of_int T < 3 * 2 ^ 60 \<Longrightarrow> \<bar>p\<bar> < 3 * 2 ^ 60"
proof -
  assume a: "- (2 * T) \<le> p" "real_of_int p \<le> (1 + h) * real_of_int T" "0 < T" "T < 2 ^ 60" "(1 + h) * real_of_int T < 3 * 2 ^ 60"
  have "real_of_int p < real_of_int (3 * 2 ^ 60)" using a(2,5) by simp
  then have "p < 3 * 2 ^ 60" by (simp only: of_int_less_iff)
  with a(1,4) show ?thesis by linarith
qed

text \<open>C6: Advancing the proposer election by any number of rounds from a well-formed set succeeds and gives a
  well-formed set with the same validators and a proposer among them; the priorities sum to less than the number of
  validators and lie between twice the total power below zero and the total power times one plus the harmonic
  number above, so nothing is clipped or wrapped.\<close>

theorem IncrementProposerPriority_bounded:
  assumes "vset_wf vals" "Validators vals \<noteq> []" "(1 + harmonic (length (Validators vals))) * real_of_int (totalVotingPower vals) < 3 * 2 ^ 60" "0 < k"
  shows "\<exists>vals' p. IncrementProposerPriority (int k) vals = Inr vals' \<and> vset_wf vals' \<and> vs_Proposer vals' = Some p \<and> p \<in> set (Validators vals') \<and>
    map vkey (Validators vals') = map vkey (Validators vals) \<and> totalVotingPower vals' = totalVotingPower vals \<and>
    0 \<le> sum_list (prios (Validators vals')) \<and> sum_list (prios (Validators vals')) < int (length (Validators vals)) \<and>
    (\<forall>v\<in>set (Validators vals'). - 2 * totalVotingPower vals \<le> ProposerPriority v \<and>
       real_of_int (ProposerPriority v) \<le> (1 + harmonic (length (Validators vals))) * real_of_int (totalVotingPower vals))"
proof -
  let ?T = "totalVotingPower vals" and ?n = "length (Validators vals)"
  note T = vset_wf_total [OF assms(1,2)]
  obtain vals2 p vs where c: "centered vals2" and vk2: "map vkey (Validators vals2) = map vkey (Validators vals)" and T2: "totalVotingPower vals2 = ?T"
    and r: "IncrementProposerPriority (int k) vals = Inr (vals\<lparr>Validators := vs, vs_Proposer := Some p\<rparr>)" "p \<in> set vs" and I: "run_inv vals2 k vs"
    using Increment_run [OF assms] by fast
  have vk: "map vkey vs = map vkey (Validators vals)" and S: "(\<Sum>j<length (Validators vals2). prios vs ! j) = sum_list (prios (Validators vals2))"
    using I vk2 unfolding run_inv_def Let_def by auto
  have n: "length (Validators vals2) = ?n" using vkeys_eqD(3) [OF vk2] .
  have "sum_list (prios vs) = sum_list (prios (Validators vals2))"
    using S n vkeys_eqD(3) [OF vk] by (simp add: sum_list_sum_nth atLeast0LessThan)
  then have sum: "0 \<le> sum_list (prios vs)" "sum_list (prios vs) < int ?n" using c n by (simp_all add: centered_def)
  have b: "- 2 * ?T \<le> ProposerPriority v \<and> real_of_int (ProposerPriority v) \<le> (1 + harmonic ?n) * real_of_int ?T" if "v \<in> set vs" for v
    using run_inv_bounds [OF I that] T2 n by simp
  have "0 < VotingPower v" if "v \<in> set vs" for v
  proof -
    have "VotingPower v \<in> set (map VotingPower (Validators vals))" using vkeys_eqD(2) [OF vk] that by (metis image_eqI set_map)
    then show ?thesis using assms(1) by (auto simp: vset_wf_def)
  qed
  moreover have "\<bar>ProposerPriority v\<bar> < 3 * 2 ^ 60" if "v \<in> set vs" for v
    using abs_ivl [OF _ _ T(1,2) assms(3)] b [OF that] by simp
  ultimately have "vset_wf (vals\<lparr>Validators := vs, vs_Proposer := Some p\<rparr>)"
    using assms(1) vkeys_eqD [OF vk] by (simp add: vset_wf_def)
  then show ?thesis using r vk sum b by (intro exI [of _ "vals\<lparr>Validators := vs, vs_Proposer := Some p\<rparr>"] exI [of _ p]) simp
qed

text \<open>C7: Over any number \<open>t\<close> of rounds, the number of turns of a validator times the total power differs from its power
  times \<open>t\<close> by at most the constant \<open>(3 + H n) T\<close>; in particular every validator proposes as soon as its power
  times the number of rounds exceeds that constant.\<close>

theorem IncrementProposerPriority_fair:
  assumes "vset_wf vals" "v \<in> set (Validators vals)" "(1 + harmonic (length (Validators vals))) * real_of_int (totalVotingPower vals) < 3 * 2 ^ 60"
  shows "\<bar>real_of_int (totalVotingPower vals * int (turns vals (tv_Address v) t) - VotingPower v * int t)\<bar> \<le> (3 + harmonic (length (Validators vals))) * real_of_int (totalVotingPower vals) \<and>
    ((3 + harmonic (length (Validators vals))) * real_of_int (totalVotingPower vals) < real_of_int (VotingPower v * int t) \<longrightarrow> (\<exists>k\<in>{1..t}. proposer_at vals k = Some (tv_Address v)))"
proof -
  define slack where "slack = (3 + harmonic (length (Validators vals))) * real_of_int (totalVotingPower vals)"
  have ne: "Validators vals \<noteq> []" using assms(2) by auto
  note T = vset_wf_total [OF assms(1) ne]
  have "\<bar>real_of_int (totalVotingPower vals * int (turns vals (tv_Address v) t) - VotingPower v * int t)\<bar> \<le> slack"
  proof (cases "t = 0")
    case True
    have "0 \<le> harmonic (length (Validators vals))" unfolding harmonic_def by (intro sum_nonneg) auto
    then show ?thesis using True T(1) by (simp add: turns_def slack_def)
  next
    case False
    obtain vals2 vs where c: "centered vals2" and vk: "map vkey (Validators vals2) = map vkey (Validators vals)" and T2: "totalVotingPower vals2 = totalVotingPower vals"
      and I: "run_inv vals2 t vs" and el: "\<forall>j. proposer_at vals j = elected vals2 j"
      using Increment_run [OF assms(1) ne assms(3), of t] False by auto
    have "vkey v \<in> set (map vkey (Validators vals2))" using vk assms(2) by simp
    then obtain v2 where v2: "v2 \<in> set (Validators vals2)" "vkey v2 = vkey v" by auto
    have "turns vals a t = elections vals2 a t" for a using el by (simp add: turns_def elections_def)
    then show ?thesis using run_inv_fair [OF c I v2(1)] v2(2) T2 vkeys_eqD(3) [OF vk] by (simp add: slack_def vkey_def)
  qed
  moreover have "\<exists>k\<in>{1..t}. proposer_at vals k = Some (tv_Address v)" if "turns vals (tv_Address v) t \<noteq> 0"
    using that unfolding turns_def by (metis (mono_tags, lifting) card.empty empty_Collect_eq mem_Collect_eq)
  ultimately show ?thesis unfolding slack_def [symmetric] by (cases "turns vals (tv_Address v) t = 0") auto
qed

definition three_validators :: ValidatorSet where
  "three_validators = \<lparr>Validators = map (\<lambda>(a, p). \<lparr>tv_Address = a, tv_PubKey = a, VotingPower = p, ProposerPriority = 0\<rparr>) [(''a'', 1), (''b'', 2), (''c'', 3)],
     vs_Proposer = None, totalVotingPower = 6\<rparr>"

lemma three_validators_wf:
  "vset_wf three_validators" "Validators three_validators \<noteq> []"
  "(1 + harmonic (length (Validators three_validators))) * real_of_int (totalVotingPower three_validators) < 3 * 2 ^ 60"
  by (simp_all add: vset_wf_def three_validators_def power_sum_def MaxTotalVotingPower_eq harmonic_def numeral_eq_Suc)

theorem IncrementProposerPriority_bounded_witness:
  "\<exists>vals'. IncrementProposerPriority 5 three_validators = Inr vals' \<and> vset_wf vals' \<and> (\<forall>v\<in>set (Validators vals'). - 12 \<le> ProposerPriority v)"
  using IncrementProposerPriority_bounded [OF three_validators_wf, of 5] by (auto simp: three_validators_def)

theorem IncrementProposerPriority_fair_witness: "\<exists>k\<in>{1..40}. proposer_at three_validators k = Some ''a''"
proof -
  let ?v = "\<lparr>tv_Address = ''a'', tv_PubKey = ''a'', VotingPower = 1, ProposerPriority = 0\<rparr>"
  have v: "?v \<in> set (Validators three_validators)" by (simp add: three_validators_def)
  show ?thesis using IncrementProposerPriority_fair [OF three_validators_wf(1) v three_validators_wf(3), of 40]
    by (simp add: three_validators_def harmonic_def numeral_eq_Suc)
qed

end
