(* ===== verification/ValidatorUpdates.thy ===== *)
theory ValidatorUpdates
  imports ProposerPriority "HOL-Library.Multiset"
begin

text \<open>
  Changes of the validator set (\<open>updateWithChangeSet\<close>): the list of changes is sorted and split, checked against
  the set, merged into it, and the priorities are rescaled and centered.  The abstract set is a map from addresses
  to address, key and power that the changes override; the code accepts exactly the changes whose result is a
  non-empty set with at most the maximal power, and then computes that map.
\<close>

section \<open>Looking validators up by address\<close>

definition vlook :: "TmValidator list \<Rightarrow> bytes \<Rightarrow> TmValidator option" where
  "vlook vs a = find (\<lambda>v. tv_Address v = a) vs"

definition pow_at :: "TmValidator list \<Rightarrow> bytes \<Rightarrow> int" where
  "pow_at vs a = (case vlook vs a of Some v \<Rightarrow> VotingPower v | None \<Rightarrow> 0)"

abbreviation addrs :: "TmValidator list \<Rightarrow> bytes set" where
  "addrs vs \<equiv> tv_Address ` set vs"

lemma find_zip: "map_option snd (find (\<lambda>(_, v). P v) (zip [m..<m + length vs] vs)) = find P vs"
proof (induction vs arbitrary: m)
  case (Cons v vs)
  have "[m..<m + length (v # vs)] = m # [Suc m..<Suc m + length vs]" by (simp add: upt_rec)
  then show ?case using Cons [of "Suc m"] by simp
qed simp

lemma GetByAddress_look: "map_option snd (vs_GetByAddress vals a) = vlook (Validators vals) a"
  unfolding vs_GetByAddress_def vlook_def using find_zip [of "\<lambda>v. tv_Address v = a" 0 "Validators vals"] by simp

lemma GetByAddress_case: "(case vs_GetByAddress vals a of None \<Rightarrow> n | Some (i, v) \<Rightarrow> f v) = (case vlook (Validators vals) a of None \<Rightarrow> n | Some v \<Rightarrow> f v)"
  unfolding GetByAddress_look [symmetric] by (cases "vs_GetByAddress vals a") auto

lemma vlook_None: "vlook vs a = None \<longleftrightarrow> a \<notin> addrs vs"
  by (auto simp: vlook_def find_None_iff)

lemma vlook_Some: "distinct (map tv_Address vs) \<Longrightarrow> vlook vs a = Some v \<longleftrightarrow> v \<in> set vs \<and> tv_Address v = a"
  unfolding vlook_def by (induction vs) (auto simp: image_iff split: if_splits)

lemma vlook_self: "distinct (map tv_Address vs) \<Longrightarrow> v \<in> set vs \<Longrightarrow> vlook vs (tv_Address v) = Some v"
  by (simp add: vlook_Some)

lemma pow_at_simps:
  "a \<notin> addrs vs \<Longrightarrow> pow_at vs a = 0"
  "distinct (map tv_Address vs) \<Longrightarrow> v \<in> set vs \<Longrightarrow> pow_at vs (tv_Address v) = VotingPower v"
  by (simp_all add: pow_at_def vlook_self vlook_None [THEN iffD2])

lemma HasAddress_iff: "vs_HasAddress vals a \<longleftrightarrow> a \<in> addrs (Validators vals)"
  by (auto simp: vs_HasAddress_def list_ex_iff)

lemma addr_sum:
  assumes "distinct (map tv_Address vs)"
  shows "sum_list (map f vs) = (\<Sum>v\<in>set vs. f v)" "(\<Sum>v\<in>set vs. g (tv_Address v)) = sum g (addrs vs)"
  using assms by (simp_all add: sum_list_distinct_conv_sum_set distinct_map sum.reindex)

lemma power_sum_addrs: "distinct (map tv_Address vs) \<Longrightarrow> power_sum vs = sum (pow_at vs) (addrs vs)"
  unfolding power_sum_def using addr_sum(1) [of vs VotingPower] addr_sum(2) [of vs "pow_at vs"] pow_at_simps(2) [of vs]
  by (metis (no_types, lifting) sum.cong)

lemma power_sum_ext:
  assumes "finite S" "addrs vs \<subseteq> S" "distinct (map tv_Address vs)"
  shows "power_sum vs = sum (pow_at vs) S"
  using assms sum.mono_neutral_left [of S "addrs vs" "pow_at vs"] by (simp add: power_sum_addrs pow_at_simps(1))

section \<open>Splitting the changes\<close>

lemma processChanges_loop_eq:
  assumes "sorted (map tv_Address cs)" "\<forall>v\<in>set cs. prev \<le> tv_Address v"
  shows "if distinct (prev # map tv_Address cs) \<and> (\<forall>v\<in>set cs. 0 \<le> VotingPower v \<and> VotingPower v \<le> MaxTotalVotingPower)
    then processChanges_loop prev cs = Inr (filter (\<lambda>v. VotingPower v \<noteq> 0) cs, filter (\<lambda>v. VotingPower v = 0) cs)
    else \<exists>e. processChanges_loop prev cs = Inl (Err e)"
  using assms
proof (induction cs arbitrary: prev)
  case (Cons v cs)
  then have IH: "if distinct (tv_Address v # map tv_Address cs) \<and> (\<forall>v\<in>set cs. 0 \<le> VotingPower v \<and> VotingPower v \<le> MaxTotalVotingPower)
    then processChanges_loop (tv_Address v) cs = Inr (filter (\<lambda>v. VotingPower v \<noteq> 0) cs, filter (\<lambda>v. VotingPower v = 0) cs)
    else \<exists>e. processChanges_loop (tv_Address v) cs = Inl (Err e)" by simp
  have "prev \<notin> addrs cs" if "prev \<noteq> tv_Address v" using Cons.prems that by fastforce
  then show ?case using IH by (auto split: if_splits)
qed simp

definition changeset_ok :: "TmValidator list \<Rightarrow> bool" where
  "changeset_ok changes \<longleftrightarrow> distinct (map tv_Address changes) \<and> [] \<notin> addrs changes \<and> (\<forall>v\<in>set changes. 0 \<le> VotingPower v \<and> VotingPower v \<le> MaxTotalVotingPower)"

lemma processChanges_eq:
  "if changeset_ok changes
   then processChanges changes = Inr (filter (\<lambda>v. VotingPower v \<noteq> 0) (sort_key tv_Address changes), filter (\<lambda>v. VotingPower v = 0) (sort_key tv_Address changes))
   else \<exists>e. processChanges changes = Inl (Err e)"
proof -
  have "distinct (map tv_Address (sort_key tv_Address changes)) \<longleftrightarrow> distinct (map tv_Address changes)"
    by (metis distinct_map distinct_sort set_sort)
  then show ?thesis using processChanges_loop_eq [of "sort_key tv_Address changes" "[]"] unfolding processChanges_def changeset_ok_def by simp
qed

section \<open>Verifying removals and updates\<close>

lemma removals_loop:
  assumes "distinct (map tv_Address ds)" "\<forall>v\<in>set vs. 0 < VotingPower v" "0 \<le> s" "s + sum (pow_at vs) (addrs ds) < 2 ^ 63"
  shows "if addrs ds \<subseteq> addrs vs
    then rfold (\<lambda>valUpdate removed. case vlook vs (tv_Address valUpdate) of None \<Rightarrow> Inl (Err ''failed to find validator to remove'')
              | Some val \<Rightarrow> Inr (wrap64 (removed + VotingPower val))) ds s = Inr (s + sum (pow_at vs) (addrs ds))
    else \<exists>e. rfold (\<lambda>valUpdate removed. case vlook vs (tv_Address valUpdate) of None \<Rightarrow> Inl (Err ''failed to find validator to remove'')
              | Some val \<Rightarrow> Inr (wrap64 (removed + VotingPower val))) ds s = Inl (Err e)"
  using assms
proof (induction ds arbitrary: s)
  case (Cons d ds)
  have nn: "0 \<le> pow_at vs a" for a using Cons.prems(2) unfolding pow_at_def vlook_def by (auto split: option.splits simp: find_Some_iff intro: less_imp_le)
  then have s0: "0 \<le> sum (pow_at vs) (addrs ds)" by (simp add: sum_nonneg)
  show ?case
  proof (cases "vlook vs (tv_Address d)")
    case None
    then have "tv_Address d \<notin> addrs vs" by (simp add: vlook_None)
    then have "\<not> addrs (d # ds) \<subseteq> addrs vs" by simp
    with None show ?thesis by simp
  next
    case (Some v)
    then have p: "pow_at vs (tv_Address d) = VotingPower v" and dv: "tv_Address d \<in> addrs vs" using vlook_None [of vs "tv_Address d"] by (auto simp: pow_at_def)
    have sum: "sum (pow_at vs) (addrs (d # ds)) = VotingPower v + sum (pow_at vs) (addrs ds)" using Cons.prems(1) p by simp
    then have "wrap64 (s + VotingPower v) = s + VotingPower v" using Cons.prems(3,4) s0 nn [of "tv_Address d"] p by (intro wrap64_id) auto
    then show ?thesis using Cons.IH [of "s + VotingPower v"] Cons.prems p nn [of "tv_Address d"] Some dv sum by (simp add: add.assoc)
  qed
qed simp

lemma verifyRemovals_eq:
  assumes "vset_wf vals" "distinct (map tv_Address ds)"
  shows "if addrs ds \<subseteq> addrs (Validators vals) then verifyRemovals ds vals = Inr (sum (pow_at (Validators vals)) (addrs ds))
    else \<exists>e. verifyRemovals ds vals = Inl (Err e)"
proof -
  let ?vs = "Validators vals"
  have wf: "distinct (map tv_Address ?vs)" "\<forall>v\<in>set ?vs. 0 < VotingPower v" "power_sum ?vs \<le> MaxTotalVotingPower" using assms(1) by (auto simp: vset_wf_def)
  have nn: "0 \<le> pow_at ?vs a" for a using wf(2) unfolding pow_at_def vlook_def by (auto split: option.splits simp: find_Some_iff intro: less_imp_le)
  have "sum (pow_at ?vs) (addrs ds) \<le> sum (pow_at ?vs) (addrs ?vs \<union> addrs ds)" using nn by (intro sum_mono2) auto
  also have "\<dots> = power_sum ?vs" by (rule power_sum_ext [symmetric]) (use wf in auto)
  finally have "0 + sum (pow_at ?vs) (addrs ds) < 2 ^ 63" using wf(3) by (simp add: MaxTotalVotingPower_eq)
  note L = removals_loop [OF assms(2) wf(2) order_refl this]
  have "length ds \<le> length ?vs" if "addrs ds \<subseteq> addrs ?vs"
    using card_mono [OF _ that] distinct_card [OF assms(2)] distinct_card [OF wf(1)] by simp
  then show ?thesis using L unfolding verifyRemovals_def GetByAddress_case by (auto split: if_splits)
qed

lemma updates_loop:
  assumes "sorted ds" "\<forall>d\<in>set ds. - (2 ^ 60) \<le> d \<and> d \<le> 2 ^ 60" "\<forall>k. 0 \<le> s + sum_list (take k ds)" "s \<le> MaxTotalVotingPower"
  shows "rfold (\<lambda>d tvp. let tvp = wrap64 (tvp + d) in if tvp > MaxTotalVotingPower then Inl (Err e) else Inr tvp) ds s =
    (if s + sum_list ds \<le> MaxTotalVotingPower then Inr (s + sum_list ds) else Inl (Err e))"
  using assms
proof (induction ds arbitrary: s)
  case (Cons d ds)
  have lo: "0 \<le> s" "0 \<le> s + d" using Cons.prems(3) [rule_format, of 0] Cons.prems(3) [rule_format, of 1] by simp_all
  have d: "- (2 ^ 60) \<le> d" "d \<le> 2 ^ 60" using Cons.prems(2) by auto
  have w: "wrap64 (s + d) = s + d" using lo d Cons.prems(4) by (intro wrap64_id) (auto simp: MaxTotalVotingPower_eq)
  show ?case
  proof (cases "s + d > MaxTotalVotingPower")
    case True
    then have "0 \<le> x" if "x \<in> set ds" for x using Cons.prems(1,4) that by fastforce
    then have "0 \<le> sum_list ds" by (rule sum_list_nonneg)
    with True w show ?thesis by simp
  next
    case False
    have "0 \<le> (s + d) + sum_list (take k ds)" for k using Cons.prems(3) [rule_format, of "Suc k"] by (simp add: add.assoc)
    then show ?thesis using Cons.IH [of "s + d"] Cons.prems False w by (simp add: add.assoc)
  qed
qed simp

lemma rfold_map_list: "rfold f (map g xs) s = rfold (\<lambda>x. f (g x)) xs s"
  by (induction xs arbitrary: s) (simp_all cong: rbind_cong)

lemma take_sum_ge:
  assumes "distinct (map tv_Address us)" "\<And>u. u \<in> set us \<Longrightarrow> - g (tv_Address u) \<le> f u" "\<And>a. 0 \<le> (g a :: int)"
  shows "- sum g (addrs us) \<le> sum_list (take k (map f us))"
proof -
  have d: "distinct (map tv_Address (take k us))" using assms(1) by (metis distinct_take take_map)
  have s: "set (take k us) \<subseteq> set us" by (rule set_take_subset)
  have "- sum g (addrs us) \<le> - sum g (addrs (take k us))" using s assms(3) by (simp add: sum_mono2 image_mono)
  also have "\<dots> = (\<Sum>u\<in>set (take k us). - g (tv_Address u))" using addr_sum(2) [OF d, of g] by (simp add: sum_negf)
  also have "\<dots> \<le> (\<Sum>u\<in>set (take k us). f u)" using assms(2) s by (intro sum_mono) auto
  also have "\<dots> = sum_list (take k (map f us))" using addr_sum(1) [OF d, of f] by (simp add: take_map)
  finally show ?thesis .
qed

text \<open>What the changes make of the power of an address.\<close>

definition new_pow :: "TmValidator list \<Rightarrow> TmValidator list \<Rightarrow> bytes \<Rightarrow> int" where
  "new_pow changes vs a = (if a \<in> addrs changes then pow_at changes a else pow_at vs a)"

lemma wf_pow:
  assumes "vset_wf vals"
  shows "0 \<le> pow_at (Validators vals) a" "pow_at (Validators vals) a \<le> MaxTotalVotingPower"
    "finite S \<Longrightarrow> addrs (Validators vals) \<subseteq> S \<Longrightarrow> sum (pow_at (Validators vals)) S = totalVotingPower vals"
proof -
  let ?vs = "Validators vals"
  have wf: "distinct (map tv_Address ?vs)" "\<forall>v\<in>set ?vs. 0 < VotingPower v" "power_sum ?vs \<le> MaxTotalVotingPower" using assms(1) by (auto simp: vset_wf_def)
  show nn: "0 \<le> pow_at ?vs a" for a using wf(2) unfolding pow_at_def vlook_def by (auto split: option.splits simp: find_Some_iff intro: less_imp_le)
  have "pow_at ?vs a \<le> sum (pow_at ?vs) (insert a (addrs ?vs))" using nn by (intro member_le_sum) auto
  also have "\<dots> = power_sum ?vs" by (rule power_sum_ext [symmetric]) (use wf in auto)
  finally show "pow_at ?vs a \<le> MaxTotalVotingPower" using wf(3) by simp
  show "finite S \<Longrightarrow> addrs ?vs \<subseteq> S \<Longrightarrow> sum (pow_at ?vs) S = totalVotingPower vals" using assms power_sum_ext [OF _ _ wf(1)] by (simp add: vset_wf_def)
qed

lemma wf_Total: "vset_wf vals \<Longrightarrow> TotalVotingPower vals = Inr (totalVotingPower vals)"
proof (cases "Validators vals = []")
  case True
  moreover assume "vset_wf vals"
  ultimately have "totalVotingPower vals = 0" by (simp add: vset_wf_def power_sum_def)
  with True show ?thesis by (simp add: TotalVotingPower_def updateTotalVotingPower_def)
qed (rule vset_wf_total(3))

lemma power_delta_eq:
  assumes "vset_wf vals" "0 \<le> VotingPower u" "VotingPower u \<le> MaxTotalVotingPower"
  shows "power_delta u vals = VotingPower u - pow_at (Validators vals) (tv_Address u)"
proof -
  have "wrap64 (VotingPower u - pow_at (Validators vals) (tv_Address u)) = VotingPower u - pow_at (Validators vals) (tv_Address u)"
    using wf_pow(1,2) [OF assms(1), of "tv_Address u"] assms(2,3) by (intro wrap64_id) (auto simp: MaxTotalVotingPower_eq)
  then show ?thesis unfolding power_delta_def GetByAddress_case by (simp add: pow_at_def split: option.splits)
qed

lemma verifyUpdates_eq:
  assumes wf: "vset_wf vals" and u: "distinct (map tv_Address us)" "\<forall>u\<in>set us. 0 \<le> VotingPower u \<and> VotingPower u \<le> MaxTotalVotingPower"
    and D: "finite D" "D \<subseteq> addrs (Validators vals)" "D \<inter> addrs us = {}"
  defines "P \<equiv> pow_at (Validators vals)"
  defines "new \<equiv> totalVotingPower vals - sum P D + (\<Sum>u\<in>set us. VotingPower u - P (tv_Address u))"
  shows "verifyUpdates us vals (sum P D) = (if new \<le> MaxTotalVotingPower then Inr (new + sum P D) else Inl (Err ''total voting power would exceed the max allowed''))"
    "0 \<le> new" "0 \<le> sum P D" "sum P D \<le> MaxTotalVotingPower"
proof -
  let ?d = "\<lambda>u. power_delta u vals" and ?A = "addrs (Validators vals)" and ?T = "totalVotingPower vals"
  have nn: "0 \<le> P a" "P a \<le> MaxTotalVotingPower" for a using wf_pow(1,2) [OF wf] by (simp_all add: P_def)
  have d: "?d x = VotingPower x - P (tv_Address x)" if "x \<in> set us" for x using power_delta_eq [OF wf] u(2) that by (simp add: P_def)
  have T: "0 \<le> ?T" "?T \<le> MaxTotalVotingPower" using wf wf_pow(3) [OF wf, of ?A, symmetric] nn by (simp add: P_def sum_nonneg, simp add: vset_wf_def)
  have DU: "sum P D + sum P (addrs us) = sum P (D \<union> addrs us)" using D by (simp add: sum.union_disjoint)
  also have "\<dots> \<le> sum P (D \<union> addrs us \<union> ?A)" using nn D(1) by (intro sum_mono2) auto
  also have "\<dots> = ?T" unfolding P_def by (rule wf_pow(3) [OF wf]) (use D in auto)
  finally have room: "sum P D + sum P (addrs us) \<le> ?T" .
  have U0: "0 \<le> sum P (addrs us)" using nn by (simp add: sum_nonneg)
  show D0: "0 \<le> sum P D" using nn by (simp add: sum_nonneg)
  show "sum P D \<le> MaxTotalVotingPower" using room U0 T by simp
  let ?us = "sort_key ?d us"
  have us: "distinct (map tv_Address ?us)" "set ?us = set us" using u(1) by (metis distinct_map distinct_sort set_sort) simp
  have tk: "- sum P (addrs us) \<le> sum_list (take k (map ?d ?us))" for k
    using take_sum_ge [of ?us P ?d k] us d u(2) nn by (simp add: diff_le_eq)
  have new: "new = (?T - sum P D) + sum_list (map ?d ?us)"
    using addr_sum(1) [OF us(1), of ?d] us(2) d by (simp add: new_def)
  show "0 \<le> new" using tk [of "length us"] room us(2) new by simp
  have w: "wrap64 (?T - sum P D) = ?T - sum P D" using room U0 T D0 by (intro wrap64_id) (auto simp: MaxTotalVotingPower_eq)
  have L: "rfold (\<lambda>d tvp. let tvp = wrap64 (tvp + d) in if tvp > MaxTotalVotingPower then Inl (Err ''total voting power would exceed the max allowed'') else Inr tvp) (map ?d ?us) (?T - sum P D) =
    (if (?T - sum P D) + sum_list (map ?d ?us) \<le> MaxTotalVotingPower then Inr ((?T - sum P D) + sum_list (map ?d ?us)) else Inl (Err ''total voting power would exceed the max allowed''))"
  proof (rule updates_loop)
    show "\<forall>x\<in>set (map ?d ?us). - (2 ^ 60) \<le> x \<and> x \<le> 2 ^ 60"
    proof
      fix x assume "x \<in> set (map ?d ?us)"
      then obtain v where "v \<in> set us" "x = ?d v" by auto
      then show "- (2 ^ 60) \<le> x \<and> x \<le> 2 ^ 60" using d [of v] nn [of "tv_Address v"] u(2) by (auto simp: MaxTotalVotingPower_eq)
    qed
    show "\<forall>k. 0 \<le> ?T - sum P D + sum_list (take k (map ?d ?us))" 
    proof
      fix k
      show "0 \<le> ?T - sum P D + sum_list (take k (map ?d ?us))" using tk [of k] room by linarith
    qed
  qed (use room U0 T D0 in auto)
  have w2: "wrap64 (new + sum P D) = new + sum P D" if "new \<le> MaxTotalVotingPower"
    using that \<open>0 \<le> new\<close> D0 room U0 T by (intro wrap64_id) (auto simp: MaxTotalVotingPower_eq)
  show "verifyUpdates us vals (sum P D) = (if new \<le> MaxTotalVotingPower then Inr (new + sum P D) else Inl (Err ''total voting power would exceed the max allowed''))"
    using L [unfolded rfold_map_list] w w2 unfolding verifyUpdates_def wf_Total [OF wf] new [symmetric] by simp
qed

section \<open>Merging and removing\<close>

abbreviation addr_asc :: "TmValidator list \<Rightarrow> bool" where
  "addr_asc vs \<equiv> sorted_wrt (<) (map tv_Address vs)"

lemma addr_asc_distinct: "addr_asc vs \<Longrightarrow> distinct (map tv_Address vs)"
  by (metis strict_sorted_iff)

lemma addr_asc_sort: "distinct (map tv_Address vs) \<Longrightarrow> addr_asc (sort_key tv_Address vs)"
  by (metis distinct_map distinct_sort set_sort sorted_sort_key strict_sorted_iff)

lemma addr_asc_filter: "addr_asc vs \<Longrightarrow> addr_asc (filter P vs)"
  by (induction vs) auto

lemma merge_updates_spec:
  assumes "addr_asc es" "addr_asc us"
  shows "set (merge_updates es us) = set us \<union> {e \<in> set es. tv_Address e \<notin> addrs us}" "addr_asc (merge_updates es us)"
proof -
  have "set (merge_updates es us) = set us \<union> {e \<in> set es. tv_Address e \<notin> addrs us} \<and> addr_asc (merge_updates es us)"
    using assms
  proof (induction es us rule: merge_updates.induct)
    case (1 e es u us)
    consider "tv_Address e < tv_Address u" | "tv_Address e = tv_Address u" | "tv_Address u < tv_Address e" by fastforce
    then show ?case
    proof cases
      case 1
      have IH: "set (merge_updates es (u # us)) = set (u # us) \<union> {x \<in> set es. tv_Address x \<notin> addrs (u # us)} \<and> addr_asc (merge_updates es (u # us))" using "1.IH"(1) 1 "1.prems" by simp
      have "tv_Address e \<notin> addrs (u # us)" using 1 "1.prems"(2) by fastforce
      moreover have "\<forall>x\<in>set (merge_updates es (u # us)). tv_Address e < tv_Address x" using IH 1 "1.prems" by fastforce
      ultimately show ?thesis using IH 1 by auto
    next
      case 2
      then have n: "\<not> tv_Address e < tv_Address u" by simp
      have IH: "set (merge_updates es us) = set us \<union> {x \<in> set es. tv_Address x \<notin> addrs us} \<and> addr_asc (merge_updates es us)" using "1.IH"(2) [OF n 2] "1.prems" by simp
      have "\<forall>x\<in>set es. tv_Address x \<noteq> tv_Address u" using 2 "1.prems"(1) by fastforce
      moreover have "\<forall>x\<in>set (merge_updates es us). tv_Address u < tv_Address x" using IH 2 "1.prems" by fastforce
      ultimately show ?thesis using IH 2 by auto
    next
      case 3
      then have n: "\<not> tv_Address e < tv_Address u" "tv_Address e \<noteq> tv_Address u" by auto
      have IH: "set (merge_updates (e # es) us) = set us \<union> {x \<in> set (e # es). tv_Address x \<notin> addrs us} \<and> addr_asc (merge_updates (e # es) us)" using "1.IH"(3) [OF n] "1.prems" by simp
      have "\<forall>x\<in>set (e # es). tv_Address u < tv_Address x" using 3 "1.prems"(1) by fastforce
      then have "\<forall>x\<in>set (e # es). tv_Address x \<noteq> tv_Address u" "\<forall>x\<in>set (merge_updates (e # es) us). tv_Address u < tv_Address x" using IH "1.prems"(2) by fastforce+
      then show ?thesis using IH n by auto
    qed
  qed auto
  then show "set (merge_updates es us) = set us \<union> {e \<in> set es. tv_Address e \<notin> addrs us}" "addr_asc (merge_updates es us)" by auto
qed

lemma remove_loop_eq:
  assumes "addr_asc es" "addr_asc ds" "addrs ds \<subseteq> addrs es"
  shows "remove_loop es ds = Inr (filter (\<lambda>e. tv_Address e \<notin> addrs ds) es)"
  using assms
proof (induction es ds rule: remove_loop.induct)
  case (3 e es d ds)
  show ?case
  proof (cases "tv_Address e = tv_Address d")
    case True
    have less: "\<forall>x\<in>set es. tv_Address d < tv_Address x" "\<forall>x\<in>set ds. tv_Address d < tv_Address x" using "3.prems" True by auto
    have "tv_Address e \<notin> addrs ds" using less(2) True by auto
    moreover have "addrs ds \<subseteq> insert (tv_Address e) (addrs es)" using "3.prems"(3) by simp
    ultimately have "addrs ds \<subseteq> addrs es" by (simp add: subset_insert)
    then have "remove_loop es ds = Inr (filter (\<lambda>e. tv_Address e \<notin> addrs ds) es)" using "3.IH"(1) [OF True] "3.prems" by simp
    moreover have "filter (\<lambda>e. tv_Address e \<notin> addrs (d # ds)) es = filter (\<lambda>e. tv_Address e \<notin> addrs ds) es" using less by (intro filter_cong) auto
    ultimately show ?thesis using True by simp
  next
    case False
    have "tv_Address d \<in> addrs es" using "3.prems"(3) False by auto
    then have "tv_Address e < tv_Address d" using "3.prems"(1) by auto
    then have "tv_Address e < tv_Address x" if "x \<in> set (d # ds)" for x using "3.prems"(2) that less_trans by auto
    then have e: "tv_Address e \<notin> addrs (d # ds)" by (metis imageE less_irrefl)
    moreover have "addrs (d # ds) \<subseteq> insert (tv_Address e) (addrs es)" using "3.prems"(3) by simp
    ultimately have "addrs (d # ds) \<subseteq> addrs es" by (metis subset_insert)
    then show ?thesis using "3.IH"(2) [OF False] "3.prems" False e by simp
  qed
qed auto

lemma apply_changes_eq:
  assumes "distinct (map tv_Address (Validators vals))" "addr_asc us" "addr_asc ds" "addrs ds \<subseteq> addrs (Validators vals)" "addrs ds \<inter> addrs us = {}"
  shows "\<exists>vs. applyRemovals ds (applyUpdates us vals) = Inr (vals\<lparr>Validators := vs\<rparr>) \<and> distinct (map tv_Address vs) \<and>
    set vs = set us \<union> {e \<in> set (Validators vals). tv_Address e \<notin> addrs us \<union> addrs ds}"
proof -
  let ?m = "merge_updates (sort_key tv_Address (Validators vals)) us"
  note m = merge_updates_spec [OF addr_asc_sort [OF assms(1)] assms(2)]
  have "addrs ds \<subseteq> addrs ?m"
  proof
    fix a assume a: "a \<in> addrs ds"
    then obtain e where e: "e \<in> set (Validators vals)" "a = tv_Address e" using assms(4) by blast
    then have "tv_Address e \<notin> addrs us" using a assms(5) by blast
    then have "e \<in> set ?m" using e m(1) by simp
    then show "a \<in> addrs ?m" using e(2) by (rule rev_image_eqI)
  qed
  note r = remove_loop_eq [OF m(2) assms(3) this]
  have "applyRemovals ds (applyUpdates us vals) = Inr (vals\<lparr>Validators := filter (\<lambda>e. tv_Address e \<notin> addrs ds) ?m\<rparr>)"
    unfolding applyRemovals_def applyUpdates_def using r by simp
  moreover have "set (filter (\<lambda>e. tv_Address e \<notin> addrs ds) ?m) = set us \<union> {e \<in> set (Validators vals). tv_Address e \<notin> addrs us \<union> addrs ds}"
  proof -
    have "tv_Address u \<notin> addrs ds" if "u \<in> set us" for u using that assms(5) by blast
    then show ?thesis using m(1) by auto
  qed
  moreover have "distinct (map tv_Address (filter (\<lambda>e. tv_Address e \<notin> addrs ds) ?m))" using addr_asc_distinct [OF addr_asc_filter [OF m(2)]] .
  ultimately show ?thesis by blast
qed

lemma computeNewPriorities_spec:
  assumes "vset_wf vals" "0 \<le> tvp" "tvp < 2 ^ 61"
  shows "map vkey (computeNewPriorities us vals tvp) = map vkey us"
    "\<forall>u\<in>set (computeNewPriorities us vals tvp). \<bar>ProposerPriority u\<bar> < 3 * 2 ^ 60"
proof -
  show "map vkey (computeNewPriorities us vals tvp) = map vkey us"
    unfolding computeNewPriorities_def GetByAddress_case by (auto simp: vkey_def split: option.splits)
  have d: "0 \<le> tvp div 8" "tvp div 8 < 2 ^ 58" using assms(2,3) by auto
  then have "wrap64 (tvp + tvp div 8) = tvp + tvp div 8" using assms by (intro wrap64_id) auto
  moreover have "wrap64 (- (tvp + tvp div 8)) = - (tvp + tvp div 8)" using assms d by (intro wrap64_id) auto
  ultimately have "\<bar>wrap64 (- wrap64 (tvp + tvp div 8))\<bar> < 3 * 2 ^ 60" using d assms by simp
  moreover have "\<bar>ProposerPriority v\<bar> < 3 * 2 ^ 60" if "vlook (Validators vals) a = Some v" for a v
    using that assms(1) by (auto simp: vset_wf_def vlook_Some)
  ultimately show "\<forall>u\<in>set (computeNewPriorities us vals tvp). \<bar>ProposerPriority u\<bar> < 3 * 2 ^ 60"
    unfolding computeNewPriorities_def GetByAddress_case by (auto split: option.splits)
qed

section \<open>The abstract change of the set\<close>

text \<open>A set is read as a map from addresses to address, public key and power; changes override the
  map, a change to power 0 deletes.\<close>

type_synonym valmap = "bytes \<Rightarrow> (bytes \<times> bytes \<times> int) option"

definition vmap :: "TmValidator list \<Rightarrow> valmap" where
  "vmap vs a = map_option vkey (vlook vs a)"

definition mpow :: "valmap \<Rightarrow> bytes \<Rightarrow> int" where
  "mpow m a = (case m a of Some (_, _, p) \<Rightarrow> p | None \<Rightarrow> 0)"

definition chg :: "TmValidator list \<Rightarrow> valmap \<Rightarrow> valmap" where
  "chg changes m a = (case vlook changes a of None \<Rightarrow> m a | Some c \<Rightarrow> if VotingPower c = 0 then None else Some (vkey c))"

definition change_total :: "TmValidator list \<Rightarrow> TmValidator list \<Rightarrow> int" where
  "change_total changes vs = sum (mpow (chg changes (vmap vs))) (addrs changes \<union> addrs vs)"

definition acceptable :: "TmValidator list \<Rightarrow> bool \<Rightarrow> TmValidator list \<Rightarrow> bool" where
  "acceptable changes allowDeletes vs \<longleftrightarrow> changeset_ok changes \<and>
     (\<forall>v\<in>set changes. VotingPower v = 0 \<longrightarrow> allowDeletes \<and> tv_Address v \<in> addrs vs) \<and>
     (\<exists>a\<in>addrs changes \<union> addrs vs. chg changes (vmap vs) a \<noteq> None) \<and> change_total changes vs \<le> MaxTotalVotingPower"

lemma vmap_find: "vmap vs a = find (\<lambda>k. fst k = a) (map vkey vs)"
  unfolding vmap_def vlook_def by (induction vs) (auto simp: vkey_def)

lemma vmap_vkeys: "map vkey vs = map vkey us \<Longrightarrow> vmap vs = vmap us"
  by (rule ext) (simp add: vmap_find)

lemma vmap_set: "distinct (map tv_Address vs) \<Longrightarrow> distinct (map tv_Address us) \<Longrightarrow> set vs = set us \<Longrightarrow> vmap vs = vmap us"
proof (rule ext)
  fix a assume d: "distinct (map tv_Address vs)" "distinct (map tv_Address us)" "set vs = set us"
  then have "vlook vs a = Some v \<longleftrightarrow> vlook us a = Some v" for v by (simp add: vlook_Some)
  then show "vmap vs a = vmap us a" unfolding vmap_def by (metis not_Some_eq)
qed

lemma mpow_vmap: "mpow (vmap vs) a = pow_at vs a"
  by (simp add: mpow_def vmap_def pow_at_def vkey_def split: option.splits)

lemma vmap_mem: "distinct (map tv_Address vs) \<Longrightarrow> v \<in> set vs \<Longrightarrow> vmap vs (tv_Address v) = Some (vkey v)"
  by (simp add: vmap_def vlook_self)

lemma vmap_None: "vmap vs a = None \<longleftrightarrow> a \<notin> addrs vs"
  by (simp add: vmap_def vlook_None)

lemma chg_simps:
  assumes "distinct (map tv_Address changes)"
  shows "c \<in> set changes \<Longrightarrow> chg changes m (tv_Address c) = (if VotingPower c = 0 then None else Some (vkey c))"
    "a \<notin> addrs changes \<Longrightarrow> chg changes m a = m a"
  using assms by (auto simp: chg_def vlook_self vlook_None [THEN iffD2])

section \<open>The merged list implements the change\<close>

lemma merged_vmap:
  assumes ch: "distinct (map tv_Address changes)" and vs: "distinct (map tv_Address vs)" and vs1: "distinct (map tv_Address vs1)"
    and us: "set us = {c \<in> set changes. VotingPower c \<noteq> 0}" and ds: "set ds = {c \<in> set changes. VotingPower c = 0}"
    and us': "map vkey us' = map vkey us" and m: "set vs1 = set us' \<union> {e \<in> set vs. tv_Address e \<notin> addrs us' \<union> addrs ds}"
  shows "vmap vs1 = chg changes (vmap vs)"
proof (rule ext)
  fix a
  have ka: "vkey ` set us' = vkey ` set us" using us' by (metis set_map)
  have aa: "addrs us' = addrs us" using vkeys_eqD(1) [OF us'] by (metis set_map)
  have split: "addrs changes = addrs us \<union> addrs ds" using us ds by auto
  consider (u) c where "c \<in> set us" "a = tv_Address c" | (d) c where "c \<in> set ds" "a = tv_Address c" | (o) "a \<notin> addrs changes" using split by auto
  then show "vmap vs1 a = chg changes (vmap vs) a"
  proof cases
    case u
    then obtain c' where c': "c' \<in> set us'" "vkey c' = vkey c" using ka by (metis imageE imageI)
    then have "tv_Address c' = a" using u by (simp add: vkey_def)
    then show ?thesis using vmap_mem [OF vs1, of c'] c' m chg_simps(1) [OF ch, of c] u us by auto
  next
    case d
    have "a \<notin> addrs us" using d us ds ch by (auto simp: distinct_map inj_on_def)
    moreover have "a \<in> addrs ds" using d by simp
    moreover have "x \<in> set us' \<or> tv_Address x \<notin> addrs ds" if "x \<in> set vs1" for x using that m by blast
    ultimately have "a \<notin> addrs vs1" using aa by (metis imageE imageI)
    then show ?thesis using chg_simps(1) [OF ch, of c] d ds by (simp add: vmap_None [THEN iffD2])
  next
    case o
    have "vlook vs1 a = Some v \<longleftrightarrow> vlook vs a = Some v" for v using o m aa split by (auto simp: vlook_Some [OF vs] vlook_Some [OF vs1])
    then have "vlook vs1 a = vlook vs a" by (metis not_Some_eq)
    then show ?thesis using chg_simps(2) [OF ch o] by (simp add: vmap_def)
  qed
qed

lemma change_total_new:
  assumes wf: "vset_wf vals" and ch: "distinct (map tv_Address changes)"
    and us: "set us = {c \<in> set changes. VotingPower c \<noteq> 0}" "distinct (map tv_Address us)"
    and ds: "set ds = {c \<in> set changes. VotingPower c = 0}"
  defines "P \<equiv> pow_at (Validators vals)"
  shows "totalVotingPower vals - sum P (addrs ds) + (\<Sum>u\<in>set us. VotingPower u - P (tv_Address u)) = change_total changes (Validators vals)"
proof -
  let ?S = "addrs changes \<union> addrs (Validators vals)"
  let ?f = "\<lambda>a. pow_at changes a - P a"
  have fin: "finite ?S" and DU: "addrs ds \<subseteq> ?S" "addrs us \<subseteq> ?S" "addrs ds \<inter> addrs us = {}" "addrs changes = addrs us \<union> addrs ds" using us ds ch by (auto simp: distinct_map inj_on_def)
  have "mpow (chg changes (vmap (Validators vals))) a = P a - (if a \<in> addrs ds then P a else 0) + (if a \<in> addrs us then ?f a else 0)" for a
  proof -
    consider (u) c where "c \<in> set us" "a = tv_Address c" | (d) c where "c \<in> set ds" "a = tv_Address c" | (o) "a \<notin> addrs changes" using DU by auto
    then show ?thesis
    proof cases
      case u
      then have "a \<notin> addrs ds" using DU(3) by auto
      then show ?thesis using chg_simps(1) [OF ch, of c] u us pow_at_simps(2) [OF ch, of c] by (auto simp: mpow_def vkey_def)
    next
      case d
      then have "a \<notin> addrs us" using DU(3) by auto
      then show ?thesis using chg_simps(1) [OF ch, of c] d ds by (auto simp: mpow_def)
    next
      case o
      then show ?thesis using chg_simps(2) [OF ch o] DU(4) mpow_vmap [of "Validators vals" a] by (simp add: mpow_def P_def)
    qed
  qed
  then have "change_total changes (Validators vals) = (\<Sum>a\<in>?S. P a - (if a \<in> addrs ds then P a else 0) + (if a \<in> addrs us then ?f a else 0))"
    unfolding change_total_def by (intro sum.cong) auto
  also have "\<dots> = sum P ?S - sum P (addrs ds) + sum ?f (addrs us)"
    using sum.inter_restrict [OF fin, of P "addrs ds"] sum.inter_restrict [OF fin, of ?f "addrs us"] DU(1,2)
    by (simp add: sum.distrib sum_subtractf Int_absorb1)
  also have "sum P ?S = totalVotingPower vals" unfolding P_def by (rule wf_pow(3) [OF wf]) auto
  also have "sum ?f (addrs us) = (\<Sum>u\<in>set us. VotingPower u - P (tv_Address u))"
    unfolding addr_sum(2) [OF us(2), symmetric] using us(1) pow_at_simps(2) [OF ch] by (intro sum.cong) auto
  finally show ?thesis by simp
qed

lemma applied_set:
  assumes wf: "vset_wf vals" and us: "addr_asc us" "\<forall>u\<in>set us. 0 < VotingPower u \<and> VotingPower u \<le> MaxTotalVotingPower"
    and ds: "addr_asc ds" "addrs ds \<subseteq> addrs (Validators vals)" "addrs ds \<inter> addrs us = {}" and tvp: "0 \<le> tvp" "tvp < 2 ^ 61"
  shows "\<exists>vs1 us'. applyRemovals ds (applyUpdates (computeNewPriorities us vals tvp) vals) = Inr (vals\<lparr>Validators := vs1\<rparr>) \<and> distinct (map tv_Address vs1) \<and>
    map vkey us' = map vkey us \<and> set vs1 = set us' \<union> {e \<in> set (Validators vals). tv_Address e \<notin> addrs us' \<union> addrs ds} \<and>
    (\<forall>v\<in>set vs1. 0 < VotingPower v \<and> VotingPower v \<le> MaxTotalVotingPower \<and> \<bar>ProposerPriority v\<bar> < 3 * 2 ^ 60)"
proof -
  let ?us = "computeNewPriorities us vals tvp"
  note np = computeNewPriorities_spec [OF wf tvp, of us]
  note aa = vkeys_eqD(1) [OF np(1)]
  have vs: "distinct (map tv_Address (Validators vals))" using wf by (simp add: vset_wf_def)
  have addr_asc': "addr_asc ?us" "addrs ds \<inter> addrs ?us = {}" using us(1) ds(3) aa by (simp, metis set_map)
  obtain vs1 where a: "applyRemovals ds (applyUpdates ?us vals) = Inr (vals\<lparr>Validators := vs1\<rparr>)" "distinct (map tv_Address vs1)"
    and m: "set vs1 = set ?us \<union> {e \<in> set (Validators vals). tv_Address e \<notin> addrs ?us \<union> addrs ds}"
    using apply_changes_eq [OF vs addr_asc'(1) ds(1,2) addr_asc'(2)] by fast
  have "VotingPower ` set ?us = VotingPower ` set us" using vkeys_eqD(2) [OF np(1)] by (metis set_map)
  moreover have "\<forall>p\<in>VotingPower ` set us. 0 < p \<and> p \<le> MaxTotalVotingPower" using us(2) by blast
  ultimately have u: "\<forall>v\<in>set ?us. 0 < VotingPower v \<and> VotingPower v \<le> MaxTotalVotingPower" by blast
  have e: "0 < VotingPower v \<and> VotingPower v \<le> MaxTotalVotingPower \<and> \<bar>ProposerPriority v\<bar> < 3 * 2 ^ 60" if "v \<in> set (Validators vals)" for v
    using wf wf_pow(2) [OF wf, of "tv_Address v"] pow_at_simps(2) [OF vs that] that by (auto simp: vset_wf_def)
  have "\<forall>v\<in>set vs1. 0 < VotingPower v \<and> VotingPower v \<le> MaxTotalVotingPower \<and> \<bar>ProposerPriority v\<bar> < 3 * 2 ^ 60"
    unfolding m using u np(2) e by blast
  with a m np(1) show ?thesis by blast
qed

abbreviation power_order :: "TmValidator \<Rightarrow> int \<times> bytes" where
  "power_order v \<equiv> (- VotingPower v, tv_Address v)"

lemma finish_set:
  assumes "Validators vals1 = vs1" "distinct (map tv_Address vs1)" "vs1 \<noteq> []" "power_sum vs1 \<le> MaxTotalVotingPower"
    and b: "\<forall>v\<in>set vs1. 0 < VotingPower v \<and> VotingPower v \<le> MaxTotalVotingPower \<and> \<bar>ProposerPriority v\<bar> < 3 * 2 ^ 60"
  shows "\<exists>vals'. rbind (updateTotalVotingPower vals1) (\<lambda>vals2. rbind (TotalVotingPower vals2) (\<lambda>total.
      rbind (RescalePriorities (wrap64 (PriorityWindowSizeFactor * total)) vals2) (\<lambda>vals3. rbind (shiftByAvgProposerPriority vals3) (\<lambda>vals4.
      Inr (vals4\<lparr>Validators := sort_key power_order (Validators vals4)\<rparr>))))) = Inr vals' \<and>
    vset_wf vals' \<and> Validators vals' \<noteq> [] \<and> sorted (map power_order (Validators vals')) \<and> vmap (Validators vals') = vmap vs1 \<and> vs_Proposer vals' = vs_Proposer vals1 \<and>
    0 \<le> sum_list (prios (Validators vals')) \<and> sum_list (prios (Validators vals')) < int (length (Validators vals')) \<and>
    (\<forall>v\<in>set (Validators vals'). \<bar>ProposerPriority v\<bar> \<le> 2 * totalVotingPower vals')"
proof -
  let ?T = "power_sum vs1" and ?v2 = "vals1\<lparr>totalVotingPower := power_sum vs1\<rparr>"
  have T: "0 < ?T" unfolding power_sum_def using b assms(3) by (intro sum_list_pos_all) auto
  have T2: "?T < 2 ^ 60" using assms(4) by (simp add: MaxTotalVotingPower_eq)
  have up: "updateTotalVotingPower vals1 = Inr ?v2"
  proof -
    have "0 \<le> VotingPower v \<and> VotingPower v \<le> MaxInt64" if "v \<in> set (Validators vals1)" for v
      using b that assms(1) by (auto simp: MaxTotalVotingPower_eq int64_defs intro: less_imp_le)
    then show ?thesis using updateTotalVotingPower_eq [of vals1] assms(1,4) by simp
  qed
  have tp: "TotalVotingPower ?v2 = Inr ?T" using T by (simp add: TotalVotingPower_def)
  obtain vs where r: "rbind (RescalePriorities (wrap64 (PriorityWindowSizeFactor * ?T)) ?v2) shiftByAvgProposerPriority = Inr (?v2\<lparr>Validators := vs\<rparr>)"
    and vk: "map vkey vs = map vkey vs1" and p: "\<forall>v\<in>set vs. - (2 * ?T) \<le> ProposerPriority v \<and> ProposerPriority v \<le> 2 * ?T"
    and s: "0 \<le> sum_list (prios vs)" "sum_list (prios vs) < int (length vs)"
    using scale_and_center [of ?v2 ?T] T T2 b assms(1,3) by auto
  let ?vs = "sort_key power_order vs"
  let ?r = "?v2\<lparr>Validators := ?vs\<rparr>"
  have perm: "mset ?vs = mset vs" by simp
  have dv: "distinct (map tv_Address vs)" using vkeys_eqD(1) [OF vk] assms(2) by simp
  then have ds: "distinct (map tv_Address ?vs)" by (simp add: distinct_map)
  have sums: "sum_list (map f ?vs) = sum_list (map f vs)" for f :: "TmValidator \<Rightarrow> int"
    using arg_cong [OF perm, of "\<lambda>M. sum_mset (image_mset f M)"] by (simp only: mset_map [symmetric] sum_mset_sum_list)
  have "VotingPower ` set vs = VotingPower ` set vs1" using vkeys_eqD(2) [OF vk] by (metis set_map)
  moreover have "\<forall>x\<in>VotingPower ` set vs1. 0 < x" using b by blast
  ultimately have pos: "\<forall>v\<in>set vs. 0 < VotingPower v" by blast
  have pa: "\<forall>v\<in>set vs. \<bar>ProposerPriority v\<bar> \<le> 2 * ?T" using p by (simp add: abs_le_iff minus_le_iff)
  moreover have "\<bar>ProposerPriority v\<bar> < 3 * 2 ^ 60" if "v \<in> set vs" for v using pa that T2 by fastforce
  ultimately have "vset_wf ?r" using ds pos vkeys_eqD(4) [OF vk] assms(4) sums [of VotingPower] by (simp add: vset_wf_def power_sum_def)
  moreover have "vmap ?vs = vmap vs1" using vmap_set [OF ds dv] vmap_vkeys [OF vk] by simp
  moreover have "?vs \<noteq> []" using vkeys_eqD(3) [OF vk] assms(3) by (metis length_0_conv length_sort)
  moreover have "rbind (updateTotalVotingPower vals1) (\<lambda>vals2. rbind (TotalVotingPower vals2) (\<lambda>total.
      rbind (RescalePriorities (wrap64 (PriorityWindowSizeFactor * total)) vals2) (\<lambda>vals3. rbind (shiftByAvgProposerPriority vals3) (\<lambda>vals4.
      Inr (vals4\<lparr>Validators := sort_key power_order (Validators vals4)\<rparr>))))) = Inr ?r"
    unfolding up using r tp by auto
  ultimately show ?thesis using s sums [of ProposerPriority] pa by (intro exI [of _ ?r]) simp
qed

lemma nonempty_iff:
  assumes vs: "distinct (map tv_Address (Validators vals))" and ch: "distinct (map tv_Address changes)"
    and us: "set us = {c \<in> set changes. VotingPower c \<noteq> 0}" and ds: "set ds = {c \<in> set changes. VotingPower c = 0}" "distinct (map tv_Address ds)" "addrs ds \<subseteq> addrs (Validators vals)"
  shows "(numNewValidators us vals = 0 \<and> length (Validators vals) = length ds) \<longleftrightarrow> (\<forall>a\<in>addrs changes \<union> addrs (Validators vals). chg changes (vmap (Validators vals)) a = None)" (is "?L \<longleftrightarrow> ?R")
proof -
  let ?A = "addrs (Validators vals)"
  have len: "length (Validators vals) = length ds \<longleftrightarrow> addrs ds = ?A"
    using distinct_card [OF vs] distinct_card [OF ds(2)] card_subset_eq [OF _ ds(3)] by (metis List.finite_set finite_imageI length_map set_map)
  have new: "numNewValidators us vals = 0 \<longleftrightarrow> addrs us \<subseteq> ?A" by (auto simp: numNewValidators_def HasAddress_iff filter_empty_conv)
  have dis: "addrs ds \<inter> addrs us = {}" using us ds(1) ch by (auto simp: distinct_map inj_on_def)
  have "us = []" if "addrs us \<subseteq> ?A" "addrs ds = ?A"
  proof -
    have "addrs us = {}" using dis that(2) Int_absorb1 [OF that(1)] by simp
    then show ?thesis by simp
  qed
  then have "?L \<longleftrightarrow> addrs ds = ?A \<and> us = []" unfolding len new by (metis empty_subsetI image_empty list.set(1))
  also have "\<dots> \<longleftrightarrow> ?R"
  proof
    assume l: "addrs ds = ?A \<and> us = []"
    then have z: "\<forall>c\<in>set changes. VotingPower c = 0" using us by auto
    then have "addrs changes = ?A" using l ds(1) by auto
    then have eq: "addrs changes \<union> ?A = addrs changes" by simp
    have "chg changes (vmap (Validators vals)) a = None" if "a \<in> addrs changes" for a
      using that z chg_simps(1) [OF ch] by (metis imageE)
    then show ?R unfolding eq by (rule ballI)
  next
    assume r: ?R
    have "us = []"
    proof (rule ccontr)
      assume "us \<noteq> []"
      then obtain c where "c \<in> set changes" "VotingPower c \<noteq> 0" using us by (metis (mono_tags, lifting) last_in_set mem_Collect_eq)
      then show False using bspec [OF r, of "tv_Address c"] chg_simps(1) [OF ch, of c] by simp
    qed
    moreover have "?A \<subseteq> addrs ds"
    proof
      fix a assume a: "a \<in> ?A"
      have "a \<in> addrs changes"
      proof (rule ccontr)
        assume "a \<notin> addrs changes"
        then have "vmap (Validators vals) a = None" using bspec [OF r, of a] a chg_simps(2) [OF ch, of a] by simp
        then show False using a by (simp add: vmap_None)
      qed
      then show "a \<in> addrs ds" using us ds(1) \<open>us = []\<close> by auto
    qed
    ultimately show "addrs ds = ?A \<and> us = []" using ds(3) by blast
  qed
  finally show ?thesis .
qed

lemma changes_split:
  assumes "changeset_ok changes"
  defines "us \<equiv> filter (\<lambda>v. VotingPower v \<noteq> 0) (sort_key tv_Address changes)" and "ds \<equiv> filter (\<lambda>v. VotingPower v = 0) (sort_key tv_Address changes)"
  shows "processChanges changes = Inr (us, ds)" "set us = {c \<in> set changes. VotingPower c \<noteq> 0}" "set ds = {c \<in> set changes. VotingPower c = 0}"
    "addr_asc us" "addr_asc ds" "addrs ds \<inter> addrs us = {}" "\<forall>u\<in>set us. 0 < VotingPower u \<and> VotingPower u \<le> MaxTotalVotingPower"
proof -
  have ok: "distinct (map tv_Address changes)" "\<forall>v\<in>set changes. 0 \<le> VotingPower v \<and> VotingPower v \<le> MaxTotalVotingPower" using assms(1) by (auto simp: changeset_ok_def)
  show "processChanges changes = Inr (us, ds)" using processChanges_eq [of changes] assms(1) by (simp add: us_def ds_def)
  show us: "set us = {c \<in> set changes. VotingPower c \<noteq> 0}" and ds: "set ds = {c \<in> set changes. VotingPower c = 0}" by (auto simp: us_def ds_def)
  show "addr_asc us" "addr_asc ds" unfolding us_def ds_def by (intro addr_asc_filter addr_asc_sort ok(1))+
  show "addrs ds \<inter> addrs us = {}" using us ds ok(1) by (auto simp: distinct_map inj_on_def)
  show "\<forall>u\<in>set us. 0 < VotingPower u \<and> VotingPower u \<le> MaxTotalVotingPower" using us ok(2) by (auto simp: less_le)
qed

lemma update_unfold:
  assumes "changes \<noteq> []" "processChanges changes = Inr (us, ds)" "allowDeletes \<or> ds = []" "\<not> (numNewValidators us vals = 0 \<and> length (Validators vals) = length ds)"
  shows "updateWithChangeSet changes allowDeletes vals = rbind (verifyRemovals ds vals) (\<lambda>r. rbind (verifyUpdates us vals r) (\<lambda>tvp.
    rbind (applyRemovals ds (applyUpdates (computeNewPriorities us vals tvp) vals)) (\<lambda>vals1. rbind (updateTotalVotingPower vals1) (\<lambda>vals2. rbind (TotalVotingPower vals2) (\<lambda>total.
      rbind (RescalePriorities (wrap64 (PriorityWindowSizeFactor * total)) vals2) (\<lambda>vals3. rbind (shiftByAvgProposerPriority vals3) (\<lambda>vals4.
      Inr (vals4\<lparr>Validators := sort_key power_order (Validators vals4)\<rparr>))))))))"
proof -
  have c: "(\<not> allowDeletes \<and> ds \<noteq> []) = False" "(numNewValidators us vals = 0 \<and> length (Validators vals) = length ds) = False" "(changes = []) = False" using assms by auto
  show ?thesis unfolding updateWithChangeSet_def assms(2) by (simp only: c if_False rbind_simps prod.case)
qed

lemma update_accepts:
  assumes wf: "vset_wf vals" and ne: "changes \<noteq> []" and ac: "acceptable changes allowDeletes (Validators vals)"
  shows "\<exists>vals'. updateWithChangeSet changes allowDeletes vals = Inr vals' \<and>
    vset_wf vals' \<and> Validators vals' \<noteq> [] \<and> sorted (map power_order (Validators vals')) \<and> vmap (Validators vals') = chg changes (vmap (Validators vals)) \<and>
    vs_Proposer vals' = vs_Proposer vals \<and> 0 \<le> sum_list (prios (Validators vals')) \<and> sum_list (prios (Validators vals')) < int (length (Validators vals')) \<and>
    (\<forall>v\<in>set (Validators vals'). \<bar>ProposerPriority v\<bar> \<le> 2 * totalVotingPower vals')"
proof -
  let ?vs = "Validators vals" and ?P = "pow_at (Validators vals)"
  have ok: "changeset_ok changes" and del: "\<forall>v\<in>set changes. VotingPower v = 0 \<longrightarrow> allowDeletes \<and> tv_Address v \<in> addrs ?vs"
    and some: "\<exists>a\<in>addrs changes \<union> addrs ?vs. chg changes (vmap ?vs) a \<noteq> None" and tot: "change_total changes ?vs \<le> MaxTotalVotingPower"
    using ac by (auto simp: acceptable_def)
  define us where "us = filter (\<lambda>v. VotingPower v \<noteq> 0) (sort_key tv_Address changes)"
  define ds where "ds = filter (\<lambda>v. VotingPower v = 0) (sort_key tv_Address changes)"
  note sp = changes_split [OF ok, folded us_def ds_def]
  have dch: "distinct (map tv_Address changes)" using ok by (simp add: changeset_ok_def)
  have dvs: "distinct (map tv_Address ?vs)" using wf by (simp add: vset_wf_def)
  have D: "addrs ds \<subseteq> addrs ?vs" "allowDeletes \<or> ds = []" using del sp(3) by (auto, metis (mono_tags, lifting) last_in_set mem_Collect_eq)
  have nempty: "\<not> (numNewValidators us vals = 0 \<and> length ?vs = length ds)"
    unfolding nonempty_iff [OF dvs dch sp(2,3) addr_asc_distinct [OF sp(5)] D(1)] using some by meson
  have rem: "verifyRemovals ds vals = Inr (sum ?P (addrs ds))" using verifyRemovals_eq [OF wf addr_asc_distinct [OF sp(5)]] D(1) by simp
  have u0: "\<forall>u\<in>set us. 0 \<le> VotingPower u \<and> VotingPower u \<le> MaxTotalVotingPower" using sp(7) by (auto intro: less_imp_le)
  note ver = verifyUpdates_eq [OF wf addr_asc_distinct [OF sp(4)] u0 _ D(1) sp(6)]
  note new = change_total_new [OF wf dch sp(2) addr_asc_distinct [OF sp(4)] sp(3)]
  let ?tvp = "change_total changes ?vs + sum ?P (addrs ds)"
  have upd: "verifyUpdates us vals (sum ?P (addrs ds)) = Inr ?tvp" "0 \<le> ?tvp" "?tvp < 2 ^ 61"
    using ver tot unfolding new by (simp_all add: MaxTotalVotingPower_eq)
  obtain vs1 us' where ap: "applyRemovals ds (applyUpdates (computeNewPriorities us vals ?tvp) vals) = Inr (vals\<lparr>Validators := vs1\<rparr>)" and d1: "distinct (map tv_Address vs1)"
    and m: "map vkey us' = map vkey us" "set vs1 = set us' \<union> {e \<in> set ?vs. tv_Address e \<notin> addrs us' \<union> addrs ds}"
    and b: "\<forall>v\<in>set vs1. 0 < VotingPower v \<and> VotingPower v \<le> MaxTotalVotingPower \<and> \<bar>ProposerPriority v\<bar> < 3 * 2 ^ 60"
    using applied_set [OF wf sp(4) sp(7) sp(5) D(1) sp(6) upd(2,3)] by fast
  have vm: "vmap vs1 = chg changes (vmap ?vs)" by (rule merged_vmap [OF dch dvs d1 sp(2,3) m])
  have in1: "a \<in> addrs vs1 \<longleftrightarrow> chg changes (vmap ?vs) a \<noteq> None" for a unfolding vm [symmetric] by (simp add: vmap_None)
  have sub: "addrs vs1 \<subseteq> addrs changes \<union> addrs ?vs"
  proof
    fix a assume "a \<in> addrs vs1"
    then have "chg changes (vmap ?vs) a \<noteq> None" using in1 by simp
    then show "a \<in> addrs changes \<union> addrs ?vs" using chg_simps(2) [OF dch, of a "vmap ?vs"] vmap_None [of ?vs a] by auto
  qed
  have "power_sum vs1 = change_total changes ?vs"
    unfolding power_sum_ext [OF _ sub d1, simplified] change_total_def vm [symmetric] by (simp add: mpow_vmap)
  moreover have "vs1 \<noteq> []" using some in1 by auto
  ultimately have fin: "\<exists>vals'. rbind (updateTotalVotingPower (vals\<lparr>Validators := vs1\<rparr>)) (\<lambda>vals2. rbind (TotalVotingPower vals2) (\<lambda>total.
      rbind (RescalePriorities (wrap64 (PriorityWindowSizeFactor * total)) vals2) (\<lambda>vals3. rbind (shiftByAvgProposerPriority vals3) (\<lambda>vals4.
      Inr (vals4\<lparr>Validators := sort_key power_order (Validators vals4)\<rparr>))))) = Inr vals' \<and>
    vset_wf vals' \<and> Validators vals' \<noteq> [] \<and> sorted (map power_order (Validators vals')) \<and> vmap (Validators vals') = chg changes (vmap ?vs) \<and> vs_Proposer vals' = vs_Proposer vals \<and>
    0 \<le> sum_list (prios (Validators vals')) \<and> sum_list (prios (Validators vals')) < int (length (Validators vals')) \<and>
    (\<forall>v\<in>set (Validators vals'). \<bar>ProposerPriority v\<bar> \<le> 2 * totalVotingPower vals')"
    using finish_set [of "vals\<lparr>Validators := vs1\<rparr>" vs1] d1 tot b vm by simp
  show ?thesis unfolding update_unfold [OF ne sp(1) D(2) nempty] rem rbind_simps upd(1) ap using fin by blast
qed

lemma update_rejects:
  assumes wf: "vset_wf vals" and ne: "changes \<noteq> []" and ac: "\<not> acceptable changes allowDeletes (Validators vals)"
  shows "\<exists>e. updateWithChangeSet changes allowDeletes vals = Inl (Err e)"
proof (cases "changeset_ok changes")
  case False
  then show ?thesis using processChanges_eq [of changes] ne unfolding updateWithChangeSet_def by auto
next
  case True
  let ?vs = "Validators vals" and ?P = "pow_at (Validators vals)"
  define us where "us = filter (\<lambda>v. VotingPower v \<noteq> 0) (sort_key tv_Address changes)"
  define ds where "ds = filter (\<lambda>v. VotingPower v = 0) (sort_key tv_Address changes)"
  note sp = changes_split [OF True, folded us_def ds_def]
  have dch: "distinct (map tv_Address changes)" using True by (simp add: changeset_ok_def)
  have dvs: "distinct (map tv_Address ?vs)" using wf by (simp add: vset_wf_def)
  note rem = verifyRemovals_eq [OF wf addr_asc_distinct [OF sp(5)]]
  show ?thesis
  proof (cases "(allowDeletes \<or> ds = []) \<and> \<not> (numNewValidators us vals = 0 \<and> length ?vs = length ds) \<and> addrs ds \<subseteq> addrs ?vs")
    case False
    then consider "\<not> (allowDeletes \<or> ds = [])" | "numNewValidators us vals = 0 \<and> length ?vs = length ds"
      | "allowDeletes \<or> ds = []" "\<not> (numNewValidators us vals = 0 \<and> length ?vs = length ds)" "\<not> addrs ds \<subseteq> addrs ?vs" by blast
    then show ?thesis
    proof cases
      case 1
      then show ?thesis using ne unfolding updateWithChangeSet_def sp(1) by simp
    next
      case 2
      then show ?thesis using ne unfolding updateWithChangeSet_def sp(1) by simp
    next
      case 3
      then obtain e where "verifyRemovals ds vals = Inl (Err e)" using rem by auto
      then show ?thesis unfolding update_unfold [OF ne sp(1) 3(1,2)] by simp
    qed
  next
    case c: True
    have u0: "\<forall>u\<in>set us. 0 \<le> VotingPower u \<and> VotingPower u \<le> MaxTotalVotingPower" using sp(7) by (auto intro: less_imp_le)
    have D: "addrs ds \<subseteq> addrs ?vs" using c by simp
    note ver = verifyUpdates_eq [OF wf addr_asc_distinct [OF sp(4)] u0 _ D sp(6)]
    note new = change_total_new [OF wf dch sp(2) addr_asc_distinct [OF sp(4)] sp(3)]
    have "\<exists>a\<in>addrs changes \<union> addrs ?vs. chg changes (vmap ?vs) a \<noteq> None"
      using c unfolding nonempty_iff [OF dvs dch sp(2,3) addr_asc_distinct [OF sp(5)] D] by meson
    moreover have "\<forall>v\<in>set changes. VotingPower v = 0 \<longrightarrow> allowDeletes \<and> tv_Address v \<in> addrs ?vs"
    proof (intro ballI impI)
      fix v assume "v \<in> set changes" "VotingPower v = 0"
      then have "v \<in> set ds" using sp(3) by simp
      then show "allowDeletes \<and> tv_Address v \<in> addrs ?vs" using c D by auto
    qed
    ultimately have "\<not> change_total changes ?vs \<le> MaxTotalVotingPower" using ac True unfolding acceptable_def by blast
    then have "verifyUpdates us vals (sum ?P (addrs ds)) = Inl (Err ''total voting power would exceed the max allowed'')"
      using ver(1) unfolding new by simp
    moreover have "verifyRemovals ds vals = Inr (sum ?P (addrs ds))" using rem D by simp
    moreover have "allowDeletes \<or> ds = []" "\<not> (numNewValidators us vals = 0 \<and> length ?vs = length ds)" using c by blast+
    ultimately show ?thesis using update_unfold [OF ne sp(1)] by simp
  qed
qed

text \<open>C5: On a well-formed set a non-empty list of changes succeeds exactly when it has no duplicate or empty address,
  powers within the bounds, deletes only members (and only when deleting is allowed), and leaves a non-empty set of
  at most the maximal power; the result is then the set overridden by the changes, ordered by descending power and
  address, well-formed, centered and within the priority window.  Otherwise an error is returned and nothing panics.\<close>

theorem updateWithChangeSet_refines:
  assumes "vset_wf vals" "changes \<noteq> []"
  shows "if acceptable changes allowDeletes (Validators vals)
    then \<exists>vals'. updateWithChangeSet changes allowDeletes vals = Inr vals' \<and> vmap (Validators vals') = chg changes (vmap (Validators vals)) \<and>
      vset_wf vals' \<and> Validators vals' \<noteq> [] \<and> sorted (map power_order (Validators vals')) \<and> map_option vkey (vs_Proposer vals') = map_option vkey (vs_Proposer vals) \<and>
      0 \<le> sum_list (prios (Validators vals')) \<and> sum_list (prios (Validators vals')) < int (length (Validators vals')) \<and>
      (\<forall>v\<in>set (Validators vals'). \<bar>ProposerPriority v\<bar> \<le> 2 * totalVotingPower vals')
    else \<exists>e. updateWithChangeSet changes allowDeletes vals = Inl (Err e)"
proof (cases "acceptable changes allowDeletes (Validators vals)")
  case True
  obtain vals' where "updateWithChangeSet changes allowDeletes vals = Inr vals'" "vset_wf vals'" "Validators vals' \<noteq> []" "sorted (map power_order (Validators vals'))"
    "vmap (Validators vals') = chg changes (vmap (Validators vals))" "vs_Proposer vals' = vs_Proposer vals" "0 \<le> sum_list (prios (Validators vals'))"
    "sum_list (prios (Validators vals')) < int (length (Validators vals'))" "\<forall>v\<in>set (Validators vals'). \<bar>ProposerPriority v\<bar> \<le> 2 * totalVotingPower vals'"
    using update_accepts [OF assms True] by fast
  then show ?thesis unfolding if_P [OF True] by (intro exI [of _ vals'] conjI) simp_all
next
  case False
  then show ?thesis using update_rejects [OF assms False] by (simp only: if_False)
qed

definition ex_validators :: ValidatorSet where
  "ex_validators = \<lparr>Validators = [\<lparr>tv_Address = ''b'', tv_PubKey = ''kb'', VotingPower = 20, ProposerPriority = - 5\<rparr>,
     \<lparr>tv_Address = ''a'', tv_PubKey = ''ka'', VotingPower = 10, ProposerPriority = 5\<rparr>], vs_Proposer = None, totalVotingPower = 30\<rparr>"

definition ex_changes :: "TmValidator list" where
  "ex_changes = [\<lparr>tv_Address = ''c'', tv_PubKey = ''kc'', VotingPower = 15, ProposerPriority = 0\<rparr>,
     \<lparr>tv_Address = ''a'', tv_PubKey = ''ka'', VotingPower = 0, ProposerPriority = 0\<rparr>]"

lemma ex_validators_wf: "vset_wf ex_validators"
  by (simp add: vset_wf_def ex_validators_def power_sum_def MaxTotalVotingPower_eq)

lemma ex_changes_acceptable: "acceptable ex_changes True (Validators ex_validators)"
proof -
  have "chg ex_changes (vmap (Validators ex_validators)) ''c'' = Some (''c'', ''kc'', 15)" "chg ex_changes (vmap (Validators ex_validators)) ''a'' = None"
    "chg ex_changes (vmap (Validators ex_validators)) ''b'' = Some (''b'', ''kb'', 20)"
    by (simp_all add: chg_def vlook_def vmap_def ex_changes_def ex_validators_def vkey_def)
  moreover have "addrs ex_changes \<union> addrs (Validators ex_validators) = {''a'', ''b'', ''c''}" by (auto simp: ex_changes_def ex_validators_def)
  ultimately show ?thesis unfolding acceptable_def change_total_def
    by (simp add: mpow_def MaxTotalVotingPower_eq) (simp add: changeset_ok_def ex_changes_def ex_validators_def MaxTotalVotingPower_eq)
qed

theorem updateWithChangeSet_refines_witness:
  "\<exists>vals'. updateWithChangeSet ex_changes True ex_validators = Inr vals' \<and> vmap (Validators vals') = chg ex_changes (vmap (Validators ex_validators)) \<and> vset_wf vals'"
  using updateWithChangeSet_refines [of ex_validators ex_changes True] ex_validators_wf ex_changes_acceptable by (auto simp: ex_changes_def)

end
