(* ===== verification/Commits.thy ===== *)
theory Commits
  imports ValidatorUpdates
begin

text \<open>
  Block ids, votes, commits and their verification (\<open>libs/tendermint/types/block.go\<close>, \<open>vote.go\<close>, \<open>ibc.go\<close>,
  \<open>part_set.go\<close>, \<open>validator_set.go\<close>, \<open>evidence.go\<close>).  Keys, signatures and encodings are the record
  \<open>crypto\<close>, an argument of every definition that uses them; a time is the number of nanoseconds since the zero time.
  The lemmas say exactly when a commit verifies and which validators then signed; the locale \<open>weighted_set\<close> states what
  this relies on of the validator set.
\<close>

section \<open>Block ids, votes and commits\<close>

record PartSetHeader =
  psh_Total :: int
  psh_Hash :: bytes

record BlockID =
  bid_Hash :: bytes
  PartsHeader :: PartSetHeader

record CanonicalPartSetHeader =
  cpsh_Total :: int
  cpsh_Hash :: bytes

record CanonicalBlockID =
  cbid_Hash :: bytes
  cbid_PartSetHeader :: CanonicalPartSetHeader

record CanonicalVote =
  cv_Type :: int
  cv_Height :: int
  cv_Round :: int
  cv_BlockID :: "CanonicalBlockID option"
  cv_Timestamp :: int
  cv_ChainID :: bytes

record Vote =
  vote_Type :: int
  vote_Height :: int
  vote_Round :: int
  vote_BlockID :: BlockID
  vote_Timestamp :: int
  vote_ValidatorAddress :: bytes
  vote_ValidatorIndex :: int
  vote_Signature :: bytes
  vote_HasVC :: bool

record CommitSig =
  cs_BlockIDFlag :: int
  cs_ValidatorAddress :: bytes
  cs_Timestamp :: int
  cs_Signature :: bytes

record Commit =
  commit_Height :: int
  commit_Round :: int
  commit_BlockID :: BlockID
  commit_Signatures :: "CommitSig list"

text \<open>The keys and the encodings, which are not part of the sources: verification of a signature, the address and the bytes of a
  public key, the length-prefixed protobuf encoding of a canonical vote (absent when the time is out of its range) and the amino
  encoding of a part-set header.\<close>

record crypto =
  VerifyBytes :: "bytes \<Rightarrow> bytes \<Rightarrow> bytes \<Rightarrow> bool"
  PubKeyAddress :: "bytes \<Rightarrow> bytes"
  PubKeyBytes :: "bytes \<Rightarrow> bytes"
  MarshalDelimited :: "CanonicalVote \<Rightarrow> bytes option"
  MarshalBinaryBare :: "PartSetHeader \<Rightarrow> bytes"

definition PrevoteType :: int where "PrevoteType = 1"

definition PrecommitType :: int where "PrecommitType = 2"

definition IsVoteTypeValid :: "int \<Rightarrow> bool" where
  "IsVoteTypeValid t \<longleftrightarrow> t = PrevoteType \<or> t = PrecommitType"

definition BlockIDFlagAbsent :: int where "BlockIDFlagAbsent = 1"

definition BlockIDFlagCommit :: int where "BlockIDFlagCommit = 2"

definition BlockIDFlagNil :: int where "BlockIDFlagNil = 3"

definition tmhash_Size :: nat where "tmhash_Size = 32"

definition AddressSize :: nat where "AddressSize = 20"

definition MaxSignatureSize :: nat where "MaxSignatureSize = 64"

definition psh_IsZero :: "PartSetHeader \<Rightarrow> bool" where
  "psh_IsZero psh \<longleftrightarrow> psh_Total psh = 0 \<and> length (psh_Hash psh) = 0"

definition psh_Equals :: "PartSetHeader \<Rightarrow> PartSetHeader \<Rightarrow> bool" where
  "psh_Equals psh other \<longleftrightarrow> psh_Total psh = psh_Total other \<and> psh_Hash psh = psh_Hash other"

definition ValidateHash :: "bytes \<Rightarrow> unit res" where
  "ValidateHash h = (if length h > 0 \<and> length h \<noteq> tmhash_Size then Inl (Err ''expected size to be 32 bytes'') else Inr ())"

definition psh_ValidateBasic :: "PartSetHeader \<Rightarrow> unit res" where
  "psh_ValidateBasic psh = (if psh_Total psh < 0 then Inl (Err ''negative Total'') else ValidateHash (psh_Hash psh))"

definition zero_BlockID :: BlockID where
  "zero_BlockID = \<lparr>bid_Hash = [], PartsHeader = \<lparr>psh_Total = 0, psh_Hash = []\<rparr>\<rparr>"

definition bid_Equals :: "BlockID \<Rightarrow> BlockID \<Rightarrow> bool" where
  "bid_Equals blockID other \<longleftrightarrow> bid_Hash blockID = bid_Hash other \<and> psh_Equals (PartsHeader blockID) (PartsHeader other)"

text \<open>The amino encoding of an integer and a byte slice does not fail.\<close>

definition bid_Key :: "crypto \<Rightarrow> BlockID \<Rightarrow> bytes" where
  "bid_Key cr blockID = bid_Hash blockID @ MarshalBinaryBare cr (PartsHeader blockID)"

definition bid_ValidateBasic :: "BlockID \<Rightarrow> unit res" where
  "bid_ValidateBasic blockID = rbind (ValidateHash (bid_Hash blockID)) (\<lambda>_. psh_ValidateBasic (PartsHeader blockID))"

definition bid_IsZero :: "BlockID \<Rightarrow> bool" where
  "bid_IsZero blockID \<longleftrightarrow> length (bid_Hash blockID) = 0 \<and> psh_IsZero (PartsHeader blockID)"

definition bid_IsComplete :: "BlockID \<Rightarrow> bool" where
  "bid_IsComplete blockID \<longleftrightarrow> length (bid_Hash blockID) = tmhash_Size \<and> psh_Total (PartsHeader blockID) > 0 \<and>
     length (psh_Hash (PartsHeader blockID)) = tmhash_Size"

section \<open>Sign bytes\<close>

definition IBCCanonicalizePartSetHeader :: "PartSetHeader \<Rightarrow> CanonicalPartSetHeader" where
  "IBCCanonicalizePartSetHeader psh = \<lparr>cpsh_Total = psh_Total psh mod 2 ^ 32, cpsh_Hash = psh_Hash psh\<rparr>"

definition IBCCanonicalizeBlockID :: "BlockID \<Rightarrow> CanonicalBlockID option" where
  "IBCCanonicalizeBlockID rbid =
     (if bid_IsZero rbid then None
      else Some \<lparr>cbid_Hash = bid_Hash rbid, cbid_PartSetHeader = IBCCanonicalizePartSetHeader (PartsHeader rbid)\<rparr>)"

definition IBCCanonicalizeVote :: "bytes \<Rightarrow> Vote \<Rightarrow> CanonicalVote" where
  "IBCCanonicalizeVote chainID vote =
     \<lparr>cv_Type = vote_Type vote, cv_Height = vote_Height vote, cv_Round = vote_Round vote,
      cv_BlockID = IBCCanonicalizeBlockID (vote_BlockID vote), cv_Timestamp = vote_Timestamp vote, cv_ChainID = chainID\<rparr>"

definition VoteSignBytes :: "crypto \<Rightarrow> bytes \<Rightarrow> Vote \<Rightarrow> bytes res" where
  "VoteSignBytes cr chainID vote =
     (case MarshalDelimited cr (IBCCanonicalizeVote chainID vote) of
        None \<Rightarrow> Inl (Panic ''marshal'')
      | Some bz \<Rightarrow> Inr bz)"

definition vote_SignBytes :: "crypto \<Rightarrow> bytes \<Rightarrow> Vote \<Rightarrow> bytes res" where
  "vote_SignBytes cr chainID vote = VoteSignBytes cr chainID vote"

definition vote_Verify :: "crypto \<Rightarrow> bytes \<Rightarrow> bytes \<Rightarrow> Vote \<Rightarrow> unit res" where
  "vote_Verify cr chainID pubKey vote =
     (if PubKeyAddress cr pubKey \<noteq> vote_ValidatorAddress vote then Inl (Err ''invalid validator address'')
      else rbind (vote_SignBytes cr chainID vote) (\<lambda>bz.
        if \<not> VerifyBytes cr pubKey bz (vote_Signature vote) then Inl (Err ''invalid signature'') else Inr ()))"

definition vote_ValidateBasic :: "Vote \<Rightarrow> unit res" where
  "vote_ValidateBasic vote =
     (if \<not> IsVoteTypeValid (vote_Type vote) then Inl (Err ''invalid Type'')
      else if vote_Height vote < 0 then Inl (Err ''negative Height'')
      else if vote_Round vote < 0 then Inl (Err ''negative Round'')
      else rbind (bid_ValidateBasic (vote_BlockID vote)) (\<lambda>_.
        if \<not> bid_IsZero (vote_BlockID vote) \<and> \<not> bid_IsComplete (vote_BlockID vote)
        then Inl (Err ''blockID must be either empty or complete'')
        else if length (vote_ValidatorAddress vote) \<noteq> AddressSize then Inl (Err ''expected ValidatorAddress size'')
        else if vote_ValidatorIndex vote < 0 then Inl (Err ''negative ValidatorIndex'')
        else if length (vote_Signature vote) = 0 then Inl (Err ''signature is missing'')
        else if length (vote_Signature vote) > MaxSignatureSize then Inl (Err ''signature is too big'')
        else Inr ()))"

section \<open>Commit signatures\<close>

definition NewCommitSigAbsent :: CommitSig where
  "NewCommitSigAbsent = \<lparr>cs_BlockIDFlag = BlockIDFlagAbsent, cs_ValidatorAddress = [], cs_Timestamp = 0, cs_Signature = []\<rparr>"

definition cs_ForBlock :: "CommitSig \<Rightarrow> bool" where
  "cs_ForBlock cs \<longleftrightarrow> cs_BlockIDFlag cs = BlockIDFlagCommit"

definition cs_Absent :: "CommitSig \<Rightarrow> bool" where
  "cs_Absent cs \<longleftrightarrow> cs_BlockIDFlag cs = BlockIDFlagAbsent"

definition cs_BlockID :: "CommitSig \<Rightarrow> BlockID \<Rightarrow> BlockID res" where
  "cs_BlockID cs commitBlockID =
     (if cs_BlockIDFlag cs = BlockIDFlagAbsent then Inr zero_BlockID
      else if cs_BlockIDFlag cs = BlockIDFlagCommit then Inr commitBlockID
      else if cs_BlockIDFlag cs = BlockIDFlagNil then Inr zero_BlockID
      else Inl (Panic ''Unknown BlockIDFlag''))"

definition cs_ValidateBasic :: "CommitSig \<Rightarrow> unit res" where
  "cs_ValidateBasic cs =
     (if cs_BlockIDFlag cs \<notin> {BlockIDFlagAbsent, BlockIDFlagCommit, BlockIDFlagNil} then Inl (Err ''unknown BlockIDFlag'')
      else if cs_BlockIDFlag cs = BlockIDFlagAbsent then
        if length (cs_ValidatorAddress cs) \<noteq> 0 then Inl (Err ''validator address is present'')
        else if cs_Timestamp cs \<noteq> 0 then Inl (Err ''time is present'')
        else if length (cs_Signature cs) \<noteq> 0 then Inl (Err ''signature is present'')
        else Inr ()
      else if length (cs_ValidatorAddress cs) \<noteq> AddressSize then Inl (Err ''expected ValidatorAddress size'')
      else if length (cs_Signature cs) = 0 then Inl (Err ''signature is missing'')
      else if length (cs_Signature cs) > MaxSignatureSize then Inl (Err ''signature is too big'')
      else Inr ())"

definition vote_CommitSig :: "Vote option \<Rightarrow> CommitSig res" where
  "vote_CommitSig v =
     (case v of
        None \<Rightarrow> Inr NewCommitSigAbsent
      | Some vote \<Rightarrow>
          if bid_IsComplete (vote_BlockID vote)
          then Inr \<lparr>cs_BlockIDFlag = BlockIDFlagCommit, cs_ValidatorAddress = vote_ValidatorAddress vote, cs_Timestamp = vote_Timestamp vote, cs_Signature = vote_Signature vote\<rparr>
          else if bid_IsZero (vote_BlockID vote)
          then Inr \<lparr>cs_BlockIDFlag = BlockIDFlagNil, cs_ValidatorAddress = vote_ValidatorAddress vote, cs_Timestamp = vote_Timestamp vote, cs_Signature = vote_Signature vote\<rparr>
          else Inl (Panic ''expected BlockID to be either empty or complete''))"

definition NewCommit :: "int \<Rightarrow> int \<Rightarrow> BlockID \<Rightarrow> CommitSig list \<Rightarrow> Commit" where
  "NewCommit height rnd blockID commitSigs =
     \<lparr>commit_Height = height, commit_Round = rnd, commit_BlockID = blockID, commit_Signatures = commitSigs\<rparr>"

definition commit_GetVote :: "Commit \<Rightarrow> nat \<Rightarrow> Vote res" where
  "commit_GetVote commit valIdx =
     (if valIdx \<ge> length (commit_Signatures commit) then Inl (Panic ''index out of range'')
      else let commitSig = commit_Signatures commit ! valIdx
           in rbind (cs_BlockID commitSig (commit_BlockID commit)) (\<lambda>blockID.
                Inr \<lparr>vote_Type = PrecommitType, vote_Height = commit_Height commit, vote_Round = commit_Round commit,
                     vote_BlockID = blockID, vote_Timestamp = cs_Timestamp commitSig,
                     vote_ValidatorAddress = cs_ValidatorAddress commitSig, vote_ValidatorIndex = int valIdx,
                     vote_Signature = cs_Signature commitSig, vote_HasVC = False\<rparr>))"

definition commit_VoteSignBytes :: "crypto \<Rightarrow> bytes \<Rightarrow> Commit \<Rightarrow> nat \<Rightarrow> bytes res" where
  "commit_VoteSignBytes cr chainID commit valIdx = rbind (commit_GetVote commit valIdx) (vote_SignBytes cr chainID)"

definition commit_ValidateBasic :: "Commit \<Rightarrow> unit res" where
  "commit_ValidateBasic commit =
     (if commit_Height commit < 0 then Inl (Err ''negative Height'')
      else if commit_Round commit < 0 then Inl (Err ''negative Round'')
      else if commit_Height commit \<ge> 1 then
        if bid_IsZero (commit_BlockID commit) then Inl (Err ''commit cannot be for nil block'')
        else if length (commit_Signatures commit) = 0 then Inl (Err ''no signatures in commit'')
        else rfold (\<lambda>commitSig _. cs_ValidateBasic commitSig) (commit_Signatures commit) ()
      else Inr ())"

section \<open>Verifying commits\<close>

definition verifyCommitBasic :: "Commit \<Rightarrow> int \<Rightarrow> BlockID \<Rightarrow> unit res" where
  "verifyCommitBasic commit height blockID =
     rbind (commit_ValidateBasic commit) (\<lambda>_.
       if height \<noteq> commit_Height commit then Inl (Err ''invalid commit height'')
       else if \<not> bid_Equals blockID (commit_BlockID commit) then Inl (Err ''wrong block ID'')
       else Inr ())"

definition verify_sig :: "crypto \<Rightarrow> bytes \<Rightarrow> Commit \<Rightarrow> nat \<Rightarrow> TmValidator \<Rightarrow> unit res" where
  "verify_sig cr chainID commit idx val =
     rbind (commit_VoteSignBytes cr chainID commit idx) (\<lambda>voteSignBytes.
       if \<not> VerifyBytes cr (tv_PubKey val) voteSignBytes (cs_Signature (commit_Signatures commit ! idx))
       then Inl (Err ''wrong signature'') else Inr ())"

definition VerifyCommit :: "crypto \<Rightarrow> bytes \<Rightarrow> BlockID \<Rightarrow> int \<Rightarrow> Commit \<Rightarrow> ValidatorSet \<Rightarrow> unit res" where
  "VerifyCommit cr chainID blockID height commit vals =
     (if length (Validators vals) \<noteq> length (commit_Signatures commit) then Inl (Err ''invalid commit signatures'')
      else rbind (verifyCommitBasic commit height blockID) (\<lambda>_.
           rbind (TotalVotingPower vals) (\<lambda>total.
           let votingPowerNeeded = big_quo (wrap64 (total * 2)) 3 in
           rbind (rfold (\<lambda>idx tallied.
                    let commitSig = commit_Signatures commit ! idx; val = Validators vals ! idx in
                    if cs_Absent commitSig then Inr tallied
                    else rbind (verify_sig cr chainID commit idx val) (\<lambda>_.
                         rbind (cs_BlockID commitSig (commit_BlockID commit)) (\<lambda>id.
                         Inr (if bid_Equals blockID id then wrap64 (tallied + VotingPower val) else tallied))))
                  [0..<length (commit_Signatures commit)] 0) (\<lambda>tallied.
           if tallied \<le> votingPowerNeeded then Inl (Err ''not enough voting power signed'') else Inr ()))))"

text \<open>The loop of the light verification returns as soon as the power is reached; falling out of it is the error.\<close>

fun light_loop :: "crypto \<Rightarrow> bytes \<Rightarrow> Commit \<Rightarrow> ValidatorSet \<Rightarrow> int \<Rightarrow> nat list \<Rightarrow> int \<Rightarrow> unit res" where
  "light_loop cr chainID commit vals needed [] tallied = Inl (Err ''not enough voting power signed'')"
| "light_loop cr chainID commit vals needed (idx # idxs) tallied =
     (if \<not> cs_ForBlock (commit_Signatures commit ! idx) then light_loop cr chainID commit vals needed idxs tallied
      else let val = Validators vals ! idx in
        rbind (verify_sig cr chainID commit idx val) (\<lambda>_.
          let tallied = wrap64 (tallied + VotingPower val)
          in if tallied > needed then Inr () else light_loop cr chainID commit vals needed idxs tallied))"

definition commonVerifyCommitLight :: "crypto \<Rightarrow> bytes \<Rightarrow> BlockID \<Rightarrow> int \<Rightarrow> Commit \<Rightarrow> ValidatorSet \<Rightarrow> unit res" where
  "commonVerifyCommitLight cr chainID blockID height commit vals =
     (if length (Validators vals) \<noteq> length (commit_Signatures commit) then Inl (Err ''invalid commit signatures'')
      else if height \<noteq> commit_Height commit then Inl (Err ''invalid commit height'')
      else if \<not> bid_Equals blockID (commit_BlockID commit) then Inl (Err ''wrong block ID'')
      else rbind (TotalVotingPower vals) (\<lambda>total.
        light_loop cr chainID commit vals (big_quo (wrap64 (total * 2)) 3) [0..<length (commit_Signatures commit)] 0))"

definition VerifyCommitLight :: "crypto \<Rightarrow> bytes \<Rightarrow> BlockID \<Rightarrow> int \<Rightarrow> Commit \<Rightarrow> ValidatorSet \<Rightarrow> unit res" where
  "VerifyCommitLight cr chainID blockID height commit vals = commonVerifyCommitLight cr chainID blockID height commit vals"

fun future_loop :: "crypto \<Rightarrow> bytes \<Rightarrow> BlockID \<Rightarrow> Commit \<Rightarrow> ValidatorSet \<Rightarrow> nat list \<Rightarrow> nat set \<Rightarrow> int \<Rightarrow> int res" where
  "future_loop cr chainID blockID commit oldVals [] seen oldVotingPower = Inr oldVotingPower"
| "future_loop cr chainID blockID commit oldVals (idx # idxs) seen oldVotingPower =
     (let commitSig = commit_Signatures commit ! idx in
      if cs_Absent commitSig then future_loop cr chainID blockID commit oldVals idxs seen oldVotingPower
      else case vs_GetByAddress oldVals (cs_ValidatorAddress commitSig) of
             None \<Rightarrow> future_loop cr chainID blockID commit oldVals idxs seen oldVotingPower
           | Some (oldIdx, val) \<Rightarrow>
               if oldIdx \<in> seen then future_loop cr chainID blockID commit oldVals idxs seen oldVotingPower
               else rbind (verify_sig cr chainID commit idx val) (\<lambda>_.
                    rbind (cs_BlockID commitSig (commit_BlockID commit)) (\<lambda>id.
                    future_loop cr chainID blockID commit oldVals idxs (insert oldIdx seen)
                      (if bid_Equals blockID id then wrap64 (oldVotingPower + VotingPower val) else oldVotingPower))))"

definition VerifyFutureCommit :: "crypto \<Rightarrow> ValidatorSet \<Rightarrow> bytes \<Rightarrow> BlockID \<Rightarrow> int \<Rightarrow> Commit \<Rightarrow> ValidatorSet \<Rightarrow> unit res" where
  "VerifyFutureCommit cr newSet chainID blockID height commit oldVals =
     rbind (VerifyCommit cr chainID blockID height commit newSet) (\<lambda>_.
     rbind (future_loop cr chainID blockID commit oldVals [0..<length (commit_Signatures commit)] {} 0) (\<lambda>oldVotingPower.
     rbind (TotalVotingPower oldVals) (\<lambda>total.
       if oldVotingPower \<le> big_quo (wrap64 (total * 2)) 3 then Inl (Err ''not enough voting power signed'') else Inr ())))"

record Fraction =
  Numerator :: int
  Denominator :: int

fun trusting_loop :: "crypto \<Rightarrow> bytes \<Rightarrow> Commit \<Rightarrow> ValidatorSet \<Rightarrow> int \<Rightarrow> nat list \<Rightarrow> nat set \<Rightarrow> int \<Rightarrow> unit res" where
  "trusting_loop cr chainID commit vals needed [] seenVals tallied = Inl (Err ''not enough voting power signed'')"
| "trusting_loop cr chainID commit vals needed (idx # idxs) seenVals tallied =
     (let commitSig = commit_Signatures commit ! idx in
      if \<not> cs_ForBlock commitSig then trusting_loop cr chainID commit vals needed idxs seenVals tallied
      else case vs_GetByAddress vals (cs_ValidatorAddress commitSig) of
             None \<Rightarrow> trusting_loop cr chainID commit vals needed idxs seenVals tallied
           | Some (valIdx, val) \<Rightarrow>
               if valIdx \<in> seenVals then Inl (Err ''double vote'')
               else rbind (verify_sig cr chainID commit idx val) (\<lambda>_.
                    let tallied = wrap64 (tallied + VotingPower val)
                    in if tallied > needed then Inr () else trusting_loop cr chainID commit vals needed idxs (insert valIdx seenVals) tallied))"

definition commonVerifyCommitLightTrusting :: "crypto \<Rightarrow> bytes \<Rightarrow> BlockID \<Rightarrow> int \<Rightarrow> Commit \<Rightarrow> Fraction \<Rightarrow> ValidatorSet \<Rightarrow> unit res" where
  "commonVerifyCommitLightTrusting cr chainID blockID height commit trustLevel vals =
     (if wrap64 (Numerator trustLevel * 3) < Denominator trustLevel \<or> Numerator trustLevel > Denominator trustLevel
      then Inl (Panic ''trustLevel must be within [1/3, 1]'')
      else rbind (verifyCommitBasic commit height blockID) (\<lambda>_.
           rbind (TotalVotingPower vals) (\<lambda>total.
           let (mul, overflow) = safeMul total (Numerator trustLevel) in
           if overflow then Inl (Err ''int64 overflow while calculating voting power needed'')
           else if Denominator trustLevel = 0 then Inl (Panic ''integer divide by zero'')
           else trusting_loop cr chainID commit vals (wrap64 (big_quo mul (Denominator trustLevel)))
                  [0..<length (commit_Signatures commit)] {} 0)))"

definition VerifyCommitLightTrusting :: "crypto \<Rightarrow> bytes \<Rightarrow> BlockID \<Rightarrow> int \<Rightarrow> Commit \<Rightarrow> Fraction \<Rightarrow> ValidatorSet \<Rightarrow> unit res" where
  "VerifyCommitLightTrusting cr chainID blockID height commit trustLevel vals =
     commonVerifyCommitLightTrusting cr chainID blockID height commit trustLevel vals"

section \<open>Evidence of duplicate votes\<close>

record DuplicateVoteEvidence =
  dve_PubKey :: bytes
  VoteA :: Vote
  VoteB :: Vote

definition NewDuplicateVoteEvidence :: "crypto \<Rightarrow> bytes \<Rightarrow> Vote \<Rightarrow> Vote \<Rightarrow> DuplicateVoteEvidence" where
  "NewDuplicateVoteEvidence cr pubkey vote1 vote2 =
     (if bid_Key cr (vote_BlockID vote1) < bid_Key cr (vote_BlockID vote2)
      then \<lparr>dve_PubKey = pubkey, VoteA = vote1, VoteB = vote2\<rparr>
      else \<lparr>dve_PubKey = pubkey, VoteA = vote2, VoteB = vote1\<rparr>)"

definition dve_Verify :: "crypto \<Rightarrow> bytes \<Rightarrow> bytes \<Rightarrow> DuplicateVoteEvidence \<Rightarrow> unit res" where
  "dve_Verify cr chainID pubKey dve =
     (let a = VoteA dve; b = VoteB dve in
      if vote_Height a \<noteq> vote_Height b \<or> vote_Round a \<noteq> vote_Round b \<or> vote_Type a \<noteq> vote_Type b then Inl (Err ''H/R/S does not match'')
      else if vote_ValidatorAddress a \<noteq> vote_ValidatorAddress b then Inl (Err ''Validator addresses do not match'')
      else if vote_ValidatorIndex a \<noteq> vote_ValidatorIndex b then Inl (Err ''Validator indices do not match'')
      else if bid_Equals (vote_BlockID a) (vote_BlockID b) then Inl (Err ''BlockIDs are the same'')
      else if PubKeyAddress cr pubKey \<noteq> vote_ValidatorAddress a then Inl (Err ''FAILED SANITY CHECK'')
      else rbind (vote_SignBytes cr chainID a) (\<lambda>bzA.
        if \<not> VerifyBytes cr pubKey bzA (vote_Signature a) then Inl (Err ''Error verifying VoteA'')
        else rbind (vote_SignBytes cr chainID b) (\<lambda>bzB.
          if \<not> VerifyBytes cr pubKey bzB (vote_Signature b) then Inl (Err ''Error verifying VoteB'')
          else Inr ())))"

definition dve_ValidateBasic :: "crypto \<Rightarrow> DuplicateVoteEvidence \<Rightarrow> unit res" where
  "dve_ValidateBasic cr dve =
     (if length (PubKeyBytes cr (dve_PubKey dve)) = 0 then Inl (Err ''empty PubKey'')
      else rbind (vote_ValidateBasic (VoteA dve)) (\<lambda>_.
           rbind (vote_ValidateBasic (VoteB dve)) (\<lambda>_.
           if bid_Key cr (vote_BlockID (VoteA dve)) \<ge> bid_Key cr (vote_BlockID (VoteB dve))
           then Inl (Err ''duplicate votes in invalid order'') else Inr ())))"

section \<open>Quorums\<close>

locale weighted_set =
  fixes count_of :: "'s \<Rightarrow> nat" and weight :: "'s \<Rightarrow> nat \<Rightarrow> int" and total :: "'s \<Rightarrow> int" and ok :: "'s \<Rightarrow> bool"
  assumes weight_pos: "ok s \<Longrightarrow> i < count_of s \<Longrightarrow> 0 < weight s i"
    and total_sum: "ok s \<Longrightarrow> total s = (\<Sum>i<count_of s. weight s i)"
begin

lemma part_le_total:
  assumes "ok s" "A \<subseteq> {..<count_of s}"
  shows "0 \<le> sum (weight s) A" "sum (weight s) A \<le> total s"
proof -
  have nn: "0 \<le> weight s i" if "i \<in> {..<count_of s}" for i using weight_pos [OF assms(1), of i] that by simp
  then show "0 \<le> sum (weight s) A" using assms(2) by (intro sum_nonneg) blast
  show "sum (weight s) A \<le> total s" unfolding total_sum [OF assms(1)] by (rule sum_mono2) (use assms(2) nn in auto)
qed

lemma quorum_overlap:
  assumes "ok s" "A \<subseteq> {..<count_of s}" "B \<subseteq> {..<count_of s}" "2 * total s < 3 * sum (weight s) A" "2 * total s < 3 * sum (weight s) B"
  shows "total s < 3 * sum (weight s) (A \<inter> B)"
proof -
  have "finite A" "finite B" using assms(2,3) finite_subset by blast+
  then have "sum (weight s) A + sum (weight s) B = sum (weight s) (A \<union> B) + sum (weight s) (A \<inter> B)" by (rule sum.union_inter [symmetric])
  moreover have "sum (weight s) (A \<union> B) \<le> total s" using part_le_total(2) [OF assms(1)] assms(2,3) by blast
  ultimately show ?thesis using assms(4,5) by linarith
qed

end

interpretation powers: weighted_set "\<lambda>vals. length (Validators vals)" "\<lambda>vals i. VotingPower (Validators vals ! i)" totalVotingPower vset_wf
  by unfold_locales (auto simp: vset_wf_def power_sum_nth)

section \<open>Basic facts\<close>

lemma psh_Equals_eq [simp]: "psh_Equals a b \<longleftrightarrow> a = b"
  by (cases a; cases b) (simp add: psh_Equals_def)

lemma bid_Equals_eq [simp]: "bid_Equals a b \<longleftrightarrow> a = b"
  by (cases a; cases b) (simp add: bid_Equals_def)

lemma bid_IsZero_iff: "bid_IsZero b \<longleftrightarrow> b = zero_BlockID"
  by (cases b; cases "PartsHeader b") (auto simp: bid_IsZero_def psh_IsZero_def zero_BlockID_def)

lemma bid_IsComplete_nonzero: "bid_IsComplete b \<Longrightarrow> \<not> bid_IsZero b"
  by (auto simp: bid_IsComplete_def bid_IsZero_def tmhash_Size_def)

lemmas flag_defs = BlockIDFlagAbsent_def BlockIDFlagCommit_def BlockIDFlagNil_def cs_Absent_def cs_ForBlock_def

definition sig_ok :: "crypto \<Rightarrow> bytes \<Rightarrow> Commit \<Rightarrow> ValidatorSet \<Rightarrow> nat \<Rightarrow> bool" where
  "sig_ok cr chainID commit vals i \<longleftrightarrow> verify_sig cr chainID commit i (Validators vals ! i) = Inr ()"

definition counted :: "BlockID \<Rightarrow> Commit \<Rightarrow> nat \<Rightarrow> bool" where
  "counted blockID commit i \<longleftrightarrow> \<not> cs_Absent (commit_Signatures commit ! i) \<and> cs_BlockID (commit_Signatures commit ! i) (commit_BlockID commit) = Inr blockID"

lemma verify_sig_vote:
  "verify_sig cr chainID commit i val = Inr () \<longleftrightarrow>
    (\<exists>v bz. commit_GetVote commit i = Inr v \<and> vote_SignBytes cr chainID v = Inr bz \<and> VerifyBytes cr (tv_PubKey val) bz (cs_Signature (commit_Signatures commit ! i)))"
  by (auto simp: verify_sig_def commit_VoteSignBytes_def)

lemma GetVote_BlockID:
  assumes "commit_GetVote commit i = Inr v"
  shows "cs_BlockID (commit_Signatures commit ! i) (commit_BlockID commit) = Inr (vote_BlockID v)" "vote_Type v = PrecommitType" "vote_Height v = commit_Height commit"
    "vote_Round v = commit_Round commit" "vote_ValidatorAddress v = cs_ValidatorAddress (commit_Signatures commit ! i)" "vote_ValidatorIndex v = int i"
    "vote_Signature v = cs_Signature (commit_Signatures commit ! i)" "vote_Timestamp v = cs_Timestamp (commit_Signatures commit ! i)" "i < length (commit_Signatures commit)"
  using assms by (auto simp: commit_GetVote_def Let_def split: if_splits)

lemma tally_loop:
  fixes w :: "nat \<Rightarrow> int"
  assumes "\<And>i. i \<in> set idxs \<Longrightarrow> 0 \<le> w i" "0 \<le> t" "t + sum_list (map w idxs) \<le> MaxInt64"
    and step: "\<And>i t. i \<in> set idxs \<Longrightarrow> f i t = (if skip i then Inr t else if good i then Inr (if cnt i then wrap64 (t + w i) else t) else Inl (bad i))"
  shows "rfold f idxs t = Inr t' \<longleftrightarrow> (\<forall>i\<in>set idxs. \<not> skip i \<longrightarrow> good i) \<and> t' = t + sum_list (map (\<lambda>i. if \<not> skip i \<and> cnt i then w i else 0) idxs)"
  using assms
proof (induction idxs arbitrary: t)
  case (Cons i idxs)
  have nn: "0 \<le> sum_list (map w idxs)" using Cons.prems(1) by (intro sum_list_nonneg) auto
  have wi: "0 \<le> w i" using Cons.prems(1) by simp
  have wr: "wrap64 (t + w i) = t + w i" using Cons.prems(2,3) nn wi by (intro wrap64_id) (auto simp: int64_defs)
  have IH: "rfold f idxs s = Inr t' \<longleftrightarrow> (\<forall>i\<in>set idxs. \<not> skip i \<longrightarrow> good i) \<and> t' = s + sum_list (map (\<lambda>i. if \<not> skip i \<and> cnt i then w i else 0) idxs)"
    if "s = t \<or> s = t + w i" for s
  proof (rule Cons.IH)
    show "s + sum_list (map w idxs) \<le> MaxInt64" using that Cons.prems(3) wi by (elim disjE) simp_all
  qed (use that Cons.prems wi in auto)
  show ?case using Cons.prems(4) [of i t] IH [of t] IH [of "t + w i"] wr by auto
qed auto

lemma quo_two_thirds: "0 \<le> T \<Longrightarrow> T < 2 ^ 60 \<Longrightarrow> got \<le> big_quo (wrap64 (T * 2)) 3 \<longleftrightarrow> \<not> 2 * T < 3 * got"
proof -
  assume T: "0 \<le> T" "T < 2 ^ 60"
  then have "wrap64 (T * 2) = T * 2" by (intro wrap64_id) auto
  then show ?thesis using T by (simp add: big_quo_nonneg) presburger
qed

lemma wf_total_bounds: "vset_wf vals \<Longrightarrow> 0 \<le> totalVotingPower vals \<and> totalVotingPower vals < 2 ^ 60"
  using powers.part_le_total [of vals "{}"] by (auto simp: vset_wf_def MaxTotalVotingPower_eq)

lemma wf_power_nonneg: "vset_wf vals \<Longrightarrow> i < length (Validators vals) \<Longrightarrow> 0 \<le> VotingPower (Validators vals ! i)"
  using powers.weight_pos [of vals i] by simp

lemma sum_list_upt: "sum_list (map f [0..<n]) = (\<Sum>i<n. f i)"
  by (simp add: sum_list_sum_nth atLeast0LessThan)

section \<open>What a verified commit proves\<close>

lemma VerifyCommit_exact:
  assumes "vset_wf vals"
  shows "VerifyCommit cr chainID blockID height commit vals = Inr () \<longleftrightarrow>
    length (Validators vals) = length (commit_Signatures commit) \<and> verifyCommitBasic commit height blockID = Inr () \<and>
    (\<forall>i<length (Validators vals). \<not> cs_Absent (commit_Signatures commit ! i) \<longrightarrow> sig_ok cr chainID commit vals i) \<and>
    2 * totalVotingPower vals < 3 * (\<Sum>i | i < length (Validators vals) \<and> counted blockID commit i. VotingPower (Validators vals ! i))"
proof (cases "length (Validators vals) = length (commit_Signatures commit)")
  case True
  let ?n = "length (Validators vals)" and ?w = "\<lambda>i. VotingPower (Validators vals ! i)"
  let ?f = "\<lambda>idx tallied. let commitSig = commit_Signatures commit ! idx; val = Validators vals ! idx in
      if cs_Absent commitSig then Inr tallied else rbind (verify_sig cr chainID commit idx val) (\<lambda>_. rbind (cs_BlockID commitSig (commit_BlockID commit)) (\<lambda>id.
      Inr (if bid_Equals blockID id then wrap64 (tallied + VotingPower val) else tallied)))"
  let ?bad = "\<lambda>i. case verify_sig cr chainID commit i (Validators vals ! i) of Inl e \<Rightarrow> e"
  have loop: "rfold ?f [0..<?n] 0 = Inr t' \<longleftrightarrow> (\<forall>i\<in>set [0..<?n]. \<not> cs_Absent (commit_Signatures commit ! i) \<longrightarrow> sig_ok cr chainID commit vals i) \<and>
      t' = 0 + sum_list (map (\<lambda>i. if \<not> cs_Absent (commit_Signatures commit ! i) \<and> counted blockID commit i then ?w i else 0) [0..<?n])" for t'
  proof (rule tally_loop [where bad = ?bad and w = ?w])
    have "sum_list (map ?w [0..<?n]) = totalVotingPower vals" unfolding sum_list_upt by (rule powers.total_sum [OF assms, symmetric])
    then show "0 + sum_list (map ?w [0..<?n]) \<le> MaxInt64" using wf_total_bounds [OF assms] by (simp add: int64_defs)
    fix i t assume "i \<in> set [0..<?n]"
    show "?f i t = (if cs_Absent (commit_Signatures commit ! i) then Inr t else if sig_ok cr chainID commit vals i
      then Inr (if counted blockID commit i then wrap64 (t + ?w i) else t) else Inl (?bad i))"
    proof (cases "verify_sig cr chainID commit i (Validators vals ! i)")
      case (Inr u)
      then obtain v where "commit_GetVote commit i = Inr v" by (auto simp: verify_sig_vote)
      then show ?thesis using Inr GetVote_BlockID(1) [of commit i v] by (auto simp: Let_def sig_ok_def counted_def)
    qed (auto simp: Let_def sig_ok_def)
  qed (use wf_power_nonneg [OF assms] in auto)
  have S: "sum_list (map (\<lambda>i. if \<not> cs_Absent (commit_Signatures commit ! i) \<and> counted blockID commit i then ?w i else 0) [0..<?n]) = (\<Sum>i | i < ?n \<and> counted blockID commit i. ?w i)"
    unfolding sum_list_upt by (rule sum.mono_neutral_cong_right) (auto simp: counted_def)
  show ?thesis unfolding VerifyCommit_def wf_Total [OF assms] using True loop S quo_two_thirds [of "totalVotingPower vals"] wf_total_bounds [OF assms]
    by (auto simp: Let_def True [symmetric])
qed (simp add: VerifyCommit_def)

section \<open>Light verification\<close>

lemma light_loop_sound:
  assumes "light_loop cr chainID commit vals needed idxs t = Inr ()" "distinct idxs" "\<And>i. i \<in> set idxs \<Longrightarrow> 0 \<le> VotingPower (Validators vals ! i)"
    and "0 \<le> t" "t + (\<Sum>i\<leftarrow>idxs. VotingPower (Validators vals ! i)) \<le> MaxInt64"
  shows "\<exists>S \<subseteq> set idxs. (\<forall>i\<in>S. cs_ForBlock (commit_Signatures commit ! i) \<and> sig_ok cr chainID commit vals i) \<and> needed < t + (\<Sum>i\<in>S. VotingPower (Validators vals ! i))"
  using assms
proof (induction idxs arbitrary: t)
  case (Cons i idxs)
  let ?w = "\<lambda>i. VotingPower (Validators vals ! i)"
  have nn: "0 \<le> (\<Sum>i\<leftarrow>idxs. ?w i)" "0 \<le> ?w i" using Cons.prems(3) by (auto intro!: sum_list_nonneg)
  have room: "t + (\<Sum>i\<leftarrow>idxs. ?w i) \<le> MaxInt64" using Cons.prems(5) nn by simp
  show ?case
  proof (cases "cs_ForBlock (commit_Signatures commit ! i)")
    case False
    then have "\<exists>S \<subseteq> set idxs. (\<forall>i\<in>S. cs_ForBlock (commit_Signatures commit ! i) \<and> sig_ok cr chainID commit vals i) \<and> needed < t + (\<Sum>i\<in>S. ?w i)"
      using Cons.prems room by (intro Cons.IH) auto
    then show ?thesis by (meson set_subset_Cons subset_trans)
  next
    case True
    have w: "wrap64 (t + ?w i) = t + ?w i" using Cons.prems(4,5) nn by (intro wrap64_id) (auto simp: int64_defs)
    have ok: "sig_ok cr chainID commit vals i" using Cons.prems(1) True by (auto simp: Let_def sig_ok_def)
    show ?thesis
    proof (cases "t + ?w i > needed")
      case g: True
      then show ?thesis using True ok by (intro exI [of _ "{i}"]) auto
    next
      case False
      then have "light_loop cr chainID commit vals needed idxs (t + ?w i) = Inr ()" using Cons.prems(1) True w by (auto simp: Let_def)
      then obtain S where S: "S \<subseteq> set idxs" "\<forall>i\<in>S. cs_ForBlock (commit_Signatures commit ! i) \<and> sig_ok cr chainID commit vals i" "needed < t + ?w i + (\<Sum>i\<in>S. ?w i)"
        using Cons.IH [of "t + ?w i"] Cons.prems nn by (auto simp: add.assoc)
      have "i \<notin> S" "finite S" using S(1) Cons.prems(2) finite_subset by auto
      then show ?thesis using S True ok by (intro exI [of _ "insert i S"]) (auto simp: add.assoc)
    qed
  qed
qed simp

lemma light_loop_complete:
  assumes "\<And>i. i \<in> set idxs \<Longrightarrow> cs_ForBlock (commit_Signatures commit ! i) \<Longrightarrow> sig_ok cr chainID commit vals i" "\<And>i. i \<in> set idxs \<Longrightarrow> 0 \<le> VotingPower (Validators vals ! i)"
    and "0 \<le> t" "t + (\<Sum>i\<leftarrow>idxs. VotingPower (Validators vals ! i)) \<le> MaxInt64" "t \<le> needed"
    and "needed < t + (\<Sum>i\<leftarrow>idxs. if cs_ForBlock (commit_Signatures commit ! i) then VotingPower (Validators vals ! i) else 0)"
  shows "light_loop cr chainID commit vals needed idxs t = Inr ()"
  using assms
proof (induction idxs arbitrary: t)
  case (Cons i idxs)
  let ?w = "\<lambda>i. VotingPower (Validators vals ! i)"
  have nn: "0 \<le> (\<Sum>i\<leftarrow>idxs. ?w i)" "0 \<le> ?w i" using Cons.prems(2) by (auto intro!: sum_list_nonneg)
  have room: "t + (\<Sum>i\<leftarrow>idxs. ?w i) \<le> MaxInt64" using Cons.prems(4) nn by simp
  show ?case
  proof (cases "cs_ForBlock (commit_Signatures commit ! i)")
    case False
    then show ?thesis using Cons.IH [of t] Cons.prems room by simp
  next
    case True
    have w: "wrap64 (t + ?w i) = t + ?w i" using Cons.prems(3,4) nn by (intro wrap64_id) (auto simp: int64_defs)
    have ok: "verify_sig cr chainID commit i (Validators vals ! i) = Inr ()" using Cons.prems(1) [of i] True by (simp add: sig_ok_def)
    show ?thesis using Cons.IH [of "t + ?w i"] Cons.prems nn True w ok by (auto simp: add.assoc Let_def)
  qed
qed simp

lemma wf_power_list: "vset_wf vals \<Longrightarrow> 0 + (\<Sum>i\<leftarrow>[0..<length (Validators vals)]. VotingPower (Validators vals ! i)) \<le> MaxInt64"
  using wf_total_bounds [of vals] powers.total_sum [of vals] by (simp add: sum_list_upt int64_defs)

lemma VerifyCommitLight_sound:
  assumes "vset_wf vals" "VerifyCommitLight cr chainID blockID height commit vals = Inr ()"
  shows "\<exists>S \<subseteq> {..<length (Validators vals)}. (\<forall>i\<in>S. cs_ForBlock (commit_Signatures commit ! i) \<and> sig_ok cr chainID commit vals i) \<and>
    2 * totalVotingPower vals < 3 * (\<Sum>i\<in>S. VotingPower (Validators vals ! i))"
proof -
  let ?n = "length (Validators vals)" and ?need = "big_quo (wrap64 (totalVotingPower vals * 2)) 3"
  have "light_loop cr chainID commit vals ?need [0..<?n] 0 = Inr ()"
    using assms(2) wf_Total [OF assms(1)] by (auto simp: VerifyCommitLight_def commonVerifyCommitLight_def split: if_splits)
  from light_loop_sound [OF this _ _ _ wf_power_list [OF assms(1)]] obtain S where "S \<subseteq> {..<?n}" "\<forall>i\<in>S. cs_ForBlock (commit_Signatures commit ! i) \<and> sig_ok cr chainID commit vals i"
    "?need < (\<Sum>i\<in>S. VotingPower (Validators vals ! i))" using wf_power_nonneg [OF assms(1)] by (auto simp: atLeast0LessThan)
  moreover from this(3) have "2 * totalVotingPower vals < 3 * (\<Sum>i\<in>S. VotingPower (Validators vals ! i))"
    using quo_two_thirds [of "totalVotingPower vals" "\<Sum>i\<in>S. VotingPower (Validators vals ! i)"] wf_total_bounds [OF assms(1)] by auto
  ultimately show ?thesis by blast
qed

lemma counted_ForBlock:
  assumes "blockID = commit_BlockID commit" "\<not> bid_IsZero blockID"
  shows "counted blockID commit i \<longleftrightarrow> cs_ForBlock (commit_Signatures commit ! i)"
  using assms by (auto simp: counted_def cs_BlockID_def flag_defs bid_IsZero_iff)

lemma verifyCommitBasicD:
  assumes "verifyCommitBasic commit height blockID = Inr ()"
  shows "commit_ValidateBasic commit = Inr ()" "commit_Height commit = height" "commit_BlockID commit = blockID" "0 \<le> height" "0 \<le> commit_Round commit"
    "1 \<le> height \<Longrightarrow> \<not> bid_IsZero blockID"
  using assms by (auto simp: verifyCommitBasic_def commit_ValidateBasic_def split: if_splits)

lemma VerifyCommit_implies_Light:
  assumes "vset_wf vals" "1 \<le> height" "VerifyCommit cr chainID blockID height commit vals = Inr ()"
  shows "VerifyCommitLight cr chainID blockID height commit vals = Inr ()"
proof -
  let ?n = "length (Validators vals)" and ?w = "\<lambda>i. VotingPower (Validators vals ! i)" and ?need = "big_quo (wrap64 (totalVotingPower vals * 2)) 3"
  note V = VerifyCommit_exact [OF assms(1), THEN iffD1, OF assms(3)]
  then have B: "verifyCommitBasic commit height blockID = Inr ()" by blast
  note C = verifyCommitBasicD [OF B]
  have cnt: "counted blockID commit i \<longleftrightarrow> cs_ForBlock (commit_Signatures commit ! i)" for i by (rule counted_ForBlock [OF C(3) [symmetric] C(6) [OF assms(2)]])
  have T: "0 \<le> totalVotingPower vals" "totalVotingPower vals < 2 ^ 60" using wf_total_bounds [OF assms(1)] by auto
  have "(\<Sum>i\<leftarrow>[0..<?n]. if cs_ForBlock (commit_Signatures commit ! i) then ?w i else 0) = (\<Sum>i | i < ?n \<and> counted blockID commit i. ?w i)"
    unfolding sum_list_upt cnt by (rule sum.mono_neutral_cong_right) auto
  then have S: "?need < 0 + (\<Sum>i\<leftarrow>[0..<?n]. if cs_ForBlock (commit_Signatures commit ! i) then ?w i else 0)"
    using V quo_two_thirds [OF T, of "\<Sum>i | i < ?n \<and> counted blockID commit i. ?w i"] by auto
  have need: "0 \<le> ?need" using quo_two_thirds [OF T, of 0] T by simp
  have "light_loop cr chainID commit vals ?need [0..<?n] 0 = Inr ()"
  proof (rule light_loop_complete [OF _ _ _ wf_power_list [OF assms(1)] need S])
    fix i assume "i \<in> set [0..<?n]" "cs_ForBlock (commit_Signatures commit ! i)"
    then show "sig_ok cr chainID commit vals i" using V by (auto simp: flag_defs)
  qed (use wf_power_nonneg [OF assms(1)] in auto)
  then show ?thesis using V C wf_Total [OF assms(1)] by (simp add: VerifyCommitLight_def commonVerifyCommitLight_def)
qed

section \<open>Trusting verification\<close>

lemma GetByAddress_Some:
  assumes "vs_GetByAddress vals a = Some (j, v)"
  shows "j < length (Validators vals)" "v = Validators vals ! j" "tv_Address v = a"
  using assms by (auto simp: vs_GetByAddress_def find_Some_iff)

text \<open>A validator that signed for the block, by its address.\<close>

definition signed_by :: "crypto \<Rightarrow> bytes \<Rightarrow> Commit \<Rightarrow> ValidatorSet \<Rightarrow> nat \<Rightarrow> bool" where
  "signed_by cr chainID commit vals j \<longleftrightarrow> (\<exists>idx<length (commit_Signatures commit). cs_ForBlock (commit_Signatures commit ! idx) \<and>
     cs_ValidatorAddress (commit_Signatures commit ! idx) = tv_Address (Validators vals ! j) \<and> verify_sig cr chainID commit idx (Validators vals ! j) = Inr ())"

lemma trusting_loop_sound:
  assumes "trusting_loop cr chainID commit vals needed idxs seen t = Inr ()" "\<And>i. i \<in> set idxs \<Longrightarrow> i < length (commit_Signatures commit)"
    and wf: "vset_wf vals" and seen: "seen \<subseteq> {..<length (Validators vals)}" "t = (\<Sum>j\<in>seen. VotingPower (Validators vals ! j))" "\<forall>j\<in>seen. signed_by cr chainID commit vals j"
  shows "\<exists>S \<subseteq> {..<length (Validators vals)}. (\<forall>j\<in>S. signed_by cr chainID commit vals j) \<and> needed < (\<Sum>j\<in>S. VotingPower (Validators vals ! j))"
  using assms
proof (induction idxs arbitrary: seen t)
  case (Cons idx idxs)
  let ?w = "\<lambda>j. VotingPower (Validators vals ! j)" and ?cs = "commit_Signatures commit ! idx"
  have goal_step: ?case if "trusting_loop cr chainID commit vals needed idxs seen' (\<Sum>j\<in>seen'. ?w j) = Inr ()"
    "seen' \<subseteq> {..<length (Validators vals)}" "\<forall>j\<in>seen'. signed_by cr chainID commit vals j" for seen'
  proof (rule Cons.IH [where seen = seen' and t = "\<Sum>j\<in>seen'. VotingPower (Validators vals ! j)"])
    show "i < length (commit_Signatures commit)" if "i \<in> set idxs" for i using Cons.prems(2) that by simp
  qed (use that wf in simp_all)
  show ?case
  proof (cases "cs_ForBlock ?cs \<and> vs_GetByAddress vals (cs_ValidatorAddress ?cs) \<noteq> None")
    case False
    have "trusting_loop cr chainID commit vals needed idxs seen t = Inr ()" using Cons.prems(1) False
      by (cases "cs_ForBlock ?cs"; cases "vs_GetByAddress vals (cs_ValidatorAddress ?cs)") (simp_all add: Let_def)
    then show ?thesis using goal_step [of seen] Cons.prems(4,6) unfolding Cons.prems(5) by blast
  next
    case True
    then obtain j v where g: "vs_GetByAddress vals (cs_ValidatorAddress ?cs) = Some (j, v)" by auto
    note G = GetByAddress_Some [OF g]
    have js: "j \<notin> seen" and vs: "verify_sig cr chainID commit idx v = Inr ()" using Cons.prems(1) True g by (auto simp: Let_def split: if_splits)
    have fin: "finite seen" using Cons.prems(4) finite_subset by blast
    have sb: "signed_by cr chainID commit vals j" unfolding signed_by_def using vs True G Cons.prems(2) [of idx] by auto
    have sum: "(\<Sum>j\<in>insert j seen. ?w j) = t + ?w j" using fin js Cons.prems(5) by simp
    have sub: "insert j seen \<subseteq> {..<length (Validators vals)}" using Cons.prems(4) G(1) by simp
    have "0 \<le> t + ?w j" "t + ?w j \<le> MaxInt64" using powers.part_le_total [OF wf sub] sum wf_total_bounds [OF wf] by (auto simp: int64_defs)
    then have w: "wrap64 (t + ?w j) = t + ?w j" by (intro wrap64_id) (auto simp: int64_defs)
    show ?thesis
    proof (cases "t + ?w j > needed")
      case True
      then show ?thesis using sum sub sb Cons.prems(6) by (intro exI [of _ "insert j seen"]) auto
    next
      case False
      then have "trusting_loop cr chainID commit vals needed idxs (insert j seen) (\<Sum>j\<in>insert j seen. ?w j) = Inr ()"
        unfolding sum using Cons.prems(1) True g js vs w G(2) by (auto simp: Let_def)
      then show ?thesis using goal_step sub sb Cons.prems(6) by blast
    qed
  qed
qed simp

lemma VerifyCommitLightTrusting_signers:
  assumes wf: "vset_wf vals" and tr: "0 \<le> Numerator trust" "Numerator trust \<le> MaxInt64" "0 < Denominator trust"
    and v: "VerifyCommitLightTrusting cr chainID blockID height commit trust vals = Inr ()"
  shows "verifyCommitBasic commit height blockID = Inr () \<and> (\<exists>S \<subseteq> {..<length (Validators vals)}. (\<forall>j\<in>S. signed_by cr chainID commit vals j) \<and>
    Numerator trust * totalVotingPower vals < Denominator trust * (\<Sum>j\<in>S. VotingPower (Validators vals ! j)))"
proof -
  let ?T = "totalVotingPower vals" and ?N = "Numerator trust" and ?D = "Denominator trust"
  have T: "0 \<le> ?T" "?T \<le> MaxInt64" using wf_total_bounds [OF wf] by (auto simp: int64_defs)
  note m = safeMul_nonneg [OF T tr(1,2)]
  have B: "verifyCommitBasic commit height blockID = Inr ()" and le: "?T * ?N \<le> MaxInt64"
    and L: "trusting_loop cr chainID commit vals (wrap64 (big_quo (?T * ?N) ?D)) [0..<length (commit_Signatures commit)] {} 0 = Inr ()"
    using v tr(3) wf_Total [OF wf] m by (auto simp: VerifyCommitLightTrusting_def commonVerifyCommitLightTrusting_def split: if_splits)
  have q: "big_quo (?T * ?N) ?D = ?T * ?N div ?D" using T tr by (simp add: big_quo_nonneg)
  have "0 \<le> ?T * ?N" using T tr by simp
  then have "0 \<le> ?T * ?N div ?D" "?T * ?N div ?D \<le> ?T * ?N" using tr(3) zdiv_mono2 [of "?T * ?N" 1 ?D] by (simp_all add: pos_imp_zdiv_nonneg_iff)
  then have w: "wrap64 (?T * ?N div ?D) = ?T * ?N div ?D" using le by (intro wrap64_id) (auto simp: int64_defs)
  obtain S where S: "S \<subseteq> {..<length (Validators vals)}" "\<forall>j\<in>S. signed_by cr chainID commit vals j" "?T * ?N div ?D < (\<Sum>j\<in>S. VotingPower (Validators vals ! j))"
    using trusting_loop_sound [OF L [unfolded q w] _ wf] by auto
  have "?T * ?N < ?D * (\<Sum>j\<in>S. VotingPower (Validators vals ! j))"
  proof (rule ccontr)
    assume "\<not> ?thesis"
    then have "?D * (\<Sum>j\<in>S. VotingPower (Validators vals ! j)) div ?D \<le> ?T * ?N div ?D" using tr(3) by (intro zdiv_mono1) auto
    then show False using S(3) tr(3) by simp
  qed
  then show ?thesis using B S(1,2) by (auto simp: mult.commute)
qed

section \<open>Commits of a later set\<close>

lemma future_loop_sound:
  assumes "future_loop cr chainID blockID commit vals idxs seen p = Inr r" "\<And>i. i \<in> set idxs \<Longrightarrow> i < length (commit_Signatures commit)"
    and wf: "vset_wf vals" and blk: "blockID = commit_BlockID commit" "\<not> bid_IsZero blockID"
    and C: "C \<subseteq> seen" "seen \<subseteq> {..<length (Validators vals)}" "p = (\<Sum>j\<in>C. VotingPower (Validators vals ! j))" "\<forall>j\<in>C. signed_by cr chainID commit vals j"
  shows "\<exists>S \<subseteq> {..<length (Validators vals)}. (\<forall>j\<in>S. signed_by cr chainID commit vals j) \<and> r = (\<Sum>j\<in>S. VotingPower (Validators vals ! j))"
  using assms(1,2) C
proof (induction idxs arbitrary: seen p C)
  case Nil
  then have "C \<subseteq> {..<length (Validators vals)}" "r = (\<Sum>j\<in>C. VotingPower (Validators vals ! j))" by auto
  then show ?case using Nil.prems(6) by blast
next
  case (Cons idx idxs)
  let ?w = "\<lambda>j. VotingPower (Validators vals ! j)" and ?cs = "commit_Signatures commit ! idx"
  have step: ?case if "future_loop cr chainID blockID commit vals idxs seen' (\<Sum>j\<in>C'. ?w j) = Inr r" "C' \<subseteq> seen'" "seen' \<subseteq> {..<length (Validators vals)}"
    "\<forall>j\<in>C'. signed_by cr chainID commit vals j" for seen' C'
  proof (rule Cons.IH [where seen = seen' and C = C' and p = "\<Sum>j\<in>C'. VotingPower (Validators vals ! j)"])
    show "i < length (commit_Signatures commit)" if "i \<in> set idxs" for i using Cons.prems(2) that by simp
  qed (use that in simp_all)
  have stay: ?case if "future_loop cr chainID blockID commit vals idxs seen p = Inr r" using step [of seen C] that Cons.prems(3-6) by simp
  show ?case
  proof (cases "cs_Absent ?cs \<or> vs_GetByAddress vals (cs_ValidatorAddress ?cs) = None")
    case True
    then show ?thesis using Cons.prems(1) by (intro stay) (cases "cs_Absent ?cs", auto simp: Let_def)
  next
    case False
    then obtain j v where g: "vs_GetByAddress vals (cs_ValidatorAddress ?cs) = Some (j, v)" by auto
    note G = GetByAddress_Some [OF g]
    show ?thesis
    proof (cases "j \<in> seen")
      case True
      then show ?thesis using Cons.prems(1) False g by (intro stay) (auto simp: Let_def)
    next
      case js: False
      have jC: "j \<notin> C" and fin: "finite C" using js Cons.prems(3,4) finite_subset by (blast, metis finite_lessThan finite_subset)
      have sub: "insert j C \<subseteq> {..<length (Validators vals)}" "insert j seen \<subseteq> {..<length (Validators vals)}" using Cons.prems(3,4) G(1) by auto
      have sum: "(\<Sum>j\<in>insert j C. ?w j) = p + ?w j" using fin jC Cons.prems(5) by simp
      have "0 \<le> p + ?w j" "p + ?w j \<le> MaxInt64" using powers.part_le_total [OF wf sub(1)] sum wf_total_bounds [OF wf] by (auto simp: int64_defs)
      then have w: "wrap64 (p + ?w j) = p + ?w j" by (intro wrap64_id) (auto simp: int64_defs)
      obtain id where vs: "verify_sig cr chainID commit idx v = Inr ()" "cs_BlockID ?cs (commit_BlockID commit) = Inr id"
        and L0: "future_loop cr chainID blockID commit vals idxs (insert j seen) (if blockID = id then wrap64 (p + ?w j) else p) = Inr r"
        using Cons.prems(1) False g js G(2) by (auto simp: Let_def)
      note L = L0 [unfolded w]
      show ?thesis
      proof (cases "blockID = id")
        case True
        then have "counted blockID commit idx" using vs(2) False by (simp add: counted_def)
        then have "cs_ForBlock ?cs" using counted_ForBlock [OF blk] by simp
        then have "signed_by cr chainID commit vals j" unfolding signed_by_def using vs(1) G Cons.prems(2) [of idx] by auto
        then show ?thesis using step [of "insert j seen" "insert j C"] L True sum sub Cons.prems(3,6) by (simp add: subset_insertI2)
      next
        case False
        then show ?thesis using step [of "insert j seen" C] L sub Cons.prems(3,5,6) by (simp add: subset_insertI2)
      qed
    qed
  qed
qed

lemma VerifyFutureCommit_signers:
  assumes "vset_wf newSet" "vset_wf oldVals" "1 \<le> height" "VerifyFutureCommit cr newSet chainID blockID height commit oldVals = Inr ()"
  shows "VerifyCommit cr chainID blockID height commit newSet = Inr () \<and> (\<exists>S \<subseteq> {..<length (Validators oldVals)}. (\<forall>j\<in>S. signed_by cr chainID commit oldVals j) \<and>
    2 * totalVotingPower oldVals < 3 * (\<Sum>j\<in>S. VotingPower (Validators oldVals ! j)))"
proof -
  obtain p where V: "VerifyCommit cr chainID blockID height commit newSet = Inr ()"
    and L: "future_loop cr chainID blockID commit oldVals [0..<length (commit_Signatures commit)] {} 0 = Inr p" and p: "\<not> p \<le> big_quo (wrap64 (totalVotingPower oldVals * 2)) 3"
    using assms(4) wf_Total [OF assms(2)] by (auto simp: VerifyFutureCommit_def split: if_splits)
  have B: "verifyCommitBasic commit height blockID = Inr ()" using VerifyCommit_exact [OF assms(1)] V by blast
  obtain S where "S \<subseteq> {..<length (Validators oldVals)}" "\<forall>j\<in>S. signed_by cr chainID commit oldVals j" "p = (\<Sum>j\<in>S. VotingPower (Validators oldVals ! j))"
    using future_loop_sound [OF L _ assms(2) verifyCommitBasicD(3) [OF B, symmetric] verifyCommitBasicD(6) [OF B assms(3)], of "{}"] by auto
  then show ?thesis using V p quo_two_thirds [of "totalVotingPower oldVals" p] wf_total_bounds [OF assms(2)] by auto
qed

end
