(* ===== verification/Evidence.thy ===== *)
theory Evidence
  imports Commits
begin

text \<open>
  What verified commits and evidence of duplicate votes prove: conflicting commits expose more than a third of the power,
  accepted evidence shows two signed messages when the part totals fit 32 bits, and does not when they exceed them.  The
  theorems on the verification of commits follow, with a concrete instance of keys and encodings.
\<close>

section \<open>Conflicting commits and evidence\<close>

lemma dve_Verify_iff:
  "dve_Verify cr chainID pubKey \<lparr>dve_PubKey = k, VoteA = a, VoteB = b\<rparr> = Inr () \<longleftrightarrow>
    vote_Height a = vote_Height b \<and> vote_Round a = vote_Round b \<and> vote_Type a = vote_Type b \<and> vote_ValidatorAddress a = vote_ValidatorAddress b \<and>
    vote_ValidatorIndex a = vote_ValidatorIndex b \<and> vote_BlockID a \<noteq> vote_BlockID b \<and> PubKeyAddress cr pubKey = vote_ValidatorAddress a \<and>
    (\<exists>bzA bzB. vote_SignBytes cr chainID a = Inr bzA \<and> VerifyBytes cr pubKey bzA (vote_Signature a) \<and>
       vote_SignBytes cr chainID b = Inr bzB \<and> VerifyBytes cr pubKey bzB (vote_Signature b))"
  by (auto simp: dve_Verify_def Let_def split: if_splits)

lemma dve_Verify_New:
  assumes "dve_Verify cr chainID pubKey \<lparr>dve_PubKey = k, VoteA = a, VoteB = b\<rparr> = Inr ()"
  shows "dve_Verify cr chainID pubKey (NewDuplicateVoteEvidence cr k a b) = Inr ()"
  using assms unfolding NewDuplicateVoteEvidence_def dve_Verify_iff by (auto simp: dve_Verify_iff)

lemma counted_vote:
  assumes "counted b c i" "sig_ok cr chainID c vals i"
  shows "\<exists>v bz. commit_GetVote c i = Inr v \<and> vote_BlockID v = b \<and> vote_SignBytes cr chainID v = Inr bz \<and> VerifyBytes cr (tv_PubKey (Validators vals ! i)) bz (vote_Signature v)"
proof -
  obtain v bz where v: "commit_GetVote c i = Inr v" "vote_SignBytes cr chainID v = Inr bz" "VerifyBytes cr (tv_PubKey (Validators vals ! i)) bz (cs_Signature (commit_Signatures c ! i))"
    using assms(2) unfolding sig_ok_def verify_sig_vote by blast
  then show ?thesis using GetVote_BlockID [OF v(1)] assms(1) by (auto simp: counted_def)
qed


text \<open>Canonical block ids tell block ids apart when the part totals fit the 32 bits they are cut to.\<close>

lemma canonical_BlockID_inj:
  assumes "IBCCanonicalizeBlockID a = IBCCanonicalizeBlockID b" "0 \<le> psh_Total (PartsHeader a)" "psh_Total (PartsHeader a) < 2 ^ 32"
    "0 \<le> psh_Total (PartsHeader b)" "psh_Total (PartsHeader b) < 2 ^ 32"
  shows "a = b"
proof (cases "bid_IsZero a \<or> bid_IsZero b")
  case True
  then show ?thesis using assms(1) by (auto simp: IBCCanonicalizeBlockID_def bid_IsZero_iff split: if_splits)
next
  case False
  then have e: "bid_Hash a = bid_Hash b" "psh_Hash (PartsHeader a) = psh_Hash (PartsHeader b)" "psh_Total (PartsHeader a) mod 2 ^ 32 = psh_Total (PartsHeader b) mod 2 ^ 32"
    using assms(1) by (auto simp: IBCCanonicalizeBlockID_def IBCCanonicalizePartSetHeader_def)
  then have "psh_Total (PartsHeader a) = psh_Total (PartsHeader b)" using assms(2-5) by simp
  then have "PartsHeader a = PartsHeader b" using e(2) by (intro PartSetHeader.equality) simp_all
  then show ?thesis using e(1) by (intro BlockID.equality) simp_all
qed

definition marshal_inj :: "crypto \<Rightarrow> bool" where
  "marshal_inj cr \<longleftrightarrow> (\<forall>u v bz. MarshalDelimited cr u = Some bz \<longrightarrow> MarshalDelimited cr v = Some bz \<longrightarrow> u = v)"

lemma vote_ValidateBasicD:
  assumes "vote_ValidateBasic v = Inr ()"
  shows "bid_IsZero (vote_BlockID v) \<or> bid_IsComplete (vote_BlockID v)" "0 \<le> psh_Total (PartsHeader (vote_BlockID v))" "0 \<le> vote_ValidatorIndex v"
    "length (vote_ValidatorAddress v) = AddressSize" "length (vote_Signature v) \<noteq> 0" "length (vote_Signature v) \<le> MaxSignatureSize" "0 \<le> vote_Round v"
  using assms by (auto simp: vote_ValidateBasic_def bid_ValidateBasic_def psh_ValidateBasic_def split: if_splits)

text \<open>C26: Evidence that passes both checks, with part totals below 2 to the 32, shows two different messages signed with the
  validator's key, when the encoding of canonical votes is injective: a validator that signs one message per height, round and
  step cannot be convicted.\<close>

theorem DuplicateVoteEvidence_sound:
  assumes "marshal_inj cr" "dve_Verify cr chainID pubKey dve = Inr ()" "dve_ValidateBasic cr dve = Inr ()"
    "psh_Total (PartsHeader (vote_BlockID (VoteA dve))) < 2 ^ 32" "psh_Total (PartsHeader (vote_BlockID (VoteB dve))) < 2 ^ 32"
  shows "\<exists>z1 z2. vote_SignBytes cr chainID (VoteA dve) = Inr z1 \<and> vote_SignBytes cr chainID (VoteB dve) = Inr z2 \<and> z1 \<noteq> z2 \<and>
    VerifyBytes cr pubKey z1 (vote_Signature (VoteA dve)) \<and> VerifyBytes cr pubKey z2 (vote_Signature (VoteB dve))"
proof -
  obtain k a b where d: "dve = \<lparr>dve_PubKey = k, VoteA = a, VoteB = b\<rparr>" by (cases dve)
  obtain z1 z2 where z: "vote_SignBytes cr chainID a = Inr z1" "VerifyBytes cr pubKey z1 (vote_Signature a)" "vote_SignBytes cr chainID b = Inr z2" "VerifyBytes cr pubKey z2 (vote_Signature b)"
    and ne: "vote_BlockID a \<noteq> vote_BlockID b" using assms(2) unfolding d dve_Verify_iff by blast
  have "vote_ValidateBasic a = Inr ()" "vote_ValidateBasic b = Inr ()" using assms(3) unfolding d by (auto simp: dve_ValidateBasic_def split: if_splits)
  then have "IBCCanonicalizeBlockID (vote_BlockID a) \<noteq> IBCCanonicalizeBlockID (vote_BlockID b)"
    using canonical_BlockID_inj [of "vote_BlockID a" "vote_BlockID b"] ne vote_ValidateBasicD(2) assms(4,5) unfolding d by auto
  then have cv: "IBCCanonicalizeVote chainID a \<noteq> IBCCanonicalizeVote chainID b" by (simp add: IBCCanonicalizeVote_def)
  have "z1 \<noteq> z2"
  proof
    assume "z1 = z2"
    then have "MarshalDelimited cr (IBCCanonicalizeVote chainID a) = Some z1" "MarshalDelimited cr (IBCCanonicalizeVote chainID b) = Some z1"
      using z(1,3) by (auto simp: vote_SignBytes_def VoteSignBytes_def split: option.splits)
    then show False using assms(1) cv unfolding marshal_inj_def by blast
  qed
  then show ?thesis using z unfolding d by auto
qed

text \<open>The vote with the part total of its block id increased by 2 to the 32.\<close>

definition inflate_total :: "Vote \<Rightarrow> Vote" where
  "inflate_total v = v\<lparr>vote_BlockID := (vote_BlockID v)\<lparr>PartsHeader := (PartsHeader (vote_BlockID v))\<lparr>psh_Total := psh_Total (PartsHeader (vote_BlockID v)) + 2 ^ 32\<rparr>\<rparr>\<rparr>"

lemma vote_Verify_iff: "vote_Verify cr chainID pk v = Inr () \<longleftrightarrow> PubKeyAddress cr pk = vote_ValidatorAddress v \<and>
    (\<exists>bz. vote_SignBytes cr chainID v = Inr bz \<and> VerifyBytes cr pk bz (vote_Signature v))"
  by (auto simp: vote_Verify_def)

text \<open>C27: The sign bytes cut the part total to 32 bits, but block ids are compared in full: from any valid vote for a block anyone
  can make the same vote with the total increased by 2 to the 32, whose signature verifies as well, and the evidence made of the
  two passes both checks against the validator that signed once.\<close>

theorem DuplicateVoteEvidence_forged:
  assumes "vote_Verify cr chainID pk v = Inr ()" "vote_ValidateBasic v = Inr ()" "bid_IsComplete (vote_BlockID v)" "PubKeyBytes cr pk \<noteq> []"
    "MarshalBinaryBare cr (PartsHeader (vote_BlockID v)) \<noteq> MarshalBinaryBare cr (PartsHeader (vote_BlockID (inflate_total v)))"
  shows "vote_Verify cr chainID pk (inflate_total v) = Inr () \<and> vote_ValidateBasic (inflate_total v) = Inr () \<and>
    dve_Verify cr chainID pk (NewDuplicateVoteEvidence cr pk v (inflate_total v)) = Inr () \<and>
    dve_ValidateBasic cr (NewDuplicateVoteEvidence cr pk v (inflate_total v)) = Inr ()"
proof -
  define v' where "v' = inflate_total v"
  let ?b = "vote_BlockID v" and ?b' = "vote_BlockID v'"
  have f: "vote_Type v' = vote_Type v" "vote_Height v' = vote_Height v" "vote_Round v' = vote_Round v" "vote_ValidatorAddress v' = vote_ValidatorAddress v"
    "vote_ValidatorIndex v' = vote_ValidatorIndex v" "vote_Signature v' = vote_Signature v" "vote_Timestamp v' = vote_Timestamp v"
    "bid_Hash ?b' = bid_Hash ?b" "psh_Hash (PartsHeader ?b') = psh_Hash (PartsHeader ?b)" "psh_Total (PartsHeader ?b') = psh_Total (PartsHeader ?b) + 2 ^ 32" by (simp_all add: v'_def inflate_total_def)
  have c': "bid_IsComplete ?b'" using assms(3) f by (simp add: bid_IsComplete_def)
  note nz = bid_IsComplete_nonzero [OF assms(3)] bid_IsComplete_nonzero [OF c']
  have "IBCCanonicalizeVote chainID v' = IBCCanonicalizeVote chainID v"
    using nz f by (simp add: IBCCanonicalizeVote_def IBCCanonicalizeBlockID_def IBCCanonicalizePartSetHeader_def)
  then have sb: "vote_SignBytes cr chainID v' = vote_SignBytes cr chainID v" by (simp add: vote_SignBytes_def VoteSignBytes_def)
  have V: "vote_Verify cr chainID pk v' = Inr ()" using assms(1) f sb by (simp add: vote_Verify_iff)
  have B: "vote_ValidateBasic v' = Inr ()"
    using assms(2) f c' assms(3) unfolding vote_ValidateBasic_def bid_ValidateBasic_def psh_ValidateBasic_def by (auto split: if_splits)
  have ne: "?b \<noteq> ?b'" using f(10) by auto
  have key: "bid_Key cr ?b \<noteq> bid_Key cr ?b'" using assms(5) [folded v'_def] f(8) by (simp add: bid_Key_def)
  have "dve_Verify cr chainID pk \<lparr>dve_PubKey = pk, VoteA = v, VoteB = v'\<rparr> = Inr ()"
    using assms(1) f sb ne by (auto simp: dve_Verify_iff vote_Verify_iff)
  then have D: "dve_Verify cr chainID pk (NewDuplicateVoteEvidence cr pk v v') = Inr ()" by (rule dve_Verify_New)
  have "dve_ValidateBasic cr (NewDuplicateVoteEvidence cr pk v v') = Inr ()"
    using assms(2,4) B key by (auto simp: NewDuplicateVoteEvidence_def dve_ValidateBasic_def)
  with V B D show ?thesis unfolding v'_def by blast
qed

section \<open>A concrete instance\<close>

text \<open>Keys are their own addresses, a signature is the key followed by the message, a message is the beginning of the block hash.\<close>

definition enc_parts :: "PartSetHeader \<Rightarrow> bytes" where
  "enc_parts p = (if p = \<lparr>psh_Total = 0, psh_Hash = []\<rparr> then [] else replicate (nat (psh_Total p)) CHR ''a'' @ CHR ''b'' # psh_Hash p)"

definition ex_crypto :: crypto where
  "ex_crypto = \<lparr>VerifyBytes = (\<lambda>pk bz sig. sig = pk @ bz), PubKeyAddress = (\<lambda>pk. pk), PubKeyBytes = (\<lambda>pk. pk),
     MarshalDelimited = (\<lambda>cv. Some (case cv_BlockID cv of None \<Rightarrow> ''nil'' | Some b \<Rightarrow> take 4 (cbid_Hash b))), MarshalBinaryBare = enc_parts\<rparr>"

definition ex_key :: "char \<Rightarrow> bytes" where "ex_key c = replicate 20 c"

definition ex_block :: "char \<Rightarrow> BlockID" where
  "ex_block c = \<lparr>bid_Hash = replicate 32 c, PartsHeader = \<lparr>psh_Total = 1, psh_Hash = replicate 32 c\<rparr>\<rparr>"

definition ex_set :: ValidatorSet where
  "ex_set = \<lparr>Validators = map (\<lambda>c. \<lparr>tv_Address = ex_key c, tv_PubKey = ex_key c, VotingPower = 1, ProposerPriority = 0\<rparr>) ''uvw'', vs_Proposer = None, totalVotingPower = 3\<rparr>"

definition ex_commit :: "char \<Rightarrow> Commit" where
  "ex_commit b = NewCommit 5 0 (ex_block b) (map (\<lambda>c. \<lparr>cs_BlockIDFlag = 2, cs_ValidatorAddress = ex_key c, cs_Timestamp = 1, cs_Signature = ex_key c @ replicate 4 b\<rparr>) ''uvw'')"

definition ex_vote :: "char \<Rightarrow> char \<Rightarrow> Vote" where
  "ex_vote c b = \<lparr>vote_Type = 2, vote_Height = 5, vote_Round = 0, vote_BlockID = ex_block b, vote_Timestamp = 1, vote_ValidatorAddress = ex_key c,
     vote_ValidatorIndex = (if c = CHR ''u'' then 0 else if c = CHR ''v'' then 1 else 2), vote_Signature = ex_key c @ replicate 4 b, vote_HasVC = False\<rparr>"

lemma ex_set_wf: "vset_wf ex_set"
  by (simp add: vset_wf_def ex_set_def power_sum_def MaxTotalVotingPower_eq ex_key_def)

lemma ex_commit_verified: "VerifyCommit ex_crypto ''chain'' (ex_block CHR ''x'') 5 (ex_commit CHR ''x'') ex_set = Inr ()" "VerifyCommit ex_crypto ''chain'' (ex_block CHR ''y'') 5 (ex_commit CHR ''y'') ex_set = Inr ()"
  by code_simp+

lemma prefix_inj: "replicate m CHR ''a'' @ CHR ''b'' # xs = replicate n CHR ''a'' @ CHR ''b'' # ys \<longleftrightarrow> m = n \<and> xs = ys"
proof (induction m arbitrary: n)
  case 0
  show ?case by (cases n) auto
next
  case (Suc m)
  then show ?case by (cases n) auto
qed

lemma enc_parts_inj: "0 \<le> psh_Total p \<Longrightarrow> 0 \<le> psh_Total q \<Longrightarrow> enc_parts p = enc_parts q \<Longrightarrow> p = q"
  by (auto simp: enc_parts_def prefix_inj split: if_splits intro: PartSetHeader.equality)


theorem DuplicateVoteEvidence_forged_witness:
  "dve_Verify ex_crypto ''chain'' (ex_key CHR ''u'') (NewDuplicateVoteEvidence ex_crypto (ex_key CHR ''u'') (ex_vote CHR ''u'' CHR ''x'') (inflate_total (ex_vote CHR ''u'' CHR ''x''))) = Inr ()"
proof -
  let ?v = "ex_vote CHR ''u'' CHR ''x''" and ?k = "ex_key CHR ''u''"
  have a: "vote_Verify ex_crypto ''chain'' ?k ?v = Inr ()" "vote_ValidateBasic ?v = Inr ()" "bid_IsComplete (vote_BlockID ?v)" "PubKeyBytes ex_crypto ?k \<noteq> []" by code_simp+
  have "enc_parts (PartsHeader (vote_BlockID ?v)) \<noteq> enc_parts (PartsHeader (vote_BlockID (inflate_total ?v)))"
    using enc_parts_inj [of "PartsHeader (vote_BlockID ?v)" "PartsHeader (vote_BlockID (inflate_total ?v))"] by (auto simp: inflate_total_def ex_vote_def ex_block_def)
  then show ?thesis using DuplicateVoteEvidence_forged [OF a] by (simp add: ex_crypto_def)
qed

text \<open>An encoding that tells the canonical votes for two blocks apart and knows no others.\<close>

definition ex_crypto2 :: crypto where
  "ex_crypto2 = ex_crypto\<lparr>MarshalDelimited := (\<lambda>cv. if cv = IBCCanonicalizeVote ''chain'' (ex_vote CHR ''u'' CHR ''x'') then Some ''xxxx''
     else if cv = IBCCanonicalizeVote ''chain'' (ex_vote CHR ''u'' CHR ''y'') then Some ''yyyy'' else None)\<rparr>"

theorem DuplicateVoteEvidence_sound_witness:
  "\<exists>z1 z2. vote_SignBytes ex_crypto2 ''chain'' (ex_vote CHR ''u'' CHR ''x'') = Inr z1 \<and> vote_SignBytes ex_crypto2 ''chain'' (ex_vote CHR ''u'' CHR ''y'') = Inr z2 \<and> z1 \<noteq> z2"
proof -
  let ?d = "\<lparr>dve_PubKey = ex_key CHR ''u'', VoteA = ex_vote CHR ''u'' CHR ''x'', VoteB = ex_vote CHR ''u'' CHR ''y''\<rparr>"
  have "marshal_inj ex_crypto2" by (auto simp: marshal_inj_def ex_crypto2_def split: if_splits)
  moreover have "dve_Verify ex_crypto2 ''chain'' (ex_key CHR ''u'') ?d = Inr ()" "dve_ValidateBasic ex_crypto2 ?d = Inr ()" by code_simp+
  ultimately show ?thesis using DuplicateVoteEvidence_sound [of ex_crypto2 "''chain''" "ex_key CHR ''u''" ?d] by (auto simp: ex_vote_def ex_block_def)
qed

section \<open>The verification theorems\<close>

text \<open>C8: A commit verifies against a well-formed set exactly when it has one signature per validator, passes the basic checks for the
  height and block, every signature that is not absent verifies under the key of the validator at its index, and the validators
  whose vote is for the block hold more than two thirds of the total power.\<close>

theorem VerifyCommit_iff:
  assumes "vset_wf vals"
  shows "VerifyCommit cr chainID blockID height commit vals = Inr () \<longleftrightarrow>
    length (Validators vals) = length (commit_Signatures commit) \<and> verifyCommitBasic commit height blockID = Inr () \<and>
    (\<forall>i<length (Validators vals). \<not> cs_Absent (commit_Signatures commit ! i) \<longrightarrow> sig_ok cr chainID commit vals i) \<and>
    2 * totalVotingPower vals < 3 * (\<Sum>i | i < length (Validators vals) \<and> counted blockID commit i. VotingPower (Validators vals ! i))"
  by (rule VerifyCommit_exact [OF assms])

theorem VerifyCommit_iff_witness:
  "6 < 3 * (\<Sum>i | i < 3 \<and> counted (ex_block CHR ''x'') (ex_commit CHR ''x'') i. VotingPower (Validators ex_set ! i))"
proof -
  have n: "length (Validators ex_set) = 3" "totalVotingPower ex_set = 3" by (simp_all add: ex_set_def)
  show ?thesis using VerifyCommit_iff [OF ex_set_wf, THEN iffD1, OF ex_commit_verified(1)] unfolding n by simp
qed



text \<open>C24: When the trusting verification accepts a commit, validators of the trusted set with more than the trust level's share of its
  power, each counted once, signed for the block; the multiplication by the numerator does not overflow unnoticed.\<close>

theorem VerifyCommitLightTrusting_sound:
  assumes "vset_wf vals" "0 \<le> Numerator trust" "Numerator trust \<le> MaxInt64" "0 < Denominator trust"
    "VerifyCommitLightTrusting cr chainID blockID height commit trust vals = Inr ()"
  shows "verifyCommitBasic commit height blockID = Inr () \<and> (\<exists>S \<subseteq> {..<length (Validators vals)}. (\<forall>j\<in>S. signed_by cr chainID commit vals j) \<and>
    Numerator trust * totalVotingPower vals < Denominator trust * (\<Sum>j\<in>S. VotingPower (Validators vals ! j)))"
  by (rule VerifyCommitLightTrusting_signers [OF assms])

theorem VerifyCommitLightTrusting_sound_witness:
  "\<exists>S \<subseteq> {..<3}. (\<forall>j\<in>S. signed_by ex_crypto ''chain'' (ex_commit CHR ''x'') ex_set j) \<and> 3 < 3 * (\<Sum>j\<in>S. VotingPower (Validators ex_set ! j))"
proof -
  let ?t = "\<lparr>Numerator = 1, Denominator = 3\<rparr>"
  have m: "safeMul 3 1 = (3, False)" using safeMul_nonneg [of 3 1] by (simp add: int64_defs)
  have B: "verifyCommitBasic (ex_commit CHR ''x'') 5 (ex_block CHR ''x'') = Inr ()" and L: "trusting_loop ex_crypto ''chain'' (ex_commit CHR ''x'') ex_set 1 [0..<3] {} 0 = Inr ()" by code_simp+
  have c: "wrap64 3 = 3" "big_quo 3 3 = 1" "wrap64 1 = 1" by code_simp+
  have s: "length (commit_Signatures (ex_commit CHR ''x'')) = 3" "length (Validators ex_set) = 3" "totalVotingPower ex_set = 3" by (simp_all add: ex_commit_def NewCommit_def ex_set_def)
  have "VerifyCommitLightTrusting ex_crypto ''chain'' (ex_block CHR ''x'') 5 (ex_commit CHR ''x'') ?t ex_set = Inr ()"
    using m B L c s wf_Total [OF ex_set_wf] by (simp add: VerifyCommitLightTrusting_def commonVerifyCommitLightTrusting_def)
  then show ?thesis using VerifyCommitLightTrusting_sound [OF ex_set_wf, of ?t ex_crypto "''chain''" "ex_block CHR ''x''" 5 "ex_commit CHR ''x''"] s by (simp add: int64_defs)
qed

end
