(* ===== verification/VoteSet.thy ===== *)
theory VoteSet
  imports Evidence
begin

text \<open>
  Vote sets (\<open>libs/tendermint/types/vote_set.go\<close>): the votes of one height, round and step, the votes of each block,
  the claims of peers, the first majority, and the commit made of it.  The state is the record \<open>VoteSet\<close>; the locking is
  left out, every operation runs under the set's mutex.  The invariant \<open>voteset_ok\<close> is kept by every operation; from it
  follow that no operation panics, that a reported majority is one, and that the commit made from it verifies.
\<close>

section \<open>Vote sets\<close>

record blockVotes =
  bv_peerMaj23 :: bool
  bv_bitArray :: "bool list"
  bv_votes :: "Vote option list"
  bv_sum :: int

record VoteSet =
  vst_chainID :: bytes
  vst_height :: int
  vst_round :: int
  vst_signedMsgType :: int
  vst_valSet :: ValidatorSet
  votesBitArray :: "bool list"
  vst_votes :: "Vote option list"
  vst_sum :: int
  maj23 :: "BlockID option"
  votesByBlock :: "bytes \<rightharpoonup> blockVotes"
  peerMaj23s :: "bytes \<rightharpoonup> BlockID"

definition NewVoteSet :: "bytes \<Rightarrow> int \<Rightarrow> int \<Rightarrow> int \<Rightarrow> ValidatorSet \<Rightarrow> VoteSet res" where
  "NewVoteSet chainID height rnd signedMsgType valSet =
     (if height = 0 then Inl (Panic ''Cannot make VoteSet for height == 0'')
      else Inr \<lparr>vst_chainID = chainID, vst_height = height, vst_round = rnd, vst_signedMsgType = signedMsgType, vst_valSet = valSet,
        votesBitArray = replicate (length (Validators valSet)) False, vst_votes = replicate (length (Validators valSet)) None,
        vst_sum = 0, maj23 = None, votesByBlock = Map.empty, peerMaj23s = Map.empty\<rparr>)"

definition newBlockVotes :: "bool \<Rightarrow> nat \<Rightarrow> blockVotes" where
  "newBlockVotes peer numValidators =
     \<lparr>bv_peerMaj23 = peer, bv_bitArray = replicate numValidators False, bv_votes = replicate numValidators None, bv_sum = 0\<rparr>"

definition bv_addVerifiedVote :: "Vote \<Rightarrow> int \<Rightarrow> blockVotes \<Rightarrow> blockVotes" where
  "bv_addVerifiedVote vote votingPower vs =
     (let valIndex = nat (vote_ValidatorIndex vote) in
      if bv_votes vs ! valIndex = None
      then vs\<lparr>bv_bitArray := (bv_bitArray vs)[valIndex := True], bv_votes := (bv_votes vs)[valIndex := Some vote], bv_sum := wrap64 (bv_sum vs + votingPower)\<rparr>
      else vs)"

definition bv_getByIndex :: "blockVotes option \<Rightarrow> nat \<Rightarrow> Vote option" where
  "bv_getByIndex vs index = (case vs of None \<Rightarrow> None | Some vs \<Rightarrow> bv_votes vs ! index)"

definition vst_getVote :: "crypto \<Rightarrow> VoteSet \<Rightarrow> nat \<Rightarrow> bytes \<Rightarrow> Vote option" where
  "vst_getVote cr voteSet valIndex blockKey =
     (case vst_votes voteSet ! valIndex of
        Some existing \<Rightarrow> if bid_Key cr (vote_BlockID existing) = blockKey then Some existing
                          else bv_getByIndex (votesByBlock voteSet blockKey) valIndex
      | None \<Rightarrow> bv_getByIndex (votesByBlock voteSet blockKey) valIndex)"

text \<open>The part of \<open>addVerifiedVote\<close> from the quorum on: the vote is added to the votes of its block, and the first block to cross the
  quorum becomes the majority, whose votes are copied.\<close>

definition add_to_block :: "Vote \<Rightarrow> bytes \<Rightarrow> int \<Rightarrow> blockVotes \<Rightarrow> VoteSet \<Rightarrow> VoteSet res" where
  "add_to_block vote blockKey votingPower byBlock voteSet =
     rbind (TotalVotingPower (vst_valSet voteSet)) (\<lambda>total.
       let quorum = wrap64 (big_quo (wrap64 (total * 2)) 3 + 1);
           byBlock' = bv_addVerifiedVote vote votingPower byBlock;
           voteSet' = voteSet\<lparr>votesByBlock := (votesByBlock voteSet)(blockKey \<mapsto> byBlock')\<rparr>
       in Inr (if bv_sum byBlock < quorum \<and> quorum \<le> bv_sum byBlock' \<and> maj23 voteSet = None
               then voteSet'\<lparr>maj23 := Some (vote_BlockID vote),
                      vst_votes := map2 (\<lambda>v old. case v of None \<Rightarrow> old | Some _ \<Rightarrow> v) (bv_votes byBlock') (vst_votes voteSet)\<rparr>
               else voteSet'))"

definition track_block :: "Vote \<Rightarrow> bytes \<Rightarrow> int \<Rightarrow> Vote option \<Rightarrow> VoteSet \<Rightarrow> (bool \<times> Vote option \<times> VoteSet) res" where
  "track_block vote blockKey votingPower conflicting voteSet =
     (case votesByBlock voteSet blockKey of
        Some byBlock \<Rightarrow>
          if conflicting \<noteq> None \<and> \<not> bv_peerMaj23 byBlock then Inr (False, conflicting, voteSet)
          else rbind (add_to_block vote blockKey votingPower byBlock voteSet) (\<lambda>vs. Inr (True, conflicting, vs))
      | None \<Rightarrow>
          if conflicting \<noteq> None then Inr (False, conflicting, voteSet)
          else rbind (add_to_block vote blockKey votingPower (newBlockVotes False (length (Validators (vst_valSet voteSet)))) voteSet)
                 (\<lambda>vs. Inr (True, conflicting, vs)))"

definition vst_addVerifiedVote :: "crypto \<Rightarrow> Vote \<Rightarrow> bytes \<Rightarrow> int \<Rightarrow> VoteSet \<Rightarrow> (bool \<times> Vote option \<times> VoteSet) res" where
  "vst_addVerifiedVote cr vote blockKey votingPower voteSet =
     (let valIndex = nat (vote_ValidatorIndex vote) in
      case vst_votes voteSet ! valIndex of
        Some existing \<Rightarrow>
          if bid_Equals (vote_BlockID existing) (vote_BlockID vote) then Inl (Panic ''addVerifiedVote does not expect duplicate votes'')
          else track_block vote blockKey votingPower (Some existing)
                 (if (case maj23 voteSet of Some m \<Rightarrow> bid_Key cr m = blockKey | None \<Rightarrow> False)
                  then voteSet\<lparr>vst_votes := (vst_votes voteSet)[valIndex := Some vote], votesBitArray := (votesBitArray voteSet)[valIndex := True]\<rparr>
                  else voteSet)
      | None \<Rightarrow>
          track_block vote blockKey votingPower None
            (voteSet\<lparr>vst_votes := (vst_votes voteSet)[valIndex := Some vote], votesBitArray := (votesBitArray voteSet)[valIndex := True],
                     vst_sum := wrap64 (vst_sum voteSet + votingPower)\<rparr>))"

definition vst_addVote :: "crypto \<Rightarrow> Vote option \<Rightarrow> VoteSet \<Rightarrow> (bool \<times> DuplicateVoteEvidence option \<times> VoteSet) res" where
  "vst_addVote cr vote voteSet =
     (case vote of
        None \<Rightarrow> Inl (Err ''nil vote'')
      | Some vote \<Rightarrow>
          let valIndex = vote_ValidatorIndex vote; valAddr = vote_ValidatorAddress vote; blockKey = bid_Key cr (vote_BlockID vote) in
          if valIndex < 0 then Inl (Err ''Index < 0'')
          else if length valAddr = 0 then Inl (Err ''Empty address'')
          else if vote_Height vote \<noteq> vst_height voteSet \<or> vote_Round vote \<noteq> vst_round voteSet \<or> vote_Type vote \<noteq> vst_signedMsgType voteSet
          then Inl (Err ''unexpected step'')
          else case vs_GetByIndex (vst_valSet voteSet) valIndex of
            None \<Rightarrow> Inl (Err ''Cannot find validator'')
          | Some (lookupAddr, val) \<Rightarrow>
              if valAddr \<noteq> lookupAddr then Inl (Err ''invalid validator address'')
              else case vst_getVote cr voteSet (nat valIndex) blockKey of
                Some existing \<Rightarrow>
                  if vote_Signature existing = vote_Signature vote then Inr (False, None, voteSet)
                  else Inl (Err ''non-deterministic signature'')
              | None \<Rightarrow>
                  rbind (vote_Verify cr (vst_chainID voteSet) (tv_PubKey val) vote) (\<lambda>_.
                  rbind (vst_addVerifiedVote cr vote blockKey (VotingPower val) voteSet) (\<lambda>(added, conflicting, voteSet').
                    case conflicting of
                      Some c \<Rightarrow> Inr (added, Some (NewDuplicateVoteEvidence cr (tv_PubKey val) c vote), voteSet')
                    | None \<Rightarrow> if \<not> added then Inl (Panic ''Expected to add non-conflicting vote'') else Inr (added, None, voteSet'))))"

definition SetPeerMaj23 :: "crypto \<Rightarrow> bytes \<Rightarrow> BlockID \<Rightarrow> VoteSet \<Rightarrow> VoteSet res" where
  "SetPeerMaj23 cr peerID blockID voteSet =
     (let blockKey = bid_Key cr blockID in
      case peerMaj23s voteSet peerID of
        Some existing \<Rightarrow> if bid_Equals existing blockID then Inr voteSet else Inl (Err ''Received conflicting blockID from peer'')
      | None \<Rightarrow>
          let voteSet = voteSet\<lparr>peerMaj23s := (peerMaj23s voteSet)(peerID \<mapsto> blockID)\<rparr> in
          case votesByBlock voteSet blockKey of
            Some byBlock \<Rightarrow> if bv_peerMaj23 byBlock then Inr voteSet
                             else Inr (voteSet\<lparr>votesByBlock := (votesByBlock voteSet)(blockKey \<mapsto> byBlock\<lparr>bv_peerMaj23 := True\<rparr>)\<rparr>)
          | None \<Rightarrow> Inr (voteSet\<lparr>votesByBlock := (votesByBlock voteSet)(blockKey \<mapsto> newBlockVotes True (length (Validators (vst_valSet voteSet))))\<rparr>))"

definition HasTwoThirdsMajority :: "VoteSet \<Rightarrow> bool" where
  "HasTwoThirdsMajority voteSet \<longleftrightarrow> maj23 voteSet \<noteq> None"

definition vst_IsCommit :: "VoteSet \<Rightarrow> bool" where
  "vst_IsCommit voteSet \<longleftrightarrow> vst_signedMsgType voteSet = PrecommitType \<and> maj23 voteSet \<noteq> None"

definition HasTwoThirdsAny :: "VoteSet \<Rightarrow> bool res" where
  "HasTwoThirdsAny voteSet = rbind (TotalVotingPower (vst_valSet voteSet)) (\<lambda>total. Inr (vst_sum voteSet > big_quo (wrap64 (total * 2)) 3))"

definition vst_HasAll :: "VoteSet \<Rightarrow> bool res" where
  "vst_HasAll voteSet = rbind (TotalVotingPower (vst_valSet voteSet)) (\<lambda>total. Inr (vst_sum voteSet = total))"

definition MakeCommit :: "VoteSet \<Rightarrow> Commit res" where
  "MakeCommit voteSet =
     (if vst_signedMsgType voteSet \<noteq> PrecommitType then Inl (Panic ''Cannot MakeCommit() unless VoteSet.Type is PrecommitType'')
      else case maj23 voteSet of
        None \<Rightarrow> Inl (Panic ''Cannot MakeCommit() unless a blockhash has +2/3'')
      | Some m \<Rightarrow>
          rbind (rfold (\<lambda>v acc. rbind (vote_CommitSig v) (\<lambda>commitSig.
                   Inr (acc @ [if cs_ForBlock commitSig \<and> (case v of Some vote \<Rightarrow> \<not> bid_Equals (vote_BlockID vote) m | None \<Rightarrow> False)
                               then NewCommitSigAbsent else commitSig])))
                 (vst_votes voteSet) []) (\<lambda>commitSigs.
          Inr (NewCommit (vst_height voteSet) (vst_round voteSet) m commitSigs)))"

definition CommitToVoteSet :: "crypto \<Rightarrow> bytes \<Rightarrow> Commit \<Rightarrow> ValidatorSet \<Rightarrow> VoteSet res" where
  "CommitToVoteSet cr chainID commit vals =
     rbind (NewVoteSet chainID (commit_Height commit) (commit_Round commit) PrecommitType vals) (\<lambda>voteSet.
       rfold (\<lambda>idx voteSet.
           if cs_Absent (commit_Signatures commit ! idx) then Inr voteSet
           else rbind (commit_GetVote commit idx) (\<lambda>vote.
                case vst_addVote cr (Some vote) voteSet of
                  Inr (added, None, voteSet') \<Rightarrow> if \<not> added then Inl (Panic ''Failed to reconstruct LastCommit'') else Inr voteSet'
                | _ \<Rightarrow> Inl (Panic ''Failed to reconstruct LastCommit'')))
         [0..<length (commit_Signatures commit)] voteSet)"

section \<open>Slots for votes\<close>

text \<open>Both the set and the votes of one block keep a slot per validator, a bit per slot and the power of the filled slots.\<close>

definition cast :: "ValidatorSet \<Rightarrow> Vote option list \<Rightarrow> int" where
  "cast vals votes = (\<Sum>i | i < length (Validators vals) \<and> votes ! i \<noteq> None. VotingPower (Validators vals ! i))"

definition slots_ok :: "(nat \<Rightarrow> Vote \<Rightarrow> bool) \<Rightarrow> ValidatorSet \<Rightarrow> bool list \<Rightarrow> Vote option list \<Rightarrow> int \<Rightarrow> bool" where
  "slots_ok P vals bits votes s \<longleftrightarrow> length votes = length (Validators vals) \<and> bits = map (\<lambda>v. v \<noteq> None) votes \<and> s = cast vals votes \<and>
     (\<forall>i v. i < length votes \<longrightarrow> votes ! i = Some v \<longrightarrow> P i v)"

lemma cast_bounds: "vset_wf vals \<Longrightarrow> 0 \<le> cast vals votes \<and> cast vals votes \<le> totalVotingPower vals"
  unfolding cast_def using powers.part_le_total [of vals "{i. i < length (Validators vals) \<and> votes ! i \<noteq> None}"] by auto

lemma cast_update:
  assumes "i < length (Validators vals)" "length votes = length (Validators vals)"
  shows "cast vals (votes[i := Some v]) = cast vals votes + (if votes ! i = None then VotingPower (Validators vals ! i) else 0)"
proof -
  have "{j. j < length (Validators vals) \<and> votes[i := Some v] ! j \<noteq> None} = insert i {j. j < length (Validators vals) \<and> votes ! j \<noteq> None}"
    using assms by (auto simp: nth_list_update)
  then show ?thesis using assms unfolding cast_def by (auto simp: insert_absorb)
qed

lemma slots_empty: "slots_ok P vals (replicate (length (Validators vals)) False) (replicate (length (Validators vals)) None) 0"
  by (auto simp: slots_ok_def cast_def intro!: sum.neutral)

lemma slots_add:
  assumes "vset_wf vals" "slots_ok P vals bits votes s" "i < length (Validators vals)" "votes ! i = None" "P i v"
  shows "slots_ok P vals (bits[i := True]) (votes[i := Some v]) (wrap64 (s + VotingPower (Validators vals ! i)))"
proof -
  have l: "length votes = length (Validators vals)" and s: "s = cast vals votes" using assms(2) by (simp_all add: slots_ok_def)
  have c: "cast vals (votes[i := Some v]) = s + VotingPower (Validators vals ! i)" using cast_update [OF assms(3) l] assms(4) s by simp
  have "wrap64 (s + VotingPower (Validators vals ! i)) = s + VotingPower (Validators vals ! i)"
    unfolding c [symmetric] using cast_bounds [OF assms(1), of "votes[i := Some v]"] wf_total_bounds [OF assms(1)] by (intro wrap64_id) auto
  then show ?thesis using assms c l by (auto simp: slots_ok_def map_update nth_list_update)
qed

lemma slots_replace:
  assumes "slots_ok P vals bits votes s" "i < length (Validators vals)" "votes ! i \<noteq> None" "P i v"
  shows "slots_ok P vals (bits[i := True]) (votes[i := Some v]) s"
  using assms cast_update [of i vals votes v] by (auto simp: slots_ok_def map_update nth_list_update)

definition covers :: "Vote option list \<Rightarrow> Vote option list \<Rightarrow> bool" where
  "covers votes sub \<longleftrightarrow> (\<forall>i<length sub. sub ! i \<noteq> None \<longrightarrow> votes ! i \<noteq> None)"

abbreviation lay_over :: "Vote option list \<Rightarrow> Vote option list \<Rightarrow> Vote option list" where
  "lay_over ov base \<equiv> map2 (\<lambda>v old. case v of None \<Rightarrow> old | Some _ \<Rightarrow> v) ov base"

lemma lay_over_nth: "i < length ov \<Longrightarrow> length base = length ov \<Longrightarrow> lay_over ov base ! i = (case ov ! i of None \<Rightarrow> base ! i | Some v \<Rightarrow> Some v)"
  by (auto split: option.splits)

lemma slots_lay_over:
  assumes "slots_ok P vals bits votes s" "slots_ok Q vals bits' ov s'" "covers votes ov" "\<And>i v. Q i v \<Longrightarrow> P i v"
  shows "slots_ok P vals bits (lay_over ov votes) s" "\<And>i. i < length (Validators vals) \<Longrightarrow> lay_over ov votes ! i \<noteq> None \<longleftrightarrow> votes ! i \<noteq> None"
proof -
  have l: "length votes = length (Validators vals)" "length ov = length (Validators vals)" using assms(1,2) by (auto simp: slots_ok_def)
  show n: "lay_over ov votes ! i \<noteq> None \<longleftrightarrow> votes ! i \<noteq> None" if "i < length (Validators vals)" for i
    using assms(3) that l lay_over_nth [of i ov votes] by (auto simp: covers_def split: option.splits)
  have len: "length (lay_over ov votes) = length votes" using l by simp
  have "cast vals (lay_over ov votes) = cast vals votes" unfolding cast_def using n by (intro sum.cong) auto
  moreover have "map (\<lambda>v. v \<noteq> None) (lay_over ov votes) = map (\<lambda>v. v \<noteq> None) votes"
    by (rule nth_equalityI) (use l n in \<open>auto simp del: nth_zip\<close>)
  moreover have "P i v" if "i < length votes" "lay_over ov votes ! i = Some v" for i v
    using that assms(1,2,4) l lay_over_nth [of i ov votes] by (auto simp: slots_ok_def split: option.splits)
  ultimately show "slots_ok P vals bits (lay_over ov votes) s" using assms(1) len by (simp add: slots_ok_def)
qed

section \<open>The invariant\<close>

definition vote_good :: "crypto \<Rightarrow> VoteSet \<Rightarrow> nat \<Rightarrow> Vote \<Rightarrow> bool" where
  "vote_good cr vs i v \<longleftrightarrow> vote_ValidatorIndex v = int i \<and> vote_Height v = vst_height vs \<and> vote_Round v = vst_round vs \<and> vote_Type v = vst_signedMsgType vs \<and>
     vote_ValidatorAddress v = tv_Address (Validators (vst_valSet vs) ! i) \<and> vote_Verify cr (vst_chainID vs) (tv_PubKey (Validators (vst_valSet vs) ! i)) v = Inr () \<and>
     vote_ValidateBasic v = Inr ()"

definition same_step :: "VoteSet \<Rightarrow> VoteSet \<Rightarrow> bool" where
  "same_step vs vs' \<longleftrightarrow> vst_chainID vs' = vst_chainID vs \<and> vst_height vs' = vst_height vs \<and> vst_round vs' = vst_round vs \<and>
     vst_signedMsgType vs' = vst_signedMsgType vs \<and> vst_valSet vs' = vst_valSet vs"

lemma vote_good_same: "same_step vs vs' \<Longrightarrow> vote_good cr vs' = vote_good cr vs"
  by (rule ext)+ (simp add: same_step_def vote_good_def)

definition block_ok :: "crypto \<Rightarrow> VoteSet \<Rightarrow> bytes \<Rightarrow> blockVotes \<Rightarrow> bool" where
  "block_ok cr vs k bv \<longleftrightarrow> slots_ok (\<lambda>i v. vote_good cr vs i v \<and> bid_Key cr (vote_BlockID v) = k) (vst_valSet vs) (bv_bitArray bv) (bv_votes bv) (bv_sum bv) \<and>
     covers (vst_votes vs) (bv_votes bv)"

definition has_quorum :: "VoteSet \<Rightarrow> blockVotes \<Rightarrow> bool" where
  "has_quorum vs bv \<longleftrightarrow> 2 * totalVotingPower (vst_valSet vs) < 3 * bv_sum bv"

definition id_ok :: "BlockID \<Rightarrow> bool" where
  "id_ok b \<longleftrightarrow> (bid_IsZero b \<or> bid_IsComplete b) \<and> 0 \<le> psh_Total (PartsHeader b)"

definition maj_ok :: "crypto \<Rightarrow> VoteSet \<Rightarrow> bool" where
  "maj_ok cr vs \<longleftrightarrow> (case maj23 vs of
     None \<Rightarrow> \<forall>k bv. votesByBlock vs k = Some bv \<longrightarrow> \<not> has_quorum vs bv
   | Some b \<Rightarrow> id_ok b \<and> (\<exists>bv. votesByBlock vs (bid_Key cr b) = Some bv \<and> has_quorum vs bv \<and>
       (\<forall>i<length (Validators (vst_valSet vs)). bv_votes bv ! i \<noteq> None \<longrightarrow> (\<exists>v. vst_votes vs ! i = Some v \<and> bid_Key cr (vote_BlockID v) = bid_Key cr b))))"

definition voteset_ok :: "crypto \<Rightarrow> VoteSet \<Rightarrow> bool" where
  "voteset_ok cr vs \<longleftrightarrow> vset_wf (vst_valSet vs) \<and> slots_ok (vote_good cr vs) (vst_valSet vs) (votesBitArray vs) (vst_votes vs) (vst_sum vs) \<and>
     (\<forall>k bv. votesByBlock vs k = Some bv \<longrightarrow> block_ok cr vs k bv) \<and> maj_ok cr vs"

lemma vote_id_ok: "vote_ValidateBasic v = Inr () \<Longrightarrow> id_ok (vote_BlockID v)"
  using vote_ValidateBasicD(1,2) by (simp add: id_ok_def)

lemma quorum_cross:
  assumes "vset_wf vals"
  shows "wrap64 (big_quo (wrap64 (totalVotingPower vals * 2)) 3 + 1) \<le> s \<longleftrightarrow> 2 * totalVotingPower vals < 3 * s"
proof -
  have T: "0 \<le> totalVotingPower vals" "totalVotingPower vals < 2 ^ 60" using wf_total_bounds [OF assms] by auto
  have q: "big_quo (wrap64 (totalVotingPower vals * 2)) 3 = totalVotingPower vals * 2 div 3"
    using T by (subst wrap64_id) (auto simp: big_quo_nonneg)
  have "wrap64 (totalVotingPower vals * 2 div 3 + 1) = totalVotingPower vals * 2 div 3 + 1" using T by (intro wrap64_id) auto
  then show ?thesis unfolding q by simp presburger
qed

section \<open>The operations keep the invariant\<close>

lemma block_ok_cong:
  assumes "same_step vs vs'" "\<And>i. i < length (Validators (vst_valSet vs)) \<Longrightarrow> vst_votes vs ! i \<noteq> None \<Longrightarrow> vst_votes vs' ! i \<noteq> None"
    and "block_ok cr vs k bv"
  shows "block_ok cr vs' k bv"
proof -
  have "vst_valSet vs' = vst_valSet vs" using assms(1) by (simp add: same_step_def)
  moreover have "length (bv_votes bv) = length (Validators (vst_valSet vs))" using assms(3) by (simp add: block_ok_def slots_ok_def)
  ultimately show ?thesis using assms(2,3) vote_good_same [OF assms(1)] by (simp add: block_ok_def covers_def)
qed

lemma main_add_ok:
  assumes ok: "voteset_ok cr vs" and i: "i < length (Validators (vst_valSet vs))" "vst_votes vs ! i = None" "vote_good cr vs i v"
  defines "vs' \<equiv> vs\<lparr>vst_votes := (vst_votes vs)[i := Some v], votesBitArray := (votesBitArray vs)[i := True], vst_sum := wrap64 (vst_sum vs + VotingPower (Validators (vst_valSet vs) ! i))\<rparr>"
  shows "voteset_ok cr vs'" "same_step vs vs'"
proof -
  let ?n = "length (Validators (vst_valSet vs))"
  have wf: "vset_wf (vst_valSet vs)" and sl: "slots_ok (vote_good cr vs) (vst_valSet vs) (votesBitArray vs) (vst_votes vs) (vst_sum vs)"
    and bl: "\<And>k bv. votesByBlock vs k = Some bv \<Longrightarrow> block_ok cr vs k bv" and mj: "maj_ok cr vs" using ok by (auto simp: voteset_ok_def)
  show st: "same_step vs vs'" by (simp add: same_step_def vs'_def)
  have len: "length (vst_votes vs) = ?n" using sl by (simp add: slots_ok_def)
  have keep: "vst_votes vs' ! j = vst_votes vs ! j" if "j \<noteq> i" for j using that by (simp add: vs'_def)
  have sl': "slots_ok (vote_good cr vs') (vst_valSet vs') (votesBitArray vs') (vst_votes vs') (vst_sum vs')"
    using slots_add [OF wf sl i] vote_good_same [OF st] by (simp add: vs'_def)
  have bl': "block_ok cr vs' k bv" if "votesByBlock vs' k = Some bv" for k bv
  proof (rule block_ok_cong [OF st])
    show "block_ok cr vs k bv" using bl that by (simp add: vs'_def)
    show "vst_votes vs' ! j \<noteq> None" if "j < ?n" "vst_votes vs ! j \<noteq> None" for j using that keep [of j] i(2) by (cases "j = i") auto
  qed
  have "maj_ok cr vs'"
  proof (cases "maj23 vs")
    case None
    then show ?thesis using mj by (simp add: maj_ok_def vs'_def has_quorum_def)
  next
    case (Some b)
    then obtain bv where bv: "votesByBlock vs (bid_Key cr b) = Some bv" "has_quorum vs bv" "id_ok b"
      "\<forall>j<?n. bv_votes bv ! j \<noteq> None \<longrightarrow> (\<exists>v. vst_votes vs ! j = Some v \<and> bid_Key cr (vote_BlockID v) = bid_Key cr b)" using mj by (auto simp: maj_ok_def)
    have "\<exists>v. vst_votes vs' ! j = Some v \<and> bid_Key cr (vote_BlockID v) = bid_Key cr b" if "j < ?n" "bv_votes bv ! j \<noteq> None" for j
    proof -
      have "\<exists>v. vst_votes vs ! j = Some v \<and> bid_Key cr (vote_BlockID v) = bid_Key cr b" using bv(4) that by blast
      then show ?thesis using keep [of j] i(2) by (cases "j = i") auto
    qed
    then show ?thesis using Some bv by (simp add: maj_ok_def vs'_def has_quorum_def)
  qed
  then show "voteset_ok cr vs'" using wf sl' bl' by (simp add: voteset_ok_def) (simp add: vs'_def)
qed

lemma main_replace_ok:
  assumes ok: "voteset_ok cr vs" and i: "i < length (Validators (vst_valSet vs))" "vst_votes vs ! i \<noteq> None" "vote_good cr vs i v"
    and m: "maj23 vs = Some b" "bid_Key cr (vote_BlockID v) = bid_Key cr b"
  defines "vs' \<equiv> vs\<lparr>vst_votes := (vst_votes vs)[i := Some v], votesBitArray := (votesBitArray vs)[i := True]\<rparr>"
  shows "voteset_ok cr vs'" "same_step vs vs'"
proof -
  let ?n = "length (Validators (vst_valSet vs))"
  have wf: "vset_wf (vst_valSet vs)" and sl: "slots_ok (vote_good cr vs) (vst_valSet vs) (votesBitArray vs) (vst_votes vs) (vst_sum vs)"
    and bl: "\<And>k bv. votesByBlock vs k = Some bv \<Longrightarrow> block_ok cr vs k bv" and mj: "maj_ok cr vs" using ok by (auto simp: voteset_ok_def)
  show st: "same_step vs vs'" by (simp add: same_step_def vs'_def)
  have len: "length (vst_votes vs) = ?n" using sl by (simp add: slots_ok_def)
  have keep: "vst_votes vs' ! j = vst_votes vs ! j" if "j \<noteq> i" for j using that by (simp add: vs'_def)
  have new: "vst_votes vs' ! i = Some v" using i(1) len by (simp add: vs'_def)
  have sl': "slots_ok (vote_good cr vs') (vst_valSet vs') (votesBitArray vs') (vst_votes vs') (vst_sum vs')"
    using slots_replace [OF sl i] vote_good_same [OF st] by (simp add: vs'_def)
  have bl': "block_ok cr vs' k bv" if "votesByBlock vs' k = Some bv" for k bv
  proof (rule block_ok_cong [OF st])
    show "block_ok cr vs k bv" using bl that by (simp add: vs'_def)
    show "vst_votes vs' ! j \<noteq> None" if "j < ?n" "vst_votes vs ! j \<noteq> None" for j using that keep [of j] new by (cases "j = i") auto
  qed
  obtain bv where bv: "votesByBlock vs (bid_Key cr b) = Some bv" "has_quorum vs bv" "id_ok b"
    "\<forall>j<?n. bv_votes bv ! j \<noteq> None \<longrightarrow> (\<exists>v. vst_votes vs ! j = Some v \<and> bid_Key cr (vote_BlockID v) = bid_Key cr b)" using mj m(1) by (auto simp: maj_ok_def)
  have "\<exists>v. vst_votes vs' ! j = Some v \<and> bid_Key cr (vote_BlockID v) = bid_Key cr b" if "j < ?n" "bv_votes bv ! j \<noteq> None" for j
  proof -
    have "\<exists>v. vst_votes vs ! j = Some v \<and> bid_Key cr (vote_BlockID v) = bid_Key cr b" using bv(4) that by blast
    then show ?thesis using keep [of j] new m(2) by (cases "j = i") auto
  qed
  then have "maj_ok cr vs'" using m(1) bv by (simp add: maj_ok_def vs'_def has_quorum_def)
  then show "voteset_ok cr vs'" using wf sl' bl' by (simp add: voteset_ok_def) (simp add: vs'_def)
qed

lemma bv_add_ok:
  assumes wf: "vset_wf (vst_valSet vs)" and bv: "block_ok cr vs k bv" and i: "i < length (Validators (vst_valSet vs))" "vst_votes vs ! i \<noteq> None"
    and v: "vote_good cr vs i v" "bid_Key cr (vote_BlockID v) = k"
  defines "bv' \<equiv> bv_addVerifiedVote v (VotingPower (Validators (vst_valSet vs) ! i)) bv"
  shows "block_ok cr vs k bv'" "bv_sum bv \<le> bv_sum bv'" "bv_votes bv' ! i \<noteq> None" "\<And>j. j \<noteq> i \<Longrightarrow> bv_votes bv' ! j = bv_votes bv ! j"
proof -
  have n: "nat (vote_ValidatorIndex v) = i" using v(1) by (simp add: vote_good_def)
  have sl: "slots_ok (\<lambda>i v. vote_good cr vs i v \<and> bid_Key cr (vote_BlockID v) = k) (vst_valSet vs) (bv_bitArray bv) (bv_votes bv) (bv_sum bv)"
    and cv: "covers (vst_votes vs) (bv_votes bv)" using bv by (simp_all add: block_ok_def)
  have len: "length (bv_votes bv) = length (Validators (vst_valSet vs))" and s: "bv_sum bv = cast (vst_valSet vs) (bv_votes bv)" using sl by (simp_all add: slots_ok_def)
  show "\<And>j. j \<noteq> i \<Longrightarrow> bv_votes bv' ! j = bv_votes bv ! j" by (simp add: bv'_def bv_addVerifiedVote_def n Let_def)
  show "bv_votes bv' ! i \<noteq> None" using i(1) len by (simp add: bv'_def bv_addVerifiedVote_def n Let_def)
  have ok: "block_ok cr vs k bv' \<and> bv_sum bv \<le> bv_sum bv'"
  proof (cases "bv_votes bv ! i = None")
    case True
    let ?P = "\<lambda>i v. vote_good cr vs i v \<and> bid_Key cr (vote_BlockID v) = k"
    have sl': "slots_ok ?P (vst_valSet vs) ((bv_bitArray bv)[i := True]) ((bv_votes bv)[i := Some v]) (wrap64 (bv_sum bv + VotingPower (Validators (vst_valSet vs) ! i)))"
      using slots_add [OF wf sl i(1) True] v by simp
    have b: "bv_bitArray bv' = (bv_bitArray bv)[i := True]" "bv_votes bv' = (bv_votes bv)[i := Some v]" "bv_sum bv' = wrap64 (bv_sum bv + VotingPower (Validators (vst_valSet vs) ! i))"
      using True by (simp_all add: bv'_def bv_addVerifiedVote_def n Let_def)
    have "covers (vst_votes vs) (bv_votes bv')" using cv i len by (auto simp: covers_def b(2) nth_list_update split: if_splits)
    moreover have "bv_sum bv' = bv_sum bv + VotingPower (Validators (vst_valSet vs) ! i)"
      using sl' cast_update [OF i(1) len, of v] True s unfolding b(3) by (simp add: slots_ok_def)
    ultimately show ?thesis using sl' wf_power_nonneg [OF wf i(1)] unfolding block_ok_def b by simp
  qed (use bv in \<open>auto simp: bv'_def bv_addVerifiedVote_def n Let_def\<close>)
  then show "block_ok cr vs k bv'" "bv_sum bv \<le> bv_sum bv'" by auto
qed

lemma same_step_trans: "same_step a b \<Longrightarrow> same_step b c \<Longrightarrow> same_step a c"
  by (simp add: same_step_def)

lemma add_to_block_ok:
  assumes ok: "voteset_ok cr vs" and bv: "block_ok cr vs k bv" and i: "i < length (Validators (vst_valSet vs))" "vst_votes vs ! i \<noteq> None"
    and v: "vote_good cr vs i v" "bid_Key cr (vote_BlockID v) = k"
    and cur: "votesByBlock vs k = Some bv \<or> (votesByBlock vs k = None \<and> \<not> has_quorum vs bv)"
    and mk: "\<forall>b. maj23 vs = Some b \<longrightarrow> bid_Key cr b = k \<longrightarrow> (\<exists>v. vst_votes vs ! i = Some v \<and> bid_Key cr (vote_BlockID v) = k)"
  shows "\<exists>vs'. add_to_block v k (VotingPower (Validators (vst_valSet vs) ! i)) bv vs = Inr vs' \<and> voteset_ok cr vs' \<and> same_step vs vs' \<and> (maj23 vs \<noteq> None \<longrightarrow> maj23 vs' = maj23 vs)"
proof -
  let ?vals = "vst_valSet vs" let ?n = "length (Validators ?vals)" and ?p = "VotingPower (Validators (vst_valSet vs) ! i)"
  have wf: "vset_wf ?vals" and sl: "slots_ok (vote_good cr vs) ?vals (votesBitArray vs) (vst_votes vs) (vst_sum vs)"
    and bl: "\<And>k bv. votesByBlock vs k = Some bv \<Longrightarrow> block_ok cr vs k bv" and mj: "maj_ok cr vs" using ok by (auto simp: voteset_ok_def)
  define bv' where "bv' = bv_addVerifiedVote v ?p bv"
  note B = bv_add_ok [OF wf bv i v, folded bv'_def]
  define vs1 where "vs1 = vs\<lparr>votesByBlock := (votesByBlock vs)(k \<mapsto> bv')\<rparr>"
  have s1: "same_step vs vs1" by (simp add: same_step_def vs1_def)
  have bl1: "block_ok cr vs1 k' b'" if "votesByBlock vs1 k' = Some b'" for k' b'
    by (rule block_ok_cong [OF s1]) (use that B(1) bl in \<open>auto simp: vs1_def split: if_splits\<close>)
  have cross: "bv_sum bv < wrap64 (big_quo (wrap64 (totalVotingPower ?vals * 2)) 3 + 1) \<longleftrightarrow> \<not> has_quorum vs bv"
    "wrap64 (big_quo (wrap64 (totalVotingPower ?vals * 2)) 3 + 1) \<le> bv_sum bv' \<longleftrightarrow> has_quorum vs bv'"
    using quorum_cross [OF wf, of "bv_sum bv"] quorum_cross [OF wf, of "bv_sum bv'"] by (auto simp: has_quorum_def)
  show ?thesis
  proof (cases "\<not> has_quorum vs bv \<and> has_quorum vs bv' \<and> maj23 vs = None")
    case True
    define vs2 where "vs2 = vs1\<lparr>maj23 := Some (vote_BlockID v), vst_votes := lay_over (bv_votes bv') (vst_votes vs)\<rparr>"
    have r: "add_to_block v k ?p bv vs = Inr vs2"
      using True wf_Total [OF wf] by (simp add: add_to_block_def Let_def cross bv'_def [symmetric] vs2_def vs1_def)
    have s2: "same_step vs vs2" by (simp add: same_step_def vs2_def vs1_def)
    have slb: "slots_ok (\<lambda>i v. vote_good cr vs i v \<and> bid_Key cr (vote_BlockID v) = k) ?vals (bv_bitArray bv') (bv_votes bv') (bv_sum bv')" and cv: "covers (vst_votes vs) (bv_votes bv')"
      using B(1) by (simp_all add: block_ok_def)
    have lb: "length (bv_votes bv') = ?n" "length (vst_votes vs) = ?n" using slb sl by (auto simp: slots_ok_def)
    have ov: "slots_ok (vote_good cr vs) ?vals (votesBitArray vs) (lay_over (bv_votes bv') (vst_votes vs)) (vst_sum vs)"
      "\<And>j. j < ?n \<Longrightarrow> lay_over (bv_votes bv') (vst_votes vs) ! j \<noteq> None \<longleftrightarrow> vst_votes vs ! j \<noteq> None" by (rule slots_lay_over [OF sl slb cv], simp)+
    have bl2: "block_ok cr vs2 k' b'" if "votesByBlock vs2 k' = Some b'" for k' b'
    proof (rule block_ok_cong [of vs1])
      show "same_step vs1 vs2" by (simp add: same_step_def vs2_def)
      show "block_ok cr vs1 k' b'" using bl1 that by (simp add: vs2_def)
      show "vst_votes vs2 ! j \<noteq> None" if "j < length (Validators (vst_valSet vs1))" "vst_votes vs1 ! j \<noteq> None" for j
        using ov(2) [of j] that by (simp only: vs2_def vs1_def VoteSet.simps) simp
    qed
    have "\<exists>u. lay_over (bv_votes bv') (vst_votes vs) ! j = Some u \<and> bid_Key cr (vote_BlockID u) = k" if j: "j < ?n" "bv_votes bv' ! j \<noteq> None" for j
    proof -
      obtain u where u: "bv_votes bv' ! j = Some u" using j(2) by auto
      then have "bid_Key cr (vote_BlockID u) = k" using slb j(1) lb by (simp add: slots_ok_def)
      then show ?thesis using lay_over_nth [of j "bv_votes bv'" "vst_votes vs"] j(1) lb u by simp
    qed
    then have "maj_ok cr vs2" using True v vote_id_ok [of v] by (simp add: maj_ok_def vs2_def vs1_def has_quorum_def vote_good_def del: nth_map nth_zip)
    moreover have "slots_ok (vote_good cr vs2) (vst_valSet vs2) (votesBitArray vs2) (vst_votes vs2) (vst_sum vs2)"
      using ov(1) vote_good_same [OF s2] by (simp add: vs2_def vs1_def)
    ultimately have "voteset_ok cr vs2" unfolding voteset_ok_def using wf bl2 s2 by (auto simp: same_step_def)
    with r s2 True show ?thesis by blast
  next
    case False
    then have r: "add_to_block v k ?p bv vs = Inr vs1"
      using wf_Total [OF wf] by (auto simp: add_to_block_def Let_def cross bv'_def [symmetric] vs1_def)
    have "maj_ok cr vs1"
    proof (cases "maj23 vs")
      case None
      then have nq: "\<not> has_quorum vs b'" if "votesByBlock vs k' = Some b'" for k' b' using mj that by (auto simp: maj_ok_def)
      then have "\<not> has_quorum vs bv'" using False None cur by auto
      then show ?thesis using None nq by (auto simp: maj_ok_def vs1_def has_quorum_def split: if_splits)
    next
      case (Some b)
      then obtain b0 where b0: "votesByBlock vs (bid_Key cr b) = Some b0" "has_quorum vs b0" "id_ok b"
        "\<forall>j<?n. bv_votes b0 ! j \<noteq> None \<longrightarrow> (\<exists>v. vst_votes vs ! j = Some v \<and> bid_Key cr (vote_BlockID v) = bid_Key cr b)" using mj by (auto simp: maj_ok_def)
      show ?thesis
      proof (cases "bid_Key cr b = k")
        case True
        then have "b0 = bv" using b0(1) cur by auto
        then have hq: "has_quorum vs bv'" using b0(2) B(2) by (simp add: has_quorum_def)
        have "\<exists>v. vst_votes vs ! j = Some v \<and> bid_Key cr (vote_BlockID v) = k" if "j < ?n" "bv_votes bv' ! j \<noteq> None" for j
        proof (cases "j = i")
          case eq: True
          show ?thesis unfolding eq by (rule mk [rule_format, OF Some True])
        next
          case False
          then show ?thesis using B(4) [of j] b0(4) that \<open>b0 = bv\<close> True by auto
        qed
        then show ?thesis using Some b0(3) True hq by (simp add: maj_ok_def vs1_def has_quorum_def)
      next
        case False
        then show ?thesis using Some b0 by (simp add: maj_ok_def vs1_def has_quorum_def)
      qed
    qed
    moreover have "slots_ok (vote_good cr vs1) (vst_valSet vs1) (votesBitArray vs1) (vst_votes vs1) (vst_sum vs1)"
      using sl vote_good_same [OF s1] by (simp add: vs1_def)
    ultimately have "voteset_ok cr vs1" unfolding voteset_ok_def using wf bl1 s1 by (auto simp: same_step_def)
    with r s1 show ?thesis by (simp add: vs1_def)
  qed
qed

lemma track_block_ok:
  assumes ok: "voteset_ok cr vs" and i: "i < length (Validators (vst_valSet vs))" "vst_votes vs ! i \<noteq> None"
    and v: "vote_good cr vs i v" "bid_Key cr (vote_BlockID v) = k"
    and mk: "\<forall>b. maj23 vs = Some b \<longrightarrow> bid_Key cr b = k \<longrightarrow> (\<exists>v. vst_votes vs ! i = Some v \<and> bid_Key cr (vote_BlockID v) = k)"
  shows "\<exists>added vs'. track_block v k (VotingPower (Validators (vst_valSet vs) ! i)) c vs = Inr (added, c, vs') \<and> (c = None \<longrightarrow> added) \<and>
    voteset_ok cr vs' \<and> same_step vs vs' \<and> (maj23 vs \<noteq> None \<longrightarrow> maj23 vs' = maj23 vs)"
proof -
  have wf: "vset_wf (vst_valSet vs)" and bl: "\<And>k bv. votesByBlock vs k = Some bv \<Longrightarrow> block_ok cr vs k bv" using ok by (auto simp: voteset_ok_def)
  have refl: "same_step vs vs" by (simp add: same_step_def)
  show ?thesis
  proof (cases "votesByBlock vs k")
    case (Some bv)
    show ?thesis
    proof (cases "c \<noteq> None \<and> \<not> bv_peerMaj23 bv")
      case True
      then show ?thesis using Some ok refl by (auto simp: track_block_def)
    next
      case False
      obtain vs' where "add_to_block v k (VotingPower (Validators (vst_valSet vs) ! i)) bv vs = Inr vs'" "voteset_ok cr vs'" "same_step vs vs'" "maj23 vs \<noteq> None \<longrightarrow> maj23 vs' = maj23 vs"
        using add_to_block_ok [OF ok bl [OF Some] i v _ mk] Some by blast
      then show ?thesis using Some False by (auto simp: track_block_def)
    qed
  next
    case None
    show ?thesis
    proof (cases "c = None")
      case False
      then show ?thesis using None ok refl by (auto simp: track_block_def)
    next
      case True
      let ?bv = "newBlockVotes False (length (Validators (vst_valSet vs)))"
      have b: "block_ok cr vs k ?bv" using slots_empty by (simp add: block_ok_def newBlockVotes_def covers_def)
      have nq: "\<not> has_quorum vs ?bv" using wf_total_bounds [OF wf] by (simp add: has_quorum_def newBlockVotes_def)
      obtain vs' where "add_to_block v k (VotingPower (Validators (vst_valSet vs) ! i)) ?bv vs = Inr vs'" "voteset_ok cr vs'" "same_step vs vs'" "maj23 vs \<noteq> None \<longrightarrow> maj23 vs' = maj23 vs"
        using add_to_block_ok [OF ok b i v _ mk] None nq by blast
      then show ?thesis using None True by (auto simp: track_block_def)
    qed
  qed
qed

lemma addVerifiedVote_ok:
  assumes ok: "voteset_ok cr vs" and i: "i < length (Validators (vst_valSet vs))" and v: "vote_good cr vs i v"
    and fresh: "\<And>u. vst_votes vs ! i = Some u \<Longrightarrow> vote_BlockID u \<noteq> vote_BlockID v"
  shows "\<exists>added c vs'. vst_addVerifiedVote cr v (bid_Key cr (vote_BlockID v)) (VotingPower (Validators (vst_valSet vs) ! i)) vs = Inr (added, c, vs') \<and> (c = None \<longrightarrow> added) \<and>
    voteset_ok cr vs' \<and> same_step vs vs' \<and> (maj23 vs \<noteq> None \<longrightarrow> maj23 vs' = maj23 vs)"
proof -
  let ?k = "bid_Key cr (vote_BlockID v)" and ?p = "VotingPower (Validators (vst_valSet vs) ! i)"
  have n: "nat (vote_ValidatorIndex v) = i" using v by (simp add: vote_good_def)
  have len: "length (vst_votes vs) = length (Validators (vst_valSet vs))" using ok by (simp add: voteset_ok_def slots_ok_def)
  show ?thesis
  proof (cases "vst_votes vs ! i")
    case None
    define vs1 where "vs1 = vs\<lparr>vst_votes := (vst_votes vs)[i := Some v], votesBitArray := (votesBitArray vs)[i := True], vst_sum := wrap64 (vst_sum vs + ?p)\<rparr>"
    note M = main_add_ok [OF ok i None v, folded vs1_def]
    have e: "vst_valSet vs1 = vst_valSet vs" "maj23 vs1 = maj23 vs" "vst_votes vs1 ! i = Some v" using i len by (simp_all add: vs1_def)
    have "\<exists>added vs'. track_block v ?k (VotingPower (Validators (vst_valSet vs1) ! i)) None vs1 = Inr (added, None, vs') \<and> (None = (None :: Vote option) \<longrightarrow> added) \<and>
      voteset_ok cr vs' \<and> same_step vs1 vs' \<and> (maj23 vs1 \<noteq> None \<longrightarrow> maj23 vs' = maj23 vs1)"
      by (rule track_block_ok [OF M(1) _ _ _ refl]) (use e i v vote_good_same [OF M(2)] in simp_all)
    then show ?thesis using None n e same_step_trans [OF M(2)] by (auto simp: vst_addVerifiedVote_def Let_def vs1_def [symmetric])
  next
    case (Some u)
    have ne: "vote_BlockID u \<noteq> vote_BlockID v" by (rule fresh [OF Some])
    show ?thesis
    proof (cases "\<exists>b. maj23 vs = Some b \<and> bid_Key cr b = ?k")
      case True
      then obtain b where b: "maj23 vs = Some b" "bid_Key cr b = ?k" by blast
      define vs1 where "vs1 = vs\<lparr>vst_votes := (vst_votes vs)[i := Some v], votesBitArray := (votesBitArray vs)[i := True]\<rparr>"
      have nn: "vst_votes vs ! i \<noteq> None" using Some by simp
      note M = main_replace_ok [OF ok i nn v b(1) b(2) [symmetric], folded vs1_def]
      have e: "vst_valSet vs1 = vst_valSet vs" "maj23 vs1 = maj23 vs" "vst_votes vs1 ! i = Some v" using i len by (simp_all add: vs1_def)
      have "\<exists>added vs'. track_block v ?k (VotingPower (Validators (vst_valSet vs1) ! i)) (Some u) vs1 = Inr (added, Some u, vs') \<and> (Some u = None \<longrightarrow> added) \<and>
        voteset_ok cr vs' \<and> same_step vs1 vs' \<and> (maj23 vs1 \<noteq> None \<longrightarrow> maj23 vs' = maj23 vs1)"
        by (rule track_block_ok [OF M(1) _ _ _ refl]) (use e i v vote_good_same [OF M(2)] in simp_all)
      then show ?thesis using Some ne b n e same_step_trans [OF M(2)] by (auto simp: vst_addVerifiedVote_def Let_def vs1_def [symmetric])
    next
      case False
      have "\<exists>added vs'. track_block v ?k ?p (Some u) vs = Inr (added, Some u, vs') \<and> (Some u = None \<longrightarrow> added) \<and>
        voteset_ok cr vs' \<and> same_step vs vs' \<and> (maj23 vs \<noteq> None \<longrightarrow> maj23 vs' = maj23 vs)"
        by (rule track_block_ok [OF ok i _ v refl]) (use Some False in auto)
      moreover have "(case maj23 vs of Some m \<Rightarrow> bid_Key cr m = ?k | None \<Rightarrow> False) = False" using False by (auto split: option.splits)
      ultimately show ?thesis using Some ne n by (auto simp: vst_addVerifiedVote_def Let_def)
    qed
  qed
qed

lemma addVote_ok:
  assumes ok: "voteset_ok cr vs" and v: "vote_ValidateBasic v = Inr ()" "MarshalDelimited cr (IBCCanonicalizeVote (vst_chainID vs) v) \<noteq> None"
  shows "(\<exists>e. vst_addVote cr (Some v) vs = Inl (Err e)) \<or> (\<exists>added ev vs'. vst_addVote cr (Some v) vs = Inr (added, ev, vs') \<and>
    voteset_ok cr vs' \<and> same_step vs vs' \<and> (maj23 vs \<noteq> None \<longrightarrow> maj23 vs' = maj23 vs))"
proof (cases "\<exists>i. vote_ValidatorIndex v = int i \<and> i < length (Validators (vst_valSet vs)) \<and> vote_Height v = vst_height vs \<and> vote_Round v = vst_round vs \<and> vote_Type v = vst_signedMsgType vs \<and>
    vote_ValidatorAddress v = tv_Address (Validators (vst_valSet vs) ! i) \<and> vst_getVote cr vs i (bid_Key cr (vote_BlockID v)) = None \<and>
    vote_Verify cr (vst_chainID vs) (tv_PubKey (Validators (vst_valSet vs) ! i)) v = Inr ()")
  case True
  then obtain i where i: "vote_ValidatorIndex v = int i" "i < length (Validators (vst_valSet vs))" "vote_Height v = vst_height vs" "vote_Round v = vst_round vs" "vote_Type v = vst_signedMsgType vs"
    "vote_ValidatorAddress v = tv_Address (Validators (vst_valSet vs) ! i)" "vst_getVote cr vs i (bid_Key cr (vote_BlockID v)) = None"
    "vote_Verify cr (vst_chainID vs) (tv_PubKey (Validators (vst_valSet vs) ! i)) v = Inr ()" by blast
  have good: "vote_good cr vs i v" using i v(1) by (simp add: vote_good_def)
  have fresh: "vote_BlockID u \<noteq> vote_BlockID v" if "vst_votes vs ! i = Some u" for u using i(7) that by (auto simp: vst_getVote_def split: if_splits)
  obtain added c vs' where a: "vst_addVerifiedVote cr v (bid_Key cr (vote_BlockID v)) (VotingPower (Validators (vst_valSet vs) ! i)) vs = Inr (added, c, vs')" "c = None \<longrightarrow> added"
    "voteset_ok cr vs'" "same_step vs vs'" "maj23 vs \<noteq> None \<longrightarrow> maj23 vs' = maj23 vs" using addVerifiedVote_ok [OF ok i(2) good fresh] by fast
  have "length (vote_ValidatorAddress v) \<noteq> 0" using vote_ValidateBasicD(4) [OF v(1)] by (simp add: AddressSize_def)
  then have "vst_addVote cr (Some v) vs = (case c of Some u \<Rightarrow> Inr (added, Some (NewDuplicateVoteEvidence cr (tv_PubKey (Validators (vst_valSet vs) ! i)) u v), vs') | None \<Rightarrow> Inr (added, None, vs'))"
    using i a(1,2) by (cases c) (simp_all add: vst_addVote_def Let_def vs_GetByIndex_def)
  then show ?thesis using a by (cases c) auto
next
  case False
  have refl: "same_step vs vs" by (simp add: same_step_def)
  have "(\<exists>e. vst_addVote cr (Some v) vs = Inl (Err e)) \<or> vst_addVote cr (Some v) vs = Inr (False, None, vs)"
  proof (cases "vote_ValidatorIndex v < 0 \<or> length (vote_ValidatorAddress v) = 0 \<or> vote_Height v \<noteq> vst_height vs \<or> vote_Round v \<noteq> vst_round vs \<or> vote_Type v \<noteq> vst_signedMsgType vs")
    case True
    then show ?thesis by (auto simp: vst_addVote_def Let_def)
  next
    case c: False
    then have pre: "\<not> vote_ValidatorIndex v < 0" "length (vote_ValidatorAddress v) \<noteq> 0" "vote_Height v = vst_height vs" "vote_Round v = vst_round vs" "vote_Type v = vst_signedMsgType vs" by auto
    define i where "i = nat (vote_ValidatorIndex v)"
    have idx: "vote_ValidatorIndex v = int i" using pre(1) by (simp add: i_def)
    show ?thesis
    proof (cases "i < length (Validators (vst_valSet vs)) \<and> vote_ValidatorAddress v = tv_Address (Validators (vst_valSet vs) ! i)")
      case False
      then show ?thesis using pre idx by (auto simp: vst_addVote_def Let_def vs_GetByIndex_def)
    next
      case d: True
      show ?thesis
      proof (cases "vst_getVote cr vs i (bid_Key cr (vote_BlockID v))")
        case (Some u)
        then show ?thesis using pre idx d by (auto simp: vst_addVote_def Let_def vs_GetByIndex_def)
      next
        case None
        then have nv: "vote_Verify cr (vst_chainID vs) (tv_PubKey (Validators (vst_valSet vs) ! i)) v \<noteq> Inr ()" using False pre idx d by blast
        obtain bz where "vote_SignBytes cr (vst_chainID vs) v = Inr bz" using v(2) by (auto simp: vote_SignBytes_def VoteSignBytes_def split: option.splits)
        then have "\<exists>e. vote_Verify cr (vst_chainID vs) (tv_PubKey (Validators (vst_valSet vs) ! i)) v = Inl (Err e)" using nv by (auto simp: vote_Verify_def split: if_splits)
        then show ?thesis using pre idx d None by (auto simp: vst_addVote_def Let_def vs_GetByIndex_def)
      qed
    qed
  qed
  then show ?thesis using ok refl by blast
qed

lemma NewVoteSet_ok:
  assumes "vset_wf vals" "height \<noteq> 0"
  shows "\<exists>vs. NewVoteSet chainID height rnd t vals = Inr vs \<and> voteset_ok cr vs \<and> vst_chainID vs = chainID \<and> vst_height vs = height \<and> vst_round vs = rnd \<and>
    vst_signedMsgType vs = t \<and> vst_valSet vs = vals \<and> maj23 vs = None"
  using assms slots_empty by (simp add: NewVoteSet_def voteset_ok_def maj_ok_def)

lemma SetPeerMaj23_ok:
  assumes ok: "voteset_ok cr vs"
  shows "(\<exists>e. SetPeerMaj23 cr peer b vs = Inl (Err e)) \<or> (\<exists>vs'. SetPeerMaj23 cr peer b vs = Inr vs' \<and> voteset_ok cr vs' \<and> same_step vs vs' \<and> maj23 vs' = maj23 vs)"
proof -
  let ?k = "bid_Key cr b" and ?n = "length (Validators (vst_valSet vs))"
  have wf: "vset_wf (vst_valSet vs)" and sl: "slots_ok (vote_good cr vs) (vst_valSet vs) (votesBitArray vs) (vst_votes vs) (vst_sum vs)"
    and bl: "\<And>k bv. votesByBlock vs k = Some bv \<Longrightarrow> block_ok cr vs k bv" and mj: "maj_ok cr vs" using ok by (auto simp: voteset_ok_def)
  have key: "voteset_ok cr vs' \<and> same_step vs vs' \<and> maj23 vs' = maj23 vs"
    if "vs' = vs\<lparr>peerMaj23s := pm, votesByBlock := (votesByBlock vs)(?k \<mapsto> bv')\<rparr>" and b': "block_ok cr vs ?k bv'"
      and cur: "(\<exists>bv. votesByBlock vs ?k = Some bv \<and> bv_votes bv' = bv_votes bv \<and> bv_sum bv' = bv_sum bv) \<or> (votesByBlock vs ?k = None \<and> \<not> has_quorum vs bv')" for pm bv' vs'
  proof -
    have st: "same_step vs vs'" using that(1) by (simp add: same_step_def)
    have "block_ok cr vs' k bv" if "votesByBlock vs' k = Some bv" for k bv
      by (rule block_ok_cong [OF st]) (use that b' bl \<open>vs' = _\<close> in \<open>auto split: if_splits\<close>)
    moreover have "maj_ok cr vs'"
    proof (cases "maj23 vs")
      case None
      then have "\<not> has_quorum vs bv" if "votesByBlock vs k = Some bv" for k bv using mj that by (auto simp: maj_ok_def)
      moreover from this have "\<not> has_quorum vs bv'" using cur by (auto simp: has_quorum_def)
      ultimately show ?thesis using None that(1) by (auto simp: maj_ok_def has_quorum_def split: if_splits)
    next
      case (Some m)
      then show ?thesis using mj cur that(1) by (auto simp: maj_ok_def has_quorum_def)
    qed
    moreover have "slots_ok (vote_good cr vs') (vst_valSet vs') (votesBitArray vs') (vst_votes vs') (vst_sum vs')"
      using sl vote_good_same [OF st] that(1) by simp
    ultimately show ?thesis using wf st that(1) unfolding voteset_ok_def by simp
  qed
  have peer: "voteset_ok cr (vs\<lparr>peerMaj23s := pm\<rparr>) \<and> same_step vs (vs\<lparr>peerMaj23s := pm\<rparr>)" for pm
  proof -
    have st: "same_step vs (vs\<lparr>peerMaj23s := pm\<rparr>)" by (simp add: same_step_def)
    have "has_quorum (vs\<lparr>peerMaj23s := pm\<rparr>) = has_quorum vs" by (rule ext) (simp add: has_quorum_def)
    then have "maj_ok cr (vs\<lparr>peerMaj23s := pm\<rparr>)" using mj unfolding maj_ok_def by (cases "maj23 vs") simp_all
    then show ?thesis using ok st vote_good_same [OF st] block_ok_cong [OF st] by (auto simp: voteset_ok_def)
  qed
  show ?thesis
  proof (cases "peerMaj23s vs peer")
    case (Some e)
    then show ?thesis using ok by (auto simp: SetPeerMaj23_def Let_def same_step_def)
  next
    case None
    let ?pm = "(peerMaj23s vs)(peer \<mapsto> b)"
    show ?thesis
    proof (cases "votesByBlock vs ?k")
      case (Some bv)
      have "block_ok cr vs ?k (bv\<lparr>bv_peerMaj23 := True\<rparr>)" using bl [OF Some] by (simp add: block_ok_def)
      then show ?thesis using None Some peer [of ?pm] key [OF refl, of "bv\<lparr>bv_peerMaj23 := True\<rparr>" ?pm] by (simp add: SetPeerMaj23_def Let_def)
    next
      case n: None
      let ?bv = "newBlockVotes True ?n"
      have "block_ok cr vs ?k ?bv" using slots_empty by (simp add: block_ok_def newBlockVotes_def covers_def)
      moreover have "\<not> has_quorum vs ?bv" using wf_total_bounds [OF wf] by (simp add: has_quorum_def newBlockVotes_def)
      ultimately show ?thesis using None n key [OF refl, of ?bv ?pm] by (simp add: SetPeerMaj23_def Let_def)
    qed
  qed
qed

section \<open>Runs\<close>

datatype VoteOp = AddVote Vote | PeerMaj23 bytes BlockID

text \<open>An error leaves the set as it was; a panic stops the run.\<close>

definition voteset_step :: "crypto \<Rightarrow> VoteOp \<Rightarrow> VoteSet \<Rightarrow> VoteSet res" where
  "voteset_step cr op vs =
     (case (case op of AddVote v \<Rightarrow> rmap (snd \<circ> snd) (vst_addVote cr (Some v) vs) | PeerMaj23 peer b \<Rightarrow> SetPeerMaj23 cr peer b vs) of
        Inr vs' \<Rightarrow> Inr vs' | Inl (Err _) \<Rightarrow> Inr vs | Inl (Panic p) \<Rightarrow> Inl (Panic p))"

definition voteset_run :: "crypto \<Rightarrow> VoteOp list \<Rightarrow> VoteSet \<Rightarrow> VoteSet res" where
  "voteset_run cr ops vs = rfold (voteset_step cr) ops vs"

definition op_ok :: "crypto \<Rightarrow> bytes \<Rightarrow> VoteOp \<Rightarrow> bool" where
  "op_ok cr chainID op \<longleftrightarrow> (case op of AddVote v \<Rightarrow> vote_ValidateBasic v = Inr () \<and> MarshalDelimited cr (IBCCanonicalizeVote chainID v) \<noteq> None | _ \<Rightarrow> True)"

lemma voteset_step_ok:
  assumes "voteset_ok cr vs" "op_ok cr (vst_chainID vs) op"
  shows "\<exists>vs'. voteset_step cr op vs = Inr vs' \<and> voteset_ok cr vs' \<and> same_step vs vs' \<and> (maj23 vs \<noteq> None \<longrightarrow> maj23 vs' = maj23 vs)"
proof (cases op)
  case (AddVote v)
  then have "vote_ValidateBasic v = Inr ()" "MarshalDelimited cr (IBCCanonicalizeVote (vst_chainID vs) v) \<noteq> None" using assms(2) by (auto simp: op_ok_def)
  from addVote_ok [OF assms(1) this] show ?thesis
  proof
    assume "\<exists>e. vst_addVote cr (Some v) vs = Inl (Err e)"
    then show ?thesis using AddVote assms(1) by (auto simp: voteset_step_def rmap_def same_step_def)
  next
    assume "\<exists>added ev vs'. vst_addVote cr (Some v) vs = Inr (added, ev, vs') \<and> voteset_ok cr vs' \<and> same_step vs vs' \<and> (maj23 vs \<noteq> None \<longrightarrow> maj23 vs' = maj23 vs)"
    then obtain added ev vs' where "vst_addVote cr (Some v) vs = Inr (added, ev, vs')" "voteset_ok cr vs'" "same_step vs vs'" "maj23 vs \<noteq> None \<longrightarrow> maj23 vs' = maj23 vs" by fast
    then show ?thesis using AddVote by (auto simp: voteset_step_def rmap_def)
  qed
next
  case (PeerMaj23 peer b)
  then show ?thesis using SetPeerMaj23_ok [OF assms(1), of peer b] assms(1) by (auto simp: voteset_step_def same_step_def)
qed

lemma voteset_run_step:
  assumes "voteset_ok cr vs" "list_all (op_ok cr (vst_chainID vs)) ops"
  shows "\<exists>vs'. voteset_run cr ops vs = Inr vs' \<and> voteset_ok cr vs' \<and> same_step vs vs' \<and> (maj23 vs \<noteq> None \<longrightarrow> maj23 vs' = maj23 vs)"
  using assms
proof (induction ops arbitrary: vs)
  case Nil
  then show ?case by (auto simp: voteset_run_def same_step_def)
next
  case (Cons op ops)
  obtain vs1 where s1: "voteset_step cr op vs = Inr vs1" "voteset_ok cr vs1" "same_step vs vs1" "maj23 vs \<noteq> None \<longrightarrow> maj23 vs1 = maj23 vs"
    using voteset_step_ok [OF Cons.prems(1), of op] Cons.prems(2) by auto
  have "vst_chainID vs1 = vst_chainID vs" using s1(3) by (simp add: same_step_def)
  then obtain vs2 where s2: "voteset_run cr ops vs1 = Inr vs2" "voteset_ok cr vs2" "same_step vs1 vs2" "maj23 vs1 \<noteq> None \<longrightarrow> maj23 vs2 = maj23 vs1"
    using Cons.IH [OF s1(2)] Cons.prems(2) by auto
  show ?case using s1 s2 same_step_trans [OF s1(3) s2(3)] by (auto simp: voteset_run_def)
qed

section \<open>Majorities\<close>

text \<open>What the key of a block id relies on of the amino encoding: distinct headers have distinct encodings, the zero header
  has the empty one.\<close>

definition amino_parts :: "crypto \<Rightarrow> bool" where
  "amino_parts cr \<longleftrightarrow> MarshalBinaryBare cr \<lparr>psh_Total = 0, psh_Hash = []\<rparr> = [] \<and>
     (\<forall>p q. 0 \<le> psh_Total p \<longrightarrow> 0 \<le> psh_Total q \<longrightarrow> MarshalBinaryBare cr p = MarshalBinaryBare cr q \<longrightarrow> p = q)"

lemma Key_inj:
  assumes "amino_parts cr" "id_ok a" "id_ok b" "bid_Key cr a = bid_Key cr b"
  shows "a = b"
proof (cases "bid_IsComplete a \<and> bid_IsComplete b")
  case True
  then have "length (bid_Hash a) = length (bid_Hash b)" by (simp add: bid_IsComplete_def)
  then have h: "bid_Hash a = bid_Hash b" "MarshalBinaryBare cr (PartsHeader a) = MarshalBinaryBare cr (PartsHeader b)" using assms(4) by (simp_all add: bid_Key_def)
  then have "PartsHeader a = PartsHeader b" using assms(1-3) unfolding amino_parts_def id_ok_def by blast
  then show ?thesis using h(1) by (intro BlockID.equality) simp_all
next
  case False
  have z: "bid_Key cr zero_BlockID = []" using assms(1) by (simp add: bid_Key_def zero_BlockID_def amino_parts_def)
  have c: "bid_Key cr x \<noteq> []" if "bid_IsComplete x" for x using that by (auto simp: bid_Key_def bid_IsComplete_def tmhash_Size_def)
  show ?thesis using False assms(2-4) z c [of a] c [of b] by (auto simp: id_ok_def bid_IsZero_iff)
qed

lemma majority_signers:
  assumes ok: "voteset_ok cr vs" and am: "amino_parts cr" and m: "maj23 vs = Some b"
  shows "\<exists>S \<subseteq> {..<length (Validators (vst_valSet vs))}. 2 * totalVotingPower (vst_valSet vs) < 3 * (\<Sum>i\<in>S. VotingPower (Validators (vst_valSet vs) ! i)) \<and>
    (\<forall>i\<in>S. \<exists>v. vst_votes vs ! i = Some v \<and> vote_BlockID v = b \<and> vote_good cr vs i v)"
proof -
  let ?n = "length (Validators (vst_valSet vs))"
  obtain bv where bv: "votesByBlock vs (bid_Key cr b) = Some bv" "has_quorum vs bv" "id_ok b"
    and c: "\<forall>j<?n. bv_votes bv ! j \<noteq> None \<longrightarrow> (\<exists>v. vst_votes vs ! j = Some v \<and> bid_Key cr (vote_BlockID v) = bid_Key cr b)" using ok m by (auto simp: voteset_ok_def maj_ok_def)
  let ?S = "{i. i < ?n \<and> bv_votes bv ! i \<noteq> None}"
  have good: "vote_good cr vs i v" if "i < ?n" "vst_votes vs ! i = Some v" for i v using ok that by (auto simp: voteset_ok_def slots_ok_def)
  have "bv_sum bv = (\<Sum>i\<in>?S. VotingPower (Validators (vst_valSet vs) ! i))" using ok bv(1) by (auto simp: voteset_ok_def block_ok_def slots_ok_def cast_def)
  then have "2 * totalVotingPower (vst_valSet vs) < 3 * (\<Sum>i\<in>?S. VotingPower (Validators (vst_valSet vs) ! i))" using bv(2) by (simp add: has_quorum_def)
  moreover have "\<exists>v. vst_votes vs ! i = Some v \<and> vote_BlockID v = b \<and> vote_good cr vs i v" if "i \<in> ?S" for i
  proof -
    obtain v where v: "vst_votes vs ! i = Some v" "bid_Key cr (vote_BlockID v) = bid_Key cr b" using c \<open>i \<in> ?S\<close> by blast
    have g: "vote_good cr vs i v" using good v(1) \<open>i \<in> ?S\<close> by simp
    then have "vote_BlockID v = b" using Key_inj [OF am vote_id_ok bv(3) v(2)] by (simp add: vote_good_def)
    then show ?thesis using v(1) g by blast
  qed
  ultimately show ?thesis by (intro exI [of _ ?S]) auto
qed

section \<open>Commits made from a vote set\<close>

text \<open>The commit signature of a slot when the majority is \<open>b\<close>.\<close>

definition slot_sig :: "BlockID \<Rightarrow> Vote option \<Rightarrow> CommitSig" where
  "slot_sig b v = (case v of None \<Rightarrow> NewCommitSigAbsent | Some u \<Rightarrow>
     if bid_IsComplete (vote_BlockID u) \<and> vote_BlockID u \<noteq> b then NewCommitSigAbsent
     else \<lparr>cs_BlockIDFlag = (if bid_IsComplete (vote_BlockID u) then BlockIDFlagCommit else BlockIDFlagNil), cs_ValidatorAddress = vote_ValidatorAddress u,
           cs_Timestamp = vote_Timestamp u, cs_Signature = vote_Signature u\<rparr>)"

lemma collect_sigs:
  assumes "\<forall>v\<in>set vs. \<forall>u. v = Some u \<longrightarrow> id_ok (vote_BlockID u)"
  shows "rfold (\<lambda>v acc. rbind (vote_CommitSig v) (\<lambda>commitSig.
     Inr (acc @ [if cs_ForBlock commitSig \<and> (case v of Some vote \<Rightarrow> \<not> bid_Equals (vote_BlockID vote) m | None \<Rightarrow> False) then NewCommitSigAbsent else commitSig]))) vs acc = Inr (acc @ map (slot_sig m) vs)"
  using assms
proof (induction vs arbitrary: acc)
  case (Cons v vs)
  have v: "\<exists>cs. vote_CommitSig v = Inr cs \<and> (if cs_ForBlock cs \<and> (case v of Some vote \<Rightarrow> \<not> bid_Equals (vote_BlockID vote) m | None \<Rightarrow> False) then NewCommitSigAbsent else cs) = slot_sig m v"
  proof (cases v)
    case None
    then show ?thesis by (simp add: vote_CommitSig_def slot_sig_def)
  next
    case (Some u)
    then have "id_ok (vote_BlockID u)" using Cons.prems by simp
    then show ?thesis using Some by (auto simp: vote_CommitSig_def slot_sig_def id_ok_def flag_defs)
  qed
  then obtain cs where "vote_CommitSig v = Inr cs" "(if cs_ForBlock cs \<and> (case v of Some vote \<Rightarrow> \<not> bid_Equals (vote_BlockID vote) m | None \<Rightarrow> False) then NewCommitSigAbsent else cs) = slot_sig m v" by blast
  then show ?case using Cons.IH [of "acc @ [slot_sig m v]"] Cons.prems by simp
qed simp

lemma MakeCommit_eq:
  assumes ok: "voteset_ok cr vs" and "vst_signedMsgType vs = PrecommitType" "maj23 vs = Some b"
  shows "MakeCommit vs = Inr (NewCommit (vst_height vs) (vst_round vs) b (map (slot_sig b) (vst_votes vs)))"
proof -
  have "\<forall>v\<in>set (vst_votes vs). \<forall>u. v = Some u \<longrightarrow> id_ok (vote_BlockID u)"
    using ok by (auto simp: voteset_ok_def slots_ok_def vote_good_def in_set_conv_nth intro!: vote_id_ok)
  from collect_sigs [OF this, of b "[]"] show ?thesis using assms(2,3) by (simp add: MakeCommit_def)
qed

lemma slot_sig_basic:
  assumes "v = None \<or> (\<exists>u. v = Some u \<and> vote_ValidateBasic u = Inr ())"
  shows "cs_ValidateBasic (slot_sig b v) = Inr ()"
proof (cases v)
  case None
  then show ?thesis by (simp add: slot_sig_def cs_ValidateBasic_def NewCommitSigAbsent_def)
next
  case (Some u)
  then have "vote_ValidateBasic u = Inr ()" using assms by simp
  note D = vote_ValidateBasicD(4-6) [OF this]
  show ?thesis
  proof (cases "bid_IsComplete (vote_BlockID u) \<and> vote_BlockID u \<noteq> b")
    case True
    then show ?thesis using Some by (simp add: slot_sig_def cs_ValidateBasic_def NewCommitSigAbsent_def)
  next
    case False
    then show ?thesis using Some D unfolding slot_sig_def cs_ValidateBasic_def flag_defs by (cases "bid_IsComplete (vote_BlockID u)") simp_all
  qed
qed

lemma rfold_unit: "(\<And>x. x \<in> set xs \<Longrightarrow> f x () = Inr ()) \<Longrightarrow> rfold f xs () = Inr ()"
  by (induction xs) auto

lemma commit_vote_bytes:
  assumes "vote_good cr vs i u" "vst_signedMsgType vs = PrecommitType" "i < length sigs" "sigs ! i = slot_sig b (Some u)" "\<not> cs_Absent (sigs ! i)"
  shows "commit_VoteSignBytes cr (vst_chainID vs) (NewCommit (vst_height vs) (vst_round vs) b sigs) i = vote_SignBytes cr (vst_chainID vs) u" "cs_Signature (sigs ! i) = vote_Signature u"
proof -
  let ?c = "NewCommit (vst_height vs) (vst_round vs) b sigs"
  have id: "bid_IsZero (vote_BlockID u) \<or> bid_IsComplete (vote_BlockID u)" using assms(1) vote_ValidateBasicD(1) by (simp add: vote_good_def)
  have s: "sigs ! i = \<lparr>cs_BlockIDFlag = (if bid_IsComplete (vote_BlockID u) then BlockIDFlagCommit else BlockIDFlagNil), cs_ValidatorAddress = vote_ValidatorAddress u,
      cs_Timestamp = vote_Timestamp u, cs_Signature = vote_Signature u\<rparr>" and cb: "bid_IsComplete (vote_BlockID u) \<Longrightarrow> vote_BlockID u = b"
    using assms(4,5) by (auto simp: slot_sig_def NewCommitSigAbsent_def flag_defs split: if_splits)
  show "cs_Signature (sigs ! i) = vote_Signature u" using s by simp
  have "cs_BlockID (sigs ! i) b = Inr (vote_BlockID u)" using s cb id by (auto simp: cs_BlockID_def flag_defs bid_IsZero_iff)
  then obtain w where w: "commit_GetVote ?c i = Inr w" "vote_BlockID w = vote_BlockID u" "vote_Type w = PrecommitType" "vote_Height w = vst_height vs" "vote_Round w = vst_round vs" "vote_Timestamp w = vote_Timestamp u"
    using assms(3) s by (simp add: commit_GetVote_def NewCommit_def Let_def)
  then have "IBCCanonicalizeVote (vst_chainID vs) w = IBCCanonicalizeVote (vst_chainID vs) u" using assms(1,2) by (simp add: IBCCanonicalizeVote_def vote_good_def)
  then show "commit_VoteSignBytes cr (vst_chainID vs) ?c i = vote_SignBytes cr (vst_chainID vs) u"
    using w(1) by (simp add: commit_VoteSignBytes_def vote_SignBytes_def VoteSignBytes_def)
qed

lemma MakeCommit_ok:
  assumes ok: "voteset_ok cr vs" and am: "amino_parts cr" and t: "vst_signedMsgType vs = PrecommitType" and m: "maj23 vs = Some b" and nz: "\<not> bid_IsZero b" and h: "1 \<le> vst_height vs"
  shows "\<exists>c. MakeCommit vs = Inr c \<and> VerifyCommit cr (vst_chainID vs) b (vst_height vs) c (vst_valSet vs) = Inr ()"
proof -
  let ?vals = "vst_valSet vs" let ?n = "length (Validators ?vals)" and ?sigs = "map (slot_sig b) (vst_votes vs)"
  let ?c = "NewCommit (vst_height vs) (vst_round vs) b ?sigs"
  have wf: "vset_wf ?vals" and len: "length (vst_votes vs) = ?n" and good: "\<And>i v. i < ?n \<Longrightarrow> vst_votes vs ! i = Some v \<Longrightarrow> vote_good cr vs i v"
    using ok by (auto simp: voteset_ok_def slots_ok_def)
  obtain S where S: "S \<subseteq> {..<?n}" "2 * totalVotingPower ?vals < 3 * (\<Sum>i\<in>S. VotingPower (Validators ?vals ! i))" "\<forall>i\<in>S. \<exists>v. vst_votes vs ! i = Some v \<and> vote_BlockID v = b \<and> vote_good cr vs i v"
    using majority_signers [OF ok am m] by fast
  have f: "commit_Height ?c = vst_height vs" "commit_Round ?c = vst_round vs" "commit_BlockID ?c = b" "commit_Signatures ?c = ?sigs" by (simp_all add: NewCommit_def)
  have "S \<noteq> {}" using S(2) wf_total_bounds [OF wf] by auto
  then obtain j u where j: "j < ?n" "vst_votes vs ! j = Some u" "vote_BlockID u = b" "vote_good cr vs j u" using S(1,3) by blast
  have bc: "bid_IsComplete b" and r: "0 \<le> vst_round vs" using j nz vote_ValidateBasicD(1,7) [of u] by (auto simp: vote_good_def)
  have "rfold (\<lambda>commitSig _. cs_ValidateBasic commitSig) ?sigs () = Inr ()"
  proof (rule rfold_unit)
    fix x assume "x \<in> set ?sigs"
    then obtain i where i: "i < ?n" "x = slot_sig b (vst_votes vs ! i)" using len by (auto simp: in_set_conv_nth)
    have "vst_votes vs ! i = None \<or> (\<exists>u. vst_votes vs ! i = Some u \<and> vote_ValidateBasic u = Inr ())" using good [OF i(1)] by (cases "vst_votes vs ! i") (auto simp: vote_good_def)
    then show "cs_ValidateBasic x = Inr ()" unfolding i(2) by (rule slot_sig_basic)
  qed
  then have B: "verifyCommitBasic ?c (vst_height vs) b = Inr ()"
    using f nz h r j(1) len by (auto simp: verifyCommitBasic_def commit_ValidateBasic_def)
  have sig: "sig_ok cr (vst_chainID vs) ?c ?vals i" if i: "i < ?n" "\<not> cs_Absent (commit_Signatures ?c ! i)" for i
  proof -
    obtain u where u: "vst_votes vs ! i = Some u" using i len f(4) by (cases "vst_votes vs ! i") (auto simp: slot_sig_def NewCommitSigAbsent_def flag_defs)
    have g: "vote_good cr vs i u" using good i(1) u by blast
    note cb = commit_vote_bytes [OF g t, of ?sigs b]
    obtain bz where "vote_SignBytes cr (vst_chainID vs) u = Inr bz" "VerifyBytes cr (tv_PubKey (Validators ?vals ! i)) bz (vote_Signature u)"
      using g by (auto simp: vote_good_def vote_Verify_iff)
    then show ?thesis using cb i u len f(4) by (simp add: sig_ok_def verify_sig_def)
  qed
  have "counted b ?c i" if iS: "i \<in> S" for i
  proof -
    obtain v where "vst_votes vs ! i = Some v" "vote_BlockID v = b" using S(3) iS by fast
    moreover have "i < ?n" using S(1) iS by blast
    ultimately have "cs_ForBlock (commit_Signatures ?c ! i)" unfolding f(4) using len bc by (simp add: slot_sig_def cs_ForBlock_def)
    then show ?thesis using counted_ForBlock [OF f(3) [symmetric] nz] by simp
  qed
  then have "S \<subseteq> {i. i < ?n \<and> counted b ?c i}" using S(1) by blast
  then have le: "(\<Sum>i\<in>S. VotingPower (Validators ?vals ! i)) \<le> (\<Sum>i | i < ?n \<and> counted b ?c i. VotingPower (Validators ?vals ! i))"
    using wf_power_nonneg [OF wf] by (intro sum_mono2) auto
  have "VerifyCommit cr (vst_chainID vs) b (vst_height vs) ?c ?vals = Inr ()"
    unfolding VerifyCommit_exact [OF wf]
  proof (intro conjI allI impI B sig)
    show "length (Validators ?vals) = length (commit_Signatures ?c)" using len f(4) by simp
    show "2 * totalVotingPower ?vals < 3 * (\<Sum>i | i < ?n \<and> counted b ?c i. VotingPower (Validators ?vals ! i))" using le S(2) by linarith
  qed
  then show ?thesis using MakeCommit_eq [OF ok t m] by blast
qed

section \<open>The theorems on vote sets\<close>

text \<open>C3: Adding valid votes and majority claims of peers to a new vote set, in any order, never panics; the set then holds at most one
  verified vote per validator, its sum is the power of the validators it holds votes of, and a majority is reported exactly
  when the tracked votes of some block exceed two thirds: then validators with more than two thirds of the power have a
  verified vote for that very block, and no later operation changes the majority.\<close>

theorem voteset_run_majority:
  assumes "vset_wf vals" "height \<noteq> 0" "amino_parts cr" "list_all (op_ok cr chainID) (ops @ ops')"
  shows "\<exists>vs0 vs vs'. NewVoteSet chainID height rnd t vals = Inr vs0 \<and> voteset_run cr ops vs0 = Inr vs \<and> voteset_run cr (ops @ ops') vs0 = Inr vs' \<and>
    slots_ok (vote_good cr vs) vals (votesBitArray vs) (vst_votes vs) (vst_sum vs) \<and>
    (maj23 vs = None \<longleftrightarrow> (\<forall>k bv. votesByBlock vs k = Some bv \<longrightarrow> \<not> 2 * totalVotingPower vals < 3 * bv_sum bv)) \<and>
    (\<forall>b. maj23 vs = Some b \<longrightarrow> maj23 vs' = Some b \<and> (\<exists>S \<subseteq> {..<length (Validators vals)}. 2 * totalVotingPower vals < 3 * (\<Sum>i\<in>S. VotingPower (Validators vals ! i)) \<and>
       (\<forall>i\<in>S. \<exists>v. vst_votes vs ! i = Some v \<and> vote_BlockID v = b \<and> vote_good cr vs i v)))"
proof -
  obtain vs0 where v0: "NewVoteSet chainID height rnd t vals = Inr vs0" "voteset_ok cr vs0" "vst_chainID vs0 = chainID" "vst_valSet vs0 = vals"
    using NewVoteSet_ok [OF assms(1,2)] by blast
  obtain vs where v1: "voteset_run cr ops vs0 = Inr vs" "voteset_ok cr vs" "same_step vs0 vs" using voteset_run_step [OF v0(2), of ops] assms(4) v0(3) by auto
  then have e: "vst_chainID vs = chainID" "vst_valSet vs = vals" using v0 by (simp_all add: same_step_def)
  obtain vs' where v2: "voteset_run cr ops' vs = Inr vs'" "maj23 vs \<noteq> None \<longrightarrow> maj23 vs' = maj23 vs" using voteset_run_step [OF v1(2), of ops'] assms(4) e(1) by auto
  have "voteset_run cr (ops @ ops') vs0 = Inr vs'" using v1(1) v2(1) by (simp add: voteset_run_def rfold_append)
  moreover have "slots_ok (vote_good cr vs) vals (votesBitArray vs) (vst_votes vs) (vst_sum vs)" using v1(2) e(2) by (simp add: voteset_ok_def)
  moreover have "maj23 vs = None \<longleftrightarrow> (\<forall>k bv. votesByBlock vs k = Some bv \<longrightarrow> \<not> 2 * totalVotingPower vals < 3 * bv_sum bv)"
    using v1(2) e(2) unfolding voteset_ok_def maj_ok_def has_quorum_def by (cases "maj23 vs") auto
  moreover have "maj23 vs' = Some b \<and> (\<exists>S \<subseteq> {..<length (Validators vals)}. 2 * totalVotingPower vals < 3 * (\<Sum>i\<in>S. VotingPower (Validators vals ! i)) \<and>
       (\<forall>i\<in>S. \<exists>v. vst_votes vs ! i = Some v \<and> vote_BlockID v = b \<and> vote_good cr vs i v))" if "maj23 vs = Some b" for b
    using majority_signers [OF v1(2) assms(3) that] v2(2) that unfolding e(2) by simp
  ultimately show ?thesis using v0(1) v1(1) by (intro exI [of _ vs0] exI [of _ vs] exI [of _ vs']) simp
qed

text \<open>C2: From any vote set of precommits reached by adding valid votes and majority claims, once it has a majority for a block that is
  not nil, \<open>MakeCommit\<close> returns a commit, and that commit verifies for the block at that height against the validator
  set.\<close>

theorem MakeCommit_verifies:
  assumes "vset_wf vals" "1 \<le> height" "amino_parts cr" "list_all (op_ok cr chainID) ops"
    "NewVoteSet chainID height rnd PrecommitType vals = Inr vs0" "voteset_run cr ops vs0 = Inr vs" "maj23 vs = Some b" "\<not> bid_IsZero b"
  shows "\<exists>c. MakeCommit vs = Inr c \<and> VerifyCommit cr chainID b height c vals = Inr ()"
proof -
  have h: "height \<noteq> 0" using assms(2) by simp
  obtain w where w: "NewVoteSet chainID height rnd PrecommitType vals = Inr w" "voteset_ok cr w" "vst_chainID w = chainID" "vst_height w = height" "vst_signedMsgType w = PrecommitType" "vst_valSet w = vals"
    using NewVoteSet_ok [OF assms(1) h] by blast
  have "w = vs0" using w(1) assms(5) by simp
  then obtain vs1 where v: "voteset_run cr ops vs0 = Inr vs1" "voteset_ok cr vs1" "same_step vs0 vs1" using voteset_run_step [OF w(2), of ops] assms(4) w(3) by auto
  have "vs1 = vs" using v(1) assms(6) by simp
  then have "voteset_ok cr vs" "vst_chainID vs = chainID" "vst_height vs = height" "vst_signedMsgType vs = PrecommitType" "vst_valSet vs = vals"
    using v(2,3) w(3-6) \<open>w = vs0\<close> by (simp_all add: same_step_def)
  then show ?thesis using MakeCommit_ok [of cr vs b] assms(2,3,7,8) by simp
qed

text \<open>A vote for the majority block that arrives after a conflicting one replaces it among the votes of the set without being
  added to the votes of its block, and is reported as not added.\<close>

lemma late_vote_replaced:
  assumes "vst_votes vs ! i = Some u" "i < length (vst_votes vs)" "nat (vote_ValidatorIndex v) = i" "vote_BlockID u \<noteq> vote_BlockID v" "maj23 vs = Some (vote_BlockID v)"
    "votesByBlock vs (bid_Key cr (vote_BlockID v)) = Some bv" "\<not> bv_peerMaj23 bv"
  shows "\<exists>vs'. vst_addVerifiedVote cr v (bid_Key cr (vote_BlockID v)) p vs = Inr (False, Some u, vs') \<and> vst_votes vs' ! i = Some v \<and> votesByBlock vs' = votesByBlock vs"
  using assms by (simp add: vst_addVerifiedVote_def track_block_def Let_def)

section \<open>A concrete run\<close>

definition ex_ops :: "VoteOp list" where
  "ex_ops = [PeerMaj23 ''peer'' (ex_block CHR ''x''), AddVote (ex_vote CHR ''u'' CHR ''y''), AddVote (ex_vote CHR ''u'' CHR ''x''), AddVote (ex_vote CHR ''v'' CHR ''x''), AddVote (ex_vote CHR ''w'' CHR ''x'')]"

lemma ex_amino: "amino_parts ex_crypto"
proof -
  have m: "MarshalBinaryBare ex_crypto = enc_parts" by (simp add: ex_crypto_def)
  show ?thesis unfolding amino_parts_def m by (intro conjI allI impI enc_parts_inj) (simp_all add: enc_parts_def [of "\<lparr>psh_Total = 0, psh_Hash = []\<rparr>"])
qed

lemma ex_ops_ok: "list_all (op_ok ex_crypto ''chain'') ex_ops"
  by code_simp

theorem voteset_run_majority_witness:
  "\<exists>vs0 vs. NewVoteSet ''chain'' 5 0 PrecommitType ex_set = Inr vs0 \<and> voteset_run ex_crypto ex_ops vs0 = Inr vs"
proof -
  have "list_all (op_ok ex_crypto ''chain'') (ex_ops @ [])" using ex_ops_ok by simp
  then show ?thesis using voteset_run_majority [OF ex_set_wf _ ex_amino, of 5 "''chain''" ex_ops "[]" 0 PrecommitType] by auto
qed

lemma ex_run: "\<exists>vs0 vs. NewVoteSet ''chain'' 5 0 PrecommitType ex_set = Inr vs0 \<and> voteset_run ex_crypto ex_ops vs0 = Inr vs \<and> maj23 vs = Some (ex_block CHR ''x'')"
proof -
  have "(case NewVoteSet ''chain'' 5 0 PrecommitType ex_set of Inl _ \<Rightarrow> None | Inr vs0 \<Rightarrow> (case voteset_run ex_crypto ex_ops vs0 of Inl _ \<Rightarrow> None | Inr vs \<Rightarrow> maj23 vs)) = Some (ex_block CHR ''x'')"
    by code_simp
  then show ?thesis by (auto split: sum.splits)
qed

theorem MakeCommit_verifies_witness:
  "\<exists>vs0 vs c. NewVoteSet ''chain'' 5 0 PrecommitType ex_set = Inr vs0 \<and> voteset_run ex_crypto ex_ops vs0 = Inr vs \<and> MakeCommit vs = Inr c \<and> VerifyCommit ex_crypto ''chain'' (ex_block CHR ''x'') 5 c ex_set = Inr ()"
proof -
  obtain vs0 vs where r: "NewVoteSet ''chain'' 5 0 PrecommitType ex_set = Inr vs0" "voteset_run ex_crypto ex_ops vs0 = Inr vs" "maj23 vs = Some (ex_block CHR ''x'')" using ex_run by blast
  have "\<not> bid_IsZero (ex_block CHR ''x'')" by (simp add: bid_IsZero_def ex_block_def)
  from MakeCommit_verifies [OF ex_set_wf _ ex_amino ex_ops_ok r this] show ?thesis using r by auto
qed

end
