(* ===== verification/Spec2Isabelle.thy ===== *)
theory Spec2Isabelle
  imports Prelude Dec Coins KVStore Ledger StakingStore Chain Distribution Slashing StakingOps StakingPools Unbonding IAVL IAVLTree IAVLProof CacheKV
    ValidatorSet ProposerPriority ValidatorUpdates Commits Evidence VoteSet
begin

text \<open>
  A verification development of OKBChain (\<open>src/\<close>), a Cosmos-SDK chain on Tendermint with its own staking, distribution
  and slashing modules.  It models the path of a block's money and votes: the arithmetic of amounts, the ledger, the modules that
  move tokens between accounts, pools and rewards, the stores their state lives in with the proofs made of it, and the
  validator sets, votes, commits and evidence on which consensus rests.

  \<^bold>\<open>Conventions.\<close>  A definition has the name of the function it translates, with a prefix for its receiver where two
  receivers share a method name (\<open>commit_ValidateBasic\<close>, \<open>vst_addVote\<close>).  A pointer receiver that is changed is passed in and
  returned.  A returned error and a panic are values of \<open>gerr\<close>; a failing operation returns no state, since its caller rolls it
  back.  Integers that the source keeps in a machine word are integers wrapped by \<open>wrap64\<close> (\<open>wrap8\<close> for heights) wherever the
  source does not guard them; amounts are \<open>big.Int\<close> and carry the source's overflow panics.  Hashes, keys, signatures and
  encoders are parameters; what a theorem relies on of them is a hypothesis, and its witness gives an instance.

  \<^bold>\<open>Amounts.\<close>
  \<^item> \<open>Prelude\<close>: errors and panics as values, loops that may fail, the arithmetic of \<open>math/big\<close>.
  \<^item> \<open>Dec\<close>: \<open>libs/cosmos-sdk/types/decimal.go\<close> and \<open>int.go\<close>.  Rounding is round-half-to-even, printing and parsing are
    inverse, truncated quotients are exact; \<open>QuoRoundUp\<close> can fall below the quotient.
  \<^item> \<open>Coins\<close>: \<open>dec_coin.go\<close>, \<open>coin.go\<close> and the denomination checks.  Operations on coin sets are pointwise on amounts.

  \<^bold>\<open>Accounts and modules.\<close>
  \<^item> \<open>KVStore\<close>: the store interface of the keepers as the locale \<open>kv_store\<close>, and the contract of iterators as
    \<open>ordered_iterator\<close>.
  \<^item> \<open>Ledger\<close>: accounts, bank and supply (\<open>libs/cosmos-sdk/x/auth\<close>, \<open>x/bank\<close>, \<open>x/supply\<close>).  The seven transfers satisfy
    the locale \<open>transfer_op\<close>; the stored supply stays the sum of all balances.
  \<^item> \<open>StakingStore\<close>, \<open>Chain\<close>: the stores of \<open>x/staking\<close>, \<open>x/distribution\<close> and \<open>x/slashing\<close> and the state they share.
  \<^item> \<open>Distribution\<close>: allocation of fees, reward periods, withdrawals and hooks.  The module account stays equal to
    what is owed from it (locale \<open>distr_op\<close> for the operations that run in loops).
  \<^item> \<open>Slashing\<close>: the window of missed blocks, jailing and unjailing.
  \<^item> \<open>StakingOps\<close>: messages, proposals and the end of a block of the staking module.
  \<^item> \<open>StakingPools\<close>: the two pools hold exactly the recorded deposits and undelegations (locale \<open>pool_op\<close>).
  \<^item> \<open>Unbonding\<close>: a pool that covers its records pays every matured undelegation.
  \<^item> this theory: one step relation for all messages, proposals, fees and block starts and ends, and the solvency of
    every reachable state.

  \<^bold>\<open>Stores.\<close>
  \<^item> \<open>IAVL\<close>: nodes, rotations, recursive updates and iterators of \<open>libs/iavl\<close>.  Iterators return every entry of the range
    in order and end.
  \<^item> \<open>IAVLTree\<close>: the mutable tree, saved versions and fast storage; every run refines an abstract versioned map, and the
    tree stays balanced.
  \<^item> \<open>IAVLProof\<close>: range proofs; what a verified proof shows, that honest proofs verify, and three ways in which proofs fail.
  \<^item> \<open>CacheKV\<close>: the cache stores of \<open>libs/cosmos-sdk/store/cachekv\<close>; a stack of them refines a stack of plain maps (locale
    \<open>step_refinement\<close>).

  \<^bold>\<open>Consensus data\<close> (\<open>libs/tendermint/types\<close>).
  \<^item> \<open>ValidatorSet\<close>: \<open>validator_set.go\<close> and \<open>validator.go\<close>, the operations and their behaviour within the bounds.
  \<^item> \<open>ProposerPriority\<close>: bounds of the priorities and fairness of the proposer election.
  \<^item> \<open>ValidatorUpdates\<close>: \<open>updateWithChangeSet\<close> refines overriding a map from addresses to keys and powers.
  \<^item> \<open>Commits\<close>: block ids, votes, sign bytes, commits and the four verifications of commits (\<open>block.go\<close>, \<open>vote.go\<close>,
    \<open>ibc.go\<close>, \<open>part_set.go\<close>, \<open>validator_set.go\<close>, \<open>evidence.go\<close>); the locale \<open>weighted_set\<close> gives the overlap of quorums.
  \<^item> \<open>Evidence\<close>: when commits verify, what conflicting commits and duplicate-vote evidence prove, and evidence that is
    accepted against a validator that signed once.
  \<^item> \<open>VoteSet\<close>: \<open>vote_set.go\<close>; no valid sequence of votes and peer claims panics, majorities are majorities and final, and
    the commit made from a vote set verifies.

  \<^bold>\<open>Bounds.\<close>  Sizes and versions of a tree are below \<open>2 ^ 63\<close>, which a run of fewer operations than that guarantees;
  heights are then below 126, so the 8-bit height does not wrap.  \<open>COMPUTEHASH\<close> recurses at most once per leaf of the proof, and
  its fuel is the number of leaves.  The total power of a validator set is below \<open>2 ^ 60\<close> (\<open>MaxTotalVotingPower\<close>); the election
  is unclipped as long as the total power times one plus the harmonic number of the size is below \<open>3 * 2 ^ 60\<close>.
  The total of a part-set header is cut to 32 bits in the sign bytes.

  \<^bold>\<open>Not modelled.\<close>
  \<^item> In the modelled parts: gas, events, the log of inner transactions, vesting accounts, genesis import and export, queriers,
    REST and CLI; orphans, pruning, asynchronous commits and state deltas of the tree; locks, statistics and prefetching of the cache stores;
    hashing, encoding and printing of consensus data; blocks, headers, part sets and proposals; \<open>TwoThirdsMajority\<close>, which asks
    a global test configuration before it returns the majority.
  \<^item> The consensus state machine, p2p, mempool, RPC and light client: concurrent protocols and I/O around the modelled data.
  \<^item> EVM, WebAssembly and IBC: the engines are outside the sources; the modules wrap them.
  \<^item> Governance, parameters, mint, token, evidence and fee-split modules: the proposals they pass to the staking and distribution modules
    and the transfers, mints and burns they ask for are modelled, the modules themselves are not.
  \<^item> Command lines, configuration, databases, servers and generated code.
\<close>

section \<open>The whole chain\<close>

text \<open>One step of the chain: a message, a proposal that passed, a fee, or what a module does at the start
  or the end of a block.  Messages are signed by ordinary accounts.  A validator destroys itself only
  with no undelegation under way, and fees are allocated only while no validator has negative shares.\<close>

fun bank_senders :: "bank_msg \<Rightarrow> bytes list" where
  "bank_senders (MsgSend a _ _) = [a]"
| "bank_senders (MsgMultiSend ins _) = map io_Address ins"

inductive okb_step :: "supply_keeper \<Rightarrow> chain \<Rightarrow> chain \<Rightarrow> bool" for k where
  bank: "list_all (\<lambda>a. \<not> blacklistedAddrs k a) (bank_senders m) \<Longrightarrow> bank_Handler (blacklistedAddrs k) m (led s) = Inr l \<Longrightarrow> okb_step k s (s\<lparr>led := l\<rparr>)"
| fee: "\<not> blacklistedAddrs k a \<Longrightarrow> SendCoinsFromAccountToModule k a FeeCollectorName fees (led s) = Inr l \<Longrightarrow> okb_step k s (s\<lparr>led := l\<rparr>)"
| staking: "\<not> blacklistedAddrs k (msg_signer sm) \<Longrightarrow> (\<And>a. sm = DestroyValidator a \<Longrightarrow> GetUndelegating (stk s) a = None) \<Longrightarrow>
     staking_Handler k ctx sm s = Inr s' \<Longrightarrow> okb_step k s s'"
| rewards: "distr_Handler k ctx dm s = Inr s' \<Longrightarrow> okb_step k s s'"
| unjail: "handleMsgUnjail k ctx a s = Inr s' \<Longrightarrow> okb_step k s s'"
| propose: "\<not> blacklistedAddrs k (cv_ValidatorAddress m') \<Longrightarrow> handleProposeValidatorProposal k ctx isAdd m' s = Inr s' \<Longrightarrow> okb_step k s s'"
| spend: "HandleCommunityPoolSpendProposal k a cs s = Inr s' \<Longrightarrow> okb_step k s s'"
| begin_slashing: "slashing_BeginBlocker ctx sigs s = Inr s' \<Longrightarrow> okb_step k s s'"
| begin_rewards: "shares_nonneg (stk s) \<Longrightarrow> tax_ok (dis s) \<Longrightarrow> distr_BeginBlocker k ctx votes proposer s = Inr s' \<Longrightarrow> okb_step k s s'"
| end_block: "EndBlocker order k ctx s = Inr (updates, s') \<Longrightarrow> okb_step k s s'"

lemma bank_shift:
  assumes "modules_ok k" "chain_ok k s" "list_all (\<lambda>a. \<not> blacklistedAddrs k a) (bank_senders m)"
    "bank_Handler (blacklistedAddrs k) m (led s) = Inr l"
  shows "shift k 0 0 s (s\<lparr>led := l\<rparr>)"
proof -
  have "ledger_ok l \<and> supplies l = supplies (led s) \<and> (\<forall>a d. blacklistedAddrs k a \<longrightarrow> bal l a d = bal (led s) a d)"
  proof (cases m)
    case (MsgSend f t cs)
    then have r: "SendCoins f t cs (led s) = Inr l" "\<not> blacklistedAddrs k t" using assms(4) by (auto simp: bank_Handler_def handleMsgSend_def split: if_splits)
    note c = SendCoins_changes(1) [OF chain_okD(1) [OF assms(2)] r(1)]
    show ?thesis using changesD [OF c] transfer_supplies [OF c] r(2) assms(3) MsgSend by (auto simp: transfer_def credit_def)
  next
    case (MsgMultiSend ins outs)
    then have r: "InputOutputCoins ins outs (led s) = Inr l" "\<forall>i\<in>set outs. \<not> blacklistedAddrs k (io_Address i)"
      using assms(4) by (auto simp: bank_Handler_def handleMsgMultiSend_def list_ex_iff split: if_splits)
    note c = InputOutputCoins_spec [OF chain_okD(1) [OF assms(2)] r(1)]
    have "a \<notin> io_Address ` (set ins \<union> set outs)" if "blacklistedAddrs k a" for a
      using that r(2) assms(3) MsgMultiSend by (auto simp: list_all_iff)
    then show ?thesis using c by blast
  qed
  then show ?thesis using assms(1,2)
    by (simp add: shift_def chain_ok_def distr_gap_def bonded_gap_def unbonding_gap_def modules_ok_def)
qed

lemma fee_shift:
  assumes "modules_ok k" "chain_ok k s" "\<not> blacklistedAddrs k a" "SendCoinsFromAccountToModule k a FeeCollectorName fees (led s) = Inr l"
  shows "shift k 0 0 s (s\<lparr>led := l\<rparr>)"
proof -
  note m = SendCoinsFromAccountToModule_moved [OF chain_okD(1) [OF assms(2)] modules_okD [OF assms(1)] assms(4)]
  have "AddressHash k FeeCollectorName \<noteq> AddressHash k BondedPoolName" "AddressHash k FeeCollectorName \<noteq> AddressHash k NotBondedPoolName"
    "AddressHash k FeeCollectorName \<noteq> AddressHash k DistributionModuleName" using assms(1) by (auto simp: modules_ok_def)
  then show ?thesis
    using moved_shift [OF assms(1,2) m] modules_distinct(4-6) [OF assms(1,3)] by (simp add: transfer_def credit_def)
qed

lemma okb_step_shift:
  assumes "okb_step k s s'" "modules_ok k" "chain_ok k s"
  shows "shift k 0 0 s s'"
  using assms(1)
proof cases
  case (staking sm ctx)
  have "msg_shift sm (stk s) = 0" using staking(2) by (auto simp: msg_shift_def quantity_of_def GetUndelegating_def split: staking_msg.splits)
  then show ?thesis using staking_Handler_shift [OF assms(2,3) staking(1,3)] by simp
next
  case (begin_slashing ctx sigs)
  then show ?thesis unfolding slashing_BeginBlocker_def by (rule signatures.runs_shift [OF assms(2,3)])
next
  case (bank m l)
  then show ?thesis using bank_shift [OF assms(2,3)] by simp
next
  case (fee a fees l)
  then show ?thesis using fee_shift [OF assms(2,3)] by simp
next
  case (rewards ctx dm)
  then show ?thesis by (rule distr_Handler_shift [OF assms(2,3)])
next
  case (unjail ctx a)
  then show ?thesis by (rule handleMsgUnjail_shift [OF assms(3)])
next
  case (propose m ctx isAdd)
  then show ?thesis by (rule handleProposeValidatorProposal_shift [OF assms(2,3)])
next
  case (spend a cs)
  then show ?thesis by (rule community_spend_shift [OF assms(2,3)])
next
  case (begin_rewards ctx votes proposer)
  then show ?thesis by (rule distr_BeginBlocker_shift [OF assms(2,3)])
next
  case (end_block order ctx updates)
  then show ?thesis by (rule EndBlocker_shift [OF assms(2,3)])
qed

text \<open>C1: From any consistent state, through any sequence of messages, proposals, fees and block starts and
  ends, the chain stays solvent: the stored supply of every token stays the sum of all balances, the
  bonded pool holds exactly the self delegations and deposits, the not-bonded pool exactly the pending
  undelegations, and the distribution account exactly the community pool and the outstanding rewards.\<close>

theorem okb_reachable_solvent:
  assumes "modules_ok k" "chain_ok k s0" "supply_inv (led s0)" "(okb_step k)\<^sup>*\<^sup>* s0 s"
    and "bonded_gap k s0 = 0" "unbonding_gap k s0 = 0" "\<forall>d. distr_gap k s0 d = 0"
  shows "chain_ok k s \<and> supply_inv (led s) \<and> (\<forall>a d. 0 \<le> bal (led s) a d) \<and>
    bal (led s) (AddressHash k BondedPoolName) DefaultBondDenom = bonded_owed (stk s) \<and>
    bal (led s) (AddressHash k NotBondedPoolName) DefaultBondDenom = unbonding_owed (stk s) \<and>
    (\<forall>d. bal (led s) (AddressHash k DistributionModuleName) d = owed (dis s) d)"
proof -
  from assms(4) have "shift k 0 0 s0 s"
  proof (induction rule: rtranclp_induct)
    case base
    show ?case by (rule shift_refl [OF assms(2)])
  next
    case (step s1 s2)
    show ?case by (rule shift_trans_0 [OF step.IH okb_step_shift [OF step.hyps(2) assms(1) shift_ok [OF step.IH]]])
  qed
  then have t: "chain_ok k s" "supplies (led s) = supplies (led s0)" "bonded_gap k s = 0" "unbonding_gap k s = 0" "distr_gap k s d = 0" for d
    using assms(5-7) by (auto simp: shift_def)
  show ?thesis
    using t supply_inv_supplies [OF assms(3) chain_okD(1) [OF t(1)] t(2)] bal_nonneg [OF chain_okD(1) [OF t(1)]]
    by (simp add: bonded_gap_def unbonding_gap_def distr_gap_def)
qed

theorem okb_reachable_solvent_witness:
  "\<exists>s. (okb_step demo_keeper)\<^sup>*\<^sup>* demo_chain s \<and> s \<noteq> demo_chain \<and> supply_inv (led s) \<and>
     bal (led s) (AddressHash demo_keeper BondedPoolName) DefaultBondDenom = bonded_owed (stk s)"
proof -
  let ?msg = "Deposit ''alice'' \<lparr>Denom = ''okb'', Amount = 5 * 10 ^ 18\<rparr>"
  have "case staking_Handler demo_keeper demo_ctx ?msg demo_chain of Inl _ \<Rightarrow> False | Inr s \<Rightarrow> GetDelegator (stk s) ''alice'' \<noteq> None" by code_simp
  then obtain s where s: "staking_Handler demo_keeper demo_ctx ?msg demo_chain = Inr s" "GetDelegator (stk s) ''alice'' \<noteq> None"
    by (auto split: sum.splits)
  have n: "\<not> blacklistedAddrs demo_keeper (msg_signer ?msg)" by code_simp
  have r: "(okb_step demo_keeper)\<^sup>*\<^sup>* demo_chain s" using okb_step.staking [OF n _ s(1)] by auto
  have g: "bonded_gap demo_keeper demo_chain = 0" "unbonding_gap demo_keeper demo_chain = 0" by code_simp+
  have dg: "\<forall>d. distr_gap demo_keeper demo_chain d = 0"
  proof
    fix d
    have "kv_get (accounts (led demo_chain)) (AddressHash demo_keeper DistributionModuleName) = None" by code_simp
    then have "bal (led demo_chain) (AddressHash demo_keeper DistributionModuleName) d = 0" by (simp add: bal_def GetCoins_def GetAccount_def)
    moreover have "owed (dis demo_chain) d = 0" by (simp add: owed_def pool_amt_def demo_chain_def demo_distribution_def)
    ultimately show "distr_gap demo_keeper demo_chain d = 0" by (simp add: distr_gap_def)
  qed
  have sup: "supply_inv (led demo_chain)"
    using demo_ledger_ok by (auto simp: supply_inv_def GetSupplyByDenom_def total_bal_def demo_defs ZeroDec_def)
  have "GetDelegator (stk demo_chain) ''alice'' = None" by code_simp
  then have "s \<noteq> demo_chain" using s(2) by auto
  then show ?thesis using okb_reachable_solvent [OF demo_modules_ok demo_chain_ok sup r g dg] r by blast
qed

end
